(* ===== verification/Prelude.thy ===== *)
theory Prelude
  imports Main "HOL-Library.Word"
begin

text \<open>
  Shared foundation of the development.

  \<^item> Machine integers: the C types of \<^verbatim>\<open>kernel/types.h\<close> as words of their width.
  \<^item> The kernel monad: a C function of the kernel is a function from the kernel state to an
    outcome. It returns (\<open>Ret\<close>), panics (\<open>Panic\<close>), calls \<^verbatim>\<open>sleep()\<close> on a channel
    (\<open>Sleep\<close>), or spins on a lock another hart holds (\<open>Spin\<close>). The state is polymorphic:
    every component adds its globals to the state of the components it calls by record
    extension.
  \<^item> Weakest preconditions \<open>wp\<close> for that monad, with their rewrite rules collected in
    \<open>wp_simps\<close>, and preservation \<open>keeps\<close> of a state predicate on every outcome.
  \<^item> Little-endian loads and stores on byte arrays, used for RAM and for disk blocks.
\<close>

unbundle bit_operations_syntax

type_synonym uint = "32 word"
type_synonym ushort = "16 word"
type_synonym uchar = "8 word"
type_synonym uint8 = "8 word"
type_synonym uint16 = "16 word"
type_synonym uint32 = "32 word"
type_synonym uint64 = "64 word"
type_synonym pde_t = uint64

section \<open>Identities of locks and sleep channels\<close>

text \<open>
  The C code identifies a lock and a sleep channel by an address. The model names the object
  whose address is taken.
\<close>

datatype lockid =
    KmemLock | PidLock | WaitLock | ProcLock nat | BcacheLock | LogLock | ItableLock
  | FtableLock | PipeLock uint64 | ConsLock | UartTxLock | TicksLock | PrLock | VdiskLock
  | BufLk nat | InodeLk nat

datatype chan =
    NoChan | LogChan | ProcChan nat | PipeReadChan uint64 | PipeWriteChan uint64
  | BufLockChan nat | InodeLockChan nat | BufChan nat | TicksChan | ConsReadChan | UartTxChan
  | DiskFreeChan

section \<open>The kernel monad\<close>

datatype ('a, 's) outcome =
    Ret 'a 's
  | Panic string
  | Sleep chan 's
  | Spin lockid 's

type_synonym ('a, 's) kmonad = "'s \<Rightarrow> ('a, 's) outcome"

definition kreturn :: "'a \<Rightarrow> ('a, 's) kmonad" where
  "kreturn a = (\<lambda>s. Ret a s)"

definition kbind :: "('a, 's) kmonad \<Rightarrow> ('a \<Rightarrow> ('b, 's) kmonad) \<Rightarrow> ('b, 's) kmonad" where
  "kbind m k = (\<lambda>s. case m s of
      Ret a s' \<Rightarrow> k a s'
    | Panic e \<Rightarrow> Panic e
    | Sleep c s' \<Rightarrow> Sleep c s'
    | Spin l s' \<Rightarrow> Spin l s')"

definition kgets :: "('s \<Rightarrow> 'a) \<Rightarrow> ('a, 's) kmonad" where
  "kgets f = (\<lambda>s. Ret (f s) s)"

definition kmodify :: "('s \<Rightarrow> 's) \<Rightarrow> (unit, 's) kmonad" where
  "kmodify f = (\<lambda>s. Ret () (f s))"

definition kpanic :: "string \<Rightarrow> ('a, 's) kmonad" where
  "kpanic e = (\<lambda>s. Panic e)"

definition ksleep :: "chan \<Rightarrow> ('a, 's) kmonad" where
  "ksleep c = (\<lambda>s. Sleep c s)"

definition kspin :: "lockid \<Rightarrow> ('a, 's) kmonad" where
  "kspin l = (\<lambda>s. Spin l s)"

text \<open>A branch on the state, and the statement forms the C code uses most.\<close>

definition kif :: "('s \<Rightarrow> bool) \<Rightarrow> ('a, 's) kmonad \<Rightarrow> ('a, 's) kmonad \<Rightarrow> ('a, 's) kmonad" where
  "kif c m1 m2 = (\<lambda>s. if c s then m1 s else m2 s)"

definition kwhen :: "('s \<Rightarrow> bool) \<Rightarrow> (unit, 's) kmonad \<Rightarrow> (unit, 's) kmonad" where
  "kwhen c m = kif c m (kreturn ())"

definition panic_if :: "('s \<Rightarrow> bool) \<Rightarrow> string \<Rightarrow> (unit, 's) kmonad" where
  "panic_if c e = kif c (kpanic e) (kreturn ())"

text \<open>\<open>kdo\<close> runs a block of statements, \<open>kthen\<close> a block and then an expression.\<close>

primrec kdo :: "(unit, 's) kmonad list \<Rightarrow> (unit, 's) kmonad" where
  "kdo [] = kreturn ()"
| "kdo (m # ms) = kbind m (\<lambda>_. kdo ms)"

definition kthen :: "(unit, 's) kmonad list \<Rightarrow> ('a, 's) kmonad \<Rightarrow> ('a, 's) kmonad" where
  "kthen ms m = kbind (kdo ms) (\<lambda>_. m)"

text \<open>A loop over a list of values that never leaves early.\<close>

primrec kforeach :: "'i list \<Rightarrow> ('i \<Rightarrow> (unit, 's) kmonad) \<Rightarrow> (unit, 's) kmonad" where
  "kforeach [] f = kreturn ()"
| "kforeach (x # xs) f = kbind (f x) (\<lambda>_. kforeach xs f)"

text \<open>
  A loop that may return from the middle: \<open>kfor xs body rest\<close> runs \<open>body\<close> on each value in turn;
  where it yields \<open>Some v\<close> the whole statement returns \<open>v\<close>, where it yields \<open>None\<close> the loop goes on,
  and after the last value \<open>rest\<close> runs.
\<close>

primrec kfor :: "'i list \<Rightarrow> ('i \<Rightarrow> ('r option, 's) kmonad) \<Rightarrow> ('r, 's) kmonad \<Rightarrow> ('r, 's) kmonad" where
  "kfor [] body rest = rest"
| "kfor (x # xs) body rest =
     kbind (body x) (\<lambda>r. case r of None \<Rightarrow> kfor xs body rest | Some v \<Rightarrow> kreturn v)"

lemmas run_defs = kbind_def kthen_def kif_def kwhen_def panic_if_def kreturn_def kgets_def
  kmodify_def kpanic_def ksleep_def kspin_def

section \<open>Weakest preconditions\<close>

named_theorems wp_simps \<open>weakest preconditions of the monad's operations\<close>

text \<open>\<open>wp m Q s\<close>: run from \<open>s\<close>, \<open>m\<close> returns normally, and its result and final state
  satisfy \<open>Q\<close>.\<close>

definition wp :: "('a, 's) kmonad \<Rightarrow> ('a \<Rightarrow> 's \<Rightarrow> bool) \<Rightarrow> 's \<Rightarrow> bool" where
  "wp m Q s = (case m s of Ret a s' \<Rightarrow> Q a s' | _ \<Rightarrow> False)"

text \<open>\<open>keeps I m\<close>: wherever \<open>m\<close> stops other than by a panic, \<open>I\<close> still holds.\<close>

definition keeps :: "('s \<Rightarrow> bool) \<Rightarrow> ('a, 's) kmonad \<Rightarrow> bool" where
  "keeps I m = (\<forall>s. I s \<longrightarrow> (case m s of Ret a s' \<Rightarrow> I s' | Panic e \<Rightarrow> True
     | Sleep c s' \<Rightarrow> I s' | Spin l s' \<Rightarrow> I s'))"

lemma wp_kreturn [wp_simps]: "wp (kreturn a) Q s = Q a s"
  by (simp add: wp_def kreturn_def)

lemma wp_kreturn_eta [wp_simps]: "wp (kreturn a) Q = Q a"
  by (simp add: fun_eq_iff wp_kreturn)

lemma wp_kbind [wp_simps]: "wp (kbind m k) Q s = wp m (\<lambda>a. wp (k a) Q) s"
  by (simp add: wp_def kbind_def split: outcome.split)

lemma wp_kgets [wp_simps]: "wp (kgets f) Q s = Q (f s) s"
  by (simp add: wp_def kgets_def)

lemma wp_kmodify [wp_simps]: "wp (kmodify f) Q s = Q () (f s)"
  by (simp add: wp_def kmodify_def)

lemma wp_kpanic [wp_simps]: "wp (kpanic e) Q s = False"
  by (simp add: wp_def kpanic_def)

lemma wp_ksleep [wp_simps]: "wp (ksleep c) Q s = False"
  by (simp add: wp_def ksleep_def)

lemma wp_kspin [wp_simps]: "wp (kspin c) Q s = False"
  by (simp add: wp_def kspin_def)

lemma wp_kif [wp_simps]: "wp (kif c m1 m2) Q s = (if c s then wp m1 Q s else wp m2 Q s)"
  by (simp add: wp_def kif_def)

lemma wp_kwhen [wp_simps]: "wp (kwhen c m) Q s = (if c s then wp m Q s else Q () s)"
  by (simp add: kwhen_def wp_simps)

lemma wp_panic_if [wp_simps]: "wp (panic_if c e) Q s = (\<not> c s \<and> Q () s)"
  by (simp add: panic_if_def wp_simps)

lemma wp_kdo_Nil [wp_simps]: "wp (kdo []) Q s = Q () s"
  by (simp add: wp_simps)

lemma wp_kdo_Cons [wp_simps]: "wp (kdo (m # ms)) Q s = wp m (\<lambda>_. wp (kdo ms) Q) s"
  by (simp add: wp_simps)

lemma wp_kthen [wp_simps]: "wp (kthen ms m) Q s = wp (kdo ms) (\<lambda>_. wp m Q) s"
  by (simp add: kthen_def wp_simps)

lemma wp_kforeach_Nil [wp_simps]: "wp (kforeach [] f) Q s = Q () s"
  by (simp add: wp_simps)

lemma wp_kforeach_Cons [wp_simps]:
  "wp (kforeach (x # xs) f) Q s = wp (f x) (\<lambda>_. wp (kforeach xs f) Q) s"
  by (simp add: wp_simps)

lemma wp_kfor_Nil [wp_simps]: "wp (kfor [] body rest) Q s = wp rest Q s"
  by simp

lemma wp_kfor_Cons [wp_simps]: "wp (kfor (x # xs) body rest) Q s =
  wp (body x) (\<lambda>r. case r of None \<Rightarrow> wp (kfor xs body rest) Q | Some v \<Rightarrow> Q v) s"
  by (simp add: wp_simps option.case_distrib [of "\<lambda>m. wp m Q"] wp_kreturn [abs_def] cong: option.case_cong)

lemma wp_if [wp_simps]: "wp (if b then m1 else m2) Q s = (if b then wp m1 Q s else wp m2 Q s)"
  by simp

lemma kthen_panic_if_False: "\<not> c \<Longrightarrow> kthen [panic_if (\<lambda>_. c) e] m = m"
  by (simp add: fun_eq_iff run_defs)

lemma upt_split: "[0..<n] = ys @ i # ws \<Longrightarrow> i = length ys \<and> i < n"
proof -
  assume e: "[0..<n] = ys @ i # ws"
  then have "length ys < n" by (metis length_append length_upt less_add_Suc1 list.size(4) minus_nat.diff_0 add.right_neutral add_Suc_right)
  moreover have "[0..<n] ! length ys = i" using e by simp
  ultimately show ?thesis by simp
qed

lemma find_first: "(\<And>y. y \<in> set ys \<Longrightarrow> \<not> P y) \<Longrightarrow> P x \<Longrightarrow> find P (ys @ x # zs) = Some x"
  by (induction ys) auto

lemma wp_mono: "wp m Q s \<Longrightarrow> (\<And>a t. Q a t \<Longrightarrow> R a t) \<Longrightarrow> wp m R s"
  by (auto simp: wp_def split: outcome.splits)

lemma wp_conj: "wp m Q s \<Longrightarrow> wp m R s \<Longrightarrow> wp m (\<lambda>a t. Q a t \<and> R a t) s"
  by (auto simp: wp_def split: outcome.splits)

lemma wp_RetI: "m s = Ret a s' \<Longrightarrow> Q a s' \<Longrightarrow> wp m Q s"
  by (simp add: wp_def)

lemma wp_RetE: "wp m Q s \<Longrightarrow> (\<And>a s'. m s = Ret a s' \<Longrightarrow> Q a s' \<Longrightarrow> P) \<Longrightarrow> P"
  by (auto simp: wp_def split: outcome.splits)

lemma wp_iff_Ret: "wp m Q s \<longleftrightarrow> (\<exists>a s'. m s = Ret a s' \<and> Q a s')"
  by (auto simp: wp_def split: outcome.splits)

lemma wp_eq_Ret: "wp m (\<lambda>a t. a = r \<and> t = s') s \<longleftrightarrow> m s = Ret r s'"
  by (auto simp: wp_def split: outcome.splits)

text \<open>The loop rule: an invariant indexed by the part of the list already done.\<close>

lemma wp_kforeach_inv:
  assumes "I [] s"
    and "\<And>ys x zs t. xs = ys @ x # zs \<Longrightarrow> I ys t \<Longrightarrow> wp (f x) (\<lambda>_. I (ys @ [x])) t"
    and "\<And>t. I xs t \<Longrightarrow> Q () t"
  shows "wp (kforeach xs f) Q s"
proof -
  have "wp (kforeach zs f) Q t" if "xs = ys @ zs" "I ys t" for ys zs t
    using that
  proof (induction zs arbitrary: ys t)
    case Nil
    then show ?case using assms(3) by (simp add: wp_simps)
  next
    case (Cons x zs)
    have "wp (f x) (\<lambda>_. I (ys @ [x])) t"
      using assms(2) Cons.prems by blast
    then have "wp (f x) (\<lambda>_. wp (kforeach zs f) Q) t"
      by (rule wp_mono) (use Cons in simp)
    then show ?case by (simp add: wp_simps)
  qed
  from this [of "[]" xs s] show ?thesis using assms(1) by simp
qed

lemma wp_kfor_inv:
  assumes "I [] s"
    and "\<And>ys x zs t. xs = ys @ x # zs \<Longrightarrow> I ys t \<Longrightarrow>
      wp (body x) (\<lambda>r u. case r of None \<Rightarrow> I (ys @ [x]) u | Some v \<Rightarrow> Q v u) t"
    and "\<And>t. I xs t \<Longrightarrow> wp rest Q t"
  shows "wp (kfor xs body rest) Q s"
proof -
  have "wp (kfor zs body rest) Q t" if "xs = ys @ zs" "I ys t" for ys zs t
    using that
  proof (induction zs arbitrary: ys t)
    case Nil
    then show ?case using assms(3) by simp
  next
    case (Cons x zs)
    have "wp (body x) (\<lambda>r u. case r of None \<Rightarrow> I (ys @ [x]) u | Some v \<Rightarrow> Q v u) t"
      using assms(2) Cons.prems by blast
    then have "wp (body x) (\<lambda>r. case r of None \<Rightarrow> wp (kfor zs body rest) Q | Some v \<Rightarrow> Q v) t"
      by (rule wp_mono) (use Cons in \<open>auto split: option.splits\<close>)
    then show ?case unfolding wp_kfor_Cons .
  qed
  from this [of "[]" xs s] show ?thesis using assms(1) by simp
qed

text \<open>Panics: \<open>panics_with m e s\<close> says the run from \<open>s\<close> ends in that panic.\<close>

definition panics_with :: "('a, 's) kmonad \<Rightarrow> string \<Rightarrow> 's \<Rightarrow> bool" where
  "panics_with m e s = (case m s of Panic e' \<Rightarrow> e' = e | _ \<Rightarrow> False)"

lemma keepsI: "(\<And>s. I s \<Longrightarrow> (case m s of Ret a s' \<Rightarrow> I s' | Panic e \<Rightarrow> True
     | Sleep c s' \<Rightarrow> I s' | Spin l s' \<Rightarrow> I s')) \<Longrightarrow> keeps I m"
  by (simp add: keeps_def)

lemma keepsD:
  assumes "keeps I m" and "I s"
  shows "m s = Ret a s' \<Longrightarrow> I s'" and "m s = Sleep c s' \<Longrightarrow> I s'"
    and "m s = Spin l s' \<Longrightarrow> I s'"
  using assms by (auto simp: keeps_def dest!: spec [where x = s])

lemma keeps_kbind:
  assumes "keeps I m" and "\<And>a. keeps I (k a)"
  shows "keeps I (kbind m k)"
proof (rule keepsI)
  fix s assume s: "I s"
  show "case kbind m k s of Ret a s' \<Rightarrow> I s' | Panic e \<Rightarrow> True
     | Sleep c s' \<Rightarrow> I s' | Spin l s' \<Rightarrow> I s'"
  proof (cases "m s")
    case (Ret a s')
    with assms(1) s have "I s'" by (rule keepsD)
    with assms(2) [of a] show ?thesis by (simp add: Ret kbind_def keeps_def)
  qed (use keepsD [OF assms(1) s] in \<open>simp_all add: kbind_def\<close>)
qed

named_theorems keeps_intros \<open>what every part of a program keeps, the program keeps\<close>

declare keeps_kbind [keeps_intros]

lemma keeps_kreturn [keeps_intros]: "keeps I (kreturn a)"
  by (simp add: keeps_def kreturn_def)

lemma keeps_kgets [keeps_intros]: "keeps I (kgets f)"
  by (simp add: keeps_def kgets_def)

lemma keeps_kpanic [keeps_intros]: "keeps I (kpanic e)"
  by (simp add: keeps_def kpanic_def)

lemma keeps_ksleep [keeps_intros]: "keeps I (ksleep c)"
  by (simp add: keeps_def ksleep_def)

lemma keeps_kspin [keeps_intros]: "keeps I (kspin l)"
  by (simp add: keeps_def kspin_def)

lemma keeps_kmodify [keeps_intros]: "(\<And>s. I s \<Longrightarrow> I (f s)) \<Longrightarrow> keeps I (kmodify f)"
  by (simp add: keeps_def kmodify_def)

lemma keeps_kif [keeps_intros]: "keeps I m1 \<Longrightarrow> keeps I m2 \<Longrightarrow> keeps I (kif c m1 m2)"
  by (simp add: keeps_def kif_def)

lemma keeps_kwhen [keeps_intros]: "keeps I m \<Longrightarrow> keeps I (kwhen c m)"
  by (simp add: kwhen_def keeps_kif keeps_kreturn)

lemma keeps_panic_if [keeps_intros]: "keeps I (panic_if c e)"
  by (simp add: panic_if_def keeps_kif keeps_kreturn keeps_kpanic)

lemma keeps_kdo_Nil [keeps_intros]: "keeps I (kdo [])"
  by (simp add: keeps_kreturn)

lemma keeps_kdo_Cons [keeps_intros]: "keeps I m \<Longrightarrow> keeps I (kdo ms) \<Longrightarrow> keeps I (kdo (m # ms))"
  by (simp add: keeps_kbind)

lemma keeps_kthen [keeps_intros]: "keeps I (kdo ms) \<Longrightarrow> keeps I m \<Longrightarrow> keeps I (kthen ms m)"
  by (simp add: kthen_def keeps_kbind)

lemma keeps_kforeach [keeps_intros]: "(\<And>x. x \<in> set xs \<Longrightarrow> keeps I (f x)) \<Longrightarrow> keeps I (kforeach xs f)"
  by (induction xs) (simp_all add: keeps_kreturn keeps_kbind)

lemma keeps_if [keeps_intros]: "(b \<Longrightarrow> keeps I m1) \<Longrightarrow> (\<not> b \<Longrightarrow> keeps I m2) \<Longrightarrow> keeps I (if b then m1 else m2)"
  by simp

lemma keeps_case_option [keeps_intros]:
  "keeps I m \<Longrightarrow> (\<And>x. keeps I (k x)) \<Longrightarrow> keeps I (case a of None \<Rightarrow> m | Some x \<Rightarrow> k x)"
  by (cases a) simp_all

lemma keeps_case_sum [keeps_intros]:
  "(\<And>x. keeps I (j x)) \<Longrightarrow> (\<And>x. keeps I (k x)) \<Longrightarrow> keeps I (case a of Inl x \<Rightarrow> j x | Inr x \<Rightarrow> k x)"
  by (cases a) simp_all

lemma keeps_case_prod [keeps_intros]: "(\<And>x y. a = (x, y) \<Longrightarrow> keeps I (k x y)) \<Longrightarrow> keeps I (case a of (x, y) \<Rightarrow> k x y)"
  by (cases a) simp

lemma keeps_Let [keeps_intros]: "(\<And>x. x = a \<Longrightarrow> keeps I (k x)) \<Longrightarrow> keeps I (let x = a in k x)"
  by (simp add: Let_def)

lemma keeps_kfor [keeps_intros]:
  "(\<And>x. x \<in> set xs \<Longrightarrow> keeps I (body x)) \<Longrightarrow> keeps I rest \<Longrightarrow> keeps I (kfor xs body rest)"
proof (induction xs)
  case (Cons x xs)
  then show ?case
    unfolding kfor.simps by (intro keeps_kbind keeps_case_option keeps_kreturn) auto
qed simp

lemma keeps_guarded: "(\<And>s. I s \<Longrightarrow> c s \<Longrightarrow> I (f s)) \<Longrightarrow> keeps I (kwhen c (kmodify f))"
  by (simp add: keeps_def run_defs)

text \<open>
  \<open>ends P m Q I\<close>: run from a state in \<open>P\<close>, \<open>m\<close> panics, or returns with \<open>Q\<close>, or stops in \<open>I\<close>.
  Programs that keep \<open>I\<close> only together with what they know on the way are stepped through with it.
\<close>

definition ends :: "('s \<Rightarrow> bool) \<Rightarrow> ('a, 's) kmonad \<Rightarrow> ('a \<Rightarrow> 's \<Rightarrow> bool) \<Rightarrow> ('s \<Rightarrow> bool) \<Rightarrow> bool" where
  "ends P m Q I = (\<forall>s. P s \<longrightarrow> (case m s of Ret a s' \<Rightarrow> Q a s' | Panic e \<Rightarrow> True
     | Sleep c s' \<Rightarrow> I s' | Spin l s' \<Rightarrow> I s'))"

lemma keeps_ends: "keeps I m \<longleftrightarrow> ends I m (\<lambda>_. I) I"
  by (simp add: keeps_def ends_def)

lemma ends_kbind: "ends P m R I \<Longrightarrow> (\<And>a. ends (R a) (k a) Q I) \<Longrightarrow> ends P (kbind m k) Q I"
proof (unfold ends_def, intro allI impI)
  fix s assume m: "\<forall>s. P s \<longrightarrow> (case m s of Ret a s' \<Rightarrow> R a s' | Panic e \<Rightarrow> True | Sleep c s' \<Rightarrow> I s' | Spin l s' \<Rightarrow> I s')"
    and k: "\<And>a. \<forall>s. R a s \<longrightarrow> (case k a s of Ret a s' \<Rightarrow> Q a s' | Panic e \<Rightarrow> True | Sleep c s' \<Rightarrow> I s' | Spin l s' \<Rightarrow> I s')"
    and s: "P s"
  show "case kbind m k s of Ret a s' \<Rightarrow> Q a s' | Panic e \<Rightarrow> True | Sleep c s' \<Rightarrow> I s' | Spin l s' \<Rightarrow> I s'"
    using m [rule_format, OF s] k by (cases "m s") (simp_all add: kbind_def)
qed

lemma ends_kdo_Cons: "ends P m (\<lambda>_. R) I \<Longrightarrow> ends R (kdo ms) Q I \<Longrightarrow> ends P (kdo (m # ms)) Q I"
  by (simp add: ends_kbind)

lemma ends_kthen: "ends P (kdo ms) (\<lambda>_. R) I \<Longrightarrow> ends R m Q I \<Longrightarrow> ends P (kthen ms m) Q I"
  by (simp add: kthen_def ends_kbind)

lemma ends_kreturn: "(\<And>s. P s \<Longrightarrow> Q a s) \<Longrightarrow> ends P (kreturn a) Q I"
  by (simp add: ends_def kreturn_def)

lemma ends_kdo_Nil: "(\<And>s. P s \<Longrightarrow> Q () s) \<Longrightarrow> ends P (kdo []) Q I"
  by (simp add: ends_kreturn)

lemma ends_kgets: "(\<And>s. P s \<Longrightarrow> Q (f s) s) \<Longrightarrow> ends P (kgets f) Q I"
  by (simp add: ends_def kgets_def)

lemma ends_kmodify: "(\<And>s. P s \<Longrightarrow> Q () (f s)) \<Longrightarrow> ends P (kmodify f) Q I"
  by (simp add: ends_def kmodify_def)

lemma ends_kif: "ends (\<lambda>s. P s \<and> c s) m1 Q I \<Longrightarrow> ends (\<lambda>s. P s \<and> \<not> c s) m2 Q I \<Longrightarrow> ends P (kif c m1 m2) Q I"
  by (simp add: ends_def kif_def)

lemma ends_weaken: "ends P m Q I \<Longrightarrow> (\<And>s. P' s \<Longrightarrow> P s) \<Longrightarrow> (\<And>a s. Q a s \<Longrightarrow> Q' a s) \<Longrightarrow> (\<And>s. I s \<Longrightarrow> J s) \<Longrightarrow> ends P' m Q' J"
proof (unfold ends_def, intro allI impI)
  fix s assume m: "\<forall>s. P s \<longrightarrow> (case m s of Ret a s' \<Rightarrow> Q a s' | Panic e \<Rightarrow> True | Sleep c s' \<Rightarrow> I s' | Spin l s' \<Rightarrow> I s')"
    and s: "P' s" and *: "\<And>s. P' s \<Longrightarrow> P s" "\<And>a s. Q a s \<Longrightarrow> Q' a s" "\<And>s. I s \<Longrightarrow> J s"
  show "case m s of Ret a s' \<Rightarrow> Q' a s' | Panic e \<Rightarrow> True | Sleep c s' \<Rightarrow> J s' | Spin l s' \<Rightarrow> J s'"
    using m [rule_format, OF *(1), OF s] *(2,3) by (cases "m s") simp_all
qed

lemma ends_keeps: "keeps I m \<Longrightarrow> (\<And>s. P s \<Longrightarrow> I s) \<Longrightarrow> (\<And>a s. I s \<Longrightarrow> Q a s) \<Longrightarrow> (\<And>s. I s \<Longrightarrow> J s) \<Longrightarrow> ends P m Q J"
  unfolding keeps_ends by (rule ends_weaken)

text \<open>Steps that keep \<open>I\<close>, where nothing is asked of the states the program stops in.\<close>

lemma ends_keeps_kbind:
  "keeps I m \<Longrightarrow> (\<And>a. ends I (k a) Q (\<lambda>_. True)) \<Longrightarrow> ends I (kbind m k) Q (\<lambda>_. True)"
  by (rule ends_kbind [where R = "\<lambda>_. I"], rule ends_keeps) auto

lemma ends_keeps_kthen:
  "keeps I (kdo ms) \<Longrightarrow> ends I m Q (\<lambda>_. True) \<Longrightarrow> ends I (kthen ms m) Q (\<lambda>_. True)"
  unfolding kthen_def by (rule ends_keeps_kbind)

lemma ends_kif_any: "ends P m1 Q I \<Longrightarrow> ends P m2 Q I \<Longrightarrow> ends P (kif c m1 m2) Q I"
  by (simp add: ends_def kif_def)

lemma ends_if: "ends P m1 Q I \<Longrightarrow> ends P m2 Q I \<Longrightarrow> ends P (if b then m1 else m2) Q I"
  by simp

lemma ends_kfor:
  assumes "\<And>x. x \<in> set xs \<Longrightarrow> ends P (body x) (\<lambda>r s. case r of None \<Rightarrow> P s | Some v \<Rightarrow> Q v s) I"
    and "ends P rest Q I"
  shows "ends P (kfor xs body rest) Q I"
  using assms
proof (induction xs)
  case (Cons x xs)
  have "ends (case r of None \<Rightarrow> P | Some v \<Rightarrow> Q v)
      (case r of None \<Rightarrow> kfor xs body rest | Some v \<Rightarrow> kreturn v) Q I" for r
    using Cons by (cases r) (simp_all add: ends_kreturn)
  moreover have "ends P (body x) (\<lambda>r. case r of None \<Rightarrow> P | Some v \<Rightarrow> Q v) I"
    using Cons.prems(1) [of x] by (auto elim!: ends_weaken split: option.splits)
  ultimately show ?case unfolding kfor.simps by (intro ends_kbind)
qed simp

lemma keeps_kif_guard: "keeps I m1 \<Longrightarrow> ends (\<lambda>s. I s \<and> \<not> c s) m2 (\<lambda>_. I) I \<Longrightarrow> keeps I (kif c m1 m2)"
  unfolding keeps_ends by (rule ends_kif) (erule ends_weaken; simp)+

section \<open>Invariants of transition systems\<close>

text \<open>
  Concurrent components are step relations over their atomic actions. What every step keeps
  holds in every state reachable from an initial one.
\<close>

locale invariant_system =
  fixes init :: "'s \<Rightarrow> bool"
    and step :: "'s \<Rightarrow> 's \<Rightarrow> bool"
    and inv :: "'s \<Rightarrow> bool"
  assumes inv_init: "init s \<Longrightarrow> inv s"
    and inv_step: "inv s \<Longrightarrow> step s t \<Longrightarrow> inv t"
begin

lemma inv_steps: "step\<^sup>*\<^sup>* s t \<Longrightarrow> inv s \<Longrightarrow> inv t"
  by (induction rule: rtranclp_induct) (auto intro: inv_step)

lemma inv_reachable: "init s \<Longrightarrow> step\<^sup>*\<^sup>* s t \<Longrightarrow> inv t"
  by (blast intro: inv_init inv_steps)

end

section \<open>Words\<close>

lemma unat_less_64: "unat (a :: uint64) < 18446744073709551616"
  using unsigned_less [of a, where ?'a = nat] by simp

lemma unat_less_32: "unat (a :: uint) < 4294967296"
  using unsigned_less [of a, where ?'a = nat] by simp

section \<open>Little-endian bytes\<close>

text \<open>RISC-V is little endian: the number a list of bytes stands for, and its bytes.\<close>

primrec le_word :: "uchar list \<Rightarrow> 'a::len word" where
  "le_word [] = 0"
| "le_word (x # xs) = (ucast x OR push_bit 8 (le_word xs))"

primrec le_bytes :: "nat \<Rightarrow> 'a::len word \<Rightarrow> uchar list" where
  "le_bytes 0 v = []"
| "le_bytes (Suc n) v = ucast v # le_bytes n (drop_bit 8 v)"

lemma length_le_bytes [simp]: "length (le_bytes n v) = n"
  by (induction n arbitrary: v) auto

lemma le_word_le_bytes_take: "le_word (le_bytes n v) = take_bit (8 * n) (v :: 'a::len word)"
proof (induction n arbitrary: v)
  case 0
  then show ?case by simp
next
  case (Suc n)
  have "ucast (ucast v :: uchar) OR push_bit 8 (take_bit (8 * n) (drop_bit 8 v)) =
    take_bit (8 * Suc n) v"
    by (rule bit_word_eqI) (auto simp: bit_simps)
  then show ?case using Suc by simp
qed

lemma le_word_le_bytes: "LENGTH('a) \<le> 8 * n \<Longrightarrow> le_word (le_bytes n v) = (v :: 'a::len word)"
  by (simp add: le_word_le_bytes_take take_bit_word_eq_self)

lemma le_bytes_le_word:
  "8 * length xs \<le> LENGTH('a::len) \<Longrightarrow> le_bytes (length xs) (le_word xs :: 'a word) = xs"
proof (induction xs)
  case Nil
  then show ?case by simp
next
  case (Cons x xs)
  let ?w = "le_word xs :: 'a word"
  have hd: "ucast (ucast x OR push_bit 8 ?w :: 'a word) = x"
    using Cons.prems by (intro bit_word_eqI) (auto simp: bit_simps)
  have "?w = take_bit (8 * length xs) ?w"
  proof -
    have "take_bit (8 * length xs) ?w = le_word (le_bytes (length xs) ?w)"
      by (simp add: le_word_le_bytes_take)
    also have "\<dots> = ?w" using Cons by simp
    finally show ?thesis by simp
  qed
  then have "\<not> bit ?w k" if "8 * length xs \<le> k" for k
    using that by (metis bit_take_bit_iff not_le)
  then have tl: "drop_bit 8 (ucast x OR push_bit 8 ?w :: 'a word) = ?w"
    using Cons.prems by (intro bit_word_eqI) (auto simp: bit_simps dest: bit_imp_le_length)
  show ?case using hd tl Cons by simp
qed

section \<open>Byte arrays\<close>

text \<open>
  A C array of bytes (a disk block, \<^verbatim>\<open>buf.data\<close>) is the function from its indices. The
  fields of a struct that lies in it are little-endian runs of bytes.
\<close>

type_synonym bytes = "nat \<Rightarrow> uchar"

definition get_bytes :: "bytes \<Rightarrow> nat \<Rightarrow> nat \<Rightarrow> uchar list" where
  "get_bytes b i n = map (\<lambda>k. b (i + k)) [0..<n]"

definition put_bytes :: "bytes \<Rightarrow> nat \<Rightarrow> uchar list \<Rightarrow> bytes" where
  "put_bytes b i xs = (\<lambda>j. if i \<le> j \<and> j < i + length xs then xs ! (j - i) else b j)"

definition get16 :: "bytes \<Rightarrow> nat \<Rightarrow> ushort" where
  "get16 b i = le_word (get_bytes b i 2)"

definition put16 :: "bytes \<Rightarrow> nat \<Rightarrow> ushort \<Rightarrow> bytes" where
  "put16 b i v = put_bytes b i (le_bytes 2 v)"

definition get32 :: "bytes \<Rightarrow> nat \<Rightarrow> uint" where
  "get32 b i = le_word (get_bytes b i 4)"

definition put32 :: "bytes \<Rightarrow> nat \<Rightarrow> uint \<Rightarrow> bytes" where
  "put32 b i v = put_bytes b i (le_bytes 4 v)"

lemma length_get_bytes [simp]: "length (get_bytes b i n) = n"
  by (simp add: get_bytes_def)

lemma get_put_bytes_same: "n = length xs \<Longrightarrow> get_bytes (put_bytes b i xs) i n = xs"
  by (rule nth_equalityI) (auto simp: get_bytes_def put_bytes_def)

lemma get_put_bytes_other:
  "i + n \<le> j \<or> j + length xs \<le> i \<Longrightarrow> get_bytes (put_bytes b j xs) i n = get_bytes b i n"
  by (auto simp: get_bytes_def put_bytes_def)

lemma put_bytes_apply_other: "j < i \<or> i + length xs \<le> j \<Longrightarrow> put_bytes b i xs j = b j"
  by (auto simp: put_bytes_def)

lemma get16_put16 [simp]: "get16 (put16 b i v) i = v"
  by (simp add: get16_def put16_def get_put_bytes_same le_word_le_bytes)

lemma get32_put32 [simp]: "get32 (put32 b i v) i = v"
  by (simp add: get32_def put32_def get_put_bytes_same le_word_le_bytes)

lemma get_put_other [simp]:
  "i + 2 \<le> j \<or> j + 2 \<le> i \<Longrightarrow> get16 (put16 b j v) i = get16 b i"
  "i + 2 \<le> j \<or> j + 4 \<le> i \<Longrightarrow> get16 (put32 b j w) i = get16 b i"
  "i + 4 \<le> j \<or> j + 2 \<le> i \<Longrightarrow> get32 (put16 b j v) i = get32 b i"
  "i + 4 \<le> j \<or> j + 4 \<le> i \<Longrightarrow> get32 (put32 b j w) i = get32 b i"
  by (auto simp: get16_def put16_def get32_def put32_def get_put_bytes_other)

lemma get_zero [simp]: "get16 (\<lambda>_. 0) i = 0" "get32 (\<lambda>_. 0) i = 0"
  by (simp_all add: get16_def get32_def get_bytes_def eval_nat_numeral)

lemma wp_kfor_first:
  assumes "xs = ys @ x # zs" "I s" "\<And>y t. y \<in> set ys \<Longrightarrow> I t \<Longrightarrow> wp (body y) (\<lambda>r u. r = None \<and> I u) t"
    and "\<And>t. I t \<Longrightarrow> wp (body x) (\<lambda>r u. \<exists>v. r = Some v \<and> Q v u) t"
  shows "wp (kfor xs body rest) Q s"
proof -
  have "wp (kfor (ys @ x # zs) body rest) Q s"
    using assms(2,3)
  proof (induction ys arbitrary: s)
    case Nil
    show ?case unfolding append_Nil wp_kfor_Cons by (rule wp_mono [OF assms(4) [OF Nil.prems(1)]]) auto
  next
    case (Cons y ys)
    have "wp (kfor (ys @ x # zs) body rest) Q u" if "I u" for u
      using Cons.IH [OF that] Cons.prems(2) by simp
    then show ?case unfolding append_Cons wp_kfor_Cons
      using Cons.prems(1) by (intro wp_mono [OF Cons.prems(2) [of y]]) auto
  qed
  then show ?thesis using assms(1) by simp
qed

lemma sint_small: "k < 2 ^ 31 \<Longrightarrow> sint (of_nat k :: uint) = int k"
  by (simp add: signed_of_nat signed_take_bit_int_eq_self)

lemma sint_unat: "unat w < 2 ^ 31 \<Longrightarrow> sint w = int (unat w)" for w :: uint
  using sint_small [of "unat w"] by simp

end
