(* ===== verification/Layout.thy ===== *)
theory Layout
  imports Prelude
begin

text \<open>
  The constants and address macros of \<^verbatim>\<open>kernel/param.h\<close>, \<^verbatim>\<open>kernel/memlayout.h\<close> and the
  page-table part of \<^verbatim>\<open>kernel/riscv.h\<close>, on 64-bit words, with the arithmetic facts about page
  rounding and page-table entries that the memory components share.
\<close>

section \<open>param.h\<close>

abbreviation (input) NPROC :: nat where "NPROC \<equiv> 64"
abbreviation (input) NCPU :: nat where "NCPU \<equiv> 8"
abbreviation (input) NOFILE :: nat where "NOFILE \<equiv> 16"
abbreviation (input) NFILE :: nat where "NFILE \<equiv> 100"
abbreviation (input) NINODE :: nat where "NINODE \<equiv> 50"
abbreviation (input) NDEV :: nat where "NDEV \<equiv> 10"
abbreviation (input) ROOTDEV :: uint where "ROOTDEV \<equiv> 1"
abbreviation (input) MAXARG :: nat where "MAXARG \<equiv> 32"
abbreviation (input) MAXOPBLOCKS :: nat where "MAXOPBLOCKS \<equiv> 10"
abbreviation (input) LOGSIZE :: nat where "LOGSIZE \<equiv> 30"  \<comment> \<open>\<^verbatim>\<open>MAXOPBLOCKS*3\<close>\<close>
abbreviation (input) NBUF :: nat where "NBUF \<equiv> 30"  \<comment> \<open>\<^verbatim>\<open>MAXOPBLOCKS*3\<close>\<close>
abbreviation (input) FSSIZE :: nat where "FSSIZE \<equiv> 2000"
abbreviation (input) MAXPATH :: nat where "MAXPATH \<equiv> 128"

section \<open>Pages and page-table entries (riscv.h)\<close>

abbreviation (input) PGSIZE :: uint64 where "PGSIZE \<equiv> 4096"
abbreviation (input) PGSHIFT :: nat where "PGSHIFT \<equiv> 12"

definition PGROUNDUP :: "uint64 \<Rightarrow> uint64" where
  "PGROUNDUP sz = (sz + PGSIZE - 1) AND NOT (PGSIZE - 1)"

definition PGROUNDDOWN :: "uint64 \<Rightarrow> uint64" where
  "PGROUNDDOWN a = a AND NOT (PGSIZE - 1)"

abbreviation (input) PTE_V :: uint64 where "PTE_V \<equiv> 1"
abbreviation (input) PTE_R :: uint64 where "PTE_R \<equiv> 2"
abbreviation (input) PTE_W :: uint64 where "PTE_W \<equiv> 4"
abbreviation (input) PTE_X :: uint64 where "PTE_X \<equiv> 8"
abbreviation (input) PTE_U :: uint64 where "PTE_U \<equiv> 16"

definition PA2PTE :: "uint64 \<Rightarrow> uint64" where
  "PA2PTE pa = push_bit 10 (drop_bit 12 pa)"

definition PTE2PA :: "uint64 \<Rightarrow> uint64" where
  "PTE2PA pte = push_bit 12 (drop_bit 10 pte)"

definition PTE_FLAGS :: "uint64 \<Rightarrow> uint64" where
  "PTE_FLAGS pte = pte AND 0x3FF"

abbreviation (input) PXMASK :: uint64 where "PXMASK \<equiv> 0x1FF"

definition PXSHIFT :: "nat \<Rightarrow> nat" where
  "PXSHIFT level = PGSHIFT + 9 * level"

definition PX :: "nat \<Rightarrow> uint64 \<Rightarrow> uint64" where
  "PX level va = drop_bit (PXSHIFT level) va AND PXMASK"

abbreviation (input) MAXVA :: uint64 where "MAXVA \<equiv> 0x4000000000"

definition MAKE_SATP :: "uint64 \<Rightarrow> uint64" where
  "MAKE_SATP pagetable = push_bit 60 8 OR drop_bit 12 pagetable"

section \<open>memlayout.h\<close>

abbreviation (input) UART0 :: uint64 where "UART0 \<equiv> 0x10000000"
abbreviation (input) UART0_IRQ :: nat where "UART0_IRQ \<equiv> 10"
abbreviation (input) VIRTIO0 :: uint64 where "VIRTIO0 \<equiv> 0x10001000"
abbreviation (input) VIRTIO0_IRQ :: nat where "VIRTIO0_IRQ \<equiv> 1"
abbreviation (input) CLINT :: uint64 where "CLINT \<equiv> 0x2000000"
abbreviation (input) PLIC :: uint64 where "PLIC \<equiv> 0x0c000000"
abbreviation (input) KERNBASE :: uint64 where "KERNBASE \<equiv> 0x80000000"
abbreviation (input) PHYSTOP :: uint64 where "PHYSTOP \<equiv> 0x88000000"
abbreviation (input) TRAMPOLINE :: uint64 where "TRAMPOLINE \<equiv> 0x3ffffff000"
abbreviation (input) TRAPFRAME :: uint64 where "TRAPFRAME \<equiv> 0x3fffffe000"

definition KSTACK :: "nat \<Rightarrow> uint64" where
  "KSTACK p = TRAMPOLINE - (of_nat p + 1) * 2 * PGSIZE"

section \<open>Page arithmetic\<close>

definition page_aligned :: "uint64 \<Rightarrow> bool" where
  "page_aligned a \<longleftrightarrow> a mod PGSIZE = 0"

lemma mod_PGSIZE: "(a :: uint64) mod PGSIZE = take_bit 12 a"
  using take_bit_eq_mod [of 12 a] by simp

lemma page_aligned_iff: "page_aligned a \<longleftrightarrow> take_bit 12 a = 0"
  by (simp add: page_aligned_def mod_PGSIZE)

lemma mask_4095: "(4095 :: uint64) = mask 12"
  by (simp add: mask_eq_exp_minus_1)

lemma PGROUNDDOWN_bits: "PGROUNDDOWN a = push_bit 12 (drop_bit 12 a)"
  unfolding PGROUNDDOWN_def by (rule bit_word_eqI) (auto simp: bit_simps mask_4095)

lemma page_split: "PGROUNDDOWN a + take_bit 12 a = a"
  by (simp add: PGROUNDDOWN_bits bits_ident)

lemma page_offset_less: "take_bit 12 a < PGSIZE"
  using take_bit_word_eq_self  word_mod_less_divisor [of PGSIZE a] by (simp add: mod_PGSIZE)

lemma page_offset: "a - PGROUNDDOWN a = take_bit 12 a"
  using page_split [of a] by (metis add_diff_cancel_left')

lemma page_aligned_PGROUNDDOWN [simp]: "page_aligned (PGROUNDDOWN a)"
  by (simp add: page_aligned_iff PGROUNDDOWN_bits take_bit_push_bit)

lemma unat_take_bit_12: "unat (take_bit 12 (a :: uint64)) = unat a mod 4096"
  by (simp flip: mod_PGSIZE add: unat_mod)

lemma page_aligned_unat: "page_aligned a \<longleftrightarrow> unat a mod 4096 = 0"
  by (simp add: page_aligned_iff unat_eq_0 flip: unat_take_bit_12)

lemma unat_PGROUNDDOWN: "unat (PGROUNDDOWN a) = unat a div 4096 * 4096"
proof -
  have "PGROUNDDOWN a = a - take_bit 12 a"
    using page_split [of a] by (simp add: eq_diff_eq)
  moreover have "take_bit 12 a \<le> a"
    by (simp add: word_le_nat_alt unat_take_bit_12)
  ultimately have "unat (PGROUNDDOWN a) = unat a - unat a mod 4096"
    by (simp add: unat_sub unat_take_bit_12)
  then show ?thesis by (simp add: minus_mod_eq_div_mult)
qed

lemma PGROUNDDOWN_aligned: "page_aligned a \<Longrightarrow> PGROUNDDOWN a = a"
  using page_split [of a] by (simp add: page_aligned_iff)

lemma PGROUNDUP_down: "PGROUNDUP a = PGROUNDDOWN (a + 4095)"
  by (simp add: PGROUNDUP_def PGROUNDDOWN_def add.commute)

lemma page_aligned_PGROUNDUP [simp]: "page_aligned (PGROUNDUP a)"
  by (simp add: PGROUNDUP_down)

lemma unat_PGROUNDUP:
  "unat a + 4095 < 2 ^ 64 \<Longrightarrow> unat (PGROUNDUP a) = (unat a + 4095) div 4096 * 4096"
  by (simp add: PGROUNDUP_down unat_PGROUNDDOWN unat_word_ariths)

lemma page_room:
  assumes "page_aligned p"
  shows "unat p + 4096 \<le> 2 ^ 64"
proof -
  obtain k where k: "unat p = 4096 * k"
    using assms by (auto simp: page_aligned_unat elim: dvdE)
  moreover have "unat p < 2 ^ 64" using unsigned_less [of p] by simp
  ultimately show ?thesis by simp
qed

text \<open>Two addresses in pages are equal only if the pages and the offsets are.\<close>

lemma unat_page_add:
  assumes "page_aligned p" and "i < PGSIZE"
  shows "unat (p + i) = unat p + unat i"
proof -
  have "unat i < 4096" using assms(2) by (simp add: word_less_nat_alt)
  with page_room [OF assms(1)] show ?thesis by (simp add: unat_word_ariths)
qed

lemma PGROUNDDOWN_add:
  assumes "page_aligned p" and "i < PGSIZE"
  shows "PGROUNDDOWN (p + i) = p" and "take_bit 12 (p + i) = i"
proof -
  have i: "unat i < 4096" using assms(2) by (simp add: word_less_nat_alt)
  obtain k where k: "unat p = 4096 * k"
    using assms(1) by (auto simp: page_aligned_unat elim: dvdE)
  have "(unat p + unat i) div 4096 * 4096 = unat p" using k i by simp
  then show "PGROUNDDOWN (p + i) = p"
    by (simp add: word_unat_eq_iff unat_PGROUNDDOWN unat_page_add assms)
  then show "take_bit 12 (p + i) = i"
    using page_offset [of "p + i"] by simp
qed

lemma page_add_eq_iff:
  assumes "page_aligned p" "page_aligned q" "i < PGSIZE" "j < PGSIZE"
  shows "p + i = q + j \<longleftrightarrow> p = q \<and> i = j"
  using assms PGROUNDDOWN_add by metis

lemma PGROUNDUP_aligned:
  assumes "page_aligned a"
  shows "PGROUNDUP a = a"
  using PGROUNDDOWN_add(1) [OF assms, of 4095] by (simp add: PGROUNDUP_down)

section \<open>Page-table entries\<close>

lemma PTE2PA_PA2PTE:
  assumes "page_aligned pa" and "flags < 1024"
  shows "PTE2PA (PA2PTE pa OR flags) = pa"
proof -
  have f: "take_bit 10 flags = flags"
    using assms(2) by (simp add: take_bit_eq_mod word_less_nat_alt word_unat_eq_iff unat_mod)
  have a: "push_bit 12 (drop_bit 12 pa) = pa"
    using PGROUNDDOWN_aligned [OF assms(1)] by (simp add: PGROUNDDOWN_bits)
  have "PTE2PA (PA2PTE pa OR take_bit 10 flags) = push_bit 12 (drop_bit 12 pa)"
    unfolding PTE2PA_def PA2PTE_def by (rule bit_word_eqI) (auto simp: bit_simps)
  with f a show ?thesis by simp
qed

lemma PTE_FLAGS_PA2PTE:
  assumes "flags < 1024"
  shows "PTE_FLAGS (PA2PTE pa OR flags) = flags"
proof -
  have f: "take_bit 10 flags = flags"
    using assms by (simp add: take_bit_eq_mod word_less_nat_alt word_unat_eq_iff unat_mod)
  have m: "(0x3FF :: uint64) = mask 10" by (simp add: mask_eq_exp_minus_1)
  have "PTE_FLAGS (PA2PTE pa OR take_bit 10 flags) = take_bit 10 flags"
    unfolding PTE_FLAGS_def PA2PTE_def m by (rule bit_word_eqI) (auto simp: bit_simps)
  with f show ?thesis by simp
qed

lemma PTE2PA_aligned [simp]: "page_aligned (PTE2PA pte)"
  by (simp add: PTE2PA_def page_aligned_iff take_bit_push_bit)

lemma PX_mask: "PX level va = take_bit 9 (drop_bit (PXSHIFT level) va)"
proof -
  have "(0x1FF :: uint64) = mask 9" by (simp add: mask_eq_exp_minus_1)
  then show ?thesis by (simp add: PX_def take_bit_eq_mask)
qed

lemma PX_less: "PX level va < 512"
  using word_mod_less_divisor [of 512 "drop_bit (PXSHIFT level) va"] take_bit_eq_mod [of 9 "drop_bit (PXSHIFT level) va"]
  by (simp add: PX_mask)

end
