(* ===== verification/Spinlock.thy ===== *)
theory Spinlock
  imports Layout
begin

text \<open>
  The state of the executing hart, per-CPU state and spinlocks: the register accessors of
  \<^verbatim>\<open>kernel/riscv.h\<close>, \<^verbatim>\<open>struct cpu\<close> of \<^verbatim>\<open>kernel/proc.h\<close>, and all of
  \<^verbatim>\<open>kernel/spinlock.c\<close>. \<open>kst\<close> is the root of the kernel state: every other component extends
  it. A run of the model is the run of one hart, \<open>reg_tp\<close>; a lock held elsewhere makes
  \<^verbatim>\<open>acquire\<close> end in \<open>Spin\<close>. The second part composes the atomic steps of \<^verbatim>\<open>acquire\<close>
  and \<^verbatim>\<open>release\<close> on many harts into a step relation.
\<close>

section \<open>Registers of the executing hart (riscv.h)\<close>

record hart_regs =
  reg_tp :: uint64
  csr_sstatus :: uint64
  csr_sie :: uint64
  csr_sip :: uint64
  csr_stvec :: uint64
  csr_sepc :: uint64
  csr_scause :: uint64
  csr_stval :: uint64
  csr_satp :: uint64

abbreviation (input) SSTATUS_SPP :: uint64 where "SSTATUS_SPP \<equiv> 256"
abbreviation (input) SSTATUS_SPIE :: uint64 where "SSTATUS_SPIE \<equiv> 32"
abbreviation (input) SSTATUS_SIE :: uint64 where "SSTATUS_SIE \<equiv> 2"

section \<open>Per-CPU state (proc.h) and locks (spinlock.h)\<close>

record kcontext =
  ctx_ra :: uint64
  ctx_sp :: uint64
  ctx_s :: "nat \<Rightarrow> uint64"  \<comment> \<open>s0 to s11\<close>

record cpu =
  cpu_proc :: "nat option"  \<comment> \<open>index into \<^verbatim>\<open>proc[]\<close>\<close>
  cpu_context :: kcontext
  noff :: int
  intena :: bool

record spinlock =
  locked :: bool
  lk_name :: string
  lk_cpu :: "nat option"  \<comment> \<open>index into \<^verbatim>\<open>cpus[]\<close>\<close>

record kst =
  hart :: hart_regs
  cpus :: "nat \<Rightarrow> cpu"
  locks :: "lockid \<Rightarrow> spinlock"

definition r_sstatus :: "'a kst_scheme \<Rightarrow> uint64" where
  "r_sstatus s = csr_sstatus (hart s)"

definition w_sstatus :: "uint64 \<Rightarrow> 'a kst_scheme \<Rightarrow> 'a kst_scheme" where
  "w_sstatus x s = s\<lparr>hart := (hart s)\<lparr>csr_sstatus := x\<rparr>\<rparr>"

definition intr_on :: "'a kst_scheme \<Rightarrow> 'a kst_scheme" where
  "intr_on s = w_sstatus (r_sstatus s OR SSTATUS_SIE) s"

definition intr_off :: "'a kst_scheme \<Rightarrow> 'a kst_scheme" where
  "intr_off s = w_sstatus (r_sstatus s AND NOT SSTATUS_SIE) s"

definition intr_get :: "'a kst_scheme \<Rightarrow> bool" where
  "intr_get s \<longleftrightarrow> r_sstatus s AND SSTATUS_SIE \<noteq> 0"

definition cpuid :: "'a kst_scheme \<Rightarrow> nat" where
  "cpuid s = unat (reg_tp (hart s))"

definition mycpu :: "'a kst_scheme \<Rightarrow> cpu" where
  "mycpu s = cpus s (cpuid s)"

text \<open>Assignment through \<^verbatim>\<open>mycpu()\<close>.\<close>

definition upd_mycpu :: "(cpu \<Rightarrow> cpu) \<Rightarrow> 'a kst_scheme \<Rightarrow> 'a kst_scheme" where
  "upd_mycpu f s = s\<lparr>cpus := (cpus s)(cpuid s := f (mycpu s))\<rparr>"

text \<open>Assignment to the fields of a lock.\<close>

definition upd_lock :: "lockid \<Rightarrow> (spinlock \<Rightarrow> spinlock) \<Rightarrow> 'a kst_scheme \<Rightarrow> 'a kst_scheme" where
  "upd_lock lk f s = s\<lparr>locks := (locks s)(lk := f (locks s lk))\<rparr>"

section \<open>spinlock.c\<close>

definition initlock :: "lockid \<Rightarrow> string \<Rightarrow> (unit, 'a kst_scheme) kmonad" where
  "initlock lk name = kmodify (upd_lock lk (\<lambda>l. l\<lparr>lk_name := name, locked := False, lk_cpu := None\<rparr>))"

definition holding :: "lockid \<Rightarrow> 'a kst_scheme \<Rightarrow> bool" where
  "holding lk s \<longleftrightarrow> locked (locks s lk) \<and> lk_cpu (locks s lk) = Some (cpuid s)"

definition push_off :: "(unit, 'a kst_scheme) kmonad" where
  "push_off = kbind (kgets intr_get) (\<lambda>old. kdo [
     kmodify intr_off,
     kwhen (\<lambda>s. noff (mycpu s) = 0) (kmodify (upd_mycpu (intena_update (\<lambda>_. old)))),
     kmodify (upd_mycpu (noff_update (\<lambda>n. n + 1)))])"

definition pop_off :: "(unit, 'a kst_scheme) kmonad" where
  "pop_off = kdo [
     panic_if intr_get ''pop_off - interruptible'',
     panic_if (\<lambda>s. noff (mycpu s) < 1) ''pop_off'',
     kmodify (upd_mycpu (noff_update (\<lambda>n. n - 1))),
     kwhen (\<lambda>s. noff (mycpu s) = 0 \<and> intena (mycpu s)) (kmodify intr_on)]"

text \<open>\<^verbatim>\<open>__sync_lock_test_and_set(&lk->locked, 1)\<close>: the old value, and the lock set.\<close>

definition sync_lock_test_and_set :: "lockid \<Rightarrow> (bool, 'a kst_scheme) kmonad" where
  "sync_lock_test_and_set lk = kbind (kgets (\<lambda>s. locked (locks s lk))) (\<lambda>old.
     kthen [kmodify (upd_lock lk (locked_update (\<lambda>_. True)))] (kreturn old))"

definition acquire :: "lockid \<Rightarrow> (unit, 'a kst_scheme) kmonad" where
  "acquire lk = kthen [
     push_off,
     panic_if (holding lk) ''acquire''] (
     kbind (sync_lock_test_and_set lk) (\<lambda>old.
     if old then kspin lk
     else kmodify (\<lambda>s. upd_lock lk (lk_cpu_update (\<lambda>_. Some (cpuid s))) s)))"

definition release :: "lockid \<Rightarrow> (unit, 'a kst_scheme) kmonad" where
  "release lk = kdo [
     panic_if (\<lambda>s. \<not> holding lk s) ''release'',
     kmodify (upd_lock lk (lk_cpu_update (\<lambda>_. None))),
     kmodify (upd_lock lk (locked_update (\<lambda>_. False))),
     pop_off]"

definition myproc :: "(nat option, 'a kst_scheme) kmonad" where
  "myproc = kthen [push_off] (kbind (kgets (\<lambda>s. cpu_proc (mycpu s))) (\<lambda>p.
     kthen [pop_off] (kreturn p)))"

section \<open>Interrupt state\<close>

named_theorems kframe \<open>an update of a field outside the hart commutes with the lock operations\<close>

declare bit_numeral_word_iff [simp del] bit_neg_numeral_word_iff [simp del]

lemma bit_SIE: "bit (2 :: uint64) n \<longleftrightarrow> n = Suc 0"
  by (auto simp: bit_2_iff)

lemma bit_not_SIE: "bit (- 3 :: uint64) n \<longleftrightarrow> n < 64 \<and> n \<noteq> Suc 0"
proof -
  have "bit (NOT 2 :: uint64) n \<longleftrightarrow> n < 64 \<and> n \<noteq> Suc 0"
    by (simp only: bit_not_iff bit_SIE) simp
  then show ?thesis by simp
qed

lemmas SIE_bits = bit_and_iff bit_or_iff bit_SIE bit_not_SIE

lemma and_SIE: "(x :: uint64) AND 2 = 0 \<longleftrightarrow> \<not> bit x (Suc 0)"
proof
  assume "x AND 2 = 0"
  then have "\<not> bit (x AND 2) (Suc 0)" by simp
  then show "\<not> bit x (Suc 0)" by (simp add: SIE_bits)
next
  assume "\<not> bit x (Suc 0)"
  then show "x AND 2 = 0" by (intro bit_word_eqI) (auto simp: SIE_bits)
qed

lemma intr_get_bit: "intr_get s \<longleftrightarrow> bit (r_sstatus s) (Suc 0)"
  by (simp add: intr_get_def and_SIE)

lemma SIE_off_on: "bit (x :: uint64) (Suc 0) \<Longrightarrow> (x AND - 3) OR 2 = x"
  by (rule bit_word_eqI) (auto simp: SIE_bits)

lemma SIE_off: "\<not> bit (x :: uint64) (Suc 0) \<Longrightarrow> x AND - 3 = x"
  by (rule bit_word_eqI) (auto simp: SIE_bits)

lemma kst_upd_id [simp]:
  "s\<lparr>hart := hart s\<rparr> = s" "s\<lparr>cpus := cpus s\<rparr> = s" "s\<lparr>locks := locks s\<rparr> = s"
  by simp_all

lemma regs_upd_id [simp]: "h\<lparr>csr_sstatus := csr_sstatus h\<rparr> = h"
  by simp

lemma cpu_upd_id [simp]:
  "noff c = n \<Longrightarrow> c\<lparr>intena := b, noff := n\<rparr> = c\<lparr>intena := b\<rparr>"
  "noff_update ((\<lambda>n. n - 1) \<circ> (\<lambda>n. n + 1)) c = c"
  by (cases c, simp)+

lemma lk_upd_id [simp]: "\<not> locked l \<Longrightarrow> lk_cpu l = None \<Longrightarrow> l\<lparr>lk_cpu := None, locked := False\<rparr> = l"
  by (cases l) simp

text \<open>
  What the code keeps of the interrupt state: inside a \<^verbatim>\<open>push_off\<close> interrupts are off.
  \<open>lock_ok lk s\<close> is what a caller of \<^verbatim>\<open>acquire(lk)\<close> relies on: nobody holds \<open>lk\<close>.
  \<open>irq_held\<close> holds inside a critical section.
\<close>

definition irq_ok :: "'a kst_scheme \<Rightarrow> bool" where
  "irq_ok s \<longleftrightarrow> 0 \<le> noff (mycpu s) \<and> (0 < noff (mycpu s) \<longrightarrow> \<not> intr_get s)"

definition irq_held :: "'a kst_scheme \<Rightarrow> bool" where
  "irq_held s \<longleftrightarrow> 0 < noff (mycpu s) \<and> \<not> intr_get s"

definition lock_ok :: "lockid \<Rightarrow> 'a kst_scheme \<Rightarrow> bool" where
  "lock_ok lk s \<longleftrightarrow> irq_ok s \<and> \<not> locked (locks s lk) \<and> lk_cpu (locks s lk) = None"

text \<open>The effects of the operations as functions of the state.\<close>

definition push_st :: "'a kst_scheme \<Rightarrow> 'a kst_scheme" where
  "push_st s = upd_mycpu (\<lambda>c. noff_update (\<lambda>n. n + 1)
     (if noff c = 0 then c\<lparr>intena := intr_get s\<rparr> else c)) (intr_off s)"

definition pop_st :: "'a kst_scheme \<Rightarrow> 'a kst_scheme" where
  "pop_st s = (let s' = upd_mycpu (noff_update (\<lambda>n. n - 1)) s
     in if noff (mycpu s) = 1 \<and> intena (mycpu s) then intr_on s' else s')"

definition acq :: "lockid \<Rightarrow> 'a kst_scheme \<Rightarrow> 'a kst_scheme" where
  "acq lk s = upd_lock lk (\<lambda>l. l\<lparr>locked := True, lk_cpu := Some (cpuid s)\<rparr>) (push_st s)"

definition rel :: "lockid \<Rightarrow> 'a kst_scheme \<Rightarrow> 'a kst_scheme" where
  "rel lk s = pop_st (upd_lock lk (\<lambda>l. l\<lparr>lk_cpu := None, locked := False\<rparr>) s)"

text \<open>All that \<^verbatim>\<open>push_off(); pop_off()\<close> leaves behind: \<^verbatim>\<open>intena\<close> recomputed at depth 0.\<close>

definition lockcycle :: "'a kst_scheme \<Rightarrow> 'a kst_scheme" where
  "lockcycle s = (if noff (mycpu s) = 0 then upd_mycpu (intena_update (\<lambda>_. intr_get s)) s else s)"

lemmas hart_defs = r_sstatus_def w_sstatus_def intr_on_def intr_off_def cpuid_def mycpu_def
  upd_mycpu_def upd_lock_def

lemmas lock_defs = hart_defs push_st_def pop_st_def acq_def rel_def lockcycle_def irq_ok_def
  irq_held_def lock_ok_def holding_def intr_get_bit

lemma push_off_eq: "push_off s = Ret () (push_st s)"
  by (simp add: push_off_def kbind_def kgets_def kmodify_def kwhen_def kif_def kreturn_def
      lock_defs Let_def add.commute)

lemma pop_off_eq: "irq_held s \<Longrightarrow> pop_off s = Ret () (pop_st s)"
  by (simp add: pop_off_def kbind_def kmodify_def kwhen_def kif_def kreturn_def panic_if_def
      lock_defs Let_def)

lemma acquire_eq: "lock_ok lk s \<Longrightarrow> acquire lk s = Ret () (acq lk s)"
  by (simp add: acquire_def kthen_def sync_lock_test_and_set_def kbind_def push_off_eq kgets_def
      kmodify_def kif_def kreturn_def panic_if_def lock_defs Let_def)

lemma upd_lock_upd_lock [simp]: "upd_lock lk f (upd_lock lk g s) = upd_lock lk (f \<circ> g) s"
  by (simp add: upd_lock_def)

lemma irq_held_upd_lock [simp]: "irq_held (upd_lock lk f s) = irq_held s"
  by (simp add: lock_defs)

lemma release_eq: "holding lk s \<Longrightarrow> irq_held s \<Longrightarrow> release lk s = Ret () (rel lk s)"
  by (simp add: release_def kbind_def kmodify_def kif_def kreturn_def panic_if_def pop_off_eq
      rel_def comp_def)

lemma wp_push_off [wp_simps]: "wp push_off Q s = Q () (push_st s)"
  by (simp add: wp_def push_off_eq)

lemma wp_pop_off [wp_simps]: "irq_held s \<Longrightarrow> wp pop_off Q s = Q () (pop_st s)"
  by (simp add: wp_def pop_off_eq)

lemma wp_acquire [wp_simps]: "lock_ok lk s \<Longrightarrow> wp (acquire lk) Q s = Q () (acq lk s)"
  by (simp add: wp_def acquire_eq)

lemma wp_release [wp_simps]:
  "holding lk s \<Longrightarrow> irq_held s \<Longrightarrow> wp (release lk) Q s = Q () (rel lk s)"
  by (simp add: wp_def release_eq)

lemma pop_push_st [simp]: "irq_ok s \<Longrightarrow> pop_st (push_st s) = lockcycle s"
  by (auto simp: lock_defs Let_def SIE_bits SIE_off SIE_off_on)

lemma rel_acq [simp]: "lock_ok lk s \<Longrightarrow> rel lk (acq lk s) = lockcycle s"
  by (auto simp: lock_defs Let_def SIE_bits SIE_off SIE_off_on)

section \<open>Facts about the lock operations that the components use\<close>

lemma lock_ok_irq_ok: "lock_ok lk s \<Longrightarrow> irq_ok s"
  by (simp add: lock_ok_def)

lemma acq_facts [simp]:
  "holding lk (acq lk s)"
  "irq_ok s \<Longrightarrow> irq_held (acq lk s)"
  "irq_ok s \<Longrightarrow> irq_ok (acq lk s)"
  "irq_ok s \<Longrightarrow> lk \<noteq> lk' \<Longrightarrow> lock_ok lk' (acq lk s) = lock_ok lk' s"
  "lk \<noteq> lk' \<Longrightarrow> holding lk' (acq lk s) = holding lk' s"
  "irq_ok s \<Longrightarrow> lockcycle (acq lk s) = acq lk s"
  "cpuid (acq lk s) = cpuid s"
  "cpu_proc (mycpu (acq lk s)) = cpu_proc (mycpu s)"
  by (auto simp: lock_defs SIE_bits)

lemma lockcycle_facts [simp]:
  "lock_ok lk (lockcycle s) = lock_ok lk s"
  "irq_ok (lockcycle s) = irq_ok s"
  "irq_held (lockcycle s) = irq_held s"
  "holding lk (lockcycle s) = holding lk s"
  "intr_get (lockcycle s) = intr_get s"
  "noff (mycpu (lockcycle s)) = noff (mycpu s)"
  "lockcycle (lockcycle s) = lockcycle s"
  "locks (lockcycle s) = locks s"
  "hart (lockcycle s) = hart s"
  "cpuid (lockcycle s) = cpuid s"
  "cpu_proc (mycpu (lockcycle s)) = cpu_proc (mycpu s)"
  by (auto simp: lock_defs)

lemma myproc_eq: "irq_ok s \<Longrightarrow> myproc s = Ret (cpu_proc (mycpu s)) (lockcycle s)"
proof -
  assume irq: "irq_ok s"
  then have "irq_held (push_st s)" by (auto simp: lock_defs SIE_bits)
  moreover have "cpu_proc (mycpu (push_st s)) = cpu_proc (mycpu s)" by (simp add: lock_defs)
  ultimately show ?thesis using irq
    by (simp add: myproc_def kthen_def kbind_def kgets_def kreturn_def push_off_eq pop_off_eq)
qed

lemma wp_myproc [wp_simps]: "irq_ok s \<Longrightarrow> wp myproc Q s = Q (cpu_proc (mycpu s)) (lockcycle s)"
  by (simp add: wp_def myproc_eq)

lemma initlock_lock_ok: "irq_ok s \<Longrightarrow> wp (initlock lk name) (\<lambda>_. lock_ok lk) s"
  by (simp add: initlock_def wp_simps lock_defs)

section \<open>Nesting\<close>

lemma kdo_append: "kdo (ms @ ns) s = kbind (kdo ms) (\<lambda>_. kdo ns) s"
  by (induction ms arbitrary: s) (auto simp: kbind_def kreturn_def split: outcome.split)

lemma kdo_push_off: "kdo (replicate n push_off) s = Ret () ((push_st ^^ n) s)"
  by (induction n arbitrary: s) (simp_all add: kbind_def kreturn_def push_off_eq funpow_swap1)

lemma push_st_facts:
  "irq_ok s \<Longrightarrow> irq_held (push_st s)"
  "irq_ok s \<Longrightarrow> irq_ok (push_st s)"
  "irq_held s \<Longrightarrow> irq_ok s"
  "irq_held s \<Longrightarrow> lockcycle s = s"
  by (auto simp: lock_defs SIE_bits)

lemma irq_held_push_n: "irq_ok s \<Longrightarrow> irq_held ((push_st ^^ Suc n) s)"
  by (induction n) (auto intro: push_st_facts)

lemma pop_n_push_n: "irq_ok s \<Longrightarrow>
  kdo (replicate (Suc n) pop_off) ((push_st ^^ Suc n) s) = Ret () (lockcycle s)"
proof (induction n)
  case 0
  then show ?case by (simp add: kbind_def kreturn_def pop_off_eq push_st_facts)
next
  case (Suc n)
  have h: "irq_held ((push_st ^^ Suc n) s)" and h': "irq_held ((push_st ^^ Suc (Suc n)) s)"
    using Suc.prems by (rule irq_held_push_n)+
  then have "pop_st ((push_st ^^ Suc (Suc n)) s) = (push_st ^^ Suc n) s"
    using push_st_facts(3,4) [OF h] by simp
  then have "pop_off ((push_st ^^ Suc (Suc n)) s) = Ret () ((push_st ^^ Suc n) s)"
    using h' by (simp add: pop_off_eq)
  then show ?case using Suc by (simp add: kbind_def)
qed

section \<open>Many harts: the atomic steps of acquire and release\<close>

text \<open>
  One lock and any number of harts that run \<^verbatim>\<open>acquire\<close> and \<^verbatim>\<open>release\<close> on it. The steps are the
  accesses to shared memory in program order: \<^verbatim>\<open>amoswap\<close> of \<^verbatim>\<open>lk->locked\<close> until it
  returns 0, the store to \<^verbatim>\<open>lk->cpu\<close>; then the store of 0 to \<^verbatim>\<open>lk->cpu\<close> and the
  release store to \<^verbatim>\<open>lk->locked\<close>. The two fences make this order visible to every hart.
\<close>

datatype lock_pc = Outside | Spinning | Taken | Inside | Cleared | Panicked

record lock_sys =
  sys_lock :: spinlock
  sys_pc :: "nat \<Rightarrow> lock_pc"

definition holding_by :: "spinlock \<Rightarrow> nat \<Rightarrow> bool" where
  "holding_by l i \<longleftrightarrow> locked l \<and> lk_cpu l = Some i"

inductive lock_step :: "lock_sys \<Rightarrow> lock_sys \<Rightarrow> bool" where
  acquire_check: "sys_pc s i = Outside \<Longrightarrow>
     lock_step s (s\<lparr>sys_pc := (sys_pc s)(i := if holding_by (sys_lock s) i then Panicked else Spinning)\<rparr>)"
| acquire_swap_busy: "sys_pc s i = Spinning \<Longrightarrow> locked (sys_lock s) \<Longrightarrow>
     lock_step s (s\<lparr>sys_lock := (sys_lock s)\<lparr>locked := True\<rparr>\<rparr>)"
| acquire_swap_free: "sys_pc s i = Spinning \<Longrightarrow> \<not> locked (sys_lock s) \<Longrightarrow>
     lock_step s (s\<lparr>sys_lock := (sys_lock s)\<lparr>locked := True\<rparr>, sys_pc := (sys_pc s)(i := Taken)\<rparr>)"
| acquire_set_cpu: "sys_pc s i = Taken \<Longrightarrow>
     lock_step s (s\<lparr>sys_lock := (sys_lock s)\<lparr>lk_cpu := Some i\<rparr>, sys_pc := (sys_pc s)(i := Inside)\<rparr>)"
| release_check: "sys_pc s i = Inside \<Longrightarrow>
     lock_step s (if holding_by (sys_lock s) i
       then s\<lparr>sys_lock := (sys_lock s)\<lparr>lk_cpu := None\<rparr>, sys_pc := (sys_pc s)(i := Cleared)\<rparr>
       else s\<lparr>sys_pc := (sys_pc s)(i := Panicked)\<rparr>)"
| release_store: "sys_pc s i = Cleared \<Longrightarrow>
     lock_step s (s\<lparr>sys_lock := (sys_lock s)\<lparr>locked := False\<rparr>, sys_pc := (sys_pc s)(i := Outside)\<rparr>)"

definition lock_init :: "lock_sys \<Rightarrow> bool" where
  "lock_init s \<longleftrightarrow> \<not> locked (sys_lock s) \<and> lk_cpu (sys_lock s) = None \<and> (\<forall>i. sys_pc s i = Outside)"

fun owns :: "lock_pc \<Rightarrow> bool" where
  "owns Taken = True"
| "owns Inside = True"
| "owns Cleared = True"
| "owns _ = False"

definition lock_inv :: "lock_sys \<Rightarrow> bool" where
  "lock_inv s \<longleftrightarrow>
     (locked (sys_lock s) \<longleftrightarrow> (\<exists>i. owns (sys_pc s i))) \<and>
     (\<forall>i j. owns (sys_pc s i) \<longrightarrow> owns (sys_pc s j) \<longrightarrow> i = j) \<and>
     (\<forall>i. lk_cpu (sys_lock s) = Some i \<longleftrightarrow> sys_pc s i = Inside) \<and>
     (\<forall>i. sys_pc s i \<noteq> Panicked)"

lemma lock_invI:
  assumes "locked (sys_lock s) \<longleftrightarrow> (\<exists>i. owns (sys_pc s i))"
    and "\<And>i j. owns (sys_pc s i) \<Longrightarrow> owns (sys_pc s j) \<Longrightarrow> i = j"
    and "\<And>i. lk_cpu (sys_lock s) = Some i \<longleftrightarrow> sys_pc s i = Inside"
    and "\<And>i. sys_pc s i \<noteq> Panicked"
  shows "lock_inv s"
  using assms unfolding lock_inv_def by blast

lemma owns_upd:
  "owns p \<Longrightarrow> \<exists>j. owns ((f(i := p)) j)"
  "\<not> owns p \<Longrightarrow> \<not> owns (f i) \<Longrightarrow> (\<exists>j. owns ((f(i := p)) j)) \<longleftrightarrow> (\<exists>j. owns (f j))"
  by (auto intro: exI [of _ i])

lemma lock_step_inv: "lock_step s t \<Longrightarrow> lock_inv s \<Longrightarrow> lock_inv t"
proof (induction rule: lock_step.induct)
  case (acquire_check s i)
  then have "\<not> holding_by (sys_lock s) i" by (auto simp: holding_by_def lock_inv_def)
  with acquire_check show ?case
    by (intro lock_invI; simp add: owns_upd del: fun_upd_apply; auto simp: lock_inv_def split: if_splits)
next
  case (acquire_swap_busy s i)
  then show ?case by (simp add: lock_inv_def)
next
  case (acquire_swap_free s i)
  then show ?case
    by (intro lock_invI; simp add: owns_upd del: fun_upd_apply; auto simp: lock_inv_def split: if_splits)
next
  case (acquire_set_cpu s i)
  then have "\<And>j. owns (sys_pc s j) \<longleftrightarrow> j = i"
    by (metis lock_inv_def owns.simps(1))
  moreover from this have "\<And>j. j \<noteq> i \<Longrightarrow> sys_pc s j \<noteq> Inside" by (metis owns.simps(2))
  ultimately show ?case using acquire_set_cpu
    by (intro lock_invI; simp add: owns_upd del: fun_upd_apply; auto simp: lock_inv_def split: if_splits)
next
  case (release_check s i)
  then have "holding_by (sys_lock s) i" "\<And>j. owns (sys_pc s j) \<longleftrightarrow> j = i"
    by (metis holding_by_def lock_inv_def owns.simps(2))+
  moreover from this have "\<And>j. j \<noteq> i \<Longrightarrow> sys_pc s j \<noteq> Inside" by (metis owns.simps(2))
  ultimately show ?case using release_check
    by (intro lock_invI; simp add: owns_upd del: fun_upd_apply; auto simp: lock_inv_def split: if_splits)
next
  case (release_store s i)
  then have "\<And>j. owns (sys_pc s j) \<longleftrightarrow> j = i"
    by (metis lock_inv_def owns.simps(3))
  with release_store show ?case
    by (intro lock_invI; simp; auto simp: lock_inv_def split: if_splits)
qed

interpretation lock_mutex: invariant_system lock_init lock_step lock_inv
proof
  show "lock_inv s" if "lock_init s" for s
    using that by (simp add: lock_init_def lock_inv_def)
next
  show "lock_inv t" if "lock_inv s" "lock_step s t" for s t
    using that(2,1) by (rule lock_step_inv)
qed

section \<open>Properties\<close>

text \<open>
  C7: mutual exclusion. However many harts race through \<^verbatim>\<open>acquire\<close> and
  \<^verbatim>\<open>release\<close> on one lock, in every reachable state at most one of them is between the
  successful swap and the release store, the lock word is set exactly when there is one, no hart
  has hit the panics of \<^verbatim>\<open>acquire\<close> or \<^verbatim>\<open>release\<close>, and \<^verbatim>\<open>holding\<close> answers yes
  exactly to the hart that is inside the critical section.
\<close>

theorem spinlock_mutual_exclusion:
  assumes "lock_init s" and "lock_step\<^sup>*\<^sup>* s t"
  shows "(owns (sys_pc t i) \<and> owns (sys_pc t j) \<longrightarrow> i = j) \<and>
    (locked (sys_lock t) \<longleftrightarrow> (\<exists>k. owns (sys_pc t k))) \<and>
    sys_pc t i \<noteq> Panicked \<and>
    (holding_by (sys_lock t) i \<longleftrightarrow> sys_pc t i = Inside)"
proof -
  have inv: "lock_inv t"
    using assms by (rule lock_mutex.inv_reachable)
  then have "sys_pc t i = Inside \<Longrightarrow> locked (sys_lock t)"
    unfolding lock_inv_def by (metis owns.simps(2))
  with inv show ?thesis
    unfolding lock_inv_def holding_by_def by blast
qed

definition lock_sys0 :: lock_sys where
  "lock_sys0 = \<lparr>sys_lock = \<lparr>locked = False, lk_name = ''kmem'', lk_cpu = None\<rparr>, sys_pc = (\<lambda>_. Outside)\<rparr>"

definition lock_sys1 :: lock_sys where
  "lock_sys1 = \<lparr>sys_lock = \<lparr>locked = True, lk_name = ''kmem'', lk_cpu = None\<rparr>,
     sys_pc = (\<lambda>_. Outside)(0 := Spinning, 1 := Taken)\<rparr>"

lemma lock_sys_run: "lock_step\<^sup>*\<^sup>* lock_sys0 lock_sys1"
proof -
  let ?a = "lock_sys0\<lparr>sys_pc := (\<lambda>_. Outside)(0 := Spinning)\<rparr>"
  let ?b = "lock_sys0\<lparr>sys_pc := (\<lambda>_. Outside)(0 := Spinning, 1 := Spinning)\<rparr>"
  have "lock_step lock_sys0 ?a"
    using acquire_check [of lock_sys0 0] by (simp add: lock_sys0_def holding_by_def)
  moreover have "lock_step ?a ?b"
    using acquire_check [of ?a 1] by (simp add: lock_sys0_def holding_by_def)
  moreover have "lock_step ?b lock_sys1"
    using acquire_swap_free [of ?b 1] by (simp add: lock_sys0_def lock_sys1_def)
  ultimately show ?thesis by (meson converse_rtranclp_into_rtranclp rtranclp.rtrancl_refl)
qed

theorem spinlock_mutual_exclusion_witness:
  "lock_init lock_sys0 \<and> lock_step\<^sup>*\<^sup>* lock_sys0 lock_sys1 \<and> \<not> holding_by (sys_lock lock_sys1) 1 \<and>
   locked (sys_lock lock_sys1) \<and> \<not> (owns (sys_pc lock_sys1 0) \<and> owns (sys_pc lock_sys1 1))"
proof -
  have init: "lock_init lock_sys0" by (simp add: lock_init_def lock_sys0_def)
  show ?thesis
    using init lock_sys_run spinlock_mutual_exclusion [OF init lock_sys_run, of 0 1]
    by (simp add: holding_by_def lock_sys1_def)
qed

text \<open>
  \<^verbatim>\<open>push_off\<close> and \<^verbatim>\<open>pop_off\<close> are matched. After n+1 calls of
  \<^verbatim>\<open>push_off\<close> interrupts are off, and it takes exactly n+1 calls of \<^verbatim>\<open>pop_off\<close>, none of
  which panics, to come back to the interrupt state and nesting depth of before, so interrupts that
  were off stay off.
\<close>

lemma push_off_pop_off_matched:
  assumes "irq_ok s"
  shows "\<exists>t u. kdo (replicate (Suc n) push_off) s = Ret () t \<and> \<not> intr_get t \<and>
    kdo (replicate (Suc n) pop_off) t = Ret () u \<and>
    intr_get u = intr_get s \<and> noff (mycpu u) = noff (mycpu s) \<and> locks u = locks s"
proof (intro exI conjI)
  show "kdo (replicate (Suc n) push_off) s = Ret () ((push_st ^^ Suc n) s)"
    by (rule kdo_push_off)
  show "kdo (replicate (Suc n) pop_off) ((push_st ^^ Suc n) s) = Ret () (lockcycle s)"
    by (rule pop_n_push_n [OF assms])
  show "\<not> intr_get ((push_st ^^ Suc n) s)"
    using irq_held_push_n [OF assms] by (simp add: irq_held_def)
qed simp_all

definition boot_hart :: kst where
  "boot_hart = \<lparr>hart = \<lparr>reg_tp = 0, csr_sstatus = 2, csr_sie = 0, csr_sip = 0, csr_stvec = 0,
       csr_sepc = 0, csr_scause = 0, csr_stval = 0, csr_satp = 0\<rparr>,
     cpus = (\<lambda>_. \<lparr>cpu_proc = None, cpu_context = \<lparr>ctx_ra = 0, ctx_sp = 0, ctx_s = (\<lambda>_. 0)\<rparr>,
       noff = 0, intena = False\<rparr>),
     locks = (\<lambda>_. \<lparr>locked = False, lk_name = [], lk_cpu = None\<rparr>)\<rparr>"

lemma acquire_held: "irq_ok s \<Longrightarrow> holding lk s \<Longrightarrow> panics_with (acquire lk) ''acquire'' s"
  by (simp add: acquire_def panics_with_def run_defs push_off_eq lock_defs)

lemma acquire_spins: "locked (locks s lk) \<Longrightarrow> lk_cpu (locks s lk) \<noteq> Some (cpuid s) \<Longrightarrow>
  \<exists>t. acquire lk s = Spin lk t"
  by (simp add: acquire_def sync_lock_test_and_set_def run_defs push_off_eq lock_defs)

lemma release_not_held: "\<not> holding lk s \<Longrightarrow> panics_with (release lk) ''release'' s"
  by (simp add: release_def panics_with_def run_defs)

text \<open>
  A spinlock protects its critical section. From a state in which this hart can take the lock,
  \<^verbatim>\<open>acquire\<close> returns holding it with interrupts off; taking it again instead panics (the
  self-deadlock check); \<^verbatim>\<open>release\<close> after it gives the lock and the interrupt state back; and
  \<^verbatim>\<open>release\<close> of a lock that is not held panics.
\<close>

lemma acquire_release_contract:
  assumes "lock_ok lk s"
  shows "\<exists>t. acquire lk s = Ret () t \<and> holding lk t \<and> \<not> intr_get t \<and>
    panics_with (acquire lk) ''acquire'' t \<and>
    release lk t = Ret () (lockcycle s) \<and>
    panics_with (release lk) ''release'' s"
proof (intro exI conjI)
  have irq: "irq_ok s" using assms by (rule lock_ok_irq_ok)
  show "acquire lk s = Ret () (acq lk s)" using assms by (rule acquire_eq)
  show "holding lk (acq lk s)" by simp
  show "\<not> intr_get (acq lk s)" using acq_facts(2) [OF irq] by (simp add: irq_held_def)
  show "panics_with (acquire lk) ''acquire'' (acq lk s)" using irq by (simp add: acquire_held)
  show "release lk (acq lk s) = Ret () (lockcycle s)" using assms irq by (simp add: release_eq)
  show "panics_with (release lk) ''release'' s"
    using assms by (intro release_not_held) (auto simp: lock_ok_def holding_def)
qed

end
