(* ===== verification/Cstring.thy ===== *)
theory Cstring
  imports Prelude
begin

text \<open>
  Memory and the string library of the kernel, \<^verbatim>\<open>kernel/string.c\<close>. Physical memory is a function from addresses to bytes. A routine that
  only reads through a \<^verbatim>\<open>char *\<close> takes the bytes from that pointer on (type \<open>bytes\<close>), and
  \<^verbatim>\<open>p++\<close> is \<open>ptr_inc p\<close>; a routine that stores takes the object and an index. \<^verbatim>\<open>char\<close>
  is unsigned in the RISC-V calling convention. The lemmas show that each loop computes its
  comprehension: \<open>memmove\<close> copies also when source and destination overlap.
\<close>

section \<open>Memory as a function of addresses\<close>

type_synonym ram = "uint64 \<Rightarrow> uchar"

definition ram_get :: "ram \<Rightarrow> uint64 \<Rightarrow> nat \<Rightarrow> uchar list" where
  "ram_get m a n = map (\<lambda>i. m (a + of_nat i)) [0..<n]"

definition ram_put :: "ram \<Rightarrow> uint64 \<Rightarrow> uchar list \<Rightarrow> ram" where
  "ram_put m a xs = (\<lambda>x. if unat (x - a) < length xs then xs ! unat (x - a) else m x)"

lemma length_ram_get [simp]: "length (ram_get m a n) = n"
  by (simp add: ram_get_def)

lemma nth_ram_get [simp]: "i < n \<Longrightarrow> ram_get m a n ! i = m (a + of_nat i)"
  by (simp add: ram_get_def)

lemma ram_get_0 [simp]: "ram_get m a 0 = []"
  by (simp add: ram_get_def)

lemma ram_put_Nil [simp]: "ram_put m a [] = m"
  by (simp add: ram_put_def)

text \<open>An object of \<open>n\<close> bytes at \<open>a\<close> does not wrap around the end of the address space.\<close>

definition fits :: "uint64 \<Rightarrow> nat \<Rightarrow> bool" where
  "fits a n \<longleftrightarrow> unat a + n < 2 ^ 64"

lemma fits_less: "fits a n \<Longrightarrow> n < 2 ^ 64"
  by (simp add: fits_def)

lemma unat_of_nat_small: "i < 2 ^ 64 \<Longrightarrow> unat (of_nat i :: uint64) = i"
  by (simp add: unsigned_of_nat take_bit_nat_eq_self)

lemma unat_add_fits: "fits a n \<Longrightarrow> i \<le> n \<Longrightarrow> unat (a + of_nat i) = unat a + i"
  by (simp add: fits_def unat_word_ariths unat_of_nat_small mod_less)

lemma unat_minus_Suc: "x \<noteq> d \<Longrightarrow> unat (x - d) = Suc (unat (x - (d + 1)))" for x d :: uint64
  using unatSuc [of "x - (d + 1)"] by simp

lemma add_of_nat_unat: "a + of_nat (unat (x - a)) = (x :: uint64)"
  by simp

lemma ram_get_put_same: "length xs < 2 ^ 64 \<Longrightarrow> ram_get (ram_put m a xs) a (length xs) = xs"
  by (rule nth_equalityI) (simp_all add: ram_put_def unat_of_nat_small)

lemma ram_put_Cons: "length xs < 2 ^ 64 - 1 \<Longrightarrow>
  ram_put m a (c # xs) = ram_put (m(a := c)) (a + 1) xs"
proof
  fix x assume len: "length xs < 2 ^ 64 - 1"
  show "ram_put m a (c # xs) x = ram_put (m(a := c)) (a + 1) xs x"
  proof (cases "x = a")
    case True
    have "unat (a - (a + 1)) = 2 ^ 64 - 1" by (simp add: unsigned_minus_1_eq_mask mask_eq_exp_minus_1)
    with len True show ?thesis by (simp add: ram_put_def)
  next
    case False
    then show ?thesis by (simp add: ram_put_def unat_minus_Suc)
  qed
qed

section \<open>kernel/string.c\<close>

primrec memset_loop :: "nat \<Rightarrow> ram \<Rightarrow> uint64 \<Rightarrow> uchar \<Rightarrow> ram" where
  "memset_loop 0 m d c = m"
| "memset_loop (Suc n) m d c = memset_loop n (m(d := c)) (d + 1) c"

definition memset :: "ram \<Rightarrow> uint64 \<Rightarrow> uchar \<Rightarrow> uint \<Rightarrow> ram" where
  "memset m dst c n = memset_loop (unat n) m dst c"

primrec copy_fwd :: "nat \<Rightarrow> ram \<Rightarrow> uint64 \<Rightarrow> uint64 \<Rightarrow> ram" where
  "copy_fwd 0 m d s = m"
| "copy_fwd (Suc n) m d s = copy_fwd n (m(d := m s)) (d + 1) (s + 1)"

primrec copy_bwd :: "nat \<Rightarrow> ram \<Rightarrow> uint64 \<Rightarrow> uint64 \<Rightarrow> ram" where
  "copy_bwd 0 m d s = m"
| "copy_bwd (Suc n) m d s = copy_bwd n (m(d - 1 := m (s - 1))) (d - 1) (s - 1)"

definition memmove :: "ram \<Rightarrow> uint64 \<Rightarrow> uint64 \<Rightarrow> uint \<Rightarrow> ram" where
  "memmove m dst src n =
     (if n = 0 then m
      else if src < dst \<and> src + ucast n > dst
      then copy_bwd (unat n) m (dst + ucast n) (src + ucast n)
      else copy_fwd (unat n) m dst src)"

definition memcpy :: "ram \<Rightarrow> uint64 \<Rightarrow> uint64 \<Rightarrow> uint \<Rightarrow> ram" where
  "memcpy m dst src n = memmove m dst src n"

definition ptr_inc :: "bytes \<Rightarrow> bytes" where
  "ptr_inc p = (\<lambda>i. p (Suc i))"

primrec memcmp :: "bytes \<Rightarrow> bytes \<Rightarrow> nat \<Rightarrow> int" where
  "memcmp s1 s2 0 = 0"
| "memcmp s1 s2 (Suc n) = (if s1 0 \<noteq> s2 0 then uint (s1 0) - uint (s2 0)
     else memcmp (\<lambda>i. s1 (Suc i)) (\<lambda>i. s2 (Suc i)) n)"

fun strncmp :: "bytes \<Rightarrow> bytes \<Rightarrow> nat \<Rightarrow> int" where
  "strncmp p q n =
     (if n > 0 \<and> p 0 \<noteq> 0 \<and> p 0 = q 0 then strncmp (ptr_inc p) (ptr_inc q) (n - 1)
      else if n = 0 then 0
      else uint (p 0) - uint (q 0))"

function strncpy_copy :: "bytes \<Rightarrow> bytes \<Rightarrow> nat \<Rightarrow> int \<Rightarrow> bytes \<times> nat \<times> int" where
  "strncpy_copy s t i n =
     (if n > 0 then
        (if t i \<noteq> 0 then strncpy_copy (s(i := t i)) t (i + 1) (n - 1)
         else (s(i := t i), i + 1, n - 1))
      else (s, i, n - 1))"
  by auto
termination by (relation "measure (\<lambda>(_, _, _, n). nat n)") auto

function strncpy_pad :: "bytes \<Rightarrow> nat \<Rightarrow> int \<Rightarrow> bytes" where
  "strncpy_pad s i n = (if n > 0 then strncpy_pad (s(i := 0)) (i + 1) (n - 1) else s)"
  by auto
termination by (relation "measure (\<lambda>(_, _, n). nat n)") auto

definition strncpy :: "bytes \<Rightarrow> bytes \<Rightarrow> int \<Rightarrow> bytes" where
  "strncpy s t n = (let (s', i, n') = strncpy_copy s t 0 n in strncpy_pad s' i n')"

function safestrcpy_loop :: "bytes \<Rightarrow> bytes \<Rightarrow> nat \<Rightarrow> int \<Rightarrow> bytes \<times> nat" where
  "safestrcpy_loop s t i n =
     (if n - 1 > 0 then
        (if t i \<noteq> 0 then safestrcpy_loop (s(i := t i)) t (i + 1) (n - 1)
         else (s(i := t i), i + 1))
      else (s, i))"
  by auto
termination by (relation "measure (\<lambda>(_, _, _, n). nat n)") auto

definition safestrcpy :: "bytes \<Rightarrow> bytes \<Rightarrow> int \<Rightarrow> bytes" where
  "safestrcpy s t n =
     (if n \<le> 0 then s
      else (let (s', i) = safestrcpy_loop s t 0 n in s'(i := 0)))"

partial_function (option) strlen_from :: "bytes \<Rightarrow> nat \<Rightarrow> nat option" where
  "strlen_from s n = (if s n \<noteq> 0 then strlen_from s (n + 1) else Some n)"

definition strlen :: "bytes \<Rightarrow> nat option" where
  "strlen s = strlen_from s 0"

declare strncmp.simps [simp del] strncpy_copy.simps [simp del] strncpy_pad.simps [simp del]
  safestrcpy_loop.simps [simp del]

section \<open>The loops compute their comprehensions\<close>

lemma memset_loop_eq: "n < 2 ^ 64 - 1 \<Longrightarrow> memset_loop n m d c = ram_put m d (replicate n c)"
  by (induction n arbitrary: m d) (simp_all add: ram_put_Cons)

lemma memset_eq: "memset m d c n = ram_put m d (replicate (unat n) c)"
proof -
  have "unat n < 2 ^ 32" using unsigned_less [of n] by simp
  then show ?thesis by (simp add: memset_def memset_loop_eq)
qed

lemma copy_fwd_eq:
  assumes "fits d n" "fits s n" "unat d \<le> unat s \<or> unat s + n \<le> unat d"
  shows "copy_fwd n m d s = ram_put m d (ram_get m s n)"
  using assms
proof (induction n arbitrary: m d s)
  case 0
  then show ?case by simp
next
  case (Suc n)
  have d1: "unat (d + 1) = unat d + 1" and s1: "unat (s + 1) = unat s + 1"
    using Suc.prems unat_add_fits [of d "Suc n" 1] unat_add_fits [of s "Suc n" 1] by simp_all
  have "copy_fwd (Suc n) m d s = ram_put (m(d := m s)) (d + 1) (ram_get (m(d := m s)) (s + 1) n)"
    using Suc.prems d1 s1 unfolding copy_fwd.simps by (intro Suc.IH) (auto simp: fits_def)
  also have "ram_get (m(d := m s)) (s + 1) n = ram_get m (s + 1) n"
  proof (rule nth_equalityI)
    fix i assume "i < length (ram_get (m(d := m s)) (s + 1) n)"
    then have i: "i < n" by simp
    then have "unat (s + 1 + of_nat i) = unat s + 1 + i"
      using Suc.prems s1 unat_add_fits [of "s + 1" n i] by (simp add: fits_def)
    then have "s + 1 + of_nat i \<noteq> d" using i Suc.prems by auto
    then show "ram_get (m(d := m s)) (s + 1) n ! i = ram_get m (s + 1) n ! i" using i by simp
  qed simp
  also have "ram_put (m(d := m s)) (d + 1) (ram_get m (s + 1) n)
      = ram_put m d (m s # ram_get m (s + 1) n)"
    using Suc.prems by (subst ram_put_Cons) (simp_all add: fits_def)
  also have "m s # ram_get m (s + 1) n = ram_get m s (Suc n)"
    by (rule nth_equalityI) (simp_all add: nth_Cons ac_simps split: nat.split)
  finally show ?case .
qed

lemma copy_bwd_eq:
  assumes "fits d n" "fits s n" "unat s \<le> unat d"
  shows "copy_bwd n m (d + of_nat n) (s + of_nat n) = ram_put m d (ram_get m s n)"
  using assms
proof (induction n arbitrary: m)
  case 0
  then show ?case by simp
next
  case (Suc n)
  let ?m = "m(d + of_nat n := m (s + of_nat n))"
  have ne: "s + of_nat i \<noteq> d + of_nat n" if "i < n" for i
    using Suc.prems that unat_add_fits [of s "Suc n" i] unat_add_fits [of d "Suc n" n] by auto
  have "copy_bwd (Suc n) m (d + of_nat (Suc n)) (s + of_nat (Suc n))
      = copy_bwd n ?m (d + of_nat n) (s + of_nat n)"
    by (simp add: algebra_simps)
  also have "\<dots> = ram_put ?m d (ram_get ?m s n)"
    using Suc by (simp add: fits_def)
  also have "ram_get ?m s n = ram_get m s n"
    by (rule nth_equalityI) (simp_all add: ne)
  also have "ram_put ?m d (ram_get m s n) = ram_put m d (ram_get m s (Suc n))"
  proof
    fix x
    have "unat (d + of_nat n - d) = n" using Suc.prems by (simp add: unat_of_nat_small fits_def)
    then show "ram_put ?m d (ram_get m s n) x = ram_put m d (ram_get m s (Suc n)) x"
      by (cases "x = d + of_nat n") (auto simp: ram_put_def less_Suc_eq)
  qed
  finally show ?case .
qed

lemma memmove_eq:
  assumes "fits d (unat n)" "fits s (unat n)"
  shows "memmove m d s n = ram_put m d (ram_get m s (unat n))"
proof -
  have s: "unat (s + ucast n) = unat s + unat n"
    using assms(2) unat_add_fits [of s "unat n" "unat n"] by simp
  show ?thesis
  proof (cases "s < d \<and> s + ucast n > d")
    case True
    then have "memmove m d s n = copy_bwd (unat n) m (d + of_nat (unat n)) (s + of_nat (unat n))"
      by (auto simp: memmove_def)
    then show ?thesis
      using assms True by (simp only: copy_bwd_eq word_less_nat_alt less_imp_le)
  next
    case False
    then have "memmove m d s n = copy_fwd (unat n) m d s"
      by (auto simp: memmove_def)
    moreover have "unat d \<le> unat s \<or> unat s + unat n \<le> unat d"
      using False s by (auto simp: word_less_nat_alt)
    ultimately show ?thesis using assms by (simp only: copy_fwd_eq)
  qed
qed

section \<open>Strings\<close>

text \<open>\<open>nul_free t i\<close>: no terminator before index \<open>i\<close>.\<close>

definition nul_free :: "bytes \<Rightarrow> nat \<Rightarrow> bool" where
  "nul_free t i \<longleftrightarrow> (\<forall>j < i. t j \<noteq> 0)"

lemma nul_free_0 [simp]: "nul_free t 0"
  by (simp add: nul_free_def)

lemma nul_free_Suc: "nul_free t (Suc i) \<longleftrightarrow> nul_free t i \<and> t i \<noteq> 0"
  by (auto simp: nul_free_def less_Suc_eq)

lemma nul_free_mono: "nul_free t i \<Longrightarrow> j \<le> i \<Longrightarrow> nul_free t j"
  by (simp add: nul_free_def)

lemma nul_free_iff: "nul_free t j \<Longrightarrow> t j = 0 \<Longrightarrow> nul_free t k \<longleftrightarrow> k \<le> j"
  by (meson not_le nul_free_def nul_free_mono)

lemma nul_free_ptr_inc: "t 0 \<noteq> 0 \<Longrightarrow> nul_free (ptr_inc t) i \<longleftrightarrow> nul_free t (Suc i)"
  by (auto simp: nul_free_def ptr_inc_def less_Suc_eq_0_disj)

lemma strncmp_eq_0_iff: "strncmp p q n = 0 \<longleftrightarrow> (\<forall>i < n. nul_free p i \<longrightarrow> p i = q i)"
proof (induction n arbitrary: p q)
  case 0
  then show ?case by (simp add: strncmp.simps)
next
  case (Suc n)
  show ?case
  proof (cases "p 0 \<noteq> 0 \<and> p 0 = q 0")
    case True
    then have "strncmp p q (Suc n) = 0 \<longleftrightarrow> (\<forall>i < n. nul_free p (Suc i) \<longrightarrow> p (Suc i) = q (Suc i))"
      by (subst strncmp.simps) (auto simp: Suc nul_free_ptr_inc, auto simp: ptr_inc_def)
    also have "\<dots> \<longleftrightarrow> (\<forall>i < Suc n. nul_free p i \<longrightarrow> p i = q i)"
      using True by (auto simp: less_Suc_eq_0_disj)
    finally show ?thesis .
  next
    case False
    have "nul_free p i \<Longrightarrow> i = 0" if "p 0 = 0" for i
      using that by (cases i) (auto simp: nul_free_def)
    moreover have "strncmp p q (Suc n) = 0 \<longleftrightarrow> p 0 = q 0"
      using False by (subst strncmp.simps) (auto simp: word_uint_eq_iff)
    ultimately show ?thesis using False by auto
  qed
qed

lemma strncpy_pad_apply:
  "strncpy_pad s i n k = (if i \<le> k \<and> int k < int i + n then 0 else s k)"
  by (induction s i n rule: strncpy_pad.induct) (subst strncpy_pad.simps, auto simp: fun_upd_def)

lemma strncpy_copy_spec:
  "strncpy_copy s t i n = (s', i', n') \<Longrightarrow> nul_free t i \<Longrightarrow> 0 \<le> n \<Longrightarrow>
   i \<le> i' \<and> (\<forall>k. s' k = (if i \<le> k \<and> k < i' then t k else s k)) \<and>
   (n' = -1 \<and> int i' = int i + n \<and> nul_free t i' \<or>
    0 \<le> n' \<and> int i' + n' = int i + n \<and> i < i' \<and> t (i' - 1) = 0 \<and> nul_free t (i' - 1))"
proof (induction s t i n rule: strncpy_copy.induct)
  case (1 s t i n)
  show ?case
  proof (cases "n > 0 \<and> t i \<noteq> 0")
    case True
    then have "strncpy_copy (s(i := t i)) t (i + 1) (n - 1) = (s', i', n')"
      using "1.prems" by (simp add: strncpy_copy.simps [of s t i n])
    then show ?thesis
      using True "1.prems" "1.IH" by (auto simp: nul_free_Suc fun_upd_def)
  next
    case False
    then show ?thesis
      using "1.prems" by (auto simp: strncpy_copy.simps [of s t i n] less_Suc_eq split: if_splits)
  qed
qed

lemma strncpy_apply:
  assumes "0 \<le> n"
  shows "strncpy s t n k = (if int k < n then (if nul_free t k then t k else 0) else s k)"
proof -
  obtain s' i n' where c: "strncpy_copy s t 0 n = (s', i, n')"
    by (cases "strncpy_copy s t 0 n") auto
  note spec = strncpy_copy_spec [OF c nul_free_0 assms]
  have "nul_free t k \<longleftrightarrow> k < i" if "t (i - 1) = 0" "nul_free t (i - 1)" "0 < i"
    using that nul_free_iff [of t "i - 1" k] by auto
  then show ?thesis
    using spec nul_free_mono [of t i k] by (auto simp: strncpy_def c strncpy_pad_apply)
qed

lemma safestrcpy_loop_spec:
  "safestrcpy_loop s t i n = (s', i') \<Longrightarrow> nul_free t i \<Longrightarrow> 0 < n \<Longrightarrow>
   i \<le> i' \<and> int i' < int i + n \<and> (\<forall>k. s' k = (if i \<le> k \<and> k < i' then t k else s k)) \<and>
   (int i' = int i + n - 1 \<and> nul_free t i' \<or> i < i' \<and> t (i' - 1) = 0 \<and> nul_free t (i' - 1))"
proof (induction s t i n rule: safestrcpy_loop.induct)
  case (1 s t i n)
  show ?case
  proof (cases "n - 1 > 0 \<and> t i \<noteq> 0")
    case True
    then have "safestrcpy_loop (s(i := t i)) t (i + 1) (n - 1) = (s', i')"
      using "1.prems" by (simp add: safestrcpy_loop.simps [of s t i n])
    then show ?thesis
      using True "1.prems" "1.IH" by (auto simp: nul_free_Suc fun_upd_def)
  next
    case False
    then show ?thesis
      using "1.prems" by (auto simp: safestrcpy_loop.simps [of s t i n] less_Suc_eq split: if_splits)
  qed
qed

lemma strlen_from_eq: "nul_free s n \<Longrightarrow> m \<le> n \<Longrightarrow> s n = 0 \<Longrightarrow> strlen_from s m = Some n"
proof (induction "n - m" arbitrary: m)
  case 0
  then show ?case by (subst strlen_from.simps) simp
next
  case (Suc k)
  then have "s m \<noteq> 0" by (simp add: nul_free_def)
  then show ?case using Suc by (subst strlen_from.simps) simp
qed

lemma strlen_eq: "nul_free s n \<Longrightarrow> s n = 0 \<Longrightarrow> strlen s = Some n"
  by (simp add: strlen_def strlen_from_eq)

section \<open>Properties\<close>

text \<open>
  \<^verbatim>\<open>memmove\<close> (and \<^verbatim>\<open>memcpy\<close>) copies correctly whether or not the two areas
  overlap: afterwards the \<open>n\<close> destination bytes are what the \<open>n\<close> source bytes were before the
  call, and no byte outside the destination has changed.
\<close>

lemma memmove_overlap_correct:
  assumes "fits dst (unat n)" and "fits src (unat n)"
  shows "(\<forall>i < unat n. memmove m dst src n (dst + of_nat i) = m (src + of_nat i)) \<and>
    (\<forall>x. unat n \<le> unat (x - dst) \<longrightarrow> memmove m dst src n x = m x) \<and>
    memcpy m dst src n = memmove m dst src n"
proof -
  have "unat (of_nat i :: uint64) = i" if "i < unat n" for i
    using that assms fits_less unat_of_nat_small by (meson less_trans)
  then show ?thesis
    using assms by (auto simp: memmove_eq ram_put_def memcpy_def)
qed

text \<open>
  C28: \<^verbatim>\<open>safestrcpy\<close> copies at most \<open>n - 1\<close> bytes, stores only inside the \<open>n\<close> bytes of the
  destination and always leaves a terminated string that is the source string or its longest prefix
  that fits.
\<close>

theorem safestrcpy_terminates_string:
  assumes "0 < n"
  shows "\<exists>k. int k < n \<and> safestrcpy s t n k = 0 \<and>
    (\<forall>i < k. safestrcpy s t n i = t i \<and> t i \<noteq> 0) \<and>
    (int k = n - 1 \<or> t k = 0) \<and>
    (\<forall>i. n \<le> int i \<longrightarrow> safestrcpy s t n i = s i)"
proof -
  obtain s' i where l: "safestrcpy_loop s t 0 n = (s', i)"
    by (cases "safestrcpy_loop s t 0 n")
  have r: "safestrcpy s t n = s'(i := 0)"
    using assms by (simp add: safestrcpy_def l)
  note spec = safestrcpy_loop_spec [OF l nul_free_0 assms]
  then consider "int i = n - 1" "nul_free t i" | "0 < i" "t (i - 1) = 0" "nul_free t (i - 1)" by auto
  then show ?thesis
  proof cases
    case 1
    then show ?thesis using spec assms
      by (intro exI [of _ i]) (auto simp: r nul_free_def)
  next
    case 2
    then show ?thesis using spec assms
      by (intro exI [of _ "i - 1"]) (auto simp: r nul_free_def)
  qed
qed

theorem safestrcpy_terminates_string_witness:
  "0 < (3 :: int) \<and>
   (\<exists>k. int k < 3 \<and> safestrcpy (\<lambda>_. 7) (\<lambda>i. of_nat i + 1) 3 k = 0 \<and>
    (int k = 2 \<or> (of_nat k + 1 :: uchar) = 0)) \<and> safestrcpy (\<lambda>_. 7) (\<lambda>i. of_nat i + 1) 3 5 = 7"
proof -
  have p: "0 < (3 :: int)" by simp
  note t = safestrcpy_terminates_string [OF p, of "\<lambda>_. 7" "\<lambda>i. of_nat i + 1"]
  show ?thesis
  proof (intro conjI)
    show "\<exists>k. int k < 3 \<and> safestrcpy (\<lambda>_. 7) (\<lambda>i. of_nat i + 1) 3 k = 0 \<and>
      (int k = 2 \<or> (of_nat k + 1 :: uchar) = 0)"
      using t by (elim exE) (auto intro!: exI)
    have "(3 :: int) \<le> int 5" by simp
    with t show "safestrcpy (\<lambda>_. 7) (\<lambda>i. of_nat i + 1) 3 5 = 7" by blast
  qed simp
qed

end
