(* ===== verification/Kalloc.thy ===== *)
theory Kalloc
  imports Cstring Layout Spinlock
begin

text \<open>
  The physical page allocator, \<^verbatim>\<open>kernel/kalloc.c\<close>. The state gains the physical memory, the
  head of the free list and the addresses the linker chooses (\<^verbatim>\<open>end\<close> and the other symbols of
  \<^verbatim>\<open>kernel.ld\<close>, which no operation changes). A free page holds the address of the next one in
  its first eight bytes, as \<^verbatim>\<open>struct run\<close> does; address 0 is the null pointer. The lemmas
  show that the list in memory is a list of distinct valid pages, that \<open>kalloc\<close> and \<open>kfree\<close> are
  pop and push on it and change no byte outside the page they handle, and that \<open>kinit\<close> frees
  every whole page exactly once.
\<close>

section \<open>State\<close>

record symtab =
  sym_end :: uint64
  sym_etext :: uint64
  sym_trampoline :: uint64
  sym_forkret :: uint64
  sym_usertrap :: uint64
  sym_uservec :: uint64
  sym_userret :: uint64
  sym_kernelvec :: uint64

record kmem_st = kst +
  mem :: ram
  freelist :: uint64
  syms :: symtab

text \<open>Loads and stores of a \<^verbatim>\<open>uint64\<close>.\<close>

definition load64 :: "ram \<Rightarrow> uint64 \<Rightarrow> uint64" where
  "load64 m a = le_word (ram_get m a 8)"

definition store64 :: "ram \<Rightarrow> uint64 \<Rightarrow> uint64 \<Rightarrow> ram" where
  "store64 m a v = ram_put m a (le_bytes 8 v)"

section \<open>Operations\<close>

definition kfree :: "uint64 \<Rightarrow> (unit, 'a kmem_st_scheme) kmonad" where
  "kfree pa = kdo [
     panic_if (\<lambda>s. pa mod PGSIZE \<noteq> 0 \<or> pa < sym_end (syms s) \<or> pa \<ge> PHYSTOP) ''kfree'',
     kmodify (\<lambda>s. s\<lparr>mem := memset (mem s) pa 1 (ucast PGSIZE)\<rparr>),
     acquire KmemLock,
     kmodify (\<lambda>s. s\<lparr>mem := store64 (mem s) pa (freelist s)\<rparr>),
     kmodify (\<lambda>s. s\<lparr>freelist := pa\<rparr>),
     release KmemLock]"

definition kalloc :: "(uint64, 'a kmem_st_scheme) kmonad" where
  "kalloc = kthen [acquire KmemLock] (kbind (kgets freelist) (\<lambda>r. kthen [
     kwhen (\<lambda>_. r \<noteq> 0) (kmodify (\<lambda>s. s\<lparr>freelist := load64 (mem s) r\<rparr>)),
     release KmemLock,
     kwhen (\<lambda>_. r \<noteq> 0) (kmodify (\<lambda>s. s\<lparr>mem := memset (mem s) r 5 (ucast PGSIZE)\<rparr>))]
     (kreturn r)))"

text \<open>The values of \<^verbatim>\<open>p\<close> in the loop of \<^verbatim>\<open>freerange\<close>; pointers do not wrap.\<close>

function page_range :: "uint64 \<Rightarrow> uint64 \<Rightarrow> uint64 list" where
  "page_range p e = (if unat p + 4096 \<le> unat e then p # page_range (p + PGSIZE) e else [])"
  by auto
termination
proof (relation "measure (\<lambda>(p, e). unat e - unat p)")
  fix p e :: uint64 assume a: "unat p + 4096 \<le> unat e"
  then have "unat (p + 4096) = unat p + 4096"
    using unat_less_64 [of e] by (simp add: unat_word_ariths)
  with a show "((p + PGSIZE, e), p, e) \<in> measure (\<lambda>(p, e). unat e - unat p)" by simp
qed simp

definition freerange :: "uint64 \<Rightarrow> uint64 \<Rightarrow> (unit, 'a kmem_st_scheme) kmonad" where
  "freerange pa_start pa_end = kforeach (page_range (PGROUNDUP pa_start) pa_end) kfree"

definition kinit :: "(unit, 'a kmem_st_scheme) kmonad" where
  "kinit = kthen [initlock KmemLock ''kmem''] (kbind (kgets (sym_end \<circ> syms)) (\<lambda>e.
     freerange e PHYSTOP))"

section \<open>Frames\<close>

lemma kmem_frame_proj [simp]:
  "mem (acq lk s) = mem s"
  "mem (rel lk s) = mem s"
  "mem (lockcycle s) = mem s"
  "freelist (acq lk s) = freelist s"
  "freelist (rel lk s) = freelist s"
  "freelist (lockcycle s) = freelist s"
  "syms (acq lk s) = syms s"
  "syms (rel lk s) = syms s"
  "syms (lockcycle s) = syms s"
  by (simp_all add: lock_defs Let_def)

lemma kmem_frame_lock [simp]:
  "lock_ok lk (mem_update f0 s) = lock_ok lk s"
  "holding lk (mem_update f0 s) = holding lk s"
  "irq_ok (mem_update f0 s) = irq_ok s"
  "irq_held (mem_update f0 s) = irq_held s"
  "intr_get (mem_update f0 s) = intr_get s"
  "cpuid (mem_update f0 s) = cpuid s"
  "mycpu (mem_update f0 s) = mycpu s"
  "lock_ok lk (freelist_update f1 s) = lock_ok lk s"
  "holding lk (freelist_update f1 s) = holding lk s"
  "irq_ok (freelist_update f1 s) = irq_ok s"
  "irq_held (freelist_update f1 s) = irq_held s"
  "intr_get (freelist_update f1 s) = intr_get s"
  "cpuid (freelist_update f1 s) = cpuid s"
  "mycpu (freelist_update f1 s) = mycpu s"
  "lock_ok lk (syms_update f2 s) = lock_ok lk s"
  "holding lk (syms_update f2 s) = holding lk s"
  "irq_ok (syms_update f2 s) = irq_ok s"
  "irq_held (syms_update f2 s) = irq_held s"
  "intr_get (syms_update f2 s) = intr_get s"
  "cpuid (syms_update f2 s) = cpuid s"
  "mycpu (syms_update f2 s) = mycpu s"
  by (simp_all add: lock_defs)

lemma kmem_frame_comm [simp]:
  "acq lk (mem_update f0 s) = mem_update f0 (acq lk s)"
  "rel lk (mem_update f0 s) = mem_update f0 (rel lk s)"
  "lockcycle (mem_update f0 s) = mem_update f0 (lockcycle s)"
  "acq lk (freelist_update f1 s) = freelist_update f1 (acq lk s)"
  "rel lk (freelist_update f1 s) = freelist_update f1 (rel lk s)"
  "lockcycle (freelist_update f1 s) = freelist_update f1 (lockcycle s)"
  "acq lk (syms_update f2 s) = syms_update f2 (acq lk s)"
  "rel lk (syms_update f2 s) = syms_update f2 (rel lk s)"
  "lockcycle (syms_update f2 s) = syms_update f2 (lockcycle s)"
  by (simp_all add: lock_defs Let_def)

lemma load64_store64_same [simp]: "load64 (store64 m a v) a = v"
proof -
  have "ram_get (ram_put m a (le_bytes 8 v)) a 8 = le_bytes 8 v"
    using ram_get_put_same [of "le_bytes 8 v" m a] by simp
  then show ?thesis by (simp add: load64_def store64_def le_word_le_bytes)
qed

text \<open>Writes inside one page are not seen in another.\<close>

definition in_page :: "uint64 \<Rightarrow> uint64 \<Rightarrow> bool" where
  "in_page p a \<longleftrightarrow> PGROUNDDOWN a = p"

lemma in_page_offset:
  assumes "page_aligned p" and "unat (x - p) < 4096"
  shows "in_page p x"
proof -
  have "x - p < PGSIZE" using assms(2) by (simp add: word_less_nat_alt)
  from PGROUNDDOWN_add(1) [OF assms(1) this] show ?thesis by (simp add: in_page_def)
qed

lemma ram_put_in_page:
  assumes "page_aligned p" "length xs \<le> 4096" "\<not> in_page p x"
  shows "ram_put m p xs x = m x"
  using assms in_page_offset [of p x] by (auto simp: ram_put_def)

lemma in_page_add:
  "page_aligned p \<Longrightarrow> i < 4096 \<Longrightarrow> in_page p (p + of_nat i)"
  by (rule in_page_offset) (simp_all add: unat_of_nat_small)

lemma ram_get_cong:
  "(\<And>i. i < n \<Longrightarrow> m (a + of_nat i) = m' (a + of_nat i)) \<Longrightarrow> ram_get m a n = ram_get m' a n"
  by (simp add: ram_get_def)

lemma load64_other_page:
  assumes "page_aligned q" "\<And>x. in_page q x \<Longrightarrow> m' x = m x"
  shows "load64 m' q = load64 m q"
  unfolding load64_def
  by (rule arg_cong [of _ _ le_word], rule ram_get_cong) (simp add: assms in_page_add)

lemma in_page_unique: "in_page p x \<Longrightarrow> in_page q x \<Longrightarrow> p = q"
  by (simp add: in_page_def)

lemma in_page_other: "x \<in> set xs \<Longrightarrow> in_page x a \<Longrightarrow> p \<notin> set xs \<Longrightarrow> \<not> in_page p a"
  by (auto simp: in_page_def)

lemma memset_page_other: "page_aligned p \<Longrightarrow> \<not> in_page p x \<Longrightarrow> memset m p c 4096 x = m x"
  by (simp add: memset_eq ram_put_in_page)

lemma store64_page_other: "page_aligned p \<Longrightarrow> \<not> in_page p x \<Longrightarrow> store64 m p v x = m x"
  by (simp add: store64_def ram_put_in_page)

section \<open>The free list\<close>

primrec flist :: "ram \<Rightarrow> uint64 \<Rightarrow> uint64 list \<Rightarrow> bool" where
  "flist m p [] \<longleftrightarrow> p = 0"
| "flist m p (x # xs) \<longleftrightarrow> p = x \<and> x \<noteq> 0 \<and> flist m (load64 m x) xs"

definition page_ok :: "symtab \<Rightarrow> uint64 \<Rightarrow> bool" where
  "page_ok sy p \<longleftrightarrow> page_aligned p \<and> sym_end sy \<le> p \<and> p < PHYSTOP \<and> p \<noteq> 0"

definition kmem_inv :: "'a kmem_st_scheme \<Rightarrow> uint64 list \<Rightarrow> bool" where
  "kmem_inv s xs \<longleftrightarrow> flist (mem s) (freelist s) xs \<and> distinct xs \<and> list_all (page_ok (syms s)) xs"

lemma flist_unique: "flist m p xs \<Longrightarrow> flist m p ys \<Longrightarrow> xs = ys"
proof (induction xs arbitrary: p ys)
  case Nil
  then show ?case by (cases ys) auto
next
  case (Cons x xs)
  then show ?case by (cases ys) auto
qed

lemma flist_frame:
  "flist m p xs \<Longrightarrow> list_all page_aligned xs \<Longrightarrow> (\<And>x a. x \<in> set xs \<Longrightarrow> in_page x a \<Longrightarrow> m' a = m a) \<Longrightarrow>
   flist m' p xs"
proof (induction xs arbitrary: p)
  case (Cons x xs)
  then have "load64 m' x = load64 m x" by (intro load64_other_page) auto
  with Cons show ?case by auto
qed simp

lemma page_ok_aligned: "page_ok sy p \<Longrightarrow> page_aligned p"
  by (simp add: page_ok_def)

lemma list_all_page_ok: "list_all (page_ok sy) xs \<Longrightarrow> list_all page_aligned xs"
  by (auto simp: list_all_iff page_ok_aligned)

lemma page_ok_kfree: "page_ok sy p \<Longrightarrow> \<not> (p mod PGSIZE \<noteq> 0 \<or> p < sym_end sy \<or> p \<ge> PHYSTOP)"
  by (auto simp: page_ok_def page_aligned_def)

declare page_range.simps [simp del]

text \<open>The effects of the two operations as functions of the state.\<close>

definition kfree_st :: "uint64 \<Rightarrow> 'a kmem_st_scheme \<Rightarrow> 'a kmem_st_scheme" where
  "kfree_st p s = (lockcycle s)\<lparr>mem := store64 (memset (mem s) p 1 (ucast PGSIZE)) p (freelist s),
     freelist := p\<rparr>"

definition kalloc_st :: "'a kmem_st_scheme \<Rightarrow> 'a kmem_st_scheme" where
  "kalloc_st s = (if freelist s = 0 then lockcycle s
     else (lockcycle s)\<lparr>freelist := load64 (mem s) (freelist s),
       mem := memset (mem s) (freelist s) 5 (ucast PGSIZE)\<rparr>)"

lemma wp_kfree [wp_simps]:
  assumes "lock_ok KmemLock s" "page_ok (syms s) p"
  shows "wp (kfree p) Q s = Q () (kfree_st p s)"
proof -
  have "irq_ok s" using assms(1) by (rule lock_ok_irq_ok)
  then show ?thesis
    using assms page_ok_kfree [OF assms(2)]
    by (simp add: kfree_def wp_simps kfree_st_def comp_def)
qed

lemma kfree_panics:
  "\<not> page_aligned p \<or> p < sym_end (syms s) \<or> p \<ge> PHYSTOP \<Longrightarrow> panics_with (kfree p) ''kfree'' s"
  by (auto simp: kfree_def panics_with_def run_defs page_aligned_def)

lemma wp_kalloc [wp_simps]:
  assumes "lock_ok KmemLock s"
  shows "wp kalloc Q s = Q (freelist s) (kalloc_st s)"
proof -
  have "irq_ok s" using assms(1) by (rule lock_ok_irq_ok)
  then show ?thesis
    using assms by (simp add: kalloc_def wp_simps kalloc_st_def)
qed

lemma kfree_eq: "lock_ok KmemLock s \<Longrightarrow> page_ok (syms s) p \<Longrightarrow> kfree p s = Ret () (kfree_st p s)"
  using wp_kfree [of s p "\<lambda>a t. a = () \<and> t = kfree_st p s"] by (simp add: wp_iff_Ret)

lemma kalloc_eq: "lock_ok KmemLock s \<Longrightarrow> kalloc s = Ret (freelist s) (kalloc_st s)"
  using wp_kalloc [of s "\<lambda>a t. a = freelist s \<and> t = kalloc_st s"] by (simp add: wp_iff_Ret)

lemma alloc_st_facts [simp]:
  "syms (kfree_st p s) = syms s" "syms (kalloc_st s) = syms s"
  "lock_ok lk (kfree_st p s) = lock_ok lk s" "lock_ok lk (kalloc_st s) = lock_ok lk s"
  "irq_ok (kfree_st p s) = irq_ok s" "irq_ok (kalloc_st s) = irq_ok s"
  "holding lk (kfree_st p s) = holding lk s" "holding lk (kalloc_st s) = holding lk s"
  "irq_held (kfree_st p s) = irq_held s" "irq_held (kalloc_st s) = irq_held s"
  by (simp_all add: kfree_st_def kalloc_st_def)

lemma kfree_st_mem:
  "page_aligned p \<Longrightarrow> \<not> in_page p a \<Longrightarrow> mem (kfree_st p s) a = mem s a"
  by (simp add: kfree_st_def store64_page_other memset_page_other)

lemma kmem_inv_head:
  "kmem_inv s (x # xs) \<Longrightarrow> freelist s = x \<and> page_ok (syms s) x \<and> x \<notin> set xs"
  "kmem_inv s [] \<Longrightarrow> freelist s = 0"
  by (simp_all add: kmem_inv_def)

lemma kmem_inv_list: "kmem_inv s xs \<Longrightarrow> freelist s = 0 \<longleftrightarrow> xs = []"
  by (cases xs) (auto simp: kmem_inv_def)

lemma kalloc_st_mem:
  "kmem_inv s (x # xs) \<Longrightarrow> \<not> in_page x a \<Longrightarrow> mem (kalloc_st s) a = mem s a"
  using kmem_inv_head(1) [of s x xs]
  by (auto simp: kalloc_st_def memset_page_other page_ok_def)

lemma kmem_inv_kfree:
  assumes "kmem_inv s xs" "page_ok (syms s) p" "p \<notin> set xs"
  shows "kmem_inv (kfree_st p s) (p # xs)"
proof -
  have al: "list_all page_aligned xs" and p: "page_aligned p"
    using assms by (auto simp: kmem_inv_def list_all_page_ok page_ok_aligned)
  have "flist (mem (kfree_st p s)) (freelist s) xs"
  proof (rule flist_frame)
    show "flist (mem s) (freelist s) xs" using assms(1) by (simp add: kmem_inv_def)
    show "mem (kfree_st p s) a = mem s a" if "x \<in> set xs" "in_page x a" for x a
      by (rule kfree_st_mem [OF p in_page_other [OF that assms(3)]])
  qed (rule al)
  moreover have "load64 (mem (kfree_st p s)) p = freelist s" "freelist (kfree_st p s) = p"
    by (simp_all add: kfree_st_def)
  ultimately show ?thesis using assms by (simp add: kmem_inv_def page_ok_def)
qed

lemma kmem_inv_kalloc:
  assumes "kmem_inv s (x # xs)"
  shows "kmem_inv (kalloc_st s) xs"
proof -
  have al: "list_all page_aligned xs"
    using assms by (auto simp: kmem_inv_def list_all_page_ok)
  have x: "x \<notin> set xs" using assms by (simp add: kmem_inv_def)
  have "flist (mem (kalloc_st s)) (load64 (mem s) x) xs"
  proof (rule flist_frame)
    show "flist (mem s) (load64 (mem s) x) xs" using assms by (simp add: kmem_inv_def)
    show "mem (kalloc_st s) a = mem s a" if "y \<in> set xs" "in_page y a" for y a
      by (rule kalloc_st_mem [OF assms in_page_other [OF that x]])
  qed (rule al)
  moreover have "freelist (kalloc_st s) = load64 (mem s) x"
    using assms by (auto simp: kalloc_st_def kmem_inv_def)
  ultimately show ?thesis using assms by (simp add: kmem_inv_def)
qed

lemma kmem_inv_kalloc_empty: "kmem_inv s [] \<Longrightarrow> kalloc_st s = lockcycle s"
  by (simp add: kalloc_st_def kmem_inv_def)

lemma kmem_inv_lockcycle [simp]: "kmem_inv (lockcycle s) xs = kmem_inv s xs"
  by (simp add: kmem_inv_def)

section \<open>The allocator as an interface\<close>

text \<open>
  What the rest of the kernel relies on: \<open>pool s xs\<close> says that the free pages are \<open>xs\<close>. A page
  that is handed out leaves the pool, a page that is given back enters it, and memory changes only
  in that page.
\<close>

locale page_allocator =
  fixes pool :: "'s \<Rightarrow> uint64 list \<Rightarrow> bool"
    and ready :: "'s \<Rightarrow> bool"
    and valid :: "'s \<Rightarrow> uint64 \<Rightarrow> bool"
    and content :: "'s \<Rightarrow> ram"
    and alloc :: "(uint64, 's) kmonad"
    and dealloc :: "uint64 \<Rightarrow> (unit, 's) kmonad"
  assumes pool_distinct: "pool s xs \<Longrightarrow> distinct xs \<and> 0 \<notin> set xs"
    and pool_valid: "pool s xs \<Longrightarrow> x \<in> set xs \<Longrightarrow> valid s x"
    and alloc_empty: "ready s \<Longrightarrow> pool s [] \<Longrightarrow>
      \<exists>t. alloc s = Ret 0 t \<and> ready t \<and> pool t [] \<and> content t = content s"
    and alloc_page: "ready s \<Longrightarrow> pool s (x # xs) \<Longrightarrow>
      \<exists>t. alloc s = Ret x t \<and> ready t \<and> pool t xs \<and> valid t = valid s \<and>
        (\<forall>a. \<not> in_page x a \<longrightarrow> content t a = content s a)"
    and dealloc_page: "ready s \<Longrightarrow> pool s xs \<Longrightarrow> valid s x \<Longrightarrow> x \<notin> set xs \<Longrightarrow>
      \<exists>t. dealloc x s = Ret () t \<and> ready t \<and> pool t (x # xs) \<and> valid t = valid s \<and>
        (\<forall>a. \<not> in_page x a \<longrightarrow> content t a = content s a)"
begin

text \<open>A page that is freed is the next one handed out.\<close>

lemma alloc_after_dealloc:
  assumes "ready s" "pool s xs" "valid s x" "x \<notin> set xs"
  shows "\<exists>t. kbind (dealloc x) (\<lambda>_. alloc) s = Ret x t \<and> ready t \<and> pool t xs \<and>
    (\<forall>a. \<not> in_page x a \<longrightarrow> content t a = content s a)"
proof -
  from dealloc_page [OF assms] obtain t where t: "dealloc x s = Ret () t" "ready t" "pool t (x # xs)"
    "\<And>a. \<not> in_page x a \<Longrightarrow> content t a = content s a" by blast
  from alloc_page [OF t(2,3)] obtain u where u: "alloc t = Ret x u" "ready u" "pool u xs"
    "\<And>a. \<not> in_page x a \<Longrightarrow> content u a = content t a" by blast
  have "kbind (dealloc x) (\<lambda>_. alloc) s = Ret x u" using t u by (simp add: kbind_def)
  then show ?thesis using t(4) u by (intro exI [of _ u]) simp
qed

text \<open>Giving back a list of pages, as the loops that free an address space do.\<close>

lemma dealloc_all:
  assumes "ready s" "pool s xs" "distinct ys" "\<forall>y \<in> set ys. valid s y \<and> y \<notin> set xs"
  shows "\<exists>t. kforeach ys dealloc s = Ret () t \<and> ready t \<and> pool t (rev ys @ xs) \<and> valid t = valid s \<and>
    (\<forall>a. (\<forall>y \<in> set ys. \<not> in_page y a) \<longrightarrow> content t a = content s a)"
  using assms
proof (induction ys arbitrary: s xs)
  case Nil
  then show ?case by (simp add: kreturn_def)
next
  case (Cons y ys)
  then obtain t where t: "dealloc y s = Ret () t" "ready t" "pool t (y # xs)" "valid t = valid s"
    "\<And>a. \<not> in_page y a \<Longrightarrow> content t a = content s a"
    using dealloc_page [of s xs y] by auto
  then obtain u where "kforeach ys dealloc t = Ret () u" "ready u" "pool u (rev ys @ y # xs)"
    "valid u = valid t" "\<And>a. \<forall>y \<in> set ys. \<not> in_page y a \<Longrightarrow> content u a = content t a"
    using Cons.IH [of t "y # xs"] Cons.prems by auto
  with t show ?case by (intro exI [of _ u]) (simp add: kbind_def)
qed

end

interpretation km: page_allocator kmem_inv "lock_ok KmemLock" "\<lambda>s. page_ok (syms s)" mem kalloc kfree
proof
  fix s :: "'a kmem_st_scheme" and xs x
  show "distinct xs \<and> 0 \<notin> set xs" if "kmem_inv s xs"
    using that by (auto simp: kmem_inv_def list_all_iff page_ok_def)
  show "page_ok (syms s) x" if "kmem_inv s xs" "x \<in> set xs"
    using that by (auto simp: kmem_inv_def list_all_iff)
  show "\<exists>t. kalloc s = Ret 0 t \<and> lock_ok KmemLock t \<and> kmem_inv t [] \<and> mem t = mem s"
    if "lock_ok KmemLock s" "kmem_inv s []"
    using that by (simp add: kalloc_eq kmem_inv_head(2) kmem_inv_kalloc_empty)
  show "\<exists>t. kalloc s = Ret x t \<and> lock_ok KmemLock t \<and> kmem_inv t xs \<and>
      page_ok (syms t) = page_ok (syms s) \<and> (\<forall>a. \<not> in_page x a \<longrightarrow> mem t a = mem s a)"
    if "lock_ok KmemLock s" "kmem_inv s (x # xs)"
    using that kmem_inv_head(1) [OF that(2)]
    by (simp add: kalloc_eq kmem_inv_kalloc [OF that(2)] kalloc_st_mem [OF that(2)])
  show "\<exists>t. kfree x s = Ret () t \<and> lock_ok KmemLock t \<and> kmem_inv t (x # xs) \<and>
      page_ok (syms t) = page_ok (syms s) \<and> (\<forall>a. \<not> in_page x a \<longrightarrow> mem t a = mem s a)"
    if "lock_ok KmemLock s" "kmem_inv s xs" "page_ok (syms s) x" "x \<notin> set xs"
    using that
    by (simp add: kfree_eq kmem_inv_kfree [OF that(2-4)] kfree_st_mem [OF page_ok_aligned [OF that(3)]])
qed

section \<open>Booting the allocator\<close>

lemma unat_add_page: "unat p + 4096 \<le> unat (e :: uint64) \<Longrightarrow> unat (p + PGSIZE) = unat p + 4096"
  using unat_less_64 [of e] by (simp add: unat_word_ariths)

lemma set_page_range:
  "page_aligned p \<Longrightarrow>
   q \<in> set (page_range p e) \<longleftrightarrow> page_aligned q \<and> p \<le> q \<and> unat q + 4096 \<le> unat e"
proof (induction p e rule: page_range.induct)
  case (1 p e)
  show ?case
  proof (cases "unat p + 4096 \<le> unat e")
    case True
    have p': "unat (p + PGSIZE) = unat p + 4096" using True by (rule unat_add_page)
    then have al: "page_aligned (p + PGSIZE)" using "1.prems" by (simp add: page_aligned_unat)
    have step: "p \<le> q \<longleftrightarrow> q = p \<or> p + PGSIZE \<le> q" if q: "page_aligned q"
    proof -
      obtain j k where "unat p = 4096 * j" "unat q = 4096 * k"
        using "1.prems" q by (auto simp: page_aligned_unat elim!: dvdE)
      then show ?thesis using p' by (auto simp: word_le_nat_alt word_unat_eq_iff)
    qed
    have "q \<in> set (page_range p e) \<longleftrightarrow> q = p \<or> q \<in> set (page_range (p + PGSIZE) e)"
      using True by (subst page_range.simps) simp
    also have "\<dots> \<longleftrightarrow> page_aligned q \<and> p \<le> q \<and> unat q + 4096 \<le> unat e"
      using "1.IH" [OF True al] step True "1.prems" by (metis order_refl)
    finally show ?thesis .
  next
    case False
    then show ?thesis by (subst page_range.simps) (auto simp: word_le_nat_alt)
  qed
qed

lemma distinct_page_range: "page_aligned p \<Longrightarrow> distinct (page_range p e)"
proof (induction p e rule: page_range.induct)
  case (1 p e)
  show ?case
  proof (cases "unat p + 4096 \<le> unat e")
    case True
    have p': "unat (p + PGSIZE) = unat p + 4096" using True by (rule unat_add_page)
    then have al: "page_aligned (p + PGSIZE)" using "1.prems" by (simp add: page_aligned_unat)
    have "p \<notin> set (page_range (p + PGSIZE) e)"
      using p' by (simp add: set_page_range [OF al] word_le_nat_alt)
    then show ?thesis using True "1.IH" [OF True al] by (subst page_range.simps) simp
  qed (subst page_range.simps, simp)
qed

lemma page_range_ok:
  assumes "sym_end sy \<noteq> 0" "unat (sym_end sy) + 4095 < 2 ^ 64"
    "q \<in> set (page_range (PGROUNDUP (sym_end sy)) PHYSTOP)"
  shows "page_ok sy q"
proof -
  have q: "page_aligned q" "PGROUNDUP (sym_end sy) \<le> q" "unat q + 4096 \<le> unat (PHYSTOP :: uint64)"
    using assms(3) by (auto simp: set_page_range)
  have "unat (sym_end sy) \<le> unat (PGROUNDUP (sym_end sy))"
    using assms(2) by (simp add: unat_PGROUNDUP)
  then have le: "sym_end sy \<le> q" using q(2) by (simp add: word_le_nat_alt)
  moreover have "q \<noteq> 0" using le assms(1) by (auto simp: word_le_nat_alt unat_eq_0)
  ultimately show ?thesis using q by (simp add: page_ok_def word_less_nat_alt)
qed

lemma PGROUNDUP_le_iff:
  assumes "unat e + 4095 < 2 ^ 64" "page_aligned q"
  shows "PGROUNDUP e \<le> q \<longleftrightarrow> e \<le> q"
proof -
  obtain k where k: "unat q = 4096 * k" using assms(2) by (auto simp: page_aligned_unat elim!: dvdE)
  have "(unat e + 4095) div 4096 \<le> k \<longleftrightarrow> unat e \<le> 4096 * k"
    by linarith
  then show ?thesis using k assms(1) by (simp add: word_le_nat_alt unat_PGROUNDUP mult.commute)
qed

section \<open>Properties\<close>

text \<open>
  C19: \<^verbatim>\<open>kalloc\<close> pops the free list. With free pages \<open>xs\<close> it returns the first one, filled with
  the byte 5, or the null pointer when there is none; the page is no longer free, the list stays a
  list of distinct valid pages, and no byte outside the page changes.
\<close>

theorem kalloc_contract:
  assumes "lock_ok KmemLock s" and "kmem_inv s xs"
  shows "\<exists>t. kalloc s = Ret (if xs = [] then 0 else hd xs) t \<and> kmem_inv t (tl xs) \<and>
    lock_ok KmemLock t \<and>
    (\<forall>a. xs = [] \<or> \<not> in_page (hd xs) a \<longrightarrow> mem t a = mem s a) \<and>
    (\<forall>i < 4096. xs \<noteq> [] \<longrightarrow> mem t (hd xs + of_nat i) = 5)"
proof (cases xs)
  case Nil
  then show ?thesis using assms km.alloc_empty [of s] by auto
next
  case (Cons x ys)
  have k: "kmem_inv s (x # ys)" using assms Cons by simp
  have "mem (kalloc_st s) (x + of_nat i) = 5" if "i < 4096" for i
    using that kmem_inv_head(1) [OF k] kmem_inv_list [OF k]
    by (simp add: kalloc_st_def memset_eq ram_put_def unat_of_nat_small)
  then show ?thesis
    using assms Cons kmem_inv_head(1) [OF k] kmem_inv_kalloc [OF k] kalloc_st_mem [OF k]
    by (simp add: kalloc_eq)
qed

definition symtab0 :: symtab where
  "symtab0 = \<lparr>sym_end = 0x80021D10, sym_etext = 0x80008000, sym_trampoline = 0x80007000,
     sym_forkret = 0x80001000, sym_usertrap = 0x80001100, sym_uservec = 0x80007000,
     sym_userret = 0x8000709c, sym_kernelvec = 0x80001200\<rparr>"

definition kmem0 :: kmem_st where
  "kmem0 = kst.extend boot_hart \<lparr>mem = (\<lambda>_. 0), freelist = 0, syms = symtab0\<rparr>"

lemma kmem0_facts:
  "irq_ok kmem0" "lock_ok lk kmem0" "freelist kmem0 = 0" "syms kmem0 = symtab0"
  by (simp_all add: kmem0_def kst.extend_def boot_hart_def lock_defs bit_SIE)

theorem kalloc_contract_witness:
  "lock_ok KmemLock (kfree_st 0x87FFE000 kmem0) \<and> kmem_inv (kfree_st 0x87FFE000 kmem0) [0x87FFE000] \<and>
   (\<exists>t. kalloc (kfree_st 0x87FFE000 kmem0) = Ret 0x87FFE000 t \<and> kmem_inv t [] \<and>
      mem t (0x87FFE000 + of_nat 7) = 5)"
proof -
  have ok: "page_ok (syms kmem0) 0x87FFE000"
    by (simp add: kmem0_facts symtab0_def page_ok_def page_aligned_def)
  have l: "lock_ok KmemLock (kfree_st 0x87FFE000 kmem0)" by (simp add: kmem0_facts)
  have "kmem_inv kmem0 []" by (simp add: kmem_inv_def kmem0_facts)
  from kmem_inv_kfree [OF this ok] have i: "kmem_inv (kfree_st 0x87FFE000 kmem0) [0x87FFE000]" by simp
  have "(7 :: nat) < 4096" by simp
  then show ?thesis using l i kalloc_contract [OF l i] by fastforce
qed

text \<open>
  C20: \<^verbatim>\<open>kfree\<close> pushes a page. Freeing a valid page that is not free puts it at the front of
  the free list, changes nothing outside it, and the next \<^verbatim>\<open>kalloc\<close> returns it; an address
  that is unaligned, below \<^verbatim>\<open>end\<close> or at or above \<^verbatim>\<open>PHYSTOP\<close> panics.
\<close>

theorem kfree_contract:
  assumes "lock_ok KmemLock s" and "kmem_inv s xs" and "p \<notin> set xs" and "p \<noteq> 0"
  shows "if page_aligned p \<and> sym_end (syms s) \<le> p \<and> p < PHYSTOP
    then \<exists>t u. kfree p s = Ret () t \<and> kmem_inv t (p # xs) \<and>
      (\<forall>a. \<not> in_page p a \<longrightarrow> mem t a = mem s a) \<and> kalloc t = Ret p u \<and> kmem_inv u xs
    else panics_with (kfree p) ''kfree'' s"
proof (cases "page_aligned p \<and> sym_end (syms s) \<le> p \<and> p < PHYSTOP")
  case True
  then have v: "page_ok (syms s) p" using assms(4) by (simp add: page_ok_def)
  obtain t where t: "kfree p s = Ret () t" "lock_ok KmemLock t" "kmem_inv t (p # xs)"
    "\<forall>a. \<not> in_page p a \<longrightarrow> mem t a = mem s a"
    using km.dealloc_page [OF assms(1,2) v assms(3)] by blast
  moreover obtain u where "kalloc t = Ret p u" "kmem_inv u xs"
    using km.alloc_page [OF t(2,3)] by blast
  ultimately show ?thesis using True by auto
next
  case False
  then have "panics_with (kfree p) ''kfree'' s" by (intro kfree_panics) auto
  with False show ?thesis by (simp only: if_False)
qed

theorem kfree_contract_witness:
  "lock_ok KmemLock kmem0 \<and> kmem_inv kmem0 [] \<and>
   (\<exists>t u. kfree 0x87FFE000 kmem0 = Ret () t \<and> kmem_inv t [0x87FFE000] \<and>
      kalloc t = Ret 0x87FFE000 u \<and> kmem_inv u []) \<and>
   panics_with (kfree 0x87FFE001) ''kfree'' kmem0"
proof -
  have l: "lock_ok KmemLock kmem0" and i: "kmem_inv kmem0 []"
    by (simp_all add: kmem0_facts kmem_inv_def)
  have c: "page_aligned 0x87FFE000 \<and> sym_end (syms kmem0) \<le> 0x87FFE000 \<and> (0x87FFE000 :: uint64) < PHYSTOP"
    "\<not> page_aligned 0x87FFE001"
    by (simp_all add: kmem0_facts symtab0_def page_aligned_def)
  show ?thesis
    using l i c kfree_contract [OF l i, of "0x87FFE000"] kfree_contract [OF l i, of "0x87FFE001"] by auto
qed

text \<open>
  C25: \<^verbatim>\<open>kinit\<close> starts the allocator. From the zeroed free list it returns without a panic and
  the free list then holds exactly the whole pages that lie between \<^verbatim>\<open>end\<close> and
  \<^verbatim>\<open>PHYSTOP\<close>, each once.
\<close>

theorem kinit_frees_every_page:
  assumes "irq_ok s" and "freelist s = 0" and "sym_end (syms s) \<noteq> 0"
    and "unat (sym_end (syms s)) + 4095 < 2 ^ 64"
  shows "\<exists>t xs. kinit s = Ret () t \<and> kmem_inv t xs \<and> lock_ok KmemLock t \<and> distinct xs \<and>
    set xs = {q. page_aligned q \<and> sym_end (syms s) \<le> q \<and> unat q + 4096 \<le> unat (PHYSTOP :: uint64)}"
proof -
  define s1 where "s1 = upd_lock KmemLock (\<lambda>l. l\<lparr>lk_name := ''kmem'', locked := False, lk_cpu := None\<rparr>) s"
  have s1: "lock_ok KmemLock s1" "kmem_inv s1 []" "syms s1 = syms s"
    using assms by (simp_all add: s1_def lock_defs kmem_inv_def)
  let ?ps = "page_range (PGROUNDUP (sym_end (syms s))) PHYSTOP"
  have "\<forall>y \<in> set ?ps. page_ok (syms s1) y \<and> y \<notin> set []"
    using page_range_ok [OF assms(3,4)] s1(3) by simp
  from km.dealloc_all [OF s1(1,2) distinct_page_range this, of] obtain t where
    t: "kforeach ?ps kfree s1 = Ret () t" "lock_ok KmemLock t" "kmem_inv t (rev ?ps)"
    by auto
  have "kinit s = Ret () t"
    using t(1) s1(3) by (simp add: kinit_def freerange_def run_defs initlock_def flip: s1_def)
  moreover have "set (rev ?ps) = {q. page_aligned q \<and> sym_end (syms s) \<le> q \<and> unat q + 4096 \<le> unat (PHYSTOP :: uint64)}"
    using PGROUNDUP_le_iff [OF assms(4)] by (auto simp: set_page_range)
  moreover have "distinct (rev ?ps)" by (simp add: distinct_page_range)
  ultimately show ?thesis using t by blast
qed

theorem kinit_frees_every_page_witness:
  "irq_ok kmem0 \<and> freelist kmem0 = 0 \<and> sym_end (syms kmem0) \<noteq> 0 \<and>
   (\<exists>t xs. kinit kmem0 = Ret () t \<and> kmem_inv t xs \<and> 0x87FFE000 \<in> set xs)"
proof -
  have h: "irq_ok kmem0" "freelist kmem0 = 0" "sym_end (syms kmem0) \<noteq> 0"
    "unat (sym_end (syms kmem0)) + 4095 < 2 ^ 64"
    by (simp_all add: kmem0_facts symtab0_def)
  obtain t xs where "kinit kmem0 = Ret () t" "kmem_inv t xs" and xs:
    "set xs = {q. page_aligned q \<and> sym_end (syms kmem0) \<le> q \<and> unat q + 4096 \<le> unat (PHYSTOP :: uint64)}"
    using kinit_frees_every_page [OF h] by blast
  moreover have "0x87FFE000 \<in> set xs"
    unfolding xs by (simp add: kmem0_facts symtab0_def page_aligned_def)
  ultimately show ?thesis using h by blast
qed

end
