(* ===== verification/Vm.thy ===== *)
theory Vm
  imports Kalloc
begin

text \<open>
  Page tables and user memory, \<^verbatim>\<open>kernel/vm.c\<close>, with \<^verbatim>\<open>proc_mapstacks\<close> of
  \<^verbatim>\<open>kernel/proc.c\<close>, which it calls. Page-table entries are the 64-bit words that lie in
  physical memory; a pointer to one is its address, and 0 is the null pointer. A kernel buffer
  that is copied to or from user memory is the \<open>bytes\<close> from its pointer on. \<^verbatim>\<open>sfence_vma\<close>
  has no effect here: the model has no translation cache.
\<close>

section \<open>State\<close>

record vm_st = kmem_st +
  kernel_pagetable :: uint64

type_synonym ('r, 'a) vmop = "('r, 'a vm_st_scheme) kmonad"

definition w_satp :: "uint64 \<Rightarrow> 'a kst_scheme \<Rightarrow> 'a kst_scheme" where
  "w_satp x s = s\<lparr>hart := (hart s)\<lparr>csr_satp := x\<rparr>\<rparr>"

text \<open>Assignments through a pointer to a page-table entry, and \<^verbatim>\<open>memset\<close> of a page.\<close>

definition set_pte :: "uint64 \<Rightarrow> uint64 \<Rightarrow> (unit, 'a kmem_st_scheme) kmonad" where
  "set_pte pte v = kmodify (\<lambda>s. s\<lparr>mem := store64 (mem s) pte v\<rparr>)"

definition get_pte :: "uint64 \<Rightarrow> (uint64, 'a kmem_st_scheme) kmonad" where
  "get_pte pte = kgets (\<lambda>s. load64 (mem s) pte)"

definition clear_page :: "uint64 \<Rightarrow> (unit, 'a kmem_st_scheme) kmonad" where
  "clear_page p = kmodify (\<lambda>s. s\<lparr>mem := memset (mem s) p 0 (ucast PGSIZE)\<rparr>)"

section \<open>Page tables\<close>

primrec walk_loop :: "nat \<Rightarrow> uint64 \<Rightarrow> uint64 \<Rightarrow> bool \<Rightarrow> (uint64, 'a kmem_st_scheme) kmonad" where
  "walk_loop 0 pagetable va alloc = kreturn (pagetable + 8 * PX 0 va)"
| "walk_loop (Suc l) pagetable va alloc =
     (let pte = pagetable + 8 * PX (Suc l) va in
      kbind (get_pte pte) (\<lambda>e.
      if e AND PTE_V \<noteq> 0 then walk_loop l (PTE2PA e) va alloc
      else if \<not> alloc then kreturn 0
      else kbind kalloc (\<lambda>p.
        if p = 0 then kreturn 0
        else kthen [
          clear_page p,
          set_pte pte (PA2PTE p OR PTE_V)]
          (walk_loop l p va alloc))))"

definition walk :: "uint64 \<Rightarrow> uint64 \<Rightarrow> bool \<Rightarrow> (uint64, 'a kmem_st_scheme) kmonad" where
  "walk pagetable va alloc = kthen [panic_if (\<lambda>_. va \<ge> MAXVA) ''walk''] (walk_loop 2 pagetable va alloc)"

definition walkaddr :: "uint64 \<Rightarrow> uint64 \<Rightarrow> (uint64, 'a kmem_st_scheme) kmonad" where
  "walkaddr pagetable va =
     (if va \<ge> MAXVA then kreturn 0
      else kbind (walk pagetable va False) (\<lambda>pte.
        if pte = 0 then kreturn 0
        else kbind (get_pte pte) (\<lambda>e.
          if e AND PTE_V = 0 then kreturn 0
          else if e AND PTE_U = 0 then kreturn 0
          else kreturn (PTE2PA e))))"

text \<open>
  The loop of \<^verbatim>\<open>mappages\<close> runs until \<^verbatim>\<open>a == last\<close>: \<open>a\<close> and \<open>last\<close> are page aligned and \<open>a\<close>
  advances by one page, so that is after \<^verbatim>\<open>(last - a) / PGSIZE + 1\<close> rounds.
\<close>

definition mappages :: "uint64 \<Rightarrow> uint64 \<Rightarrow> uint64 \<Rightarrow> uint64 \<Rightarrow> uint64 \<Rightarrow> (int, 'a kmem_st_scheme) kmonad" where
  "mappages pagetable va sz pa perm = kthen [
     panic_if (\<lambda>_. sz = 0) ''mappages: size'']
     (let a = PGROUNDDOWN va;
          last = PGROUNDDOWN (va + sz - 1)
      in kfor [0..<Suc (unat ((last - a) div PGSIZE))] (\<lambda>i.
        kbind (walk pagetable (a + of_nat i * PGSIZE) True) (\<lambda>pte.
        if pte = 0 then kreturn (Some (- 1))
        else kbind (get_pte pte) (\<lambda>e. kthen [
          panic_if (\<lambda>_. e AND PTE_V \<noteq> 0) ''mappages: remap'',
          set_pte pte (PA2PTE (pa + of_nat i * PGSIZE) OR perm OR PTE_V)]
          (kreturn None)))) (kreturn 0))"

definition kvmmap :: "uint64 \<Rightarrow> uint64 \<Rightarrow> uint64 \<Rightarrow> uint64 \<Rightarrow> uint64 \<Rightarrow> (unit, 'a kmem_st_scheme) kmonad" where
  "kvmmap kpgtbl va pa sz perm = kbind (mappages kpgtbl va sz pa perm) (\<lambda>r.
     if r \<noteq> 0 then kpanic ''kvmmap'' else kreturn ())"

definition proc_mapstacks :: "uint64 \<Rightarrow> (unit, 'a kmem_st_scheme) kmonad" where
  "proc_mapstacks kpgtbl = kforeach [0..<NPROC] (\<lambda>p.
     kbind kalloc (\<lambda>pa.
     if pa = 0 then kpanic ''kalloc''
     else kvmmap kpgtbl (KSTACK p) pa PGSIZE (PTE_R OR PTE_W)))"

definition kvmmake :: "(uint64, 'a kmem_st_scheme) kmonad" where
  "kvmmake = kbind (kgets syms) (\<lambda>sy. kbind kalloc (\<lambda>kpgtbl. kthen [
     clear_page kpgtbl,
     kvmmap kpgtbl UART0 UART0 PGSIZE (PTE_R OR PTE_W),
     kvmmap kpgtbl VIRTIO0 VIRTIO0 PGSIZE (PTE_R OR PTE_W),
     kvmmap kpgtbl PLIC PLIC 0x400000 (PTE_R OR PTE_W),
     kvmmap kpgtbl KERNBASE KERNBASE (sym_etext sy - KERNBASE) (PTE_R OR PTE_X),
     kvmmap kpgtbl (sym_etext sy) (sym_etext sy) (PHYSTOP - sym_etext sy) (PTE_R OR PTE_W),
     kvmmap kpgtbl TRAMPOLINE (sym_trampoline sy) PGSIZE (PTE_R OR PTE_X),
     proc_mapstacks kpgtbl]
     (kreturn kpgtbl)))"

definition kvminit :: "(unit, 'a) vmop" where
  "kvminit = kbind kvmmake (\<lambda>p. kmodify (\<lambda>s. s\<lparr>kernel_pagetable := p\<rparr>))"

definition kvminithart :: "(unit, 'a) vmop" where
  "kvminithart = kmodify (\<lambda>s. w_satp (MAKE_SATP (kernel_pagetable s)) s)"

section \<open>User address spaces\<close>

text \<open>
  The values of the loop variable of \<^verbatim>\<open>for(a = lo; a < hi; a += PGSIZE)\<close>. The list stops where
  \<^verbatim>\<open>a + PGSIZE\<close> would wrap; every loop body panics in \<^verbatim>\<open>walk\<close> long before that address.
\<close>

function page_steps :: "uint64 \<Rightarrow> uint64 \<Rightarrow> uint64 list" where
  "page_steps a hi = (if a < hi then a # (if a + PGSIZE < a then [] else page_steps (a + PGSIZE) hi) else [])"
  by auto
termination
proof (relation "measure (\<lambda>(a, hi). 2 ^ 64 - unat a)")
  fix a hi :: uint64 assume "\<not> a + PGSIZE < a"
  moreover have "a + PGSIZE \<noteq> a" by simp
  ultimately have "unat a < unat (a + PGSIZE)" by (simp add: word_less_nat_alt word_unat_eq_iff)
  then show "((a + PGSIZE, hi), a, hi) \<in> measure (\<lambda>(a, hi). 2 ^ 64 - unat a)"
    using unat_less_64 [of a] by simp
qed simp

definition uvmunmap :: "uint64 \<Rightarrow> uint64 \<Rightarrow> uint64 \<Rightarrow> bool \<Rightarrow> (unit, 'a kmem_st_scheme) kmonad" where
  "uvmunmap pagetable va npages do_free = kdo [
     panic_if (\<lambda>_. va mod PGSIZE \<noteq> 0) ''uvmunmap: not aligned'',
     kforeach (page_steps va (va + npages * PGSIZE)) (\<lambda>a.
       kbind (walk pagetable a False) (\<lambda>pte.
       if pte = 0 then kpanic ''uvmunmap: walk''
       else kbind (get_pte pte) (\<lambda>e. kdo [
         panic_if (\<lambda>_. e AND PTE_V = 0) ''uvmunmap: not mapped'',
         panic_if (\<lambda>_. PTE_FLAGS e = PTE_V) ''uvmunmap: not a leaf'',
         kwhen (\<lambda>_. do_free) (kfree (PTE2PA e)),
         set_pte pte 0])))]"

definition uvmcreate :: "(uint64, 'a kmem_st_scheme) kmonad" where
  "uvmcreate = kbind kalloc (\<lambda>pagetable.
     if pagetable = 0 then kreturn 0
     else kthen [clear_page pagetable] (kreturn pagetable))"

text \<open>\<open>store_bytes a src n\<close>: \<^verbatim>\<open>memmove(a, src, n)\<close> from a kernel object outside the page pool.\<close>

definition store_bytes :: "uint64 \<Rightarrow> bytes \<Rightarrow> nat \<Rightarrow> (unit, 'a kmem_st_scheme) kmonad" where
  "store_bytes a src n = kmodify (\<lambda>s. s\<lparr>mem := ram_put (mem s) a (map src [0..<n])\<rparr>)"

definition uvmfirst :: "uint64 \<Rightarrow> bytes \<Rightarrow> uint \<Rightarrow> (unit, 'a kmem_st_scheme) kmonad" where
  "uvmfirst pagetable src sz = kthen [
     panic_if (\<lambda>_. ucast sz \<ge> PGSIZE) ''uvmfirst: more than a page'']
     (kbind kalloc (\<lambda>p. kthen [
       clear_page p] (
       kbind (mappages pagetable 0 PGSIZE p (PTE_W OR PTE_R OR PTE_X OR PTE_U)) (\<lambda>_.
       store_bytes p src (unat sz)))))"

definition uvmdealloc :: "uint64 \<Rightarrow> uint64 \<Rightarrow> uint64 \<Rightarrow> (uint64, 'a kmem_st_scheme) kmonad" where
  "uvmdealloc pagetable oldsz newsz =
     (if newsz \<ge> oldsz then kreturn oldsz
      else kthen [
        kwhen (\<lambda>_. PGROUNDUP newsz < PGROUNDUP oldsz)
          (let npages = ucast ((PGROUNDUP oldsz - PGROUNDUP newsz) div PGSIZE) :: 32 word
           in uvmunmap pagetable (PGROUNDUP newsz) (scast npages) True)]
        (kreturn newsz))"

definition uvmalloc :: "uint64 \<Rightarrow> uint64 \<Rightarrow> uint64 \<Rightarrow> uint64 \<Rightarrow> (uint64, 'a kmem_st_scheme) kmonad" where
  "uvmalloc pagetable oldsz newsz xperm =
     (if newsz < oldsz then kreturn oldsz
      else let oldsz = PGROUNDUP oldsz in
        kfor (page_steps oldsz newsz) (\<lambda>a.
          kbind kalloc (\<lambda>p.
          if p = 0 then kbind (uvmdealloc pagetable a oldsz) (\<lambda>_. kreturn (Some 0))
          else kthen [clear_page p] (
            kbind (mappages pagetable a PGSIZE p (PTE_R OR PTE_U OR xperm)) (\<lambda>r.
            if r \<noteq> 0 then kthen [kfree p] (
              kbind (uvmdealloc pagetable a oldsz) (\<lambda>_. kreturn (Some 0)))
            else kreturn None))))
          (kreturn newsz))"

text \<open>
  \<^verbatim>\<open>freewalk\<close> calls itself once for each level of the tree; the first argument bounds the depth
  of the recursion. A page table that \<^verbatim>\<open>walk\<close> built has three levels.
\<close>

primrec freewalk_depth :: "nat \<Rightarrow> uint64 \<Rightarrow> (unit, 'a kmem_st_scheme) kmonad" where
  "freewalk_depth 0 pagetable = kpanic ''freewalk: recursion too deep''"
| "freewalk_depth (Suc d) pagetable = kdo [
     kforeach [0..<512] (\<lambda>i.
       kbind (get_pte (pagetable + 8 * of_nat i)) (\<lambda>pte.
       if pte AND PTE_V \<noteq> 0 \<and> pte AND (PTE_R OR PTE_W OR PTE_X) = 0
       then kdo [
         freewalk_depth d (PTE2PA pte),
         set_pte (pagetable + 8 * of_nat i) 0]
       else if pte AND PTE_V \<noteq> 0 then kpanic ''freewalk: leaf''
       else kreturn ())),
     kfree pagetable]"

definition freewalk :: "uint64 \<Rightarrow> (unit, 'a kmem_st_scheme) kmonad" where
  "freewalk pagetable = freewalk_depth 3 pagetable"

definition uvmfree :: "uint64 \<Rightarrow> uint64 \<Rightarrow> (unit, 'a kmem_st_scheme) kmonad" where
  "uvmfree pagetable sz = kdo [
     kwhen (\<lambda>_. sz > 0) (uvmunmap pagetable 0 (PGROUNDUP sz div PGSIZE) True),
     freewalk pagetable]"

definition uvmcopy :: "uint64 \<Rightarrow> uint64 \<Rightarrow> uint64 \<Rightarrow> (int, 'a kmem_st_scheme) kmonad" where
  "uvmcopy old new sz =
     (let err = (\<lambda>i. kthen [uvmunmap new 0 (i div PGSIZE) True] (kreturn (Some (- 1)))) in
      kfor (page_steps 0 sz) (\<lambda>i.
        kbind (walk old i False) (\<lambda>pte.
        if pte = 0 then kpanic ''uvmcopy: pte should exist''
        else kbind (get_pte pte) (\<lambda>e.
        if e AND PTE_V = 0 then kpanic ''uvmcopy: page not present''
        else kbind kalloc (\<lambda>p.
        if p = 0 then err i
        else kthen [
          kmodify (\<lambda>s. s\<lparr>mem := memmove (mem s) p (PTE2PA e) (ucast PGSIZE)\<rparr>)] (
          kbind (mappages new i PGSIZE p (PTE_FLAGS e)) (\<lambda>r.
          if r \<noteq> 0 then kthen [kfree p] (err i)
          else kreturn None))))))
        (kreturn 0))"

definition uvmclear :: "uint64 \<Rightarrow> uint64 \<Rightarrow> (unit, 'a kmem_st_scheme) kmonad" where
  "uvmclear pagetable va = kbind (walk pagetable va False) (\<lambda>pte.
     if pte = 0 then kpanic ''uvmclear''
     else kbind (get_pte pte) (\<lambda>e. set_pte pte (e AND NOT PTE_U)))"

section \<open>Copying between kernel and user memory\<close>

text \<open>The bytes one round copies: up to the end of the page, at most \<open>len\<close>.\<close>

definition chunk :: "uint64 \<Rightarrow> uint64 \<Rightarrow> uint64" where
  "chunk va len = (let n = PGSIZE - (va - PGROUNDDOWN va) in if n > len then len else n)"

lemma page_offset_unat: "unat (va - PGROUNDDOWN va) = unat va mod 4096"
  by (simp add: page_offset unat_take_bit_12)

lemma unat_chunk: "unat (chunk va len) = min (4096 - unat va mod 4096) (unat len)"
proof -
  have "va - PGROUNDDOWN va \<le> PGSIZE"
    by (simp add: word_le_nat_alt page_offset_unat mod_le_divisor less_imp_le)
  then have "unat (PGSIZE - (va - PGROUNDDOWN va)) = 4096 - unat va mod 4096"
    by (simp add: unat_sub page_offset_unat)
  then show ?thesis
    by (simp add: chunk_def Let_def word_less_nat_alt)
qed

lemma chunk_bounds:
  "0 < len \<Longrightarrow> 0 < unat (chunk va len)" "unat (chunk va len) \<le> unat len" "unat (chunk va len) \<le> 4096"
proof -
  have "unat va mod 4096 < 4096" by simp
  then show "0 < len \<Longrightarrow> 0 < unat (chunk va len)" by (simp add: unat_chunk word_less_nat_alt)
qed (simp_all add: unat_chunk)

lemma unat_minus_chunk: "unat (len - chunk va len) = unat len - unat (chunk va len)"
  by (rule unat_sub) (simp add: word_le_nat_alt chunk_bounds)

function copyout :: "uint64 \<Rightarrow> uint64 \<Rightarrow> bytes \<Rightarrow> uint64 \<Rightarrow> (int, 'a kmem_st_scheme) kmonad" where
  "copyout pagetable dstva src len =
     (if len > 0 then
        let va0 = PGROUNDDOWN dstva in
        kbind (walkaddr pagetable va0) (\<lambda>pa0.
        if pa0 = 0 then kreturn (- 1)
        else let n = chunk dstva len in kthen [
          store_bytes (pa0 + (dstva - va0)) src (unat n)]
          (copyout pagetable (va0 + PGSIZE) (\<lambda>i. src (i + unat n)) (len - n)))
      else kreturn 0)"
  by auto
termination
  by (relation "measure (\<lambda>(_, _, _, len). unat len)") (use chunk_bounds in \<open>simp_all add: unat_minus_chunk word_less_nat_alt\<close>)

function copyin_loop :: "uint64 \<Rightarrow> bytes \<Rightarrow> nat \<Rightarrow> uint64 \<Rightarrow> uint64 \<Rightarrow> (int \<times> bytes, 'a kmem_st_scheme) kmonad" where
  "copyin_loop pagetable dst i srcva len =
     (if len > 0 then
        let va0 = PGROUNDDOWN srcva in
        kbind (walkaddr pagetable va0) (\<lambda>pa0.
        if pa0 = 0 then kreturn (- 1, dst)
        else let n = chunk srcva len in
          kbind (kgets (\<lambda>s. ram_get (mem s) (pa0 + (srcva - va0)) (unat n))) (\<lambda>xs.
          copyin_loop pagetable (put_bytes dst i xs) (i + unat n) (va0 + PGSIZE) (len - n)))
      else kreturn (0, dst))"
  by auto
termination
  by (relation "measure (\<lambda>(_, _, _, _, len). unat len)") (use chunk_bounds in \<open>simp_all add: unat_minus_chunk word_less_nat_alt\<close>)

definition copyin :: "uint64 \<Rightarrow> bytes \<Rightarrow> uint64 \<Rightarrow> uint64 \<Rightarrow> (int \<times> bytes, 'a kmem_st_scheme) kmonad" where
  "copyin pagetable dst srcva len = copyin_loop pagetable dst 0 srcva len"

primrec copyinstr_page :: "nat \<Rightarrow> ram \<Rightarrow> uint64 \<Rightarrow> bytes \<Rightarrow> nat \<Rightarrow> uint64 \<Rightarrow> bytes \<times> nat \<times> uint64 \<times> bool" where
  "copyinstr_page 0 m p dst i mx = (dst, i, mx, False)"
| "copyinstr_page (Suc n) m p dst i mx =
     (if m p = 0 then (dst(i := 0), i, mx, True)
      else copyinstr_page n m (p + 1) (dst(i := m p)) (i + 1) (mx - 1))"

lemma copyinstr_page_max:
  "copyinstr_page n m p dst i mx = (dst', i', mx', False) \<Longrightarrow> mx' = mx - of_nat n \<and> i' = i + n"
proof (induction n arbitrary: p dst i mx)
  case (Suc n)
  then have "copyinstr_page n m (p + 1) (dst(i := m p)) (i + 1) (mx - 1) = (dst', i', mx', False)"
    by (auto split: if_splits)
  from Suc.IH [OF this] show ?case by simp
qed simp

function copyinstr_loop :: "uint64 \<Rightarrow> bytes \<Rightarrow> nat \<Rightarrow> uint64 \<Rightarrow> uint64 \<Rightarrow> (int \<times> bytes, 'a kmem_st_scheme) kmonad" where
  "copyinstr_loop pagetable dst i srcva mx =
     (if mx > 0 then
        let va0 = PGROUNDDOWN srcva in
        kbind (walkaddr pagetable va0) (\<lambda>pa0.
        if pa0 = 0 then kreturn (- 1, dst)
        else kbind (kgets mem) (\<lambda>m.
          case copyinstr_page (unat (chunk srcva mx)) m (pa0 + (srcva - va0)) dst i mx of
            (dst', i', mx', got_null) \<Rightarrow>
              if got_null then kreturn (0, dst')
              else copyinstr_loop pagetable dst' i' (va0 + PGSIZE) mx'))
      else kreturn (- 1, dst))"
  by auto
termination
  by (relation "measure (\<lambda>(_, _, _, _, mx). unat mx)")
    (auto dest!: copyinstr_page_max copyinstr_page_max [OF sym] simp: unat_minus_chunk word_less_nat_alt chunk_bounds)

definition copyinstr :: "uint64 \<Rightarrow> bytes \<Rightarrow> uint64 \<Rightarrow> uint64 \<Rightarrow> (int \<times> bytes, 'a kmem_st_scheme) kmonad" where
  "copyinstr pagetable dst srcva mx = copyinstr_loop pagetable dst 0 srcva mx"

declare copyout.simps [simp del] copyin_loop.simps [simp del] copyinstr_loop.simps [simp del]
  page_steps.simps [simp del]

end
