(* ===== verification/Vm_Tables.thy ===== *)
theory Vm_Tables
  imports Vm
begin

text \<open>
  What the page tables of \<^verbatim>\<open>kernel/vm.c\<close> mean. A page table is a tree in physical memory;
  \<open>tbl\<close> follows the path of a virtual address down to a table page and \<open>leaf\<close> reads the last
  entry. A tree is well formed when every table page is a valid page reached along exactly one
  path. The lemmas show how stores to entries and fresh table pages change \<open>tbl\<close> and \<open>leaf\<close>, and
  from that what \<^verbatim>\<open>walk\<close>, \<^verbatim>\<open>mappages\<close>, \<^verbatim>\<open>walkaddr\<close> and the copy routines do.
\<close>

section \<open>Loads and stores of entries\<close>

lemma load64_cong: "(\<And>i. i < 8 \<Longrightarrow> m' (a + of_nat i) = m (a + of_nat i)) \<Longrightarrow> load64 m' a = load64 m a"
  unfolding load64_def by (rule arg_cong [of _ _ le_word], rule ram_get_cong) simp

definition pte_at :: "uint64 \<Rightarrow> uint64 \<Rightarrow> uint64" where
  "pte_at p i = p + 8 * i"

lemma pte_at_byte:
  assumes "page_aligned p" "i < 512" "j < 8"
  shows "in_page p (pte_at p i + of_nat j)" "unat (pte_at p i + of_nat j - p) = 8 * unat i + j"
proof -
  have i: "unat i < 512" using assms(2) by (simp add: word_less_nat_alt)
  have e: "pte_at p i + of_nat j - p = of_nat (8 * unat i + j)"
    by (simp add: pte_at_def)
  show u: "unat (pte_at p i + of_nat j - p) = 8 * unat i + j"
    unfolding e by (rule unat_of_nat_small) (use i assms(3) in simp)
  show "in_page p (pte_at p i + of_nat j)"
    using assms i u by (intro in_page_offset) simp_all
qed

lemma store64_apply: "store64 m a v x = (if unat (x - a) < 8 then le_bytes 8 v ! unat (x - a) else m x)"
  by (simp add: store64_def ram_put_def)

lemma load64_store64_pte_other:
  assumes "page_aligned p" "page_aligned q" "i < 512" "j < 512" "p \<noteq> q \<or> i \<noteq> j"
  shows "load64 (store64 m (pte_at p i) v) (pte_at q j) = load64 m (pte_at q j)"
proof (rule load64_cong)
  fix k :: nat assume k: "k < 8"
  let ?x = "pte_at q j + of_nat k"
  have "\<not> unat (?x - pte_at p i) < 8"
  proof
    assume b: "unat (?x - pte_at p i) < 8"
    have x: "?x = pte_at p i + of_nat (unat (?x - pte_at p i))" by simp
    note bp = pte_at_byte [OF assms(1,3) b, folded x] and bq = pte_at_byte [OF assms(2,4) k]
    have "p = q" using bp(1) bq(1) by (rule in_page_unique)
    with bp(2) bq(2) have "8 * unat i + unat (?x - pte_at p i) = 8 * unat j + k" by simp
    then have "unat i = unat j" using b k by linarith
    with \<open>p = q\<close> assms(5) show False by (simp add: word_unat_eq_iff)
  qed
  then show "store64 m (pte_at p i) v ?x = m ?x" by (simp add: store64_apply)
qed

lemma store64_pte_out:
  assumes "page_aligned p" "i < 512" "\<not> in_page p x"
  shows "store64 m (pte_at p i) v x = m x"
proof -
  have "\<not> unat (x - pte_at p i) < 8"
    using pte_at_byte(1) [OF assms(1,2), of "unat (x - pte_at p i)"] assms(3) by auto
  then show ?thesis by (simp add: store64_apply)
qed

lemma load64_pte_cong:
  assumes "page_aligned p" "i < 512" "\<And>x. in_page p x \<Longrightarrow> m' x = m x"
  shows "load64 m' (pte_at p i) = load64 m (pte_at p i)"
  by (rule load64_cong) (simp add: assms pte_at_byte)

lemma load64_zero_page:
  assumes "page_aligned p" "i < 512"
  shows "load64 (memset m p 0 (ucast PGSIZE)) (pte_at p i) = 0"
proof -
  have "ram_get (memset m p 0 (ucast PGSIZE)) (pte_at p i) 8 = replicate 8 0"
  proof (rule nth_equalityI)
    fix k assume "k < length (ram_get (memset m p 0 (ucast PGSIZE)) (pte_at p i) 8)"
    then have k: "k < 8" by simp
    have "unat i < 512" using assms(2) by (simp add: word_less_nat_alt)
    then have "unat (pte_at p i + of_nat k - p) < 4096" using pte_at_byte(2) [OF assms k] k by simp
    then show "ram_get (memset m p 0 (ucast PGSIZE)) (pte_at p i) 8 ! k = replicate 8 0 ! k"
      using k by (simp add: memset_eq ram_put_def)
  qed simp
  then show ?thesis by (simp add: load64_def eval_nat_numeral)
qed

section \<open>Paths\<close>

primrec tbl :: "ram \<Rightarrow> uint64 \<Rightarrow> uint64 \<Rightarrow> nat \<Rightarrow> uint64 option" where
  "tbl m root va 0 = Some root"
| "tbl m root va (Suc k) = (case tbl m root va k of None \<Rightarrow> None
     | Some p \<Rightarrow> let e = load64 m (pte_at p (PX (2 - k) va))
        in if e AND PTE_V \<noteq> 0 then Some (PTE2PA e) else None)"

definition leaf :: "ram \<Rightarrow> uint64 \<Rightarrow> uint64 \<Rightarrow> uint64" where
  "leaf m root va = (case tbl m root va 2 of None \<Rightarrow> 0 | Some p \<Rightarrow> load64 m (pte_at p (PX 0 va)))"

text \<open>The bits of an address that decide the path down to depth \<open>k\<close>.\<close>

definition pfx :: "nat \<Rightarrow> uint64 \<Rightarrow> uint64" where
  "pfx k va = drop_bit (39 - 9 * k) va"

definition is_tbl :: "ram \<Rightarrow> uint64 \<Rightarrow> uint64 \<Rightarrow> bool" where
  "is_tbl m root p \<longleftrightarrow> (\<exists>va k. va < MAXVA \<and> k \<le> 2 \<and> tbl m root va k = Some p)"

definition pt_wf :: "symtab \<Rightarrow> ram \<Rightarrow> uint64 \<Rightarrow> bool" where
  "pt_wf sy m root \<longleftrightarrow>
     (\<forall>p. is_tbl m root p \<longrightarrow> page_ok sy p) \<and>
     (\<forall>p va va' k k'. va < MAXVA \<longrightarrow> va' < MAXVA \<longrightarrow> k \<le> 2 \<longrightarrow> k' \<le> 2 \<longrightarrow>
        tbl m root va k = Some p \<longrightarrow> tbl m root va' k' = Some p \<longrightarrow> k = k' \<and> pfx k va = pfx k va')"

lemma bits_above_va: "va < MAXVA \<Longrightarrow> 38 \<le> n \<Longrightarrow> \<not> bit va n" for va :: uint64
proof -
  assume va: "va < MAXVA" and n: "38 \<le> n"
  have "va = take_bit 38 va"
    using va by (simp add: take_bit_eq_mod word_less_nat_alt word_unat_eq_iff unat_mod)
  then show ?thesis using n by (metis bit_take_bit_iff not_le)
qed

lemma pfx_0: "va < MAXVA \<Longrightarrow> pfx 0 va = 0"
  unfolding pfx_def by (rule bit_word_eqI) (simp add: bit_simps bits_above_va)

lemma pfx_Suc_iff:
  assumes "k \<le> 2"
  shows "pfx (Suc k) va = pfx (Suc k) va' \<longleftrightarrow> pfx k va = pfx k va' \<and> PX (2 - k) va = PX (2 - k) va'"
proof -
  define n where "n = 39 - 9 * Suc k"
  have n: "PXSHIFT (2 - k) = n" "39 - 9 * k = n + 9" "39 - 9 * Suc k = n"
    using assms by (auto simp: n_def PXSHIFT_def)
  have split: "drop_bit n v = drop_bit n w \<longleftrightarrow>
      drop_bit (n + 9) v = drop_bit (n + 9) w \<and> take_bit 9 (drop_bit n v) = take_bit 9 (drop_bit n w)"
    for v w :: uint64
  proof -
    have d: "drop_bit (n + 9) u = drop_bit 9 (drop_bit n u)" for u :: uint64
      by (simp add: add.commute)
    have "u = push_bit 9 (drop_bit 9 u) + take_bit 9 u" for u :: uint64
      by (simp add: bits_ident)
    then show ?thesis unfolding d by metis
  qed
  show ?thesis unfolding pfx_def PX_mask n by (rule split)
qed

lemma pfx_mono: "pfx (Suc k) va = pfx (Suc k) va' \<Longrightarrow> k \<le> 2 \<Longrightarrow> pfx k va = pfx k va'"
  by (simp add: pfx_Suc_iff)

lemma is_tblI: "tbl m root va k = Some p \<Longrightarrow> va < MAXVA \<Longrightarrow> k \<le> 2 \<Longrightarrow> is_tbl m root p"
  by (auto simp: is_tbl_def)

lemma pt_wf_page: "pt_wf sy m root \<Longrightarrow> is_tbl m root p \<Longrightarrow> page_ok sy p"
  by (simp add: pt_wf_def)

lemma pt_wf_aligned: "pt_wf sy m root \<Longrightarrow> is_tbl m root p \<Longrightarrow> page_aligned p"
  using pt_wf_page page_ok_aligned by blast

lemma pt_wf_unique:
  "pt_wf sy m root \<Longrightarrow> va < MAXVA \<Longrightarrow> va' < MAXVA \<Longrightarrow> k \<le> 2 \<Longrightarrow> k' \<le> 2 \<Longrightarrow>
   tbl m root va k = Some p \<Longrightarrow> tbl m root va' k' = Some p \<Longrightarrow> k = k' \<and> pfx k va = pfx k va'"
  unfolding pt_wf_def by blast

lemma tbl_pfx: "va < MAXVA \<Longrightarrow> va' < MAXVA \<Longrightarrow> k \<le> 2 \<Longrightarrow> pfx k va = pfx k va' \<Longrightarrow>
  tbl m root va k = tbl m root va' k"
proof (induction k)
  case (Suc k)
  then have "pfx k va = pfx k va'" "PX (2 - k) va = PX (2 - k) va'"
    using pfx_Suc_iff [of k va va'] by auto
  with Suc show ?case by (simp split: option.split)
qed simp

text \<open>Memory outside the table pages does not matter.\<close>

lemma tbl_frame:
  assumes wf: "pt_wf sy m root" and va: "va < MAXVA" "k \<le> 2"
    and same: "\<And>p x. is_tbl m root p \<Longrightarrow> in_page p x \<Longrightarrow> m' x = m x"
  shows "tbl m' root va k = tbl m root va k"
  using va(2)
proof (induction k)
  case (Suc k)
  have "load64 m' (pte_at p (PX (2 - k) va)) = load64 m (pte_at p (PX (2 - k) va))"
    if "tbl m root va k = Some p" for p
  proof -
    have it: "is_tbl m root p" using that va(1) Suc.prems by (intro is_tblI) auto
    show ?thesis by (rule load64_pte_cong [OF pt_wf_aligned [OF wf it] PX_less same [OF it]])
  qed
  with Suc show ?case by (simp split: option.split)
qed simp

lemma leaf_frame:
  assumes wf: "pt_wf sy m root" and va: "va < MAXVA"
    and same: "\<And>p x. is_tbl m root p \<Longrightarrow> in_page p x \<Longrightarrow> m' x = m x"
  shows "leaf m' root va = leaf m root va"
proof -
  have t: "tbl m' root va 2 = tbl m root va 2"
    by (rule tbl_frame [OF wf va _ same]) simp_all
  have "load64 m' (pte_at p (PX 0 va)) = load64 m (pte_at p (PX 0 va))"
    if "tbl m root va 2 = Some p" for p
  proof -
    have it: "is_tbl m root p" using that va by (intro is_tblI) auto
    show ?thesis by (rule load64_pte_cong [OF pt_wf_aligned [OF wf it] PX_less same [OF it]])
  qed
  with t show ?thesis by (simp add: leaf_def split: option.split)
qed

lemma pt_wf_frame:
  assumes wf: "pt_wf sy m root"
    and same: "\<And>p x. is_tbl m root p \<Longrightarrow> in_page p x \<Longrightarrow> m' x = m x"
  shows "pt_wf sy m' root" "is_tbl m' root p \<longleftrightarrow> is_tbl m root p"
proof -
  have t: "tbl m' root va k = tbl m root va k" if "va < MAXVA" "k \<le> 2" for va k
    by (rule tbl_frame [OF wf that same])
  then show i: "is_tbl m' root p \<longleftrightarrow> is_tbl m root p" for p
    unfolding is_tbl_def by (intro ex_cong1 conj_cong refl) (simp_all add: t)
  show "pt_wf sy m' root"
    using wf unfolding pt_wf_def i by (simp add: t)
qed

section \<open>Stores to leaf entries\<close>

lemma tbl_store_leaf:
  assumes wf: "pt_wf sy m root" and va: "va < MAXVA" and p: "tbl m root va 2 = Some p"
    and va': "va' < MAXVA" "k \<le> 2"
  shows "tbl (store64 m (pte_at p (PX 0 va)) v) root va' k = tbl m root va' k"
  using va'(2)
proof (induction k)
  case (Suc k)
  have "load64 (store64 m (pte_at p (PX 0 va)) v) (pte_at q (PX (2 - k) va')) = load64 m (pte_at q (PX (2 - k) va'))"
    if q: "tbl m root va' k = Some q" for q
  proof -
    have "p \<noteq> q" using pt_wf_unique [OF wf va va'(1), of 2 k p] p q Suc.prems by auto
    moreover have "page_aligned p" "page_aligned q"
      using wf p q va va'(1) Suc.prems by (auto intro!: pt_wf_aligned is_tblI)
    ultimately show ?thesis by (simp add: load64_store64_pte_other PX_less)
  qed
  with Suc show ?case by (simp split: option.split)
qed simp

lemma leaf_store_leaf:
  assumes wf: "pt_wf sy m root" and va: "va < MAXVA" and p: "tbl m root va 2 = Some p"
    and va': "va' < MAXVA"
  shows "leaf (store64 m (pte_at p (PX 0 va)) v) root va' =
    (if pfx 3 va' = pfx 3 va then v else leaf m root va')"
proof -
  let ?m = "store64 m (pte_at p (PX 0 va)) v"
  have t: "tbl ?m root va' 2 = tbl m root va' 2"
    by (rule tbl_store_leaf [OF wf va p va']) simp
  have px: "pfx 3 va' = pfx 3 va \<longleftrightarrow> pfx 2 va' = pfx 2 va \<and> PX 0 va' = PX 0 va"
    using pfx_Suc_iff [of 2 va' va] by (simp add: numeral_3_eq_3 numeral_2_eq_2)
  show ?thesis
  proof (cases "tbl m root va' 2")
    case None
    then have "pfx 2 va' \<noteq> pfx 2 va" using tbl_pfx [OF va' va, of 2 m root] p by auto
    then show ?thesis using None t px by (simp add: leaf_def)
  next
    case (Some q)
    have al: "page_aligned p" "page_aligned q"
      using wf p Some va va' by (auto intro!: pt_wf_aligned is_tblI)
    have "p = q \<longleftrightarrow> pfx 2 va' = pfx 2 va"
    proof
      assume "p = q"
      then show "pfx 2 va' = pfx 2 va"
        using pt_wf_unique [OF wf va' va, of 2 2 p] p Some by simp
    next
      assume "pfx 2 va' = pfx 2 va"
      then show "p = q" using tbl_pfx [OF va' va, of 2 m root] p Some by simp
    qed
    then show ?thesis
      using Some t px al by (auto simp: leaf_def load64_store64_pte_other PX_less)
  qed
qed

lemma is_tbl_cong:
  "(\<And>va k. va < MAXVA \<Longrightarrow> k \<le> 2 \<Longrightarrow> tbl m' root va k = tbl m root va k) \<Longrightarrow> is_tbl m' root p \<longleftrightarrow> is_tbl m root p"
  unfolding is_tbl_def by (intro ex_cong1 conj_cong refl) simp_all

lemma pt_wf_cong:
  assumes "\<And>va k. va < MAXVA \<Longrightarrow> k \<le> 2 \<Longrightarrow> tbl m' root va k = tbl m root va k"
  shows "pt_wf sy m' root \<longleftrightarrow> pt_wf sy m root"
  unfolding pt_wf_def by (simp add: is_tbl_cong [of m' root m, OF assms] assms)

lemma pt_wf_store_leaf:
  assumes "pt_wf sy m root" "va < MAXVA" "tbl m root va 2 = Some p"
  shows "pt_wf sy (store64 m (pte_at p (PX 0 va)) v) root"
    "is_tbl (store64 m (pte_at p (PX 0 va)) v) root q \<longleftrightarrow> is_tbl m root q"
  using assms tbl_store_leaf [OF assms] by (simp_all cong: is_tbl_cong pt_wf_cong)

section \<open>Adding a table page\<close>

lemma PTE2PA_new: "page_aligned q \<Longrightarrow> PTE2PA (PA2PTE q OR PTE_V) = q"
  by (rule PTE2PA_PA2PTE) simp_all

lemma PTE_V_new: "(x OR PTE_V) AND PTE_V = PTE_V" for x :: uint64
  by (rule bit_word_eqI) (auto simp: bit_simps)

text \<open>
  \<open>add_tbl m p i q\<close>: the fresh page \<open>q\<close> is cleared and entry \<open>i\<close> of table \<open>p\<close> made to point to it,
  as \<^verbatim>\<open>walk\<close> does.
\<close>

definition add_tbl :: "ram \<Rightarrow> uint64 \<Rightarrow> uint64 \<Rightarrow> uint64 \<Rightarrow> ram" where
  "add_tbl m p i q = store64 (memset m q 0 (ucast PGSIZE)) (pte_at p i) (PA2PTE q OR PTE_V)"

lemma add_tbl_loads:
  assumes "page_aligned p" "page_aligned q" "p \<noteq> q" "i < 512" "j < 512"
  shows "load64 (add_tbl m p i q) (pte_at p i) = PA2PTE q OR PTE_V"
    "load64 (add_tbl m p i q) (pte_at q j) = 0"
    "page_aligned r \<Longrightarrow> r \<noteq> q \<Longrightarrow> r \<noteq> p \<or> j \<noteq> i \<Longrightarrow> load64 (add_tbl m p i q) (pte_at r j) = load64 m (pte_at r j)"
proof -
  show "load64 (add_tbl m p i q) (pte_at p i) = PA2PTE q OR PTE_V" by (simp add: add_tbl_def)
  show "load64 (add_tbl m p i q) (pte_at q j) = 0"
    using assms by (simp add: add_tbl_def load64_store64_pte_other load64_zero_page [simplified])
  assume r: "page_aligned r" "r \<noteq> q" "r \<noteq> p \<or> j \<noteq> i"
  then have "load64 (add_tbl m p i q) (pte_at r j) = load64 (memset m q 0 4096) (pte_at r j)"
    using assms by (auto simp: add_tbl_def load64_store64_pte_other)
  also have "\<dots> = load64 m (pte_at r j)"
    using r(1) assms(5) by (rule load64_pte_cong) (metis assms(2) r(2) in_page_unique memset_page_other)
  finally show "load64 (add_tbl m p i q) (pte_at r j) = load64 m (pte_at r j)" .
qed

lemma tbl_add_tbl:
  assumes wf: "pt_wf sy m root" and va: "va < MAXVA" "k < 2" and p: "tbl m root va k = Some p"
    and q: "page_aligned q" "\<not> is_tbl m root q" and va': "va' < MAXVA" "j \<le> 2"
  shows "tbl (add_tbl m p (PX (2 - k) va) q) root va' j =
    (if j \<le> k \<or> pfx (Suc k) va' \<noteq> pfx (Suc k) va then tbl m root va' j
     else if j = Suc k then Some q else None)"
  using va'(2)
proof (induction j)
  case (Suc j)
  let ?m = "add_tbl m p (PX (2 - k) va) q"
  have p': "page_aligned p" "p \<noteq> q"
    using wf p q va is_tblI [OF p va(1)] pt_wf_aligned by auto
  have same: "load64 ?m (pte_at r (PX (2 - j) va')) = load64 m (pte_at r (PX (2 - j) va'))"
    if r: "tbl m root va' j = Some r" and ne: "j \<noteq> k \<or> pfx (Suc k) va' \<noteq> pfx (Suc k) va" for r
  proof -
    have it: "is_tbl m root r" using r va'(1) Suc.prems by (intro is_tblI) auto
    have "r \<noteq> p \<or> PX (2 - j) va' \<noteq> PX (2 - k) va"
      using pt_wf_unique [OF wf va'(1) va(1), of j k p] r p ne va(2) Suc.prems pfx_Suc_iff [of k va' va]
      by auto
    then show ?thesis
      using p' q it pt_wf_aligned [OF wf it] by (intro add_tbl_loads) (auto simp: PX_less)
  qed
  consider "Suc j \<le> k" | "j = k" "pfx (Suc k) va' = pfx (Suc k) va"
    | "k < j" "pfx (Suc k) va' = pfx (Suc k) va" | "k \<le> j" "pfx (Suc k) va' \<noteq> pfx (Suc k) va"
    by linarith
  then show ?case
  proof cases
    case 1
    then show ?thesis using Suc same by (simp split: option.split)
  next
    case 2
    then have "tbl ?m root va' k = Some p" "PX (2 - k) va' = PX (2 - k) va"
      using Suc tbl_pfx [OF va'(1) va(1), of k m root] pfx_Suc_iff [of k va' va] va(2) p by auto
    then show ?thesis
      using 2 add_tbl_loads(1) [OF p'(1) q(1) p'(2) PX_less PX_less] q
      by (simp add: PTE_V_new PTE2PA_new)
  next
    case 3
    then have "tbl ?m root va' j = Some q" using Suc va(2) by (simp add: le_less_Suc_eq)
    then show ?thesis
      using 3 p' q by (simp add: add_tbl_loads PX_less)
  next
    case 4
    then have "tbl ?m root va' j = tbl m root va' j" using Suc by simp
    then show ?thesis using 4 Suc same by (simp split: option.split)
  qed
qed simp

lemma tbl_None_below: "tbl m root va k = None \<Longrightarrow> k \<le> j \<Longrightarrow> tbl m root va j = None"
  by (induction j) (auto simp: le_Suc_eq)

lemma is_tbl_add_tbl:
  assumes wf: "pt_wf sy m root" and va: "va < MAXVA" "k < 2" and p: "tbl m root va k = Some p"
    and q: "page_ok sy q" "\<not> is_tbl m root q" and free: "tbl m root va (Suc k) = None"
  shows "pt_wf sy (add_tbl m p (PX (2 - k) va) q) root"
    "is_tbl (add_tbl m p (PX (2 - k) va) q) root r \<longleftrightarrow> is_tbl m root r \<or> r = q"
    "va' < MAXVA \<Longrightarrow> leaf (add_tbl m p (PX (2 - k) va) q) root va' = leaf m root va'"
proof -
  let ?m = "add_tbl m p (PX (2 - k) va) q"
  have qa: "page_aligned q" using q(1) by (rule page_ok_aligned)
  note t = tbl_add_tbl [OF wf va p qa q(2)]
  have none: "tbl m root v j = None" if "v < MAXVA" "k < j" "pfx (Suc k) v = pfx (Suc k) va" for v j
    using tbl_pfx [OF that(1) va(1) _ that(3)] free va(2) that(2) tbl_None_below [of m root v "Suc k" j]
    by simp
  have some: "tbl ?m root v j = Some r \<longleftrightarrow>
      (if r = q then j = Suc k \<and> pfx (Suc k) v = pfx (Suc k) va else tbl m root v j = Some r)"
    if v: "v < MAXVA" "j \<le> 2" for v j r
    using t [OF v] none [OF v(1), of j] q(2) is_tblI [OF _ v, of m root q] by auto
  show tr: "is_tbl ?m root r \<longleftrightarrow> is_tbl m root r \<or> r = q" for r
  proof
    assume "is_tbl ?m root r"
    then show "is_tbl m root r \<or> r = q" using some unfolding is_tbl_def by metis
  next
    assume "is_tbl m root r \<or> r = q"
    moreover have "is_tbl ?m root q"
      using some [of va "Suc k" q] va by (intro is_tblI [of _ _ va "Suc k"]) auto
    moreover have "is_tbl ?m root r" if "is_tbl m root r" "r \<noteq> q"
      using that some unfolding is_tbl_def by metis
    ultimately show "is_tbl ?m root r" by metis
  qed
  show "pt_wf sy ?m root"
    unfolding pt_wf_def tr
  proof (intro conjI allI impI)
    fix v v' j j' r
    assume v: "v < MAXVA" "v' < MAXVA" "j \<le> 2" "j' \<le> 2" "tbl ?m root v j = Some r" "tbl ?m root v' j' = Some r"
    then show "j = j'" and "pfx j v = pfx j v'"
      using some [OF v(1,3), of r] some [OF v(2,4), of r] pt_wf_unique [OF wf v(1-4), of r]
      by (auto split: if_splits)
  qed (use wf q in \<open>auto simp: pt_wf_def\<close>)
  show "leaf ?m root va' = leaf m root va'" if va': "va' < MAXVA"
  proof (cases "pfx (Suc k) va' = pfx (Suc k) va")
    case True
    have "p \<noteq> q" "page_aligned p" using wf p q va is_tblI [OF p va(1)] pt_wf_aligned by auto
    then show ?thesis
      using True t [OF va', of 2] none [OF va', of 2] va(2) qa by (auto simp: leaf_def add_tbl_loads PX_less)
  next
    case False
    have "load64 ?m (pte_at r (PX 0 va')) = load64 m (pte_at r (PX 0 va'))" if r: "tbl m root va' 2 = Some r" for r
    proof -
      have it: "is_tbl m root r" using r va' by (intro is_tblI) auto
      have "r \<noteq> p" using pt_wf_unique [OF wf va' va(1), of 2 k p] r p va(2) by auto
      then show ?thesis
        using it q pt_wf_aligned [OF wf it] pt_wf_aligned [OF wf is_tblI [OF p va(1)]] va(2) p qa is_tblI [OF p va(1)]
        by (intro add_tbl_loads) (auto simp: PX_less)
    qed
    then show ?thesis using False t [OF va', of 2] by (auto simp: leaf_def split: option.split)
  qed
qed

section \<open>States that differ in memory only\<close>

inductive kmem_only :: "'a kmem_st_scheme \<Rightarrow> 'a kmem_st_scheme \<Rightarrow> bool" where
  plain: "kmem_only s (s\<lparr>mem := m, freelist := f\<rparr>)"
| cycled: "kmem_only s ((lockcycle s)\<lparr>mem := m, freelist := f\<rparr>)"

lemma kmem_only_refl [simp]: "kmem_only s s"
  using plain [of s "freelist s" "mem s"] by simp

lemma kmem_only_trans: "kmem_only s t \<Longrightarrow> kmem_only t u \<Longrightarrow> kmem_only s u"
  by (elim kmem_only.cases) (auto intro: kmem_only.intros)

lemma kmem_only_intros [simp]:
  "kmem_only s (kalloc_st s)" "kmem_only s (kfree_st p s)" "kmem_only s (lockcycle s)"
  "kmem_only s (mem_update g s)"
proof -
  show l: "kmem_only s (lockcycle s)"
    using cycled [of s "freelist (lockcycle s)" "mem (lockcycle s)"] by (simp del: kmem_frame_proj)
  have e: "s\<lparr>mem := g (mem s)\<rparr> = mem_update g s" by (cases s) simp
  have "kmem_only s (s\<lparr>mem := g (mem s)\<rparr>)"
    using plain [of s "freelist s" "g (mem s)"] by simp
  then show "kmem_only s (mem_update g s)" unfolding e .
  have "kalloc_st s = (if freelist s = 0 then lockcycle s
    else (lockcycle s)\<lparr>mem := memset (mem s) (freelist s) 5 (ucast PGSIZE), freelist := load64 (mem s) (freelist s)\<rparr>)"
    by (simp add: kalloc_st_def)
  then show "kmem_only s (kalloc_st s)"
    using l cycled by (metis (full_types))
  show "kmem_only s (kfree_st p s)"
    unfolding kfree_st_def by (rule cycled)
qed

lemma kmem_only_facts:
  "kmem_only s t \<Longrightarrow> syms t = syms s"
  "kmem_only s t \<Longrightarrow> lock_ok lk t = lock_ok lk s"
  "kmem_only s t \<Longrightarrow> irq_ok t = irq_ok s"
  "kmem_only s t \<Longrightarrow> holding lk t = holding lk s"
  by (auto elim: kmem_only.cases)

text \<open>A page table and the free pages: the state in which the operations on it run.\<close>

definition vm_inv :: "'a kmem_st_scheme \<Rightarrow> uint64 \<Rightarrow> uint64 list \<Rightarrow> bool" where
  "vm_inv s root xs \<longleftrightarrow> lock_ok KmemLock s \<and> kmem_inv s xs \<and> pt_wf (syms s) (mem s) root \<and>
     (\<forall>p. is_tbl (mem s) root p \<longrightarrow> p \<notin> set xs)"

text \<open>
  \<open>vm_ext root s xs t zs\<close>: \<open>t\<close> comes from \<open>s\<close> by adding table pages taken from the front of the
  free list \<open>xs\<close>, which is now \<open>zs\<close>; no leaf entry has changed.
\<close>

definition vm_ext :: "uint64 \<Rightarrow> 'a kmem_st_scheme \<Rightarrow> uint64 list \<Rightarrow> 'a kmem_st_scheme \<Rightarrow> uint64 list \<Rightarrow> bool" where
  "vm_ext root s xs t zs \<longleftrightarrow> vm_inv t root zs \<and> (\<exists>ys. xs = ys @ zs) \<and> kmem_only s t \<and>
     (\<forall>v. v < MAXVA \<longrightarrow> leaf (mem t) root v = leaf (mem s) root v) \<and>
     (\<forall>p. is_tbl (mem t) root p \<longrightarrow> is_tbl (mem s) root p \<or> p \<in> set xs - set zs) \<and>
     (\<forall>x. (\<forall>p. is_tbl (mem s) root p \<or> p \<in> set xs - set zs \<longrightarrow> \<not> in_page p x) \<longrightarrow> mem t x = mem s x)"

lemma vm_ext_refl: "vm_inv s root xs \<Longrightarrow> vm_ext root s xs s xs"
  by (simp add: vm_ext_def)

lemma vm_ext_trans:
  assumes "vm_ext root s xs t ys" "vm_ext root t ys u zs"
  shows "vm_ext root s xs u zs"
proof -
  have sub: "set ys - set zs \<subseteq> set xs - set zs" "set xs - set ys \<subseteq> set xs - set zs"
    using assms by (auto simp: vm_ext_def)
  show ?thesis unfolding vm_ext_def
  proof (intro conjI)
    show "vm_inv u root zs" using assms(2) by (simp add: vm_ext_def)
    show "\<exists>ws. xs = ws @ zs" using assms by (fastforce simp: vm_ext_def)
    show "kmem_only s u" using assms by (auto simp: vm_ext_def intro: kmem_only_trans)
    show "\<forall>v. v < MAXVA \<longrightarrow> leaf (mem u) root v = leaf (mem s) root v"
      using assms by (simp add: vm_ext_def)
    show "\<forall>p. is_tbl (mem u) root p \<longrightarrow> is_tbl (mem s) root p \<or> p \<in> set xs - set zs"
      using assms sub unfolding vm_ext_def by blast
    show "\<forall>x. (\<forall>p. is_tbl (mem s) root p \<or> p \<in> set xs - set zs \<longrightarrow> \<not> in_page p x) \<longrightarrow> mem u x = mem s x"
    proof (intro allI impI)
      fix x assume x: "\<forall>p. is_tbl (mem s) root p \<or> p \<in> set xs - set zs \<longrightarrow> \<not> in_page p x"
      then have "mem t x = mem s x" using assms(1) sub unfolding vm_ext_def by blast
      moreover have "mem u x = mem t x" using x assms sub unfolding vm_ext_def by blast
      ultimately show "mem u x = mem s x" by simp
    qed
  qed
qed

lemma vm_inv_lockcycle: "vm_inv s root xs \<Longrightarrow> vm_ext root s xs (lockcycle s) xs"
  by (simp add: vm_ext_def vm_inv_def)

lemma pte_at_nonzero: "page_ok sy p \<Longrightarrow> i < 512 \<Longrightarrow> pte_at p i \<noteq> 0"
  using pte_at_byte(1) [of p i 0] by (auto simp: page_ok_def in_page_def PGROUNDDOWN_def)

lemma memset_again: "memset (memset m p c n) p d n = memset m p d n"
  by (auto simp: memset_eq ram_put_def)

lemma tbl_step:
  "tbl m root va k = Some p \<Longrightarrow> tbl m root va (Suc k) =
    (let e = load64 m (pte_at p (PX (2 - k) va)) in if e AND PTE_V \<noteq> 0 then Some (PTE2PA e) else None)"
  by simp

text \<open>The effect of the allocating branch of \<^verbatim>\<open>walk\<close>.\<close>

lemma vm_ext_add_tbl:
  assumes inv: "vm_inv s root (x # xs)" and va: "va < MAXVA" "k < 2"
    and p: "tbl (mem s) root va k = Some p" and free: "tbl (mem s) root va (Suc k) = None"
  defines "t \<equiv> (kalloc_st s)\<lparr>mem := add_tbl (mem s) p (PX (2 - k) va) x\<rparr>"
  shows "vm_ext root s (x # xs) t xs" "tbl (mem t) root va (Suc k) = Some x"
proof -
  have wf: "pt_wf (syms s) (mem s) root" and k: "kmem_inv s (x # xs)"
    and nt: "\<not> is_tbl (mem s) root x" and l: "lock_ok KmemLock s"
    and dis: "\<And>p. is_tbl (mem s) root p \<Longrightarrow> p \<notin> set xs"
    using inv by (auto simp: vm_inv_def)
  have x: "page_ok (syms s) x" "x \<notin> set xs" using kmem_inv_head(1) [OF k] by auto
  have xa: "page_aligned x" using x(1) by (rule page_ok_aligned)
  have pt: "is_tbl (mem s) root p" using p va by (intro is_tblI) auto
  have pa: "page_aligned p" using wf pt by (rule pt_wf_aligned)
  have ad: "mem t = add_tbl (mem s) p (PX (2 - k) va) x" by (simp add: t_def)
  have out: "mem t a = mem s a" if "\<not> in_page p a" "\<not> in_page x a" for a
    unfolding ad add_tbl_def using that xa pa by (simp add: store64_pte_out PX_less memset_page_other)
  note add = is_tbl_add_tbl [OF wf va p x(1) nt free, folded ad]
  have "kmem_inv t xs"
    unfolding kmem_inv_def
  proof (intro conjI)
    have "kmem_inv (kalloc_st s) xs" using k by (rule kmem_inv_kalloc)
    then show "distinct xs" "list_all (page_ok (syms t)) xs"
      by (auto simp: kmem_inv_def t_def)
    have "flist (mem (kalloc_st s)) (freelist (kalloc_st s)) xs" "list_all page_aligned xs"
      using \<open>kmem_inv (kalloc_st s) xs\<close> by (auto simp: kmem_inv_def dest: list_all_page_ok)
    moreover have "mem t a = mem (kalloc_st s) a" if "y \<in> set xs" "in_page y a" for y a
      using out [of a] kalloc_st_mem [OF k, of a] in_page_other [OF that x(2)]
        in_page_other [OF that, of p] dis [OF pt] by simp
    ultimately show "flist (mem t) (freelist t) xs"
      by (auto simp: t_def intro: flist_frame)
  qed
  then have "vm_inv t root xs"
    using add(1,2) dis x l by (auto simp: vm_inv_def t_def)
  moreover have "kmem_only s t"
    unfolding t_def by (rule kmem_only_trans [of _ "kalloc_st s"]) simp_all
  ultimately show "vm_ext root s (x # xs) t xs"
    unfolding vm_ext_def using add(2,3) out pt x(2) by auto
  show "tbl (mem t) root va (Suc k) = Some x"
    using tbl_add_tbl [OF wf va p xa nt va(1), of "Suc k"] va(2) by (simp add: ad)
qed

section \<open>walk\<close>

definition walk_result :: "ram \<Rightarrow> uint64 \<Rightarrow> uint64 \<Rightarrow> uint64 \<Rightarrow> bool" where
  "walk_result m root va r \<longleftrightarrow>
     (case tbl m root va 2 of None \<Rightarrow> r = 0 | Some q \<Rightarrow> r = pte_at q (PX 0 va) \<and> r \<noteq> 0)"

lemma pte_at_fold: "p + 8 * i = pte_at p i"
  by (simp add: pte_at_def)

lemma walk_loop_spec:
  assumes "vm_inv s root xs" "va < MAXVA" "l \<le> 2" "tbl (mem s) root va (2 - l) = Some p"
  shows "wp (walk_loop l p va alloc) (\<lambda>r t. \<exists>zs. vm_ext root s xs t zs \<and>
      walk_result (mem t) root va r \<and> (\<not> alloc \<longrightarrow> t = s) \<and> length xs \<le> length zs + l \<and> (alloc \<and> r = 0 \<longrightarrow> zs = [] \<and> length xs < l)) s"
  using assms
proof (induction l arbitrary: s p xs)
  case 0
  have "is_tbl (mem s) root p" using 0 by (intro is_tblI) auto
  then have "pte_at p (PX 0 va) \<noteq> 0"
    using 0(1) by (intro pte_at_nonzero [of "syms s"] PX_less) (auto simp: vm_inv_def intro: pt_wf_page)
  then show ?case
    using 0 vm_ext_refl by (auto simp: wp_simps walk_result_def pte_at_fold)
next
  case (Suc l)
  define k where "k = 2 - Suc l"
  have k: "k < 2" "2 - l = Suc k" "2 - k = Suc l" using Suc.prems(3) by (auto simp: k_def)
  have p: "tbl (mem s) root va k = Some p" using Suc.prems by (simp add: k_def)
  let ?e = "load64 (mem s) (pte_at p (PX (Suc l) va))"
  have nxt: "tbl (mem s) root va (Suc k) = (if ?e AND PTE_V \<noteq> 0 then Some (PTE2PA ?e) else None)"
    using tbl_step [OF p] by (simp add: k Let_def)
  have lk: "lock_ok KmemLock s" using Suc.prems(1) by (simp add: vm_inv_def)
  note unf = walk_loop.simps Let_def pte_at_fold get_pte_def clear_page_def set_pte_def
  show ?case
  proof (cases "?e AND PTE_V \<noteq> 0")
    case True
    then have "tbl (mem s) root va (2 - l) = Some (PTE2PA ?e)" using nxt k by simp
    from Suc.IH [OF Suc.prems(1,2) _ this] Suc.prems(3)
    have "wp (walk_loop l (PTE2PA ?e) va alloc) (\<lambda>r t. \<exists>zs. vm_ext root s xs t zs \<and>
      walk_result (mem t) root va r \<and> (\<not> alloc \<longrightarrow> t = s) \<and> length xs \<le> length zs + Suc l \<and>
      (alloc \<and> r = 0 \<longrightarrow> zs = [] \<and> length xs < Suc l)) s"
      by (auto elim!: wp_mono intro: le_SucI)
    then show ?thesis using True by (simp add: unf wp_simps)
  next
    case False
    then have none: "tbl (mem s) root va (Suc k) = None" using nxt by simp
    then have none2: "tbl (mem s) root va 2 = None" using tbl_None_below [OF none] k(1) by simp
    show ?thesis
    proof (cases "alloc \<and> xs \<noteq> []")
      case True
      then obtain x ys where xs: "xs = x # ys" by (cases xs) auto
      have fl: "freelist s = x" "x \<noteq> 0"
        using Suc.prems(1) by (auto simp: xs vm_inv_def kmem_inv_def)
      define t where "t = (kalloc_st s)\<lparr>mem := add_tbl (mem s) p (PX (2 - k) va) x\<rparr>"
      note ext = vm_ext_add_tbl [OF Suc.prems(1) [unfolded xs] Suc.prems(2) k(1) p none, folded t_def]
      have inv: "vm_inv t root ys" using ext(1) by (simp add: vm_ext_def)
      have "wp (walk_loop l x va alloc) (\<lambda>r u. \<exists>zs. vm_ext root t ys u zs \<and>
          walk_result (mem u) root va r \<and> (\<not> alloc \<longrightarrow> u = t) \<and> length ys \<le> length zs + l \<and> (alloc \<and> r = 0 \<longrightarrow> zs = [] \<and> length ys < l)) t"
        using Suc.IH [OF inv Suc.prems(2)] ext(2) k Suc.prems(3) by simp
      then have "wp (walk_loop l x va alloc) (\<lambda>r u. \<exists>zs. vm_ext root s xs u zs \<and>
          walk_result (mem u) root va r \<and> (\<not> alloc \<longrightarrow> u = s) \<and> length xs \<le> length zs + Suc l \<and> (alloc \<and> r = 0 \<longrightarrow> zs = [] \<and> length xs < Suc l)) t"
        by (rule wp_mono) (use vm_ext_trans [OF ext(1)] True xs in fastforce)
      moreover have "(kalloc_st s)\<lparr>mem := store64 (memset (mem (kalloc_st s)) x 0 4096) (pte_at p (PX (Suc l) va)) (PA2PTE x OR PTE_V)\<rparr> = t"
        using fl by (simp add: t_def k add_tbl_def kalloc_st_def memset_again)
      ultimately show ?thesis
        using False True fl lk by (simp add: unf wp_simps)
    next
      case nope: False
      show ?thesis
      proof (cases alloc)
        case True
        then have "xs = []" using nope by simp
        moreover from this have "freelist s = 0" "kalloc_st s = lockcycle s"
          using Suc.prems(1) by (auto simp: vm_inv_def kmem_inv_def kalloc_st_def)
        ultimately show ?thesis
          using False True lk none2 vm_inv_lockcycle [OF Suc.prems(1)]
          by (simp add: unf wp_simps walk_result_def)
      next
        case False': False
        show ?thesis
          using False False' none2 vm_ext_refl [OF Suc.prems(1)] by (auto simp: unf wp_simps walk_result_def)
      qed
    qed
  qed
qed

lemma walk_spec:
  assumes "vm_inv s root xs" "va < MAXVA"
  shows "wp (walk root va alloc) (\<lambda>r t. \<exists>zs. vm_ext root s xs t zs \<and>
      walk_result (mem t) root va r \<and> (\<not> alloc \<longrightarrow> t = s) \<and> length xs \<le> length zs + 2 \<and> (alloc \<and> r = 0 \<longrightarrow> zs = [] \<and> length xs < 2)) s"
  using walk_loop_spec [OF assms, of 2 root alloc] assms(2)
  by (simp add: walk_def wp_simps)

lemma walk_noalloc:
  assumes "va < MAXVA"
  shows "walk root va False s = Ret (case tbl (mem s) root va 2 of None \<Rightarrow> 0 | Some q \<Rightarrow> pte_at q (PX 0 va)) s"
proof -
  have "walk_loop l p va False s = Ret (case tbl (mem s) root va 2 of None \<Rightarrow> 0 | Some q \<Rightarrow> pte_at q (PX 0 va)) s"
    if "l \<le> 2" "tbl (mem s) root va (2 - l) = Some p" for l p
    using that
  proof (induction l arbitrary: p)
    case 0
    then show ?case by (simp add: kreturn_def pte_at_fold)
  next
    case (Suc l)
    define k where "k = 2 - Suc l"
    have k: "2 - l = Suc k" "2 - k = Suc l" "Suc k \<le> 2" using Suc.prems(1) by (auto simp: k_def)
    let ?e = "load64 (mem s) (pte_at p (PX (Suc l) va))"
    have "tbl (mem s) root va k = Some p" using Suc.prems(2) by (simp add: k_def)
    from tbl_step [OF this]
    have nxt: "tbl (mem s) root va (Suc k) = (if ?e AND PTE_V \<noteq> 0 then Some (PTE2PA ?e) else None)"
      by (simp add: k Let_def)
    show ?case
    proof (cases "?e AND PTE_V \<noteq> 0")
      case True
      then show ?thesis using Suc.IH [of "PTE2PA ?e"] Suc.prems(1) nxt k(1)
        by (simp add: Let_def get_pte_def run_defs pte_at_fold)
    next
      case False
      then have "tbl (mem s) root va 2 = None" using nxt tbl_None_below [of "mem s" root va "Suc k" 2] k by simp
      then show ?thesis using False by (simp add: Let_def get_pte_def run_defs pte_at_fold)
    qed
  qed
  from this [of 2 root] show ?thesis using assms by (simp add: walk_def run_defs)
qed

section \<open>mappages and walkaddr\<close>

text \<open>Like \<open>vm_ext\<close>, with the leaf entries given.\<close>

definition vm_upd :: "uint64 \<Rightarrow> 'a kmem_st_scheme \<Rightarrow> uint64 list \<Rightarrow> 'a kmem_st_scheme \<Rightarrow> uint64 list \<Rightarrow> (uint64 \<Rightarrow> uint64) \<Rightarrow> bool" where
  "vm_upd root s xs t zs L \<longleftrightarrow> vm_inv t root zs \<and> (\<exists>ys. xs = ys @ zs) \<and> kmem_only s t \<and>
     (\<forall>v. v < MAXVA \<longrightarrow> leaf (mem t) root v = L v) \<and>
     (\<forall>p. is_tbl (mem t) root p \<longrightarrow> is_tbl (mem s) root p \<or> p \<in> set xs - set zs) \<and>
     (\<forall>x. (\<forall>p. is_tbl (mem s) root p \<or> p \<in> set xs - set zs \<longrightarrow> \<not> in_page p x) \<longrightarrow> mem t x = mem s x)"

lemma vm_ext_upd: "vm_ext root s xs t zs \<longleftrightarrow> vm_upd root s xs t zs (leaf (mem s) root)"
  by (simp add: vm_ext_def vm_upd_def)

lemma vm_upd_leaf: "vm_upd root s xs t zs L \<Longrightarrow> vm_upd root s xs t zs (leaf (mem t) root)"
  by (simp add: vm_upd_def)

lemma vm_upd_trans:
  assumes "vm_upd root s xs t ys L" "vm_upd root t ys u zs L'"
  shows "vm_upd root s xs u zs L'"
proof -
  have sub: "set ys - set zs \<subseteq> set xs - set zs" "set xs - set ys \<subseteq> set xs - set zs"
    using assms by (auto simp: vm_upd_def)
  show ?thesis unfolding vm_upd_def
  proof (intro conjI)
    show "vm_inv u root zs" "\<forall>v. v < MAXVA \<longrightarrow> leaf (mem u) root v = L' v"
      using assms(2) by (simp_all add: vm_upd_def)
    show "\<exists>ws. xs = ws @ zs" using assms by (fastforce simp: vm_upd_def)
    show "kmem_only s u" using assms by (auto simp: vm_upd_def intro: kmem_only_trans)
    show "\<forall>p. is_tbl (mem u) root p \<longrightarrow> is_tbl (mem s) root p \<or> p \<in> set xs - set zs"
      using assms sub unfolding vm_upd_def by blast
    show "\<forall>x. (\<forall>p. is_tbl (mem s) root p \<or> p \<in> set xs - set zs \<longrightarrow> \<not> in_page p x) \<longrightarrow> mem u x = mem s x"
    proof (intro allI impI)
      fix x assume x: "\<forall>p. is_tbl (mem s) root p \<or> p \<in> set xs - set zs \<longrightarrow> \<not> in_page p x"
      then have "mem t x = mem s x" using assms(1) sub unfolding vm_upd_def by blast
      moreover have "mem u x = mem t x" using x assms sub unfolding vm_upd_def by blast
      ultimately show "mem u x = mem s x" by simp
    qed
  qed
qed

lemma vm_upd_cong: "vm_upd root s xs t zs L \<Longrightarrow> (\<And>v. v < MAXVA \<Longrightarrow> L v = L' v) \<Longrightarrow> vm_upd root s xs t zs L'"
  by (simp add: vm_upd_def)

lemma pfx_3_page: "pfx 3 v = pfx 3 w \<longleftrightarrow> PGROUNDDOWN v = PGROUNDDOWN w"
proof
  assume "pfx 3 v = pfx 3 w"
  then show "PGROUNDDOWN v = PGROUNDDOWN w" by (simp add: pfx_def PGROUNDDOWN_bits)
next
  have d: "drop_bit 12 (PGROUNDDOWN u) = drop_bit 12 u" for u :: uint64
    unfolding PGROUNDDOWN_bits by (rule bit_word_eqI) (auto simp: bit_simps dest: bit_imp_le_length)
  assume "PGROUNDDOWN v = PGROUNDDOWN w"
  then have "drop_bit 12 (PGROUNDDOWN v) = drop_bit 12 (PGROUNDDOWN w)" by (rule arg_cong)
  then have "drop_bit 12 v = drop_bit 12 w" unfolding d .
  then show "pfx 3 v = pfx 3 w" by (simp add: pfx_def)
qed

text \<open>A store to a leaf entry.\<close>

lemma vm_upd_set_leaf:
  assumes inv: "vm_inv s root xs" and va: "va < MAXVA" and p: "tbl (mem s) root va 2 = Some p"
  shows "vm_upd root s xs (s\<lparr>mem := store64 (mem s) (pte_at p (PX 0 va)) v\<rparr>) xs
    (\<lambda>w. if PGROUNDDOWN w = PGROUNDDOWN va then v else leaf (mem s) root w)"
proof -
  let ?m = "store64 (mem s) (pte_at p (PX 0 va)) v"
  have wf: "pt_wf (syms s) (mem s) root" using inv by (simp add: vm_inv_def)
  have it: "is_tbl (mem s) root p" using p va by (intro is_tblI) auto
  have pa: "page_aligned p" using wf it by (rule pt_wf_aligned)
  have out: "?m x = mem s x" if "\<not> in_page p x" for x
    using that pa by (simp add: store64_pte_out PX_less)
  have "kmem_inv (s\<lparr>mem := ?m\<rparr>) xs"
  proof -
    have f: "flist (mem s) (freelist s) xs" "list_all page_aligned xs" and px: "p \<notin> set xs"
      using inv it by (auto simp: vm_inv_def kmem_inv_def dest: list_all_page_ok)
    have "flist ?m (freelist s) xs"
      by (rule flist_frame [OF f]) (rule out [OF in_page_other [OF _ _ px]])
    then show ?thesis using inv by (simp add: kmem_inv_def vm_inv_def)
  qed
  then have "vm_inv (s\<lparr>mem := ?m\<rparr>) root xs"
    using inv pt_wf_store_leaf [OF wf va p] by (simp add: vm_inv_def)
  moreover have "\<forall>w. w < MAXVA \<longrightarrow> leaf ?m root w =
      (if PGROUNDDOWN w = PGROUNDDOWN va then v else leaf (mem s) root w)"
    using leaf_store_leaf [OF wf va p] by (simp add: pfx_3_page)
  moreover have "\<forall>x. (\<forall>q. is_tbl (mem s) root q \<or> q \<in> set xs - set xs \<longrightarrow> \<not> in_page q x) \<longrightarrow> ?m x = mem s x"
    using out it by blast
  ultimately show ?thesis
    using pt_wf_store_leaf(2) [OF wf va p] by (simp add: vm_upd_def)
qed

definition map_leaf :: "(uint64 \<Rightarrow> uint64) \<Rightarrow> uint64 \<Rightarrow> uint64 \<Rightarrow> uint64 \<Rightarrow> nat \<Rightarrow> uint64 \<Rightarrow> uint64" where
  "map_leaf L a pa perm n v =
     (if a \<le> PGROUNDDOWN v \<and> unat (PGROUNDDOWN v - a) < n * 4096
      then PA2PTE (pa + (PGROUNDDOWN v - a)) OR perm OR PTE_V else L v)"

lemma walkaddr_eq:
  assumes "pt_wf sy (mem s) root"
  shows "walkaddr root va s = Ret (let e = leaf (mem s) root va in
    if va < MAXVA \<and> e AND PTE_V \<noteq> 0 \<and> e AND PTE_U \<noteq> 0 then PTE2PA e else 0) s"
proof (cases "va < MAXVA")
  case True
  show ?thesis
  proof (cases "tbl (mem s) root va 2")
    case None
    then show ?thesis using True
      by (simp add: walkaddr_def run_defs walk_noalloc leaf_def not_le)
  next
    case (Some q)
    then have "is_tbl (mem s) root q" using True by (intro is_tblI) auto
    then have "pte_at q (PX 0 va) \<noteq> 0"
      using assms by (intro pte_at_nonzero [of sy] PX_less) (rule pt_wf_page)
    then show ?thesis using True Some
      by (simp add: walkaddr_def run_defs walk_noalloc leaf_def get_pte_def Let_def linorder_not_less [symmetric])
  qed
next
  case False
  then show ?thesis by (simp add: walkaddr_def run_defs linorder_not_less [symmetric] Let_def)
qed

lemma PGROUNDDOWN_step:
  assumes "page_aligned a" "unat a + (n + 1) * 4096 \<le> 2 ^ 64"
  shows "page_aligned (a + of_nat n * 4096)" "unat (a + of_nat n * 4096) = unat a + n * 4096"
proof -
  have "unat (of_nat (n * 4096) :: uint64) = n * 4096"
    using assms(2) by (intro unat_of_nat_small) simp
  then show u: "unat (a + of_nat n * 4096) = unat a + n * 4096"
    using assms(2) by (simp add: unat_word_ariths)
  show "page_aligned (a + of_nat n * 4096)"
    using assms(1) by (simp add: page_aligned_unat u)
qed

lemma map_leaf_Suc:
  assumes "page_aligned a" "unat a + (n + 1) * 4096 \<le> 2 ^ 64"
  shows "map_leaf L a pa perm (Suc n) v =
    (if PGROUNDDOWN v = a + of_nat n * 4096 then PA2PTE (pa + of_nat n * 4096) OR perm OR PTE_V
     else map_leaf L a pa perm n v)"
proof -
  obtain i j where ij: "unat (PGROUNDDOWN v) = 4096 * i" "unat a = 4096 * j"
    using assms(1) page_aligned_PGROUNDDOWN [of v] by (auto simp: page_aligned_unat elim!: dvdE)
  have d: "unat (PGROUNDDOWN v - a) = 4096 * (i - j)" if "a \<le> PGROUNDDOWN v"
    using that ij by (simp add: unat_sub right_diff_distrib')
  have e: "PGROUNDDOWN v = a + of_nat n * 4096 \<longleftrightarrow> i = j + n"
    using ij PGROUNDDOWN_step(2) [OF assms] by (auto simp: word_unat_eq_iff)
  show ?thesis
  proof (cases "i = j + n")
    case True
    moreover have "a \<le> PGROUNDDOWN v" using True ij by (simp add: word_le_nat_alt)
    ultimately show ?thesis using d e by (simp add: map_leaf_def)
  next
    case False
    then have "a \<le> PGROUNDDOWN v \<and> 4096 * (i - j) < Suc n * 4096 \<longleftrightarrow>
        a \<le> PGROUNDDOWN v \<and> 4096 * (i - j) < n * 4096"
      using ij by (auto simp: word_le_nat_alt)
    then show ?thesis using d e False by (auto simp: map_leaf_def)
  qed
qed

definition map_one :: "uint64 \<Rightarrow> uint64 \<Rightarrow> uint64 \<Rightarrow> uint64 \<Rightarrow> (int option, 'a kmem_st_scheme) kmonad" where
  "map_one root va pa perm = kbind (walk root va True) (\<lambda>pte.
     if pte = 0 then kreturn (Some (- 1))
     else kbind (get_pte pte) (\<lambda>e. kthen [
       panic_if (\<lambda>_. e AND PTE_V \<noteq> 0) ''mappages: remap'',
       set_pte pte (PA2PTE pa OR perm OR PTE_V)] (kreturn None)))"

definition map_post :: "uint64 \<Rightarrow> 'a kmem_st_scheme \<Rightarrow> uint64 list \<Rightarrow> uint64 \<Rightarrow> uint64 \<Rightarrow> int option \<Rightarrow> 'a kmem_st_scheme \<Rightarrow> bool" where
  "map_post root s xs va e r t \<longleftrightarrow> (\<exists>zs. length xs \<le> length zs + 2 \<and>
     (case r of None \<Rightarrow> vm_upd root s xs t zs (\<lambda>w. if PGROUNDDOWN w = PGROUNDDOWN va then e else leaf (mem s) root w)
      | Some v \<Rightarrow> v = - 1 \<and> zs = [] \<and> length xs < 2 \<and> vm_ext root s xs t zs))"

lemma map_one_spec:
  assumes inv: "vm_inv s root xs" and va: "va < MAXVA" and un: "leaf (mem s) root va AND PTE_V = 0"
  shows "wp (map_one root va pa perm) (map_post root s xs va (PA2PTE pa OR perm OR PTE_V)) s"
  unfolding map_one_def wp_kbind
proof (rule wp_mono [OF walk_spec [OF inv va]], elim exE conjE)
  fix pte t zs
  assume ext: "vm_ext root s xs t zs" and w: "walk_result (mem t) root va pte"
    and len: "length xs \<le> length zs + 2" and z: "True \<and> pte = 0 \<longrightarrow> zs = [] \<and> length xs < 2"
  have inv': "vm_inv t root zs" and lf: "\<And>v. v < MAXVA \<Longrightarrow> leaf (mem t) root v = leaf (mem s) root v"
    using ext by (auto simp: vm_ext_def)
  show "wp (if pte = 0 then kreturn (Some (- 1))
     else kbind (get_pte pte) (\<lambda>e. kthen [
       panic_if (\<lambda>_. e AND PTE_V \<noteq> 0) ''mappages: remap'',
       set_pte pte (PA2PTE pa OR perm OR PTE_V)] (kreturn None)))
     (map_post root s xs va (PA2PTE pa OR perm OR PTE_V)) t"
  proof (cases "pte = 0")
    case True
    then show ?thesis using ext z len by (auto simp: wp_simps map_post_def)
  next
    case False
    then obtain q where q: "tbl (mem t) root va 2 = Some q" "pte = pte_at q (PX 0 va)"
      using w by (auto simp: walk_result_def split: option.splits)
    have "load64 (mem t) pte = leaf (mem s) root va"
      using lf [OF va] q by (simp add: leaf_def)
    moreover have "vm_upd root s xs (t\<lparr>mem := store64 (mem t) pte (PA2PTE pa OR perm OR PTE_V)\<rparr>) zs
        (\<lambda>w. if PGROUNDDOWN w = PGROUNDDOWN va then PA2PTE pa OR perm OR PTE_V else leaf (mem s) root w)"
      using vm_upd_trans [OF ext [unfolded vm_ext_upd] vm_upd_set_leaf [OF inv' va q(1)]] lf
      unfolding q(2) vm_upd_def by auto
    ultimately show ?thesis using False un len by (auto simp: wp_simps get_pte_def set_pte_def map_post_def)
  qed
qed

lemma mappages_map_one:
  assumes "page_aligned va" "unat va + Suc n * 4096 \<le> unat (MAXVA :: uint64)"
  shows "mappages root va (of_nat (Suc n) * PGSIZE) pa perm =
    kfor [0..<Suc n] (\<lambda>i. map_one root (va + of_nat i * PGSIZE) (pa + of_nat i * PGSIZE) perm) (kreturn 0)"
proof -
  have u: "unat (of_nat k * PGSIZE :: uint64) = k * 4096" if "k \<le> Suc n" for k
  proof -
    have "unat (of_nat (k * 4096) :: uint64) = k * 4096"
      using assms(2) that by (intro unat_of_nat_small) simp
    then show ?thesis by simp
  qed
  have nz: "of_nat (Suc n) * PGSIZE \<noteq> (0 :: uint64)"
    using u [of "Suc n"] by (metis le_refl mult_is_0 nat.distinct(1) unat_0 zero_neq_numeral)
  have s: "page_aligned (va + of_nat n * 4096)"
    using assms by (intro PGROUNDDOWN_step) auto
  have e: "va + of_nat (Suc n) * PGSIZE - 1 = va + of_nat n * PGSIZE + 4095"
    by (simp add: algebra_simps)
  have lst: "PGROUNDDOWN (va + of_nat (Suc n) * PGSIZE - 1) = va + of_nat n * PGSIZE"
    unfolding e by (rule PGROUNDDOWN_add(1) [OF s]) simp
  have cnt: "unat ((va + of_nat n * PGSIZE - va) div PGSIZE) = n"
    using u [of n] by (simp add: unat_div)
  show ?thesis
    unfolding mappages_def kthen_panic_if_False [OF nz] Let_def lst PGROUNDDOWN_aligned [OF assms(1)] cnt
      map_one_def ..
qed

text \<open>What holds when the first \<open>i\<close> of the pages have been mapped.\<close>

definition mapped_upto :: "uint64 \<Rightarrow> 'a kmem_st_scheme \<Rightarrow> uint64 list \<Rightarrow> uint64 \<Rightarrow> uint64 \<Rightarrow> uint64 \<Rightarrow> nat \<Rightarrow> 'a kmem_st_scheme \<Rightarrow> uint64 list \<Rightarrow> bool" where
  "mapped_upto root s xs va pa perm i t zs \<longleftrightarrow> length xs \<le> length zs + 2 * i \<and>
     vm_upd root s xs t zs (map_leaf (leaf (mem s) root) va pa perm i)"

lemma mappages_step:
  assumes up: "mapped_upto root s xs va pa perm i t zs" and al: "page_aligned va"
    and n: "unat va + Suc n * 4096 \<le> unat (MAXVA :: uint64)" "i \<le> n"
    and un: "leaf (mem s) root (va + of_nat i * PGSIZE) AND PTE_V = 0"
  shows "wp (map_one root (va + of_nat i * PGSIZE) (pa + of_nat i * PGSIZE) perm)
    (\<lambda>r u. \<exists>zs. case r of
       None \<Rightarrow> mapped_upto root s xs va pa perm (Suc i) u zs
     | Some v \<Rightarrow> v = - 1 \<and> zs = [] \<and> length xs < 2 * Suc i \<and> vm_upd root s xs u zs (map_leaf (leaf (mem s) root) va pa perm i)) t"
proof -
  let ?va = "va + of_nat i * PGSIZE" and ?pa = "pa + of_nat i * PGSIZE"
  have st: "page_aligned ?va" "unat ?va = unat va + i * 4096"
    using PGROUNDDOWN_step [OF al, of i] n by auto
  have lt: "?va < MAXVA" using st n by (simp add: word_less_nat_alt)
  have rd: "PGROUNDDOWN ?va = ?va" using st(1) by (rule PGROUNDDOWN_aligned)
  have vu: "vm_upd root s xs t zs (map_leaf (leaf (mem s) root) va pa perm i)" and len: "length xs \<le> length zs + 2 * i"
    using up by (simp_all add: mapped_upto_def)
  have inv: "vm_inv t root zs" and lf: "\<And>v. v < MAXVA \<Longrightarrow> leaf (mem t) root v = map_leaf (leaf (mem s) root) va pa perm i v"
    using vu by (auto simp: vm_upd_def)
  have "unat (of_nat i * 4096 :: uint64) = i * 4096"
    using unat_of_nat_small [of "i * 4096"] n by simp
  then have un': "leaf (mem t) root ?va AND PTE_V = 0"
    using lf [OF lt] un by (simp add: map_leaf_def rd)
  have eq: "(if PGROUNDDOWN w = PGROUNDDOWN ?va then PA2PTE ?pa OR perm OR PTE_V else leaf (mem t) root w)
      = map_leaf (leaf (mem s) root) va pa perm (Suc i) w" if "w < MAXVA" for w
    using that n lf by (subst map_leaf_Suc [OF al]) (auto simp: rd)
  show ?thesis
  proof (rule wp_mono [OF map_one_spec [OF inv lt un']])
    fix r u
    assume "map_post root t zs ?va (PA2PTE ?pa OR perm OR PTE_V) r u"
    then obtain zs' where l: "length zs \<le> length zs' + 2" and r: "case r of
        None \<Rightarrow> vm_upd root t zs u zs' (\<lambda>w. if PGROUNDDOWN w = PGROUNDDOWN ?va then PA2PTE ?pa OR perm OR PTE_V else leaf (mem t) root w)
      | Some v \<Rightarrow> v = - 1 \<and> zs' = [] \<and> length zs < 2 \<and> vm_ext root t zs u zs'"
      unfolding map_post_def by blast
    show "\<exists>zs. case r of None \<Rightarrow> mapped_upto root s xs va pa perm (Suc i) u zs
     | Some v \<Rightarrow> v = - 1 \<and> zs = [] \<and> length xs < 2 * Suc i \<and> vm_upd root s xs u zs (map_leaf (leaf (mem s) root) va pa perm i)"
    proof (cases r)
      case None
      then have "vm_upd root s xs u zs' (map_leaf (leaf (mem s) root) va pa perm (Suc i))"
        using r vm_upd_cong [OF vm_upd_trans [OF vu] eq] by simp
      then show ?thesis using None l len by (auto simp: mapped_upto_def intro!: exI [of _ zs'])
    next
      case (Some v)
      then have "vm_upd root s xs u zs' (leaf (mem t) root)"
        using r vm_upd_trans [OF vu, of u zs'] by (auto simp: vm_ext_upd)
      from vm_upd_cong [OF this lf] show ?thesis using Some r len
        by (auto intro!: exI [of _ zs'])
    qed
  qed
qed

lemma mappages_spec:
  assumes inv: "vm_inv s root xs" and al: "page_aligned va"
    and n: "unat va + Suc n * 4096 \<le> unat (MAXVA :: uint64)"
    and un: "\<And>i. i \<le> n \<Longrightarrow> leaf (mem s) root (va + of_nat i * PGSIZE) AND PTE_V = 0"
  shows "wp (mappages root va (of_nat (Suc n) * PGSIZE) pa perm) (\<lambda>r t. \<exists>zs i.
    (r = 0 \<and> i = Suc n \<or> r = - 1 \<and> zs = [] \<and> i \<le> n \<and> length xs < 2 * Suc n) \<and>
    vm_upd root s xs t zs (map_leaf (leaf (mem s) root) va pa perm i)) s"
  unfolding mappages_map_one [OF al n]
proof (rule wp_kfor_inv [where I = "\<lambda>ys t. \<exists>zs. mapped_upto root s xs va pa perm (length ys) t zs"])
  have "map_leaf L va pa perm 0 = L" for L by (simp add: map_leaf_def fun_eq_iff)
  then show "\<exists>zs. mapped_upto root s xs va pa perm (length []) s zs"
    using vm_ext_refl [OF inv] by (auto simp: vm_ext_upd mapped_upto_def)
next
  fix ys :: "nat list" and i ws t
  assume sp: "[0..<Suc n] = ys @ i # ws" and "\<exists>zs. mapped_upto root s xs va pa perm (length ys) t zs"
  then obtain zs where up: "mapped_upto root s xs va pa perm i t zs" and i: "i = length ys" "i \<le> n"
    using upt_split [OF sp] by auto
  show "wp (map_one root (va + of_nat i * PGSIZE) (pa + of_nat i * PGSIZE) perm)
     (\<lambda>r u. case r of None \<Rightarrow> \<exists>zs. mapped_upto root s xs va pa perm (length (ys @ [i])) u zs
       | Some v \<Rightarrow> \<exists>zs j. (v = 0 \<and> j = Suc n \<or> v = - 1 \<and> zs = [] \<and> j \<le> n \<and> length xs < 2 * Suc n) \<and>
         vm_upd root s xs u zs (map_leaf (leaf (mem s) root) va pa perm j)) t"
  proof (rule wp_mono [OF mappages_step [OF up al n i(2) un [OF i(2)]]], elim exE)
    fix r :: "int option" and u zs
    assume r: "case r of None \<Rightarrow> mapped_upto root s xs va pa perm (Suc i) u zs
      | Some v \<Rightarrow> v = - 1 \<and> zs = [] \<and> length xs < 2 * Suc i \<and>
          vm_upd root s xs u zs (map_leaf (leaf (mem s) root) va pa perm i)"
    then have "length xs < 2 * Suc n" if "r = Some v" for v using that i(2) by simp
    with r i show "case r of None \<Rightarrow> \<exists>zs. mapped_upto root s xs va pa perm (length (ys @ [i])) u zs
       | Some v \<Rightarrow> \<exists>zs j. (v = 0 \<and> j = Suc n \<or> v = - 1 \<and> zs = [] \<and> j \<le> n \<and> length xs < 2 * Suc n) \<and>
         vm_upd root s xs u zs (map_leaf (leaf (mem s) root) va pa perm j)"
      by (cases r) (auto simp del: mult_Suc_right)
  qed
qed (auto simp: wp_simps mapped_upto_def)

end
