(* ===== verification/Vm_User.thy ===== *)
theory Vm_User
  imports Vm_Tables
begin

text \<open>
  User memory through a page table: \<open>upage\<close> is the physical page of a virtual address that the
  user may access and \<open>uread\<close> the byte there. The lemmas show that \<^verbatim>\<open>copyout\<close>,
  \<^verbatim>\<open>copyin\<close> and \<^verbatim>\<open>copyinstr\<close> write and read exactly the bytes of a range of virtual
  addresses, across page boundaries, and fail exactly when some page of it is not accessible.
\<close>

section \<open>The user's view of memory\<close>

definition upage :: "ram \<Rightarrow> uint64 \<Rightarrow> uint64 \<Rightarrow> uint64 option" where
  "upage m root va = (let e = leaf m root va in
     if va < MAXVA \<and> e AND PTE_V \<noteq> 0 \<and> e AND PTE_U \<noteq> 0 then Some (PTE2PA e) else None)"

definition uread :: "ram \<Rightarrow> uint64 \<Rightarrow> uint64 \<Rightarrow> uchar option" where
  "uread m root va = map_option (\<lambda>p. m (p + (va - PGROUNDDOWN va))) (upage m root va)"

text \<open>
  An address space: a well-formed tree whose accessible pages are not null, are no table pages,
  and are mapped at one place only.
\<close>

definition us_inv :: "symtab \<Rightarrow> ram \<Rightarrow> uint64 \<Rightarrow> bool" where
  "us_inv sy m root \<longleftrightarrow> pt_wf sy m root \<and>
     (\<forall>v p. upage m root v = Some p \<longrightarrow> p \<noteq> 0 \<and> \<not> is_tbl m root p) \<and>
     (\<forall>v w p. upage m root v = Some p \<longrightarrow> upage m root w = Some p \<longrightarrow> PGROUNDDOWN v = PGROUNDDOWN w)"

lemma upage_aligned: "upage m root va = Some p \<Longrightarrow> page_aligned p"
  by (auto simp: upage_def Let_def split: if_splits)

lemma leaf_page: "va < MAXVA \<Longrightarrow> vb < MAXVA \<Longrightarrow> PGROUNDDOWN va = PGROUNDDOWN vb \<Longrightarrow> leaf m root va = leaf m root vb"
proof -
  assume v: "va < MAXVA" "vb < MAXVA" "PGROUNDDOWN va = PGROUNDDOWN vb"
  then have "pfx (Suc 2) va = pfx (Suc 2) vb" using pfx_3_page [of va vb] by (simp add: numeral_3_eq_3 numeral_2_eq_2)
  then have "pfx 2 va = pfx 2 vb" "PX 0 va = PX 0 vb" using pfx_Suc_iff [of 2 va vb] by simp_all
  then show ?thesis using tbl_pfx [OF v(1,2), of 2] by (simp add: leaf_def split: option.split)
qed

lemma PGROUNDDOWN_le: "PGROUNDDOWN a \<le> a"
  by (simp add: word_le_nat_alt unat_PGROUNDDOWN)

lemma MAXVA_page: "PGROUNDDOWN va < MAXVA \<longleftrightarrow> va < MAXVA"
proof -
  have "unat va div 4096 * 4096 < 67108864 * 4096 \<longleftrightarrow> unat va < 67108864 * 4096"
    unfolding mult_less_cancel2 by (simp add: div_less_iff_less_mult)
  then show ?thesis by (simp add: word_less_nat_alt unat_PGROUNDDOWN)
qed

lemma upage_page: "PGROUNDDOWN va = PGROUNDDOWN vb \<Longrightarrow> upage m root va = upage m root vb"
proof -
  assume e: "PGROUNDDOWN va = PGROUNDDOWN vb"
  then have "va < MAXVA \<longleftrightarrow> vb < MAXVA" using MAXVA_page [of va] MAXVA_page [of vb] by simp
  then show ?thesis using leaf_page [OF _ _ e] by (auto simp: upage_def Let_def)
qed

lemma upage_down [simp]: "upage m root (PGROUNDDOWN va) = upage m root va"
  by (rule upage_page) (simp add: PGROUNDDOWN_aligned)

lemma walkaddr_upage:
  "pt_wf sy (mem s) root \<Longrightarrow> walkaddr root va s = Ret (case upage (mem s) root va of None \<Rightarrow> 0 | Some p \<Rightarrow> p) s"
  by (simp add: walkaddr_eq upage_def Let_def)

text \<open>Memory that is outside the table pages is not seen by the translation.\<close>

lemma upage_frame:
  assumes "pt_wf sy m root" "\<And>p x. is_tbl m root p \<Longrightarrow> in_page p x \<Longrightarrow> m' x = m x"
  shows "upage m' root va = upage m root va"
proof (cases "va < MAXVA")
  case True
  then have "leaf m' root va = leaf m root va" by (rule leaf_frame [OF assms(1) _ assms(2)])
  then show ?thesis by (simp add: upage_def)
qed (simp add: upage_def Let_def)

lemma us_inv_frame:
  assumes inv: "us_inv sy m root" and same: "\<And>p x. is_tbl m root p \<Longrightarrow> in_page p x \<Longrightarrow> m' x = m x"
  shows "us_inv sy m' root"
proof -
  have wf: "pt_wf sy m root" using inv by (simp add: us_inv_def)
  have u: "upage m' root v = upage m root v" for v by (rule upage_frame [OF wf same])
  have i: "is_tbl m' root p \<longleftrightarrow> is_tbl m root p" for p by (rule pt_wf_frame(2) [OF wf same])
  have "pt_wf sy m' root" by (rule pt_wf_frame(1) [OF wf same])
  then show ?thesis using inv unfolding us_inv_def u i by blast
qed

text \<open>A store inside one accessible page.\<close>

lemma ram_put_page_frame:
  assumes inv: "us_inv sy m root" and p: "upage m root v = Some p"
    and off: "unat d + length xs \<le> 4096"
  shows "\<And>q x. is_tbl m root q \<Longrightarrow> in_page q x \<Longrightarrow> ram_put m (p + d) xs x = m x"
    and "\<And>x. \<not> in_page p x \<Longrightarrow> ram_put m (p + d) xs x = m x"
proof -
  have pa: "page_aligned p" using p by (rule upage_aligned)
  show out: "ram_put m (p + d) xs x = m x" if "\<not> in_page p x" for x
  proof -
    have "\<not> unat (x - (p + d)) < length xs"
    proof
      assume l: "unat (x - (p + d)) < length xs"
      have "x - p = d + of_nat (unat (x - (p + d)))" by simp
      moreover have "unat (d + of_nat (unat (x - (p + d)))) = unat d + unat (x - (p + d))"
        using l off unat_less_64 [of d] by (intro unat_add_fits [of d "length xs"]) (auto simp: fits_def)
      ultimately have "unat (x - p) < 4096" using l off by simp
      with pa that show False by (simp add: in_page_offset)
    qed
    then show ?thesis by (simp add: ram_put_def)
  qed
  show "ram_put m (p + d) xs x = m x" if "is_tbl m root q" "in_page q x" for q x
    using inv p that out [of x] in_page_unique [of q x p] by (auto simp: us_inv_def)
qed

section \<open>copyout\<close>

lemma PGROUNDDOWN_chunk:
  assumes "i < unat (chunk va len)"
  shows "PGROUNDDOWN (va + of_nat i) = PGROUNDDOWN va" "unat (va + of_nat i) = unat va + i"
    "va + of_nat i - PGROUNDDOWN va = va - PGROUNDDOWN va + of_nat i"
proof -
  define q r where "q = unat va div 4096" and "r = unat va mod 4096"
  have va: "unat va = 4096 * q + r" "r < 4096" by (simp_all add: q_def r_def)
  have "i < 4096 - r" using assms by (simp add: unat_chunk r_def)
  then have i: "r + i < 4096" using va(2) by linarith
  have "4096 * q + 4096 \<le> 2 ^ 64"
    using page_room [OF page_aligned_PGROUNDDOWN, of va] by (simp add: unat_PGROUNDDOWN q_def mult.commute)
  then have "unat va + i < 2 ^ 64" using va i by simp
  then show u: "unat (va + of_nat i) = unat va + i"
    by (intro unat_add_fits [of _ i]) (simp_all add: fits_def)
  have "(4096 * q + (r + i)) div 4096 = q" using i by simp
  then show "PGROUNDDOWN (va + of_nat i) = PGROUNDDOWN va"
    by (simp add: word_unat_eq_iff unat_PGROUNDDOWN u va add.assoc)
qed simp

text \<open>
  One round of \<^verbatim>\<open>copyout\<close>: the bytes of the chunk are now the user's, nothing else is.
\<close>

lemma uread_put_chunk:
  assumes inv: "us_inv sy m root" and p: "upage m root va = Some p"
    and len: "length xs = unat (chunk va len)"
  defines "m' \<equiv> ram_put m (p + (va - PGROUNDDOWN va)) xs"
  shows "us_inv sy m' root" "upage m' root v = upage m root v" "is_tbl m' root q = is_tbl m root q"
    "leaf m' root v = leaf m root v \<or> \<not> v < MAXVA"
    "uread m' root v = (if unat (v - va) < length xs then Some (xs ! unat (v - va)) else uread m root v)"
proof -
  let ?d = "va - PGROUNDDOWN va"
  have off: "unat ?d + length xs \<le> 4096"
    unfolding page_offset_unat len unat_chunk by simp
  note frame = ram_put_page_frame [OF inv p off, folded m'_def]
  have app: "m' x = (if unat (x - (p + ?d)) < length xs then xs ! unat (x - (p + ?d)) else m x)" for x
    by (simp only: m'_def ram_put_def)
  have wf: "pt_wf sy m root" using inv by (simp add: us_inv_def)
  show "us_inv sy m' root" by (rule us_inv_frame [OF inv frame(1)])
  show "is_tbl m' root q = is_tbl m root q" by (rule pt_wf_frame(2) [OF wf frame(1)])
  show u: "upage m' root v = upage m root v" for v by (rule upage_frame [OF wf frame(1)])
  have "v < MAXVA \<Longrightarrow> leaf m' root v = leaf m root v" by (rule leaf_frame [OF wf _ frame(1)])
  then show "leaf m' root v = leaf m root v \<or> \<not> v < MAXVA" by blast
  show "uread m' root v = (if unat (v - va) < length xs then Some (xs ! unat (v - va)) else uread m root v)"
  proof (cases "unat (v - va) < length xs")
    case True
    define i where "i = unat (v - va)"
    have i: "i < unat (chunk va len)" "v = va + of_nat i" using True len by (simp_all add: i_def)
    have pg: "PGROUNDDOWN v = PGROUNDDOWN va" using PGROUNDDOWN_chunk(1) [OF i(1)] i(2) by simp
    then have "upage m' root v = Some p" using u p upage_page [OF pg] by simp
    moreover have e: "p + (v - PGROUNDDOWN v) - (p + ?d) = v - va" by (simp add: pg)
    have "m' (p + (v - PGROUNDDOWN v)) = xs ! unat (v - va)" unfolding app e using True by simp
    ultimately show ?thesis using True by (simp add: uread_def)
  next
    case False
    have "m' (q + (v - PGROUNDDOWN v)) = m (q + (v - PGROUNDDOWN v))" if q: "upage m root v = Some q" for q
    proof (cases "q = p")
      case True
      then have pg: "PGROUNDDOWN v = PGROUNDDOWN va" using inv p q unfolding us_inv_def by blast
      have e: "q + (v - PGROUNDDOWN v) - (p + ?d) = v - va" by (simp add: True pg)
      show ?thesis unfolding app e using False by simp
    next
      case False
      have "in_page q (q + (v - PGROUNDDOWN v))"
        using PGROUNDDOWN_add(1) [OF upage_aligned [OF q], of "v - PGROUNDDOWN v"] page_offset_less [of v]
        by (simp add: in_page_def page_offset)
      then have "\<not> in_page p (q + (v - PGROUNDDOWN v))" using False in_page_unique by blast
      then show ?thesis by (rule frame(2))
    qed
    then show ?thesis using False u by (cases "upage m root v") (simp_all add: uread_def)
  qed
qed

text \<open>A range of virtual addresses that the user may access.\<close>

definition urange :: "ram \<Rightarrow> uint64 \<Rightarrow> uint64 \<Rightarrow> nat \<Rightarrow> bool" where
  "urange m root va n \<longleftrightarrow> (\<forall>i < n. upage m root (va + of_nat i) \<noteq> None)"

lemma next_page: "PGROUNDDOWN va + PGSIZE = va + (PGSIZE - (va - PGROUNDDOWN va))"
  by simp

lemma urange_chunk:
  assumes "0 < len" and "upage m root va = Some p"
  shows "urange m root va (unat len) \<longleftrightarrow>
    urange m root (PGROUNDDOWN va + PGSIZE) (unat (len - chunk va len))"
proof -
  let ?n = "chunk va len"
  have first: "upage m root (va + of_nat i) \<noteq> None" if "i < unat ?n" for i
    using assms(2) upage_page [OF PGROUNDDOWN_chunk(1) [OF that]] by simp
  show ?thesis
  proof (cases "unat ?n = unat len")
    case True
    then show ?thesis using first by (simp add: urange_def unat_minus_chunk)
  next
    case False
    then have "?n = PGSIZE - (va - PGROUNDDOWN va)" by (auto simp: chunk_def Let_def split: if_splits)
    then have nx: "PGROUNDDOWN va + PGSIZE = va + ?n" by simp
    have le: "unat ?n \<le> unat len" by (rule chunk_bounds(2))
    show ?thesis
    proof
      assume r: "urange m root va (unat len)"
      show "urange m root (PGROUNDDOWN va + PGSIZE) (unat (len - ?n))"
        unfolding urange_def nx
      proof (intro allI impI)
        fix i assume "i < unat (len - ?n)"
        then have "unat ?n + i < unat len" by (simp add: unat_minus_chunk)
        with r have "upage m root (va + of_nat (unat ?n + i)) \<noteq> None" unfolding urange_def by blast
        then show "upage m root (va + ?n + of_nat i) \<noteq> None" by (simp add: add.assoc)
      qed
    next
      assume r: "urange m root (PGROUNDDOWN va + PGSIZE) (unat (len - ?n))"
      show "urange m root va (unat len)"
        unfolding urange_def
      proof (intro allI impI)
        fix i assume i: "i < unat len"
        show "upage m root (va + of_nat i) \<noteq> None"
        proof (cases "i < unat ?n")
          case False
          then have "i - unat ?n < unat (len - ?n)" using i by (simp add: unat_minus_chunk)
          with r have "upage m root (va + ?n + of_nat (i - unat ?n)) \<noteq> None" unfolding urange_def nx by blast
          then show ?thesis using False by (simp add: of_nat_diff)
        qed (rule first)
      qed
    qed
  qed
qed

lemma unat_sub_cases:
  "unat (x - n) = (if unat n \<le> unat x then unat x - unat n else 18446744073709551616 - unat n + unat x)"
  for x n :: uint64
  using unat_less_64 [of n] by (auto simp: unat_sub_if_size word_size)

lemma chunk_next:
  assumes "chunk va len \<noteq> len"
  shows "PGROUNDDOWN va + PGSIZE = va + chunk va len"
  using assms by (auto simp: chunk_def Let_def split: if_splits)

text \<open>Membership in a range, split at the first chunk.\<close>

lemma range_split:
  fixes va v len :: uint64
  defines "n \<equiv> chunk va len"
  shows "unat (v - va) < unat n \<Longrightarrow> n \<noteq> len \<Longrightarrow> \<not> unat (v - (va + n)) < unat (len - n)"
    and "\<not> unat (v - va) < unat n \<Longrightarrow> unat (v - (va + n)) = unat (v - va) - unat n"
    and "unat (len - n) = unat len - unat n" and "unat n \<le> unat len"
proof -
  show le: "unat n \<le> unat len" and d: "unat (len - n) = unat len - unat n"
    unfolding n_def by (rule chunk_bounds(2), rule unat_minus_chunk)
  have e: "v - (va + n) = v - va - n" by simp
  show "\<not> unat (v - (va + n)) < unat (len - n)" if "unat (v - va) < unat n"
    unfolding e d unat_sub_cases [of "v - va"] using that le unat_less_64 [of len] by simp
  show "unat (v - (va + n)) = unat (v - va) - unat n" if "\<not> unat (v - va) < unat n"
    unfolding e unat_sub_cases [of "v - va"] using that by simp
qed

definition wrote :: "ram \<Rightarrow> uint64 \<Rightarrow> uint64 \<Rightarrow> bytes \<Rightarrow> nat \<Rightarrow> ram \<Rightarrow> bool" where
  "wrote m root va src n m' \<longleftrightarrow> (\<forall>v. uread m' root v =
     (if unat (v - va) < n then Some (src (unat (v - va))) else uread m root v))"

lemma copyout_join:
  fixes va len :: uint64
  defines "n \<equiv> chunk va len" and "nx \<equiv> PGROUNDDOWN va + PGSIZE"
  assumes m1: "\<And>v. uread m1 root v =
      (if unat (v - va) < unat n then Some (src (unat (v - va))) else uread m root v)"
    and ih: "if U then r = 0 \<and> wrote m1 root nx (\<lambda>i. src (i + unat n)) (unat (len - n)) m'
      else r = - 1 \<and> (\<forall>v. \<not> unat (v - nx) < unat (len - n) \<longrightarrow> uread m' root v = uread m1 root v)"
  shows "if U then r = 0 \<and> wrote m root va src (unat len) m'
    else r = - 1 \<and> (\<forall>v. \<not> unat (v - va) < unat len \<longrightarrow> uread m' root v = uread m root v)"
proof (cases "n = len")
  case True
  then show ?thesis using ih m1 by (simp add: wrote_def split: if_splits)
next
  case False
  then have nx: "nx = va + n" unfolding n_def nx_def by (rule chunk_next)
  note sp = range_split [where va = va and len = len, folded n_def]
  show ?thesis
  proof (cases U)
    case True
    have "uread m' root v = (if unat (v - va) < unat len then Some (src (unat (v - va))) else uread m root v)" for v
      using ih True m1 [of v] sp(1,2) [of v] sp(3,4) \<open>n \<noteq> len\<close> unfolding wrote_def nx by (cases "unat (v - va) < unat n") auto
    then show ?thesis using ih True by (simp add: wrote_def)
  next
    case False
    have "uread m' root v = uread m root v" if "\<not> unat (v - va) < unat len" for v
      using ih False m1 [of v] sp(1,2) [of v] sp(3,4) that unfolding nx by auto
    then show ?thesis using ih False by simp
  qed
qed

lemma copyout_spec:
  assumes "us_inv (syms s) (mem s) root"
  shows "\<exists>r m'. copyout root va src len s = Ret r (s\<lparr>mem := m'\<rparr>) \<and> us_inv (syms s) m' root \<and>
    (\<forall>v. upage m' root v = upage (mem s) root v) \<and>
    (if urange (mem s) root va (unat len) then r = 0 \<and> wrote (mem s) root va src (unat len) m'
     else r = - 1 \<and> (\<forall>v. \<not> unat (v - va) < unat len \<longrightarrow> uread m' root v = uread (mem s) root v))"
  using assms
proof (induction root va src len arbitrary: s rule: copyout.induct)
  case (1 root va src len)
  have wf: "pt_wf (syms s) (mem s) root" using "1.prems" by (simp add: us_inv_def)
  show ?case
  proof (cases "len > 0")
    case False
    then have "len = 0" by (simp add: word_greater_zero_iff)
    then have "copyout root va src len s = Ret 0 (s\<lparr>mem := mem s\<rparr>)"
      by (simp add: copyout.simps kreturn_def)
    then show ?thesis using "1.prems" \<open>len = 0\<close> by (intro exI) (auto simp: urange_def wrote_def)
  next
    case True
    show ?thesis
    proof (cases "upage (mem s) root va")
      case None
      have "copyout root va src len s = Ret (- 1) (s\<lparr>mem := mem s\<rparr>)"
        using True None walkaddr_upage [OF wf, of "PGROUNDDOWN va"]
        by (subst copyout.simps) (simp add: run_defs Let_def)
      moreover have "\<not> urange (mem s) root va (unat len)"
        using None True by (auto simp: urange_def word_less_nat_alt intro!: exI [of _ 0])
      ultimately show ?thesis using "1.prems" by (intro exI [of _ "- 1"] exI [of _ "mem s"]) simp
    next
      case (Some p)
      then have p0: "p \<noteq> 0" using "1.prems" by (auto simp: us_inv_def)
      define n where "n = chunk va len"
      define xs where "xs = map src [0..<unat n]"
      define m1 where "m1 = ram_put (mem s) (p + (va - PGROUNDDOWN va)) xs"
      have lx: "length xs = unat n" by (simp add: xs_def)
      note put = uread_put_chunk [OF "1.prems" Some lx [unfolded n_def], folded m1_def]
      have run: "copyout root va src len s =
          copyout root (PGROUNDDOWN va + PGSIZE) (\<lambda>i. src (i + unat n)) (len - n) (s\<lparr>mem := m1\<rparr>)"
        using True Some p0 walkaddr_upage [OF wf, of "PGROUNDDOWN va"]
        by (subst copyout.simps)
          (simp add: run_defs Let_def store_bytes_def n_def [symmetric] m1_def xs_def)
      have ur: "urange (mem s) root va (unat len) \<longleftrightarrow> urange m1 root (PGROUNDDOWN va + PGSIZE) (unat (len - n))"
        using urange_chunk [OF True Some] put(2) by (simp add: urange_def n_def)
      have sel: "mem (s\<lparr>mem := m1\<rparr>) = m1" "syms (s\<lparr>mem := m1\<rparr>) = syms s"
        "(s\<lparr>mem := m1\<rparr>)\<lparr>mem := x\<rparr> = s\<lparr>mem := x\<rparr>" for x by simp_all
      have inv1: "us_inv (syms (s\<lparr>mem := m1\<rparr>)) (mem (s\<lparr>mem := m1\<rparr>)) root" using put(1) by simp
      obtain r m' where
        ih: "copyout root (PGROUNDDOWN va + PGSIZE) (\<lambda>i. src (i + unat n)) (len - n) (s\<lparr>mem := m1\<rparr>) = Ret r (s\<lparr>mem := m'\<rparr>)"
        "us_inv (syms s) m' root" "\<forall>v. upage m' root v = upage m1 root v"
        "if urange m1 root (PGROUNDDOWN va + PGSIZE) (unat (len - n))
         then r = 0 \<and> wrote m1 root (PGROUNDDOWN va + PGSIZE) (\<lambda>i. src (i + unat n)) (unat (len - n)) m'
         else r = - 1 \<and> (\<forall>v. \<not> unat (v - (PGROUNDDOWN va + PGSIZE)) < unat (len - n) \<longrightarrow> uread m' root v = uread m1 root v)"
        using "1.IH" [OF True refl p0 n_def inv1] unfolding sel by blast
      have "\<And>v. uread m1 root v = (if unat (v - va) < unat n then Some (src (unat (v - va))) else uread (mem s) root v)"
        using put(5) by (simp add: lx) (simp add: xs_def)
      from copyout_join [OF this [unfolded n_def] ih(4) [unfolded n_def]]
      have "if urange (mem s) root va (unat len) then r = 0 \<and> wrote (mem s) root va src (unat len) m'
         else r = - 1 \<and> (\<forall>v. \<not> unat (v - va) < unat len \<longrightarrow> uread m' root v = uread (mem s) root v)"
        unfolding ur n_def .
      then show ?thesis using run ih put(2) by (intro exI [of _ r] exI [of _ m']) simp
    qed
  qed
qed

section \<open>copyin\<close>

lemma uread_chunk:
  assumes "upage m root va = Some p" "i < unat (chunk va len)"
  shows "uread m root (va + of_nat i) = Some (m (p + (va - PGROUNDDOWN va) + of_nat i))"
  using assms upage_page [OF PGROUNDDOWN_chunk(1) [OF assms(2)]] PGROUNDDOWN_chunk(1) [OF assms(2)]
  by (simp add: uread_def algebra_simps)

definition got :: "ram \<Rightarrow> uint64 \<Rightarrow> uint64 \<Rightarrow> nat \<Rightarrow> nat \<Rightarrow> bytes \<Rightarrow> bytes \<Rightarrow> bool" where
  "got m root va i n dst dst' \<longleftrightarrow> (\<forall>k. dst' k =
     (if i \<le> k \<and> k < i + n then the (uread m root (va + of_nat (k - i))) else dst k))"

lemma got_chunk:
  assumes p: "upage m root va = Some p" and n: "n = chunk va len"
    and g: "got m root (PGROUNDDOWN va + PGSIZE) (i + unat n) (unat (len - n))
      (put_bytes dst i (ram_get m (p + (va - PGROUNDDOWN va)) (unat n))) dst'"
  shows "got m root va i (unat len) dst dst'"
proof -
  have le: "unat n \<le> unat len" "unat (len - n) = unat len - unat n"
    unfolding n by (rule chunk_bounds(2), rule unat_minus_chunk)
  have "dst' k = (if i \<le> k \<and> k < i + unat len then the (uread m root (va + of_nat (k - i))) else dst k)" for k
  proof (cases "i + unat n \<le> k \<and> k < i + unat len")
    case True
    then have "n \<noteq> len" by auto
    then have nx: "PGROUNDDOWN va + PGSIZE = va + n" unfolding n by (rule chunk_next)
    have "(of_nat (k - (i + unat n)) :: uint64) = of_nat (k - i) - n"
      using True by (simp add: of_nat_diff)
    then show ?thesis using g True le unfolding got_def nx by simp
  next
    case False
    then have "dst' k = put_bytes dst i (ram_get m (p + (va - PGROUNDDOWN va)) (unat n)) k"
      using g le unfolding got_def by auto
    then show ?thesis using False le uread_chunk [OF p, of "k - i" len] n by (auto simp: put_bytes_def)
  qed
  then show ?thesis by (simp add: got_def)
qed

lemma copyin_loop_spec:
  assumes "us_inv (syms s) (mem s) root"
  shows "\<exists>r dst'. copyin_loop root dst i va len s = Ret (r, dst') s \<and>
    (if urange (mem s) root va (unat len) then r = 0 \<and> got (mem s) root va i (unat len) dst dst' else r = - 1)"
  using assms
proof (induction root dst i va len rule: copyin_loop.induct)
  case (1 root dst i va len)
  have wf: "pt_wf (syms s) (mem s) root" using "1.prems" by (simp add: us_inv_def)
  show ?case
  proof (cases "len > 0")
    case False
    then have "len = 0" by (simp add: word_greater_zero_iff)
    then show ?thesis by (auto simp: copyin_loop.simps kreturn_def urange_def got_def)
  next
    case True
    show ?thesis
    proof (cases "upage (mem s) root va")
      case None
      have "copyin_loop root dst i va len s = Ret (- 1, dst) s"
        using True None walkaddr_upage [OF wf, of "PGROUNDDOWN va"]
        by (subst copyin_loop.simps) (simp add: run_defs Let_def)
      moreover have "\<not> urange (mem s) root va (unat len)"
        using None True by (auto simp: urange_def word_less_nat_alt intro!: exI [of _ 0])
      ultimately show ?thesis by auto
    next
      case (Some p)
      then have p0: "p \<noteq> 0" using "1.prems" by (auto simp: us_inv_def)
      define n where "n = chunk va len"
      define xs where "xs = ram_get (mem s) (p + (va - PGROUNDDOWN va)) (unat n)"
      have run: "copyin_loop root dst i va len s =
          copyin_loop root (put_bytes dst i xs) (i + unat n) (PGROUNDDOWN va + PGSIZE) (len - n) s"
        using True Some p0 walkaddr_upage [OF wf, of "PGROUNDDOWN va"]
        by (subst copyin_loop.simps) (simp add: run_defs Let_def n_def [symmetric] xs_def)
      have ur: "urange (mem s) root va (unat len) \<longleftrightarrow> urange (mem s) root (PGROUNDDOWN va + PGSIZE) (unat (len - n))"
        unfolding n_def by (rule urange_chunk [OF True Some])
      show ?thesis
        using "1.IH" [OF True refl p0 n_def "1.prems", of xs] got_chunk [OF Some n_def, of i dst] 
        unfolding run ur xs_def [symmetric] by (metis (full_types))
    qed
  qed
qed

section \<open>copyinstr\<close>

definition cstr_at :: "ram \<Rightarrow> uint64 \<Rightarrow> uint64 \<Rightarrow> nat \<Rightarrow> bool" where
  "cstr_at m root va n \<longleftrightarrow> (\<forall>k < n. \<exists>c. uread m root (va + of_nat k) = Some c \<and> c \<noteq> 0) \<and>
     uread m root (va + of_nat n) = Some 0"

lemma cstr_at_unique: "cstr_at m root va n \<Longrightarrow> cstr_at m root va n' \<Longrightarrow> n = n'"
  unfolding cstr_at_def by (metis linorder_neqE_nat option.inject)

lemma copyinstr_page_spec:
  "copyinstr_page n m p dst i mx = (dst', i', mx', g) \<Longrightarrow>
   (g \<longrightarrow> (\<exists>j < n. m (p + of_nat j) = 0 \<and> (\<forall>k < j. m (p + of_nat k) \<noteq> 0) \<and>
       (\<forall>k. dst' k = (if i \<le> k \<and> k < i + Suc j then m (p + of_nat (k - i)) else dst k)))) \<and>
   (\<not> g \<longrightarrow> (\<forall>k < n. m (p + of_nat k) \<noteq> 0) \<and>
       (\<forall>k. dst' k = (if i \<le> k \<and> k < i + n then m (p + of_nat (k - i)) else dst k)))"
proof (induction n arbitrary: p dst i mx)
  case 0
  then show ?case by auto
next
  case (Suc n)
  show ?case
  proof (cases "m p = 0")
    case True
    then show ?thesis using Suc.prems by (auto intro!: exI [of _ 0] simp: le_less_Suc_eq)
  next
    case False
    define dst1 where "dst1 = dst(i := m p)"
    have rec: "copyinstr_page n m (p + 1) dst1 (i + 1) (mx - 1) = (dst', i', mx', g)"
      using Suc.prems False by (simp add: dst1_def)
    have sh: "p + 1 + of_nat k = p + of_nat (Suc k)" for k by (simp add: add.assoc)
    have ix: "p + of_nat (Suc (k - Suc i)) = p + of_nat (k - i)" if "Suc i \<le> k" for k
      using that by (simp add: Suc_diff_Suc)
    have all: "(\<forall>k < Suc j. m (p + of_nat k) \<noteq> 0) \<longleftrightarrow> (\<forall>k < j. m (p + of_nat (Suc k)) \<noteq> 0)" for j
      using False by (auto simp: less_Suc_eq_0_disj)
    note ih = Suc.IH [OF rec, unfolded sh]
    show ?thesis
    proof (cases g)
      case True
      then obtain j where j: "j < n" "m (p + of_nat (Suc j)) = 0" "\<forall>k < j. m (p + of_nat (Suc k)) \<noteq> 0"
        "\<And>k. dst' k = (if i + 1 \<le> k \<and> k < i + 1 + Suc j then m (p + of_nat (Suc (k - (i + 1)))) else dst1 k)"
        using ih by blast
      have "dst' k = (if i \<le> k \<and> k < i + Suc (Suc j) then m (p + of_nat (k - i)) else dst k)" for k
        using j(4) [of k] ix [of k] by (auto simp: dst1_def)
      then show ?thesis using True j(1-3) all [of j] by (intro conjI impI exI [of _ "Suc j"]) auto
    next
      case False
      then have d: "dst' k = (if i + 1 \<le> k \<and> k < i + 1 + n then m (p + of_nat (Suc (k - (i + 1)))) else dst1 k)" for k
        using ih by blast
      have "dst' k = (if i \<le> k \<and> k < i + Suc n then m (p + of_nat (k - i)) else dst k)" for k
        using d [of k] ix [of k] by (auto simp: dst1_def)
      then show ?thesis using False ih all [of n] by simp
    qed
  qed
qed

lemma cstr_at_skip:
  assumes nz: "\<And>k. k < N \<Longrightarrow> \<exists>c. uread m root (va + of_nat k) = Some c \<and> c \<noteq> 0"
  shows "cstr_at m root va n \<longleftrightarrow> N \<le> n \<and> cstr_at m root (va + of_nat N) (n - N)"
proof (cases "N \<le> n")
  case True
  then obtain d where n: "n = N + d" using le_Suc_ex by blast
  have sh: "va + of_nat N + of_nat k = va + of_nat (N + k)" for k by (simp add: add.assoc)
  have "(\<forall>k < N + d. \<exists>c. uread m root (va + of_nat k) = Some c \<and> c \<noteq> 0) \<longleftrightarrow>
      (\<forall>k < d. \<exists>c. uread m root (va + of_nat (N + k)) = Some c \<and> c \<noteq> 0)"
    (is "(\<forall>k < N + d. ?P k) \<longleftrightarrow> _")
  proof
    assume r: "\<forall>k < d. ?P (N + k)"
    have "?P k" if "k < N + d" for k
    proof (cases "k < N")
      case False
      then show ?thesis using r [rule_format, of "k - N"] that by simp
    qed (rule nz)
    then show "\<forall>k < N + d. ?P k" by blast
  qed (simp del: of_nat_add)
  then show ?thesis unfolding cstr_at_def sh n by simp
next
  case False
  then show ?thesis using nz [of n] by (auto simp: cstr_at_def)
qed

lemma copyinstr_step:
  assumes p: "upage m root va = Some p"
    and pg: "copyinstr_page (unat (chunk va mx)) m (p + (va - PGROUNDDOWN va)) dst i mx = (dst1, i1, mx1, g)"
  shows "g \<Longrightarrow> \<exists>j < unat mx. cstr_at m root va j \<and> got m root va i (Suc j) dst dst1"
    and "\<not> g \<Longrightarrow> n < unat mx \<Longrightarrow> cstr_at m root va n \<longleftrightarrow>
      unat (chunk va mx) \<le> n \<and> cstr_at m root (PGROUNDDOWN va + PGSIZE) (n - unat (chunk va mx))"
    and "\<not> g \<Longrightarrow> chunk va mx \<noteq> mx \<Longrightarrow> got m root (PGROUNDDOWN va + PGSIZE) i1 (Suc k) dst1 dst2 \<Longrightarrow>
      got m root va i (Suc (unat (chunk va mx) + k)) dst dst2"
    and "\<not> g \<Longrightarrow> mx1 = mx - chunk va mx"
proof -
  define N where "N = unat (chunk va mx)"
  let ?a = "p + (va - PGROUNDDOWN va)"
  note spec = copyinstr_page_spec [OF pg, folded N_def]
  have rd: "uread m root (va + of_nat k) = Some (m (?a + of_nat k))" if "k < N" for k
    using uread_chunk [OF p] that unfolding N_def by blast
  have le: "N \<le> unat mx" unfolding N_def by (rule chunk_bounds(2))
  show "\<exists>j < unat mx. cstr_at m root va j \<and> got m root va i (Suc j) dst dst1" if g: g
  proof -
    obtain j where j: "j < N" "m (?a + of_nat j) = 0" "\<forall>k < j. m (?a + of_nat k) \<noteq> 0"
      "\<forall>k. dst1 k = (if i \<le> k \<and> k < i + Suc j then m (?a + of_nat (k - i)) else dst k)"
      using spec g by blast
    have "cstr_at m root va j" unfolding cstr_at_def using j rd by auto
    moreover have "got m root va i (Suc j) dst dst1" unfolding got_def
    proof
      fix k show "dst1 k = (if i \<le> k \<and> k < i + Suc j then the (uread m root (va + of_nat (k - i))) else dst k)"
        using j rd [of "k - i"] by (auto simp del: of_nat_diff)
    qed
    ultimately show ?thesis using j(1) le by (meson less_le_trans)
  qed
  assume ng: "\<not> g"
  then have all: "\<forall>k < N. m (?a + of_nat k) \<noteq> 0"
    and d1: "\<forall>k. dst1 k = (if i \<le> k \<and> k < i + N then m (?a + of_nat (k - i)) else dst k)"
    using spec by auto
  have nz: "\<exists>c. uread m root (va + of_nat k) = Some c \<and> c \<noteq> 0" if "k < N" for k
    using rd [OF that] all that by simp
  have skip: "cstr_at m root va n \<longleftrightarrow> N \<le> n \<and> cstr_at m root (va + of_nat N) (n - N)" for n
    by (rule cstr_at_skip) (rule nz)
  have nx: "PGROUNDDOWN va + PGSIZE = va + of_nat N" if "chunk va mx \<noteq> mx"
    using chunk_next [OF that] by (simp add: N_def)
  have "copyinstr_page N m ?a dst i mx = (dst1, i1, mx1, False)" using pg ng by (simp add: N_def)
  from copyinstr_page_max [OF this] have i1: "i1 = i + N" and "mx1 = mx - of_nat N" by auto
  then show "mx1 = mx - chunk va mx" by (simp add: N_def)
  show "cstr_at m root va n \<longleftrightarrow> unat (chunk va mx) \<le> n \<and>
      cstr_at m root (PGROUNDDOWN va + PGSIZE) (n - unat (chunk va mx))" if n: "n < unat mx"
  proof (cases "chunk va mx = mx")
    case True
    then show ?thesis using n skip [of n] by (simp add: N_def)
  next
    case False
    then show ?thesis using skip [of n] nx unfolding N_def by simp
  qed
  show "got m root va i (Suc (unat (chunk va mx) + k)) dst dst2"
    if "chunk va mx \<noteq> mx" "got m root (PGROUNDDOWN va + PGSIZE) i1 (Suc k) dst1 dst2"
    unfolding got_def N_def [symmetric]
  proof
    fix j
    have e: "uread m root (va + of_nat N + of_nat (j - (i + N))) = uread m root (va + of_nat (j - i))"
      if "i + N \<le> j" using that by (simp add: of_nat_diff)
    show "dst2 j = (if i \<le> j \<and> j < i + Suc (N + k) then the (uread m root (va + of_nat (j - i))) else dst j)"
      using that(2) [unfolded nx [OF that(1)] i1 got_def, rule_format, of j] d1 [rule_format, of j] rd [of "j - i"]
      by (auto simp: e simp del: of_nat_diff)
  qed
qed

lemma copyinstr_loop_spec:
  assumes "us_inv (syms s) (mem s) root"
  shows "\<exists>r dst'. copyinstr_loop root dst i va mx s = Ret (r, dst') s \<and>
    (if \<exists>n < unat mx. cstr_at (mem s) root va n
     then r = 0 \<and> (\<forall>n. cstr_at (mem s) root va n \<longrightarrow> got (mem s) root va i (Suc n) dst dst') else r = - 1)"
  using assms
proof (induction root dst i va mx rule: copyinstr_loop.induct)
  case (1 root dst i va mx)
  have wf: "pt_wf (syms s) (mem s) root" using "1.prems" by (simp add: us_inv_def)
  let ?m = "mem s"
  show ?case
  proof (cases "mx > 0 \<and> upage ?m root va \<noteq> None")
    case False
    then have "copyinstr_loop root dst i va mx s = Ret (- 1, dst) s"
      using walkaddr_upage [OF wf, of "PGROUNDDOWN va"]
      by (subst copyinstr_loop.simps) (auto simp: run_defs Let_def)
    moreover have "\<not> (\<exists>n < unat mx. cstr_at ?m root va n)"
    proof (cases "mx > 0")
      case True
      then have "uread ?m root (va + of_nat 0) = None" using False by (simp add: uread_def)
      then show ?thesis unfolding cstr_at_def by (metis option.distinct(1) neq0_conv)
    qed (simp add: word_greater_zero_iff)
    ultimately show ?thesis by auto
  next
    case True
    then obtain p where p: "upage ?m root va = Some p" by blast
    then have p0: "p \<noteq> 0" using "1.prems" by (auto simp: us_inv_def)
    obtain dst1 i1 mx1 g where pg: "copyinstr_page (unat (chunk va mx)) ?m (p + (va - PGROUNDDOWN va)) dst i mx = (dst1, i1, mx1, g)"
      by (metis prod_cases4)
    note step = copyinstr_step [OF p pg]
    have run: "copyinstr_loop root dst i va mx s = (if g then Ret (0, dst1) s
        else copyinstr_loop root dst1 i1 (PGROUNDDOWN va + PGSIZE) mx1 s)"
      using True p p0 walkaddr_upage [OF wf, of "PGROUNDDOWN va"]
      by (subst copyinstr_loop.simps) (simp add: run_defs Let_def pg)
    show ?thesis
    proof (cases g)
      case True
      then show ?thesis using run step(1) cstr_at_unique by (metis (full_types))
    next
      case ng: False
      define N where "N = unat (chunk va mx)"
      have mx1: "unat mx1 = unat mx - N" "N \<le> unat mx"
        unfolding step(4) [OF ng] N_def by (rule unat_minus_chunk, rule chunk_bounds(2))
      have iff: "cstr_at ?m root va n \<longleftrightarrow> N \<le> n \<and> cstr_at ?m root (PGROUNDDOWN va + PGSIZE) (n - N)" if "n < unat mx" for n
        using step(2) [OF ng that] unfolding N_def .
      obtain r dst' where ih: "copyinstr_loop root dst1 i1 (PGROUNDDOWN va + PGSIZE) mx1 s = Ret (r, dst') s"
        "if \<exists>n < unat mx1. cstr_at ?m root (PGROUNDDOWN va + PGSIZE) n
         then r = 0 \<and> (\<forall>n. cstr_at ?m root (PGROUNDDOWN va + PGSIZE) n \<longrightarrow> got ?m root (PGROUNDDOWN va + PGSIZE) i1 (Suc n) dst1 dst')
         else r = - 1"
        using "1.IH" [OF _ refl p0 pg [symmetric] refl refl ng "1.prems"] True by blast
      have ex: "(\<exists>n < unat mx. cstr_at ?m root va n) \<longleftrightarrow> (\<exists>n < unat mx1. cstr_at ?m root (PGROUNDDOWN va + PGSIZE) n)"
      proof
        assume "\<exists>n < unat mx. cstr_at ?m root va n"
        then show "\<exists>n < unat mx1. cstr_at ?m root (PGROUNDDOWN va + PGSIZE) n" using iff mx1 by (metis diff_less_mono)
      next
        assume "\<exists>n < unat mx1. cstr_at ?m root (PGROUNDDOWN va + PGSIZE) n"
        then obtain n where n: "n < unat mx1" "cstr_at ?m root (PGROUNDDOWN va + PGSIZE) n" by blast
        then have "cstr_at ?m root va (N + n)" "N + n < unat mx" using iff [of "N + n"] mx1 by auto
        then show "\<exists>n < unat mx. cstr_at ?m root va n" by blast
      qed
      have got: "got ?m root va i (Suc n) dst dst'"
        if c: "cstr_at ?m root va n" and e: "\<exists>n < unat mx. cstr_at ?m root va n" for n
      proof -
        have n: "n < unat mx" using e c cstr_at_unique by blast
        then have N: "N \<le> n" "cstr_at ?m root (PGROUNDDOWN va + PGSIZE) (n - N)" using iff c by auto
        then have "chunk va mx \<noteq> mx" using n by (auto simp: N_def)
        moreover have "got ?m root (PGROUNDDOWN va + PGSIZE) i1 (Suc (n - N)) dst1 dst'"
          using ih(2) ex e N(2) by simp
        ultimately show ?thesis using step(3) [OF ng, of "n - N" dst'] N(1) by (simp add: N_def)
      qed
      show ?thesis using run ng ih ex got by auto
    qed
  qed
qed

section \<open>Entries that mappages writes\<close>

lemma pte_make:
  assumes "page_aligned p" "perm < 1024"
  shows "PTE2PA (PA2PTE p OR perm OR PTE_V) = p" "(PA2PTE p OR perm OR PTE_V) AND PTE_V \<noteq> 0"
    "perm AND PTE_U \<noteq> 0 \<Longrightarrow> (PA2PTE p OR perm OR PTE_V) AND PTE_U \<noteq> 0"
proof -
  have "take_bit 10 perm = perm"
    using assms(2) by (simp add: take_bit_eq_mod word_less_nat_alt word_unat_eq_iff unat_mod)
  then have t: "take_bit 10 (perm OR PTE_V) = perm OR PTE_V" by (simp add: take_bit_or)
  have "perm OR PTE_V < 1024"
    using word_mod_less_divisor [of 1024 "perm OR PTE_V"] t by (simp add: take_bit_eq_mod)
  then show "PTE2PA (PA2PTE p OR perm OR PTE_V) = p" using assms(1) by (rule PTE2PA_PA2PTE [rotated])
  have "bit (PA2PTE p OR perm OR PTE_V) 0" by (simp add: bit_simps)
  then show "(PA2PTE p OR perm OR PTE_V) AND PTE_V \<noteq> 0" by (metis PTE_V_new or.assoc zero_neq_one)
  have "((PA2PTE p OR perm OR PTE_V) AND PTE_U) AND (perm AND PTE_U) = perm AND PTE_U"
    by (rule bit_word_eqI) (auto simp: bit_simps)
  then show "(PA2PTE p OR perm OR PTE_V) AND PTE_U \<noteq> 0" if "perm AND PTE_U \<noteq> 0"
    using that by (metis and_zero_eq and.commute)
qed

lemma page_aligned_add_mult: "page_aligned p \<Longrightarrow> page_aligned (p + k * PGSIZE)"
proof -
  assume p: "page_aligned p"
  have "p = push_bit 12 (drop_bit 12 p)" using PGROUNDDOWN_aligned [OF p] by (simp add: PGROUNDDOWN_bits)
  moreover have "k * PGSIZE = push_bit 12 k" by (simp add: push_bit_eq_mult)
  ultimately have "p + k * PGSIZE = push_bit 12 (drop_bit 12 p + k)" by (metis push_bit_add)
  then show ?thesis by (simp add: page_aligned_iff take_bit_push_bit)
qed

lemma map_leaf_in:
  assumes "page_aligned a" "unat a + Suc n * 4096 \<le> 2 ^ 64" "i \<le> n"
  shows "map_leaf L a pa perm (Suc n) (a + of_nat i * PGSIZE) = PA2PTE (pa + of_nat i * PGSIZE) OR perm OR PTE_V"
proof -
  have s: "page_aligned (a + of_nat i * 4096)" "unat (a + of_nat i * 4096) = unat a + i * 4096"
    using PGROUNDDOWN_step [OF assms(1), of i] assms(2,3) by auto
  have u: "unat (of_nat i * 4096 :: uint64) = i * 4096"
    using unat_of_nat_small [of "i * 4096"] assms(2,3) by simp
  show ?thesis using s u assms(3) by (simp add: map_leaf_def PGROUNDDOWN_aligned word_le_nat_alt)
qed

lemma map_leaf_out:
  assumes "page_aligned a" "\<not> (a \<le> w \<and> unat w < unat a + n * 4096)"
  shows "map_leaf L a pa perm n w = L w"
proof -
  obtain i where i: "unat a = 4096 * i" using assms(1) by (auto simp: page_aligned_unat elim!: dvdE)
  define q r where "q = unat w div 4096" and "r = unat w mod 4096"
  have w: "unat w = 4096 * q + r" "r < 4096" by (simp_all add: q_def r_def)
  have d: "unat (PGROUNDDOWN w) = 4096 * q" by (simp add: unat_PGROUNDDOWN q_def)
  have "\<not> (a \<le> PGROUNDDOWN w \<and> unat (PGROUNDDOWN w - a) < n * 4096)"
  proof
    assume h: "a \<le> PGROUNDDOWN w \<and> unat (PGROUNDDOWN w - a) < n * 4096"
    then have "unat (PGROUNDDOWN w - a) = 4096 * q - 4096 * i" using d i by (simp add: unat_sub)
    moreover have "4096 * i \<le> 4096 * q" using h d i by (simp add: word_le_nat_alt)
    ultimately have "q < i + n" "i \<le> q" using h by auto
    then have "unat w < unat a + n * 4096" "a \<le> w" using w i by (auto simp: word_le_nat_alt)
    with assms(2) show False by simp
  qed
  then show ?thesis by (auto simp: map_leaf_def)
qed

section \<open>A concrete address space\<close>

lemma tbl_empty:
  assumes "\<And>i. i < 512 \<Longrightarrow> load64 m (pte_at root i) = 0"
  shows "tbl m root va k = (if k = 0 then Some root else None)" "leaf m root va = 0"
    "is_tbl m root p \<longleftrightarrow> p = root" "page_ok sy root \<Longrightarrow> pt_wf sy m root"
proof -
  have one: "tbl m root va 1 = None" for va using assms [OF PX_less] by simp
  show t: "tbl m root va k = (if k = 0 then Some root else None)" for va k
    using tbl_None_below [OF one, of k] by (cases k) auto
  show "leaf m root va = 0" by (simp add: leaf_def t)
  show i: "is_tbl m root p \<longleftrightarrow> p = root" for p
    by (auto simp: is_tbl_def t split: if_splits intro: exI [of _ "0 :: uint64"])
  show "pt_wf sy m root" if "page_ok sy root"
    using that by (auto simp: pt_wf_def i t pfx_0 split: if_splits)
qed

definition root0 :: uint64 where "root0 = 0x87FFF000"

definition vm0 :: kmem_st where
  "vm0 = kfree_st 0x87FFE000 (kfree_st 0x87FFD000 kmem0)"

lemma vm0_facts:
  "vm_inv vm0 root0 [0x87FFE000, 0x87FFD000]" "leaf (mem vm0) root0 va = 0"
  "is_tbl (mem vm0) root0 p \<longleftrightarrow> p = root0" "syms vm0 = symtab0" "lock_ok lk vm0"
proof -
  have ok: "page_ok symtab0 0x87FFE000" "page_ok symtab0 0x87FFD000" "page_ok symtab0 root0"
    by (simp_all add: page_ok_def symtab0_def page_aligned_def root0_def)
  show sy: "syms vm0 = symtab0" by (simp add: vm0_def kmem0_facts)
  show lk: "lock_ok lk vm0" for lk by (simp add: vm0_def kmem0_facts)
  have "kmem_inv kmem0 []" by (simp add: kmem_inv_def kmem0_facts)
  then have "kmem_inv (kfree_st 0x87FFD000 kmem0) [0x87FFD000]"
    using kmem_inv_kfree [of kmem0 "[]"] ok by (simp add: kmem0_facts)
  then have km: "kmem_inv vm0 [0x87FFE000, 0x87FFD000]"
    using kmem_inv_kfree [of "kfree_st 0x87FFD000 kmem0" "[0x87FFD000]"] ok by (simp add: vm0_def kmem0_facts)
  have z: "mem vm0 x = 0" if "in_page root0 x" for x
  proof -
    have "\<not> in_page 0x87FFE000 x" "\<not> in_page 0x87FFD000 x" using that by (auto simp: in_page_def root0_def)
    then have "mem vm0 x = mem kmem0 x" using ok by (simp add: vm0_def kfree_st_mem page_ok_aligned)
    then show ?thesis by (simp add: kmem0_def kst.extend_def)
  qed
  have "load64 (mem vm0) (pte_at root0 i) = 0" if "i < 512" for i
  proof -
    have "load64 (mem vm0) (pte_at root0 i) = load64 (\<lambda>_. 0) (pte_at root0 i)"
      using page_ok_aligned [OF ok(3)] that z by (rule load64_pte_cong)
    then show ?thesis by (simp add: load64_def ram_get_def eval_nat_numeral)
  qed
  note e = tbl_empty [OF this]
  show "leaf (mem vm0) root0 va = 0" "is_tbl (mem vm0) root0 p \<longleftrightarrow> p = root0" for va p
    by (rule e(2), simp, rule e(3), simp)
  have "pt_wf symtab0 (mem vm0) root0" by (rule e(4)) (simp_all add: ok)
  moreover have "is_tbl (mem vm0) root0 p \<longleftrightarrow> p = root0" for p by (rule e(3)) simp
  ultimately show "vm_inv vm0 root0 [0x87FFE000, 0x87FFD000]"
    using km lk sy by (auto simp: vm_inv_def root0_def)
qed

lemma ex_uspace:
  "\<exists>s :: kmem_st. us_inv (syms s) (mem s) root0 \<and>
     (\<forall>v. upage (mem s) root0 v = (if PGROUNDDOWN v = 0x1000 then Some 0x87FFC000 else None))"
proof -
  let ?va = "0x1000 :: uint64" and ?pa = "0x87FFC000 :: uint64" and ?perm = "22 :: uint64"
  have al: "page_aligned ?va" "page_aligned ?pa" by (simp_all add: page_aligned_def)
  have "wp (mappages root0 ?va (of_nat (Suc 0) * PGSIZE) ?pa ?perm) (\<lambda>r t. \<exists>zs.
      vm_upd root0 vm0 [0x87FFE000, 0x87FFD000] t zs (map_leaf (leaf (mem vm0) root0) ?va ?pa ?perm (Suc 0))) vm0"
    by (rule wp_mono [OF mappages_spec [OF vm0_facts(1) al(1)]]) (auto simp: vm0_facts)
  then obtain t zs where up: "vm_upd root0 vm0 [0x87FFE000, 0x87FFD000] t zs (map_leaf (leaf (mem vm0) root0) ?va ?pa ?perm (Suc 0))"
    by (auto simp: wp_iff_Ret)
  have wf: "pt_wf (syms t) (mem t) root0" using up by (auto simp: vm_upd_def vm_inv_def)
  have lf: "leaf (mem t) root0 v = (if PGROUNDDOWN v = ?va then PA2PTE ?pa OR ?perm OR PTE_V else 0)" if "v < MAXVA" for v
  proof -
    have z: "map_leaf L ?va ?pa ?perm 0 v = L v" for L by (simp add: map_leaf_def)
    have "leaf (mem t) root0 v = map_leaf (leaf (mem vm0) root0) ?va ?pa ?perm (Suc 0) v"
      using up that by (simp add: vm_upd_def)
    then show ?thesis by (simp add: map_leaf_Suc [OF al(1)] z vm0_facts)
  qed
  have page: "upage (mem t) root0 v = (if PGROUNDDOWN v = ?va then Some ?pa else None)" for v
  proof (cases "v < MAXVA")
    case True
    then show ?thesis using pte_make [OF al(2), of ?perm] by (simp add: upage_def Let_def lf)
  next
    case False
    then have "PGROUNDDOWN v \<noteq> ?va" using MAXVA_page [of v] by auto
    then show ?thesis using False by (simp add: upage_def Let_def)
  qed
  have "is_tbl (mem t) root0 ?pa \<Longrightarrow> ?pa = root0 \<or> ?pa \<in> set [0x87FFE000, 0x87FFD000]"
    using up unfolding vm_upd_def vm0_facts(3) by blast
  then have "\<not> is_tbl (mem t) root0 ?pa" by (auto simp: root0_def)
  then have "us_inv (syms t) (mem t) root0"
    using wf by (simp add: us_inv_def page split: if_splits)
  with page show ?thesis by blast
qed

section \<open>Properties\<close>

text \<open>
  C16: \<^verbatim>\<open>mappages\<close> and \<^verbatim>\<open>walkaddr\<close> agree. Mapping \<open>n + 1\<close> pages that are not yet mapped
  never panics; it fails only when fewer than two free pages for each are left for page-table
  pages. When it succeeds, \<^verbatim>\<open>walkaddr\<close> finds every page at its physical address; in either
  case the entries of all other addresses are as before and the tree stays well formed and
  disjoint from the free pages.
\<close>

theorem mappages_then_walkaddr:
  assumes "vm_inv s root xs" and "page_aligned va" and "unat va + Suc n * 4096 \<le> unat (MAXVA :: uint64)"
    and "\<And>i. i \<le> n \<Longrightarrow> leaf (mem s) root (va + of_nat i * PGSIZE) AND PTE_V = 0"
    and "page_aligned pa" and "perm < 1024" and "perm AND PTE_U \<noteq> 0"
  shows "\<exists>r t zs. mappages root va (of_nat (Suc n) * PGSIZE) pa perm s = Ret r t \<and> vm_inv t root zs \<and>
    kmem_only s t \<and> (r = 0 \<or> r = - 1 \<and> length xs < 2 * Suc n) \<and>
    (r = 0 \<longrightarrow> (\<forall>i \<le> n. walkaddr root (va + of_nat i * PGSIZE) t = Ret (pa + of_nat i * PGSIZE) t)) \<and>
    (\<forall>w < MAXVA. \<not> (va \<le> w \<and> unat w < unat va + Suc n * 4096) \<longrightarrow> leaf (mem t) root w = leaf (mem s) root w)"
proof -
  obtain r t zs i where run: "mappages root va (of_nat (Suc n) * PGSIZE) pa perm s = Ret r t"
    and r: "r = 0 \<and> i = Suc n \<or> r = - 1 \<and> zs = [] \<and> i \<le> n \<and> length xs < 2 * Suc n"
    and up: "vm_upd root s xs t zs (map_leaf (leaf (mem s) root) va pa perm i)"
    using mappages_spec [OF assms(1-4)] unfolding wp_iff_Ret by blast
  have inv: "vm_inv t root zs" and ko: "kmem_only s t"
    and lf: "\<And>v. v < MAXVA \<Longrightarrow> leaf (mem t) root v = map_leaf (leaf (mem s) root) va pa perm i v"
    using up by (auto simp: vm_upd_def)
  have out: "leaf (mem t) root w = leaf (mem s) root w"
    if "w < MAXVA" "\<not> (va \<le> w \<and> unat w < unat va + Suc n * 4096)" for w
    using r that lf [OF that(1)] by (subst (asm) map_leaf_out [OF assms(2)]) auto
  have "walkaddr root (va + of_nat j * PGSIZE) t = Ret (pa + of_nat j * PGSIZE) t" if "r = 0" "j \<le> n" for j
  proof -
    have lt: "va + of_nat j * PGSIZE < MAXVA"
      using PGROUNDDOWN_step(2) [OF assms(2), of j] assms(3) that(2) by (simp add: word_less_nat_alt)
    have pa: "page_aligned (pa + of_nat j * PGSIZE)"
      using assms(5) by (rule page_aligned_add_mult)
    have "leaf (mem t) root (va + of_nat j * PGSIZE) = PA2PTE (pa + of_nat j * PGSIZE) OR perm OR PTE_V"
      using lf [OF lt] r that map_leaf_in [OF assms(2) _ that(2)] assms(3) by auto
    moreover have "pt_wf (syms t) (mem t) root" using inv by (simp add: vm_inv_def)
    ultimately show ?thesis
      using lt pte_make [OF pa assms(6)] assms(7) by (simp add: walkaddr_eq Let_def)
  qed
  then show ?thesis using run inv ko r out by blast
qed

theorem mappages_then_walkaddr_witness:
  "vm_inv vm0 root0 [0x87FFE000, 0x87FFD000] \<and> page_aligned 0x1000 \<and>
   (\<exists>t. mappages root0 0x1000 PGSIZE 0x87FFC000 22 vm0 = Ret 0 t \<and>
      walkaddr root0 0x1000 t = Ret 0x87FFC000 t \<and> leaf (mem t) root0 0x2000 = 0)"
proof -
  have h: "page_aligned 0x1000" "unat (0x1000 :: uint64) + Suc 0 * 4096 \<le> unat (MAXVA :: uint64)"
    "page_aligned 0x87FFC000" "(22 :: uint64) < 1024" "(22 :: uint64) AND PTE_U \<noteq> 0"
    by (simp_all add: page_aligned_def)
  have un: "leaf (mem vm0) root0 (0x1000 + of_nat i * PGSIZE) AND PTE_V = 0" for i
    by (simp add: vm0_facts)
  obtain r t where "mappages root0 0x1000 (of_nat (Suc 0) * PGSIZE) 0x87FFC000 22 vm0 = Ret r t"
    and r: "r = 0 \<or> r = - 1 \<and> length [0x87FFE000, 0x87FFD000 :: uint64] < 2 * Suc 0"
    and w: "r = 0 \<longrightarrow> (\<forall>i \<le> 0. walkaddr root0 (0x1000 + of_nat i * PGSIZE) t = Ret (0x87FFC000 + of_nat i * PGSIZE) t)"
    and o2: "\<forall>w < MAXVA. \<not> (0x1000 \<le> w \<and> unat w < unat (0x1000 :: uint64) + Suc 0 * 4096) \<longrightarrow>
      leaf (mem t) root0 w = leaf (mem vm0) root0 w"
    using mappages_then_walkaddr [OF vm0_facts(1) h(1,2) un h(3-5)] by blast
  moreover have "leaf (mem t) root0 0x2000 = leaf (mem vm0) root0 0x2000"
    using o2 by (elim allE [of _ "0x2000"]) simp
  ultimately show ?thesis using h(1) vm0_facts(1) vm0_facts(2) by auto
qed



text \<open>
  C15: \<^verbatim>\<open>copyin\<close> reads back what \<^verbatim>\<open>copyout\<close> wrote. On a well-formed address space,
  after a \<^verbatim>\<open>copyout\<close> that returned 0 a \<^verbatim>\<open>copyin\<close> of the same range returns 0, leaves
  the state as it is, and fills the kernel buffer with exactly the bytes that were copied out;
  where \<^verbatim>\<open>copyout\<close> would fail, \<^verbatim>\<open>copyin\<close> fails as well.
\<close>

theorem copyin_after_copyout:
  assumes "us_inv (syms s) (mem s) root" and "copyout root va src len s = Ret r t"
  shows "\<exists>dst'. copyin root dst va len t = Ret (r, dst') t \<and>
    (r = 0 \<longrightarrow> (\<forall>k. dst' k = (if k < unat len then src k else dst k)))"
proof -
  obtain m' where t: "t = s\<lparr>mem := m'\<rparr>" and inv: "us_inv (syms s) m' root"
    and pg: "\<forall>v. upage m' root v = upage (mem s) root v"
    and w: "if urange (mem s) root va (unat len) then r = 0 \<and> wrote (mem s) root va src (unat len) m' else r = - 1"
    using copyout_spec [OF assms(1), of va src len] assms(2) by (auto split: if_splits)
  have ur: "urange m' root va (unat len) \<longleftrightarrow> urange (mem s) root va (unat len)"
    using pg by (simp add: urange_def)
  have mt: "mem t = m'" by (simp add: t)
  have "us_inv (syms t) (mem t) root" using inv by (simp add: t)
  from copyin_loop_spec [OF this, of dst 0 va len] obtain r' dst' where
    c: "copyin root dst va len t = Ret (r', dst') t"
    "if urange m' root va (unat len) then r' = 0 \<and> got m' root va 0 (unat len) dst dst' else r' = - 1"
    unfolding copyin_def mt by blast
  have "r' = r" using c(2) w ur by (auto split: if_splits)
  moreover have "dst' k = (if k < unat len then src k else dst k)" if r0: "r = 0" for k
  proof -
    have g: "got m' root va 0 (unat len) dst dst'" and wr: "wrote (mem s) root va src (unat len) m'"
      using c(2) w ur r0 by (auto split: if_splits)
    have "uread m' root (va + of_nat k) = Some (src k)" if "k < unat len"
      using wr that unat_of_nat_small [of k] unat_less_64 [of len] by (simp add: wrote_def)
    then show ?thesis using g by (auto simp: got_def)
  qed
  ultimately show ?thesis using c(1) by blast
qed

theorem copyin_after_copyout_witness:
  "\<exists>s t :: kmem_st. us_inv (syms s) (mem s) root0 \<and>
     copyout root0 0x1FFE (\<lambda>i. of_nat i + 7) 2 s = Ret 0 t \<and>
     (\<exists>dst'. copyin root0 (\<lambda>_. 0) 0x1FFE 2 t = Ret (0, dst') t \<and> dst' 1 = 8 \<and> dst' 2 = 0)"
proof -
  obtain s :: kmem_st where inv: "us_inv (syms s) (mem s) root0"
    and pg: "\<forall>v. upage (mem s) root0 v = (if PGROUNDDOWN v = 0x1000 then Some 0x87FFC000 else None)"
    using ex_uspace by blast
  have "urange (mem s) root0 0x1FFE (unat (2 :: uint64))"
    unfolding urange_def
  proof (intro allI impI)
    fix i assume "i < unat (2 :: uint64)"
    then have "i = 0 \<or> i = 1" by auto
    then show "upage (mem s) root0 (0x1FFE + of_nat i) \<noteq> None" by (auto simp: pg PGROUNDDOWN_def)
  qed
  then obtain t where c: "copyout root0 0x1FFE (\<lambda>i. of_nat i + 7) 2 s = Ret 0 t"
    using copyout_spec [OF inv, of "0x1FFE" "\<lambda>i. of_nat i + 7" 2] by auto
  from copyin_after_copyout [OF inv c, of "\<lambda>_. 0"] obtain dst' where
    "copyin root0 (\<lambda>_. 0) 0x1FFE 2 t = Ret (0, dst') t" "\<forall>k. dst' k = (if k < 2 then of_nat k + 7 else 0)"
    by auto
  then have "copyin root0 (\<lambda>_. 0) 0x1FFE 2 t = Ret (0, dst') t \<and> dst' 1 = 8 \<and> dst' 2 = 0" by simp
  with inv c show ?thesis by blast
qed

text \<open>
  C27: \<^verbatim>\<open>copyinstr\<close> fetches a string. On a well-formed address space it returns 0 exactly when a
  terminated string whose bytes are all accessible starts at the address and its terminator is
  among the first \<^verbatim>\<open>max\<close> bytes; then the buffer holds that string with its terminator and its
  other bytes are unchanged. Otherwise it returns -1. The state never changes.
\<close>

theorem copyinstr_fetches_string:
  assumes "us_inv (syms s) (mem s) root"
  shows "\<exists>r dst'. copyinstr root dst va mx s = Ret (r, dst') s \<and> (r = 0 \<or> r = - 1) \<and>
    (r = 0 \<longleftrightarrow> (\<exists>n < unat mx. cstr_at (mem s) root va n)) \<and>
    (\<forall>n. r = 0 \<and> cstr_at (mem s) root va n \<longrightarrow>
      (\<forall>k. dst' k = (if k \<le> n then the (uread (mem s) root (va + of_nat k)) else dst k)) \<and> dst' n = 0)"
proof -
  obtain r dst' where c: "copyinstr root dst va mx s = Ret (r, dst') s"
    "if \<exists>n < unat mx. cstr_at (mem s) root va n
     then r = 0 \<and> (\<forall>n. cstr_at (mem s) root va n \<longrightarrow> got (mem s) root va 0 (Suc n) dst dst') else r = - 1"
    using copyinstr_loop_spec [OF assms, of dst 0 va mx] unfolding copyinstr_def by blast
  have "(\<forall>k. dst' k = (if k \<le> n then the (uread (mem s) root (va + of_nat k)) else dst k)) \<and> dst' n = 0"
    if "r = 0" "cstr_at (mem s) root va n" for n
  proof -
    have "got (mem s) root va 0 (Suc n) dst dst'" using c(2) that by (auto split: if_splits)
    then have "\<forall>k. dst' k = (if k \<le> n then the (uread (mem s) root (va + of_nat k)) else dst k)"
      by (simp add: got_def less_Suc_eq_le)
    moreover from this have "dst' n = 0" using that(2) by (simp add: cstr_at_def)
    ultimately show ?thesis by blast
  qed
  then show ?thesis using c by (intro exI [of _ r] exI [of _ dst']) (auto split: if_splits)
qed

theorem copyinstr_fetches_string_witness:
  "\<exists>s :: kmem_st. us_inv (syms s) (mem s) root0 \<and> cstr_at (mem s) root0 0x1FFE 1 \<and>
     (\<exists>dst'. copyinstr root0 (\<lambda>_. 9) 0x1FFE 2 s = Ret (0, dst') s \<and> dst' 0 = 65 \<and> dst' 1 = 0 \<and> dst' 2 = 9) \<and>
     (\<exists>dst'. copyinstr root0 (\<lambda>_. 9) 0x1FFE 1 s = Ret (- 1, dst') s)"
proof -
  obtain s0 :: kmem_st where inv0: "us_inv (syms s0) (mem s0) root0"
    and pg: "\<forall>v. upage (mem s0) root0 v = (if PGROUNDDOWN v = 0x1000 then Some 0x87FFC000 else None)"
    using ex_uspace by blast
  let ?src = "\<lambda>i. if i = 0 then 65 else (0 :: uchar)"
  have ur: "urange (mem s0) root0 0x1FFE (unat (2 :: uint64))"
    unfolding urange_def
  proof (intro allI impI)
    fix i assume "i < unat (2 :: uint64)"
    then have "i = 0 \<or> i = 1" by auto
    then show "upage (mem s0) root0 (0x1FFE + of_nat i) \<noteq> None" by (auto simp: pg PGROUNDDOWN_def)
  qed
  obtain m' where m: "us_inv (syms s0) m' root0" "wrote (mem s0) root0 0x1FFE ?src (unat (2 :: uint64)) m'"
    using copyout_spec [OF inv0, of "0x1FFE" ?src 2] ur by auto
  define s where "s = s0\<lparr>mem := m'\<rparr>"
  have inv: "us_inv (syms s) (mem s) root0" using m(1) by (simp add: s_def)
  have rd: "uread (mem s) root0 0x1FFE = Some 65" "uread (mem s) root0 0x1FFF = Some 0"
    using m(2) by (simp_all add: wrote_def s_def)
  then have str: "cstr_at (mem s) root0 0x1FFE 1" by (simp add: cstr_at_def)
  note c = copyinstr_fetches_string [OF inv, of "\<lambda>_. 9" "0x1FFE"]
  have "\<exists>dst'. copyinstr root0 (\<lambda>_. 9) 0x1FFE 2 s = Ret (0, dst') s \<and> dst' 0 = 65 \<and> dst' 1 = 0 \<and> dst' 2 = 9"
  proof -
    have "\<exists>n < unat (2 :: uint64). cstr_at (mem s) root0 0x1FFE n" using str by (intro exI [of _ 1]) simp
    moreover obtain r dst' where q: "copyinstr root0 (\<lambda>_. 9) 0x1FFE 2 s = Ret (r, dst') s"
      "r = 0 \<longleftrightarrow> (\<exists>n < unat (2 :: uint64). cstr_at (mem s) root0 0x1FFE n)"
      "\<forall>n. r = 0 \<and> cstr_at (mem s) root0 0x1FFE n \<longrightarrow>
        (\<forall>k. dst' k = (if k \<le> n then the (uread (mem s) root0 (0x1FFE + of_nat k)) else 9)) \<and> dst' n = 0"
      using c [of 2] by blast
    ultimately have r0: "r = 0" by blast
    from q(3) r0 str have "\<forall>k. dst' k = (if k \<le> 1 then the (uread (mem s) root0 (0x1FFE + of_nat k)) else 9)" by blast
    then show ?thesis using rd q(1) r0 by simp
  qed
  moreover have "\<exists>dst'. copyinstr root0 (\<lambda>_. 9) 0x1FFE 1 s = Ret (- 1, dst') s"
  proof -
    have "\<not> (\<exists>n < unat (1 :: uint64). cstr_at (mem s) root0 0x1FFE n)" using rd by (simp add: cstr_at_def)
    with c [of 1] show ?thesis by blast
  qed
  ultimately show ?thesis using inv str by blast
qed

end
