(* ===== verification/Frames.thy ===== *)
theory Frames
  imports Vm
begin

text \<open>
  What the operations of the lower layers cannot touch. A predicate that does not depend on the
  hart, the CPUs and the locks is kept by every operation of \<^verbatim>\<open>spinlock.c\<close>; one that does
  not depend on physical memory and the free list either is kept by every operation of
  \<^verbatim>\<open>kalloc.c\<close> and \<^verbatim>\<open>vm.c\<close>. Later layers interpret the two locales on predicates over
  the state they add.
\<close>

section \<open>Locks\<close>

locale lock_frame =
  fixes I :: "'a kst_scheme \<Rightarrow> bool"
  assumes hart_stable: "I (hart_update f s) = I s"
    and cpus_stable: "I (cpus_update g s) = I s"
    and locks_stable: "I (locks_update h s) = I s"
begin

lemmas stable = hart_stable cpus_stable locks_stable

lemma st_stable:
  "I (upd_mycpu k s) = I s" "I (upd_lock lk m s) = I s" "I (intr_on s) = I s" "I (intr_off s) = I s"
  by (simp_all add: upd_mycpu_def upd_lock_def intr_on_def intr_off_def w_sstatus_def stable)

lemma push_off_keeps: "keeps I push_off"
  unfolding push_off_def by (intro keeps_intros) (simp_all add: st_stable)

lemma pop_off_keeps: "keeps I pop_off"
  unfolding pop_off_def by (intro keeps_intros) (simp_all add: st_stable)

lemma initlock_keeps: "keeps I (initlock lk name)"
  unfolding initlock_def by (intro keeps_intros) (simp add: st_stable)

lemma acquire_keeps: "keeps I (acquire lk)"
  unfolding acquire_def sync_lock_test_and_set_def
  by (intro keeps_intros push_off_keeps) (simp_all add: st_stable)

lemma release_keeps: "keeps I (release lk)"
  unfolding release_def by (intro keeps_intros pop_off_keeps) (simp_all add: st_stable)

lemma myproc_keeps: "keeps I myproc"
  unfolding myproc_def by (intro keeps_intros push_off_keeps pop_off_keeps)

lemmas lock_keeps = push_off_keeps pop_off_keeps initlock_keeps acquire_keeps release_keeps myproc_keeps

end

section \<open>Physical memory and page tables\<close>

locale mem_frame = lock_frame I for I :: "'a kmem_st_scheme \<Rightarrow> bool" +
  assumes mem_stable: "I (mem_update j s) = I s"
    and freelist_stable: "I (freelist_update k s) = I s"
begin

lemma kfree_keeps: "keeps I (kfree p)"
  unfolding kfree_def by (intro keeps_intros lock_keeps) (simp_all add: mem_stable freelist_stable)

lemma kalloc_keeps: "keeps I kalloc"
  unfolding kalloc_def by (intro keeps_intros lock_keeps) (simp_all add: mem_stable freelist_stable)

lemma pte_keeps: "keeps I (set_pte p v)" "keeps I (get_pte p)" "keeps I (clear_page p)" "keeps I (store_bytes a src n)"
  unfolding set_pte_def get_pte_def clear_page_def store_bytes_def
  by (intro keeps_intros; simp add: mem_stable)+

lemma walk_keeps: "keeps I (walk pt va alloc)"
proof -
  have "keeps I (walk_loop l p va alloc)" for l p
    by (induction l arbitrary: p) (auto simp: Let_def intro!: keeps_intros pte_keeps kalloc_keeps)
  then show ?thesis unfolding walk_def by (intro keeps_intros)
qed

lemma walkaddr_keeps: "keeps I (walkaddr pt va)"
  unfolding walkaddr_def by (intro keeps_intros walk_keeps pte_keeps)

lemma mappages_keeps: "keeps I (mappages pt va sz pa perm)"
  unfolding mappages_def by (intro keeps_intros walk_keeps pte_keeps)

lemma uvmunmap_keeps: "keeps I (uvmunmap pt va n b)"
  unfolding uvmunmap_def by (intro keeps_intros walk_keeps pte_keeps kfree_keeps)

lemma uvmcreate_keeps: "keeps I uvmcreate"
  unfolding uvmcreate_def by (intro keeps_intros pte_keeps kalloc_keeps)

lemma freewalk_keeps: "keeps I (freewalk pt)"
proof -
  have "keeps I (freewalk_depth d p)" for d p
  proof (induction d arbitrary: p)
    case (Suc d)
    then show ?case unfolding freewalk_depth.simps by (intro keeps_intros pte_keeps kfree_keeps)
  qed (simp add: keeps_intros)
  then show ?thesis unfolding freewalk_def .
qed

lemma uvmfree_keeps: "keeps I (uvmfree pt sz)"
  unfolding uvmfree_def by (intro keeps_intros uvmunmap_keeps freewalk_keeps)

lemma uvmdealloc_keeps: "keeps I (uvmdealloc pt a b)"
  unfolding uvmdealloc_def by (intro keeps_intros uvmunmap_keeps)

lemma uvmalloc_keeps: "keeps I (uvmalloc pt a b x)"
  unfolding uvmalloc_def
  by (intro keeps_intros kalloc_keeps kfree_keeps uvmdealloc_keeps mappages_keeps pte_keeps)

lemma uvmcopy_keeps: "keeps I (uvmcopy old new sz)"
  unfolding uvmcopy_def Let_def
  by (intro keeps_intros kalloc_keeps kfree_keeps uvmunmap_keeps mappages_keeps walk_keeps pte_keeps)
    (simp add: mem_stable)

lemma uvmclear_keeps: "keeps I (uvmclear pt va)"
  unfolding uvmclear_def by (intro keeps_intros walk_keeps pte_keeps)

lemma uvmfirst_keeps: "keeps I (uvmfirst pt src sz)"
  unfolding uvmfirst_def by (intro keeps_intros kalloc_keeps mappages_keeps pte_keeps)

lemma copyout_keeps: "keeps I (copyout pt va src len)"
proof (induction pt va src len rule: copyout.induct)
  case (1 pt va src len)
  then show ?case
    by (subst copyout.simps) (auto simp: Let_def intro!: keeps_intros walkaddr_keeps pte_keeps)
qed

lemma copyin_keeps: "keeps I (copyin pt dst va len)"
proof -
  have "keeps I (copyin_loop pt dst i va len)" for i
  proof (induction pt dst i va len rule: copyin_loop.induct)
    case (1 pt dst i va len)
    then show ?case
      by (subst copyin_loop.simps) (auto simp: Let_def intro!: keeps_intros walkaddr_keeps)
  qed
  then show ?thesis unfolding copyin_def .
qed

lemma copyinstr_keeps: "keeps I (copyinstr pt dst va mx)"
proof -
  have "keeps I (copyinstr_loop pt dst i va mx)" for i
  proof (induction pt dst i va mx rule: copyinstr_loop.induct)
    case (1 pt dst i va mx)
    then show ?case
      by (subst copyinstr_loop.simps) (auto dest!: sym [of "copyinstr_page _ _ _ _ _ _"] simp: Let_def intro!: keeps_intros walkaddr_keeps)
  qed
  then show ?thesis unfolding copyinstr_def .
qed

lemmas vm_keeps = kfree_keeps kalloc_keeps pte_keeps walk_keeps walkaddr_keeps mappages_keeps
  uvmunmap_keeps uvmcreate_keeps freewalk_keeps uvmfree_keeps uvmdealloc_keeps uvmalloc_keeps
  uvmcopy_keeps uvmclear_keeps uvmfirst_keeps copyout_keeps copyin_keeps copyinstr_keeps

end

end
