(* ===== verification/Proc.thy ===== *)
theory Proc
  imports Vm
begin

text \<open>
  Processes, \<^verbatim>\<open>kernel/proc.c\<close> and \<^verbatim>\<open>kernel/sleeplock.c\<close>: the process table,
  allocation and freeing of its slots, sleeping and waking, waiting, killing, and the two halves of
  the scheduler around \<^verbatim>\<open>swtch\<close>. A \<^verbatim>\<open>struct proc *\<close> is the index of the slot. An
  operation that gives up the CPU ends in the outcome \<open>Sleep\<close>: the hart has switched to its
  scheduler. What runs when the process is switched to again is an operation of its own, named
  with the suffix \<open>_return\<close> or \<open>_round\<close>. \<^verbatim>\<open>fork\<close>, \<^verbatim>\<open>exit\<close> and \<^verbatim>\<open>userinit\<close> also call the
  file system and are in the theory \<^verbatim>\<open>Procfs\<close>.
\<close>

section \<open>State\<close>

datatype procstate = UNUSED | USED | SLEEPING | RUNNABLE | RUNNING | ZOMBIE

record proc =
  p_state :: procstate
  p_chan :: chan
  p_killed :: bool
  p_xstate :: int
  p_pid :: int
  p_parent :: "nat option"
  p_kstack :: uint64
  p_sz :: uint64
  p_pagetable :: uint64
  p_trapframe :: uint64  \<comment> \<open>address of the page, 0 when there is none\<close>
  p_context :: kcontext
  p_ofile :: "nat \<Rightarrow> nat option"  \<comment> \<open>indices into \<^verbatim>\<open>ftable.file\<close>\<close>
  p_cwd :: "nat option"  \<comment> \<open>index into \<^verbatim>\<open>itable.inode\<close>\<close>
  p_name :: bytes

record sleeplock =
  sl_locked :: bool
  sl_name :: string
  sl_pid :: int

text \<open>
  \<open>kobj\<close> is the kernel object (a local struct) that a \<^verbatim>\<open>void *\<close> or \<^verbatim>\<open>uint64\<close> argument
  of \<^verbatim>\<open>either_copyout\<close> and \<^verbatim>\<open>either_copyin\<close> points to when it points neither to user
  memory nor to a page of physical memory.
\<close>

record proc_st = vm_st +
  procs :: "nat \<Rightarrow> proc"
  initproc :: "nat option"
  nextpid :: int
  sleeplocks :: "lockid \<Rightarrow> sleeplock"
  kobj :: bytes

type_synonym ('r, 'a) procop = "('r, 'a proc_st_scheme) kmonad"

definition upd_proc :: "nat \<Rightarrow> (proc \<Rightarrow> proc) \<Rightarrow> 'a proc_st_scheme \<Rightarrow> 'a proc_st_scheme" where
  "upd_proc p f s = s\<lparr>procs := (procs s)(p := f (procs s p))\<rparr>"

definition set_proc :: "nat \<Rightarrow> (proc \<Rightarrow> proc) \<Rightarrow> (unit, 'a) procop" where
  "set_proc p f = kmodify (upd_proc p f)"

text \<open>\<^verbatim>\<open>myproc()\<close> where the code goes on to dereference it; the null pointer faults.\<close>

definition curproc :: "(nat, 'a) procop" where
  "curproc = kbind myproc (\<lambda>p. case p of Some i \<Rightarrow> kreturn i | None \<Rightarrow> kpanic ''kerneltrap'')"

text \<open>Fields of the \<^verbatim>\<open>struct trapframe\<close> that lies in physical memory.\<close>

definition TF_EPC :: uint64 where "TF_EPC = 24"
definition TF_SP :: uint64 where "TF_SP = 48"
definition TF_A0 :: uint64 where "TF_A0 = 112"
definition TF_A1 :: uint64 where "TF_A1 = 120"

definition get_tf :: "nat \<Rightarrow> uint64 \<Rightarrow> 'a proc_st_scheme \<Rightarrow> uint64" where
  "get_tf p off s = load64 (mem s) (p_trapframe (procs s p) + off)"

definition set_tf :: "nat \<Rightarrow> uint64 \<Rightarrow> uint64 \<Rightarrow> (unit, 'a) procop" where
  "set_tf p off v = kmodify (\<lambda>s. s\<lparr>mem := store64 (mem s) (p_trapframe (procs s p) + off) v\<rparr>)"

section \<open>The process table\<close>

definition procinit :: "(unit, 'a) procop" where
  "procinit = kdo [
     initlock PidLock ''nextpid'',
     initlock WaitLock ''wait_lock'',
     kforeach [0..<NPROC] (\<lambda>p. kdo [
       initlock (ProcLock p) ''proc'',
       set_proc p (p_state_update (\<lambda>_. UNUSED)),
       set_proc p (p_kstack_update (\<lambda>_. KSTACK p))])]"

definition allocpid :: "(int, 'a) procop" where
  "allocpid = kthen [acquire PidLock] (kbind (kgets nextpid) (\<lambda>pid. kthen [
     kmodify (\<lambda>s. s\<lparr>nextpid := nextpid s + 1\<rparr>),
     release PidLock] (kreturn pid)))"

definition proc_pagetable :: "nat \<Rightarrow> (uint64, 'a) procop" where
  "proc_pagetable p = kbind uvmcreate (\<lambda>pagetable.
     if pagetable = 0 then kreturn 0
     else kbind (kgets (\<lambda>s. sym_trampoline (syms s))) (\<lambda>tramp.
       kbind (mappages pagetable TRAMPOLINE PGSIZE tramp (PTE_R OR PTE_X)) (\<lambda>r.
       if r < 0 then kthen [uvmfree pagetable 0] (kreturn 0)
       else kbind (kgets (\<lambda>s. p_trapframe (procs s p))) (\<lambda>tf.
         kbind (mappages pagetable TRAPFRAME PGSIZE tf (PTE_R OR PTE_W)) (\<lambda>r.
         if r < 0 then kthen [
           uvmunmap pagetable TRAMPOLINE 1 False,
           uvmfree pagetable 0] (kreturn 0)
         else kreturn pagetable)))))"

definition proc_freepagetable :: "uint64 \<Rightarrow> uint64 \<Rightarrow> (unit, 'a) procop" where
  "proc_freepagetable pagetable sz = kdo [
     uvmunmap pagetable TRAMPOLINE 1 False,
     uvmunmap pagetable TRAPFRAME 1 False,
     uvmfree pagetable sz]"

definition freeproc :: "nat \<Rightarrow> (unit, 'a) procop" where
  "freeproc p = kbind (kgets (\<lambda>s. p_trapframe (procs s p))) (\<lambda>tf. kdo [
     kwhen (\<lambda>_. tf \<noteq> 0) (kfree tf),
     set_proc p (p_trapframe_update (\<lambda>_. 0)),
     kbind (kgets (\<lambda>s. procs s p)) (\<lambda>pr.
       kwhen (\<lambda>_. p_pagetable pr \<noteq> 0) (proc_freepagetable (p_pagetable pr) (p_sz pr))),
     set_proc p (\<lambda>pr. pr\<lparr>p_pagetable := 0, p_sz := 0, p_pid := 0, p_parent := None,
       p_name := (p_name pr)(0 := 0), p_chan := NoChan, p_killed := False, p_xstate := 0,
       p_state := UNUSED\<rparr>)])"

definition allocproc :: "(nat option, 'a) procop" where
  "allocproc = kfor [0..<NPROC] (\<lambda>p. kthen [acquire (ProcLock p)] (
     kif (\<lambda>s. p_state (procs s p) \<noteq> UNUSED)
       (kthen [release (ProcLock p)] (kreturn None))
       (kbind allocpid (\<lambda>pid. kthen [
          set_proc p (p_pid_update (\<lambda>_. pid)),
          set_proc p (p_state_update (\<lambda>_. USED))] (
        kbind kalloc (\<lambda>tf. kthen [set_proc p (p_trapframe_update (\<lambda>_. tf))] (
        if tf = 0 then kthen [freeproc p, release (ProcLock p)] (kreturn (Some None))
        else kbind (proc_pagetable p) (\<lambda>pt. kthen [set_proc p (p_pagetable_update (\<lambda>_. pt))] (
          if pt = 0 then kthen [freeproc p, release (ProcLock p)] (kreturn (Some None))
          else kbind (kgets (\<lambda>s. sym_forkret (syms s))) (\<lambda>fr. kthen [
            set_proc p (\<lambda>pr. pr\<lparr>p_context := \<lparr>ctx_ra = fr, ctx_sp = p_kstack pr + PGSIZE,
              ctx_s = (\<lambda>_. 0)\<rparr>\<rparr>)]
            (kreturn (Some (Some p)))))))))))))
     (kreturn None)"

text \<open>\<open>sz + n\<close> adds a \<^verbatim>\<open>int\<close> to a \<^verbatim>\<open>uint64\<close>.\<close>

definition growproc :: "32 word \<Rightarrow> (int, 'a) procop" where
  "growproc n = kbind curproc (\<lambda>p. kbind (kgets (\<lambda>s. procs s p)) (\<lambda>pr.
     let sz = p_sz pr; setsz = (\<lambda>sz. kthen [set_proc p (p_sz_update (\<lambda>_. sz))] (kreturn 0)) in
     if 0 <s n then
       kbind (uvmalloc (p_pagetable pr) sz (sz + scast n) PTE_W) (\<lambda>sz.
       if sz = 0 then kreturn (- 1) else setsz sz)
     else if n <s 0 then kbind (uvmdealloc (p_pagetable pr) sz (sz + scast n)) setsz
     else setsz sz))"

section \<open>Sleeping and waking\<close>

text \<open>
  \<^verbatim>\<open>sched\<close> up to \<^verbatim>\<open>swtch\<close>, and its last line. The value of \<^verbatim>\<open>intena\<close> is a local of
  the process's kernel stack.
\<close>

definition sched :: "('r, 'a) procop" where
  "sched = kbind curproc (\<lambda>p. kthen [
     panic_if (\<lambda>s. \<not> holding (ProcLock p) s) ''sched p->lock'',
     panic_if (\<lambda>s. noff (mycpu s) \<noteq> 1) ''sched locks'',
     panic_if (\<lambda>s. p_state (procs s p) = RUNNING) ''sched running'',
     panic_if intr_get ''sched interruptible'']
     (kbind (kgets (\<lambda>s. p_chan (procs s p))) ksleep))"

definition sched_return :: "bool \<Rightarrow> (unit, 'a) procop" where
  "sched_return old = kmodify (upd_mycpu (intena_update (\<lambda>_. old)))"

definition yield :: "('r, 'a) procop" where
  "yield = kbind curproc (\<lambda>p. kthen [
     acquire (ProcLock p),
     set_proc p (p_state_update (\<lambda>_. RUNNABLE))]
     sched)"

definition yield_return :: "bool \<Rightarrow> (unit, 'a) procop" where
  "yield_return old = kbind curproc (\<lambda>p. kdo [sched_return old, release (ProcLock p)])"

definition sleep :: "chan \<Rightarrow> lockid \<Rightarrow> ('r, 'a) procop" where
  "sleep c lk = kbind curproc (\<lambda>p. kthen [
     acquire (ProcLock p),
     release lk,
     set_proc p (p_chan_update (\<lambda>_. c)),
     set_proc p (p_state_update (\<lambda>_. SLEEPING))]
     sched)"

definition sleep_return :: "bool \<Rightarrow> lockid \<Rightarrow> (unit, 'a) procop" where
  "sleep_return old lk = kbind curproc (\<lambda>p. kdo [
     sched_return old,
     set_proc p (p_chan_update (\<lambda>_. NoChan)),
     release (ProcLock p),
     acquire lk])"

definition wakeup :: "chan \<Rightarrow> (unit, 'a) procop" where
  "wakeup c = kforeach [0..<NPROC] (\<lambda>p. kbind myproc (\<lambda>me.
     kwhen (\<lambda>_. Some p \<noteq> me) (kdo [
       acquire (ProcLock p),
       kwhen (\<lambda>s. p_state (procs s p) = SLEEPING \<and> p_chan (procs s p) = c)
         (set_proc p (p_state_update (\<lambda>_. RUNNABLE))),
       release (ProcLock p)])))"

definition kill :: "int \<Rightarrow> (int, 'a) procop" where
  "kill pid = kfor [0..<NPROC] (\<lambda>p. kthen [acquire (ProcLock p)] (
     kif (\<lambda>s. p_pid (procs s p) = pid)
       (kthen [
          set_proc p (p_killed_update (\<lambda>_. True)),
          kwhen (\<lambda>s. p_state (procs s p) = SLEEPING) (set_proc p (p_state_update (\<lambda>_. RUNNABLE))),
          release (ProcLock p)] (kreturn (Some 0)))
       (kthen [release (ProcLock p)] (kreturn None))))
     (kreturn (- 1))"

definition setkilled :: "nat \<Rightarrow> (unit, 'a) procop" where
  "setkilled p = kdo [
     acquire (ProcLock p),
     set_proc p (p_killed_update (\<lambda>_. True)),
     release (ProcLock p)]"

definition killed :: "nat \<Rightarrow> (bool, 'a) procop" where
  "killed p = kthen [acquire (ProcLock p)] (kbind (kgets (\<lambda>s. p_killed (procs s p))) (\<lambda>k.
     kthen [release (ProcLock p)] (kreturn k)))"

section \<open>Waiting for children\<close>

text \<open>The four bytes of an \<^verbatim>\<open>int\<close> object.\<close>

definition int_bytes :: "int \<Rightarrow> bytes" where
  "int_bytes x = put32 (\<lambda>_. 0) 0 (of_int x)"

text \<open>
  The scan over the process table in \<^verbatim>\<open>wait\<close>: \<open>Inr r\<close> when it returns \<open>r\<close>, \<open>Inl havekids\<close>
  when it falls through.
\<close>

primrec wait_scan :: "nat list \<Rightarrow> nat \<Rightarrow> uint64 \<Rightarrow> bool \<Rightarrow> (bool + int, 'a) procop" where
  "wait_scan [] p addr havekids = kreturn (Inl havekids)"
| "wait_scan (pp # pps) p addr havekids =
     kif (\<lambda>s. p_parent (procs s pp) = Some p)
       (kthen [acquire (ProcLock pp)] (
        kif (\<lambda>s. p_state (procs s pp) = ZOMBIE)
          (kbind (kgets (\<lambda>s. procs s pp)) (\<lambda>c. kbind (kgets (\<lambda>s. p_pagetable (procs s p))) (\<lambda>pt.
           kbind (if addr \<noteq> 0 then copyout pt addr (int_bytes (p_xstate c)) 4 else kreturn 0) (\<lambda>r.
           if r < 0 then kthen [release (ProcLock pp), release WaitLock] (kreturn (Inr (- 1)))
           else kthen [freeproc pp, release (ProcLock pp), release WaitLock] (kreturn (Inr (p_pid c)))))))
          (kthen [release (ProcLock pp)] (wait_scan pps p addr True))))
       (wait_scan pps p addr havekids)"

definition wait_round :: "nat \<Rightarrow> uint64 \<Rightarrow> (int, 'a) procop" where
  "wait_round p addr = kbind (wait_scan [0..<NPROC] p addr False) (\<lambda>r.
     case r of
       Inr v \<Rightarrow> kreturn v
     | Inl havekids \<Rightarrow>
         kbind (if \<not> havekids then kreturn True else killed p) (\<lambda>stop.
         if stop then kthen [release WaitLock] (kreturn (- 1))
         else sleep (ProcChan p) WaitLock))"

definition wait :: "uint64 \<Rightarrow> (int, 'a) procop" where
  "wait addr = kbind curproc (\<lambda>p. kthen [acquire WaitLock] (wait_round p addr))"

definition wait_return :: "bool \<Rightarrow> uint64 \<Rightarrow> (int, 'a) procop" where
  "wait_return old addr = kbind curproc (\<lambda>p. kthen [sleep_return old WaitLock] (wait_round p addr))"

definition reparent :: "nat \<Rightarrow> (unit, 'a) procop" where
  "reparent p = kforeach [0..<NPROC] (\<lambda>pp.
     kwhen (\<lambda>s. p_parent (procs s pp) = Some p) (kdo [
       kmodify (\<lambda>s. upd_proc pp (p_parent_update (\<lambda>_. initproc s)) s),
       kbind (kgets initproc) (\<lambda>i. wakeup (case i of Some j \<Rightarrow> ProcChan j | None \<Rightarrow> NoChan))]))"

section \<open>The scheduler\<close>

text \<open>
  The start of \<^verbatim>\<open>scheduler\<close>, the start of every pass over the table (which lets devices
  interrupt), one round of its inner loop up to \<^verbatim>\<open>swtch\<close> (the result says
  whether it switched to \<open>p\<close>), and what it does when the process has switched back.
\<close>

definition scheduler_start :: "(unit, 'a) procop" where
  "scheduler_start = kmodify (upd_mycpu (cpu_proc_update (\<lambda>_. None)))"

definition scheduler_pass :: "(unit, 'a) procop" where
  "scheduler_pass = kmodify intr_on"

definition scheduler_enter :: "nat \<Rightarrow> (bool, 'a) procop" where
  "scheduler_enter p = kthen [acquire (ProcLock p)] (
     kif (\<lambda>s. p_state (procs s p) = RUNNABLE)
       (kthen [
          set_proc p (p_state_update (\<lambda>_. RUNNING)),
          kmodify (upd_mycpu (cpu_proc_update (\<lambda>_. Some p)))] (kreturn True))
       (kthen [release (ProcLock p)] (kreturn False)))"

definition scheduler_leave :: "nat \<Rightarrow> (unit, 'a) procop" where
  "scheduler_leave p = kdo [
     kmodify (upd_mycpu (cpu_proc_update (\<lambda>_. None))),
     release (ProcLock p)]"

section \<open>Sleep locks\<close>

text \<open>
  A sleep lock is named by the spinlock inside it; its address is the channel to sleep on.
\<close>

fun slchan :: "lockid \<Rightarrow> chan" where
  "slchan (BufLk i) = BufLockChan i"
| "slchan (InodeLk i) = InodeLockChan i"
| "slchan _ = NoChan"

definition upd_sleeplock :: "lockid \<Rightarrow> (sleeplock \<Rightarrow> sleeplock) \<Rightarrow> 'a proc_st_scheme \<Rightarrow> 'a proc_st_scheme" where
  "upd_sleeplock lk f s = s\<lparr>sleeplocks := (sleeplocks s)(lk := f (sleeplocks s lk))\<rparr>"

definition initsleeplock :: "lockid \<Rightarrow> string \<Rightarrow> (unit, 'a) procop" where
  "initsleeplock lk name = kdo [
     initlock lk ''sleep lock'',
     kmodify (upd_sleeplock lk (\<lambda>l. l\<lparr>sl_name := name, sl_locked := False, sl_pid := 0\<rparr>))]"

definition acquiresleep_round :: "lockid \<Rightarrow> (unit, 'a) procop" where
  "acquiresleep_round lk =
     kif (\<lambda>s. sl_locked (sleeplocks s lk))
       (sleep (slchan lk) lk)
       (kdo [
          kmodify (upd_sleeplock lk (sl_locked_update (\<lambda>_. True))),
          kbind curproc (\<lambda>p. kmodify (\<lambda>s. upd_sleeplock lk (sl_pid_update (\<lambda>_. p_pid (procs s p))) s)),
          release lk])"

definition acquiresleep :: "lockid \<Rightarrow> (unit, 'a) procop" where
  "acquiresleep lk = kdo [acquire lk, acquiresleep_round lk]"

definition acquiresleep_return :: "bool \<Rightarrow> lockid \<Rightarrow> (unit, 'a) procop" where
  "acquiresleep_return old lk = kdo [sleep_return old lk, acquiresleep_round lk]"

definition releasesleep :: "lockid \<Rightarrow> (unit, 'a) procop" where
  "releasesleep lk = kdo [
     acquire lk,
     kmodify (upd_sleeplock lk (sl_locked_update (\<lambda>_. False))),
     kmodify (upd_sleeplock lk (sl_pid_update (\<lambda>_. 0))),
     wakeup (slchan lk),
     release lk]"

definition holdingsleep :: "lockid \<Rightarrow> (bool, 'a) procop" where
  "holdingsleep lk = kthen [acquire lk] (
     kbind (kgets (\<lambda>s. sl_locked (sleeplocks s lk))) (\<lambda>l.
     kbind (if l then kbind curproc (\<lambda>p. kgets (\<lambda>s. sl_pid (sleeplocks s lk) = p_pid (procs s p)))
            else kreturn False) (\<lambda>r.
     kthen [release lk] (kreturn r))))"

section \<open>Copying to and from either address space\<close>

text \<open>
  An address with the flag that says how to read it: a user address, an address of physical
  memory, or an offset into \<open>kobj\<close>.
\<close>

datatype kptr = UserPtr uint64 | RamPtr uint64 | ObjPtr nat

fun kptr_add :: "kptr \<Rightarrow> nat \<Rightarrow> kptr" where
  "kptr_add (UserPtr a) n = UserPtr (a + of_nat n)"
| "kptr_add (RamPtr a) n = RamPtr (a + of_nat n)"
| "kptr_add (ObjPtr i) n = ObjPtr (i + n)"

fun either_copyout :: "kptr \<Rightarrow> bytes \<Rightarrow> uint64 \<Rightarrow> (int, 'a) procop" where
  "either_copyout (UserPtr dst) src len =
     kbind curproc (\<lambda>p. kbind (kgets (\<lambda>s. p_pagetable (procs s p))) (\<lambda>pt. copyout pt dst src len))"
| "either_copyout (RamPtr dst) src len =
     kbind myproc (\<lambda>_. kthen [store_bytes dst src (unat len)] (kreturn 0))"
| "either_copyout (ObjPtr i) src len =
     kbind myproc (\<lambda>_. kthen [
       kmodify (\<lambda>s. s\<lparr>kobj := put_bytes (kobj s) i (map src [0..<unat len])\<rparr>)] (kreturn 0))"

fun either_copyin :: "bytes \<Rightarrow> kptr \<Rightarrow> uint64 \<Rightarrow> (int \<times> bytes, 'a) procop" where
  "either_copyin dst (UserPtr src) len =
     kbind curproc (\<lambda>p. kbind (kgets (\<lambda>s. p_pagetable (procs s p))) (\<lambda>pt. copyin pt dst src len))"
| "either_copyin dst (RamPtr src) len =
     kbind myproc (\<lambda>_. kbind (kgets (\<lambda>s. ram_get (mem s) src (unat len))) (\<lambda>xs.
       kreturn (0, put_bytes dst 0 xs)))"
| "either_copyin dst (ObjPtr i) len =
     kbind myproc (\<lambda>_. kbind (kgets (\<lambda>s. get_bytes (kobj s) i (unat len))) (\<lambda>xs.
       kreturn (0, put_bytes dst 0 xs)))"

section \<open>Frames\<close>

lemma proc_frame_proj [simp]:
  "kernel_pagetable (acq lk s) = kernel_pagetable s"
  "kernel_pagetable (rel lk s) = kernel_pagetable s"
  "kernel_pagetable (lockcycle s) = kernel_pagetable s"
  "procs (acq lk s) = procs s"
  "procs (rel lk s) = procs s"
  "procs (lockcycle s) = procs s"
  "initproc (acq lk s) = initproc s"
  "initproc (rel lk s) = initproc s"
  "initproc (lockcycle s) = initproc s"
  "nextpid (acq lk s) = nextpid s"
  "nextpid (rel lk s) = nextpid s"
  "nextpid (lockcycle s) = nextpid s"
  "sleeplocks (acq lk s) = sleeplocks s"
  "sleeplocks (rel lk s) = sleeplocks s"
  "sleeplocks (lockcycle s) = sleeplocks s"
  "kobj (acq lk s) = kobj s"
  "kobj (rel lk s) = kobj s"
  "kobj (lockcycle s) = kobj s"
  by (simp_all add: lock_defs Let_def)

lemma proc_frame_lock [simp]:
  "lock_ok lk (kernel_pagetable_update f0 s) = lock_ok lk s"
  "holding lk (kernel_pagetable_update f0 s) = holding lk s"
  "irq_ok (kernel_pagetable_update f0 s) = irq_ok s"
  "irq_held (kernel_pagetable_update f0 s) = irq_held s"
  "intr_get (kernel_pagetable_update f0 s) = intr_get s"
  "cpuid (kernel_pagetable_update f0 s) = cpuid s"
  "mycpu (kernel_pagetable_update f0 s) = mycpu s"
  "lock_ok lk (procs_update f1 s) = lock_ok lk s"
  "holding lk (procs_update f1 s) = holding lk s"
  "irq_ok (procs_update f1 s) = irq_ok s"
  "irq_held (procs_update f1 s) = irq_held s"
  "intr_get (procs_update f1 s) = intr_get s"
  "cpuid (procs_update f1 s) = cpuid s"
  "mycpu (procs_update f1 s) = mycpu s"
  "lock_ok lk (initproc_update f2 s) = lock_ok lk s"
  "holding lk (initproc_update f2 s) = holding lk s"
  "irq_ok (initproc_update f2 s) = irq_ok s"
  "irq_held (initproc_update f2 s) = irq_held s"
  "intr_get (initproc_update f2 s) = intr_get s"
  "cpuid (initproc_update f2 s) = cpuid s"
  "mycpu (initproc_update f2 s) = mycpu s"
  "lock_ok lk (nextpid_update f3 s) = lock_ok lk s"
  "holding lk (nextpid_update f3 s) = holding lk s"
  "irq_ok (nextpid_update f3 s) = irq_ok s"
  "irq_held (nextpid_update f3 s) = irq_held s"
  "intr_get (nextpid_update f3 s) = intr_get s"
  "cpuid (nextpid_update f3 s) = cpuid s"
  "mycpu (nextpid_update f3 s) = mycpu s"
  "lock_ok lk (sleeplocks_update f4 s) = lock_ok lk s"
  "holding lk (sleeplocks_update f4 s) = holding lk s"
  "irq_ok (sleeplocks_update f4 s) = irq_ok s"
  "irq_held (sleeplocks_update f4 s) = irq_held s"
  "intr_get (sleeplocks_update f4 s) = intr_get s"
  "cpuid (sleeplocks_update f4 s) = cpuid s"
  "mycpu (sleeplocks_update f4 s) = mycpu s"
  "lock_ok lk (kobj_update f5 s) = lock_ok lk s"
  "holding lk (kobj_update f5 s) = holding lk s"
  "irq_ok (kobj_update f5 s) = irq_ok s"
  "irq_held (kobj_update f5 s) = irq_held s"
  "intr_get (kobj_update f5 s) = intr_get s"
  "cpuid (kobj_update f5 s) = cpuid s"
  "mycpu (kobj_update f5 s) = mycpu s"
  by (simp_all add: lock_defs)

lemma proc_frame_comm [simp]:
  "acq lk (kernel_pagetable_update f0 s) = kernel_pagetable_update f0 (acq lk s)"
  "rel lk (kernel_pagetable_update f0 s) = kernel_pagetable_update f0 (rel lk s)"
  "lockcycle (kernel_pagetable_update f0 s) = kernel_pagetable_update f0 (lockcycle s)"
  "acq lk (procs_update f1 s) = procs_update f1 (acq lk s)"
  "rel lk (procs_update f1 s) = procs_update f1 (rel lk s)"
  "lockcycle (procs_update f1 s) = procs_update f1 (lockcycle s)"
  "acq lk (initproc_update f2 s) = initproc_update f2 (acq lk s)"
  "rel lk (initproc_update f2 s) = initproc_update f2 (rel lk s)"
  "lockcycle (initproc_update f2 s) = initproc_update f2 (lockcycle s)"
  "acq lk (nextpid_update f3 s) = nextpid_update f3 (acq lk s)"
  "rel lk (nextpid_update f3 s) = nextpid_update f3 (rel lk s)"
  "lockcycle (nextpid_update f3 s) = nextpid_update f3 (lockcycle s)"
  "acq lk (sleeplocks_update f4 s) = sleeplocks_update f4 (acq lk s)"
  "rel lk (sleeplocks_update f4 s) = sleeplocks_update f4 (rel lk s)"
  "lockcycle (sleeplocks_update f4 s) = sleeplocks_update f4 (lockcycle s)"
  "acq lk (kobj_update f5 s) = kobj_update f5 (acq lk s)"
  "rel lk (kobj_update f5 s) = kobj_update f5 (rel lk s)"
  "lockcycle (kobj_update f5 s) = kobj_update f5 (lockcycle s)"
  by (simp_all add: lock_defs Let_def)

end
