(* ===== verification/Proc_Sched.thy ===== *)
theory Proc_Sched
  imports Proc Frames
begin

text \<open>
  What the process table, sleeping and waking guarantee: \<open>wakeup\<close> makes runnable exactly the other
  processes asleep on its channel; \<open>sleep\<close> goes to sleep with its process lock held and the
  caller's lock given up; no wakeup is lost between the two, whatever the interleaving of their
  atomic actions; process identifiers of live slots are distinct; \<open>kill\<close> and the sleep locks meet
  their contracts.
\<close>

section \<open>The process table under the locks\<close>

lemma upd_proc_facts [simp]:
  "procs (upd_proc p f s) = (procs s)(p := f (procs s p))"
  "nextpid (upd_proc p f s) = nextpid s"
  "locks (upd_proc p f s) = locks s"
  "lock_ok lk (upd_proc p f s) = lock_ok lk s"
  "holding lk (upd_proc p f s) = holding lk s"
  "irq_ok (upd_proc p f s) = irq_ok s"
  "irq_held (upd_proc p f s) = irq_held s"
  "intr_get (upd_proc p f s) = intr_get s"
  "mycpu (upd_proc p f s) = mycpu s"
  by (simp_all add: upd_proc_def)

lemma wp_set_proc [wp_simps]: "wp (set_proc p f) Q s = Q () (upd_proc p f s)"
  by (simp add: set_proc_def wp_simps)

lemma wp_curproc [wp_simps]:
  "irq_ok s \<Longrightarrow> cpu_proc (mycpu s) = Some p \<Longrightarrow> wp curproc Q s = Q p (lockcycle s)"
  by (simp add: curproc_def wp_simps)

lemma curproc_eq: "irq_ok s \<Longrightarrow> cpu_proc (mycpu s) = Some p \<Longrightarrow> curproc s = Ret p (lockcycle s)"
  by (simp add: curproc_def kbind_def myproc_eq kreturn_def)

definition wakes :: "nat option \<Rightarrow> chan \<Rightarrow> proc \<Rightarrow> nat \<Rightarrow> bool" where
  "wakes me c pr p \<longleftrightarrow> p < NPROC \<and> Some p \<noteq> me \<and> p_state pr = SLEEPING \<and> p_chan pr = c"

definition wake_upto :: "nat \<Rightarrow> nat option \<Rightarrow> chan \<Rightarrow> (nat \<Rightarrow> proc) \<Rightarrow> nat \<Rightarrow> proc" where
  "wake_upto n me c ps p = (if p < n \<and> wakes me c (ps p) p then (ps p)\<lparr>p_state := RUNNABLE\<rparr> else ps p)"

lemma wake_upto_0 [simp]: "wake_upto 0 me c ps = ps"
  by (simp add: wake_upto_def fun_eq_iff)

lemma wake_upto_Suc: "wake_upto (Suc n) me c ps =
  (if wakes me c (ps n) n then (wake_upto n me c ps)(n := (ps n)\<lparr>p_state := RUNNABLE\<rparr>)
   else wake_upto n me c ps)"
  by (auto simp: wake_upto_def fun_eq_iff less_Suc_eq)

lemma wake_upto_at [simp]: "wake_upto n me c ps n = ps n"
  by (simp add: wake_upto_def)

lemma procs_update_procs [simp]: "s\<lparr>procs := procs s\<rparr> = s"
  by simp

definition wakeup_ready :: "'a proc_st_scheme \<Rightarrow> bool" where
  "wakeup_ready s \<longleftrightarrow> irq_ok s \<and> (\<forall>p < NPROC. Some p \<noteq> cpu_proc (mycpu s) \<longrightarrow> lock_ok (ProcLock p) s)"

lemma wakeup_eq:
  assumes "wakeup_ready s"
  shows "wakeup c s = Ret () ((lockcycle s)\<lparr>procs := wake_upto NPROC (cpu_proc (mycpu s)) c (procs s)\<rparr>)"
proof -
  let ?me = "cpu_proc (mycpu s)"
  let ?st = "\<lambda>n. (lockcycle s)\<lparr>procs := wake_upto n ?me c (procs s)\<rparr>"
  have irq: "irq_ok s" using assms by (simp add: wakeup_ready_def)
  have "wp (wakeup c) (\<lambda>_ t. t = ?st NPROC) s"
    unfolding wakeup_def
  proof (rule wp_kforeach_inv [where I = "\<lambda>ys t. if ys = [] then t = s else t = ?st (length ys)"])
    fix ys x zs t assume *: "[0..<NPROC] = ys @ x # zs" "if ys = [] then t = s else t = ?st (length ys)"
    have x: "x = length ys" "x < NPROC" using upt_split [OF *(1)] by auto
    have lc: "lockcycle t = ?st x" using *(2) x by (auto split: if_splits)
    have ok: "lock_ok (ProcLock x) (?st x)" if "Some x \<noteq> ?me"
      using assms x(2) that by (simp add: wakeup_ready_def)
    have "irq_ok t \<and> cpu_proc (mycpu t) = ?me" using *(2) irq by (auto split: if_splits)
    then show "wp (kbind myproc (\<lambda>me. kwhen (\<lambda>_. Some x \<noteq> me) (kdo [acquire (ProcLock x),
         kwhen (\<lambda>s. p_state (procs s x) = SLEEPING \<and> p_chan (procs s x) = c)
           (set_proc x (p_state_update (\<lambda>_. RUNNABLE))), release (ProcLock x)])))
       (\<lambda>_ t. if ys @ [x] = [] then t = s else t = ?st (length (ys @ [x]))) t"
      using ok x irq
      by (auto simp: wp_simps lc upd_proc_def wake_upto_Suc wakes_def)
  qed simp_all
  then show ?thesis by (simp add: wp_iff_Ret)
qed

text \<open>
  \<^verbatim>\<open>wakeup(chan)\<close> makes \<^verbatim>\<open>RUNNABLE\<close> exactly the processes, other than the caller, that
  are \<^verbatim>\<open>SLEEPING\<close> on \<^verbatim>\<open>chan\<close>, leaves every other slot of the table and every other part of
  the state as it is (up to the recomputation of \<^verbatim>\<open>intena\<close> at nesting depth 0), and always
  returns; waking again changes nothing.
\<close>

lemma wakeup_wakes_exactly:
  assumes "wakeup_ready s"
  shows "\<exists>t. wakeup c s = Ret () t \<and> t = (lockcycle s)\<lparr>procs := procs t\<rparr> \<and>
    (\<forall>p. wakes (cpu_proc (mycpu s)) c (procs s p) p \<longrightarrow> procs t p = (procs s p)\<lparr>p_state := RUNNABLE\<rparr>) \<and>
    (\<forall>p. \<not> wakes (cpu_proc (mycpu s)) c (procs s p) p \<longrightarrow> procs t p = procs s p) \<and>
    wakeup c t = Ret () t"
proof -
  let ?t = "(lockcycle s)\<lparr>procs := wake_upto NPROC (cpu_proc (mycpu s)) c (procs s)\<rparr>"
  have "wakeup_ready ?t" using assms by (simp add: wakeup_ready_def)
  moreover have "wake_upto NPROC me c (wake_upto NPROC me c ps) = wake_upto NPROC me c ps" for me ps
    by (auto simp: wake_upto_def wakes_def fun_eq_iff)
  ultimately have "wakeup c ?t = Ret () ?t" by (simp add: wakeup_eq)
  then show ?thesis
    using wakeup_eq [OF assms, of c] by (auto simp: wake_upto_def wakes_def)
qed

section \<open>Going to sleep\<close>

text \<open>The conditions under which code of the kernel calls \<^verbatim>\<open>sleep(chan, lk)\<close>.\<close>

definition sleep_ready :: "nat \<Rightarrow> lockid \<Rightarrow> 'a proc_st_scheme \<Rightarrow> bool" where
  "sleep_ready p lk s \<longleftrightarrow> cpu_proc (mycpu s) = Some p \<and> holding lk s \<and> irq_held s \<and>
     noff (mycpu s) = 1 \<and> lk \<noteq> ProcLock p \<and> lock_ok (ProcLock p) s"

definition asleep :: "nat \<Rightarrow> chan \<Rightarrow> (nat \<Rightarrow> proc) \<Rightarrow> nat \<Rightarrow> proc" where
  "asleep p c ps = ps(p := (ps p)\<lparr>p_chan := c, p_state := SLEEPING\<rparr>)"

lemma irq_ok_held: "irq_held s \<Longrightarrow> irq_ok s"
  by (simp add: irq_ok_def irq_held_def)

lemma rel_held_facts:
  "irq_held s \<Longrightarrow> lk \<noteq> lk' \<Longrightarrow> holding lk' (rel lk s) = holding lk' s"
  "irq_held s \<Longrightarrow> noff (mycpu (rel lk s)) = noff (mycpu s) - 1"
  "irq_held s \<Longrightarrow> noff (mycpu s) \<noteq> 1 \<Longrightarrow> intr_get (rel lk s) = intr_get s"
  "cpu_proc (mycpu (rel lk s)) = cpu_proc (mycpu s)"
  "\<not> locked (locks (rel lk s) lk)"
  "lk \<noteq> lk' \<Longrightarrow> locks (rel lk s) lk' = locks s lk'"
  by (auto simp: lock_defs Let_def)

lemma intr_get_acq [simp]: "\<not> intr_get (acq lk s)"
  by (simp add: lock_defs SIE_bits)

lemma acq_noff: "noff (mycpu (acq lk s)) = noff (mycpu s) + 1"
  by (simp add: lock_defs)

lemma sleep_eq:
  assumes "sleep_ready p lk s"
  shows "sleep c lk s = Sleep c ((rel lk (acq (ProcLock p) s))\<lparr>procs := asleep p c (procs s)\<rparr>)"
proof -
  have s: "cpu_proc (mycpu s) = Some p" "holding lk s" "irq_held s" "noff (mycpu s) = 1"
    "lk \<noteq> ProcLock p" "lock_ok (ProcLock p) s" "irq_ok s" "lockcycle s = s"
    using assms by (simp_all add: sleep_ready_def irq_ok_held push_st_facts)
  let ?a = "acq (ProcLock p) s"
  let ?t = "(rel lk ?a)\<lparr>procs := asleep p c (procs s)\<rparr>"
  have held: "irq_held ?a" "\<not> intr_get ?a" "noff (mycpu ?a) = 2"
    using s acq_noff [of "ProcLock p" s] by simp_all
  have upds: "upd_proc p (p_state_update (\<lambda>_. SLEEPING)) (upd_proc p (p_chan_update (\<lambda>_. c)) (rel lk ?a)) = ?t"
    by (simp add: upd_proc_def asleep_def)
  have t: "irq_held ?t" "holding (ProcLock p) ?t" "noff (mycpu ?t) = 1" "\<not> intr_get ?t"
    "cpu_proc (mycpu ?t) = Some p" "procs ?t p = (procs s p)\<lparr>p_chan := c, p_state := SLEEPING\<rparr>"
    using s held by (simp_all add: rel_held_facts irq_held_def asleep_def)
  then have sch: "sched ?t = Sleep c ?t"
    by (simp add: sched_def run_defs curproc_eq irq_ok_held push_st_facts)
  show ?thesis
    using s held upds sch
    by (simp add: sleep_def run_defs curproc_eq acquire_eq release_eq set_proc_def)
qed

text \<open>
  C21: \<^verbatim>\<open>sleep(chan, lk)\<close>, called with \<^verbatim>\<open>lk\<close> held and no other lock, gives up the CPU with
  \<^verbatim>\<open>lk\<close> released and its own \<^verbatim>\<open>p->lock\<close> held, asleep on \<^verbatim>\<open>chan\<close>, every other slot
  unchanged. Until the scheduler releases \<^verbatim>\<open>p->lock\<close> no other hart can examine the slot: its
  \<^verbatim>\<open>acquire\<close> spins.
\<close>

theorem sleep_gives_up_lock:
  assumes "sleep_ready p lk s"
  shows "\<exists>t. sleep c lk s = Sleep c t \<and> \<not> locked (locks t lk) \<and> holding (ProcLock p) t \<and>
    \<not> intr_get t \<and> p_state (procs t p) = SLEEPING \<and> p_chan (procs t p) = c \<and>
    (\<forall>q. q \<noteq> p \<longrightarrow> procs t q = procs s q) \<and>
    (\<forall>h. reg_tp h \<noteq> reg_tp (hart t) \<longrightarrow>
       (\<exists>u. acquire (ProcLock p) (t\<lparr>hart := h\<rparr>) = Spin (ProcLock p) u))"
proof -
  let ?t = "(rel lk (acq (ProcLock p) s))\<lparr>procs := asleep p c (procs s)\<rparr>"
  have s: "irq_held s" "lk \<noteq> ProcLock p" "irq_ok s" "irq_held (acq (ProcLock p) s)" "noff (mycpu s) = 1"
    using assms by (simp_all add: sleep_ready_def irq_ok_held)
  have hold: "holding (ProcLock p) ?t" using s by (simp add: rel_held_facts)
  have off: "\<not> intr_get ?t" using s by (simp add: rel_held_facts acq_noff)
  have "\<exists>u. acquire (ProcLock p) (?t\<lparr>hart := h\<rparr>) = Spin (ProcLock p) u"
    if "reg_tp h \<noteq> reg_tp (hart ?t)" for h
    using hold that by (intro acquire_spins) (auto simp: holding_def cpuid_def word_unat_eq_iff)
  with sleep_eq [OF assms, of c] hold off show ?thesis
    by (auto simp: asleep_def rel_held_facts)
qed

text \<open>
  A concrete kernel: hart 0 runs process 1 with \<^verbatim>\<open>tickslock\<close> held; process 2 is asleep on
  \<^verbatim>\<open>&ticks\<close>.
\<close>

definition proc_null :: proc where
  "proc_null = \<lparr>p_state = UNUSED, p_chan = NoChan, p_killed = False, p_xstate = 0, p_pid = 0,
     p_parent = None, p_kstack = 0, p_sz = 0, p_pagetable = 0, p_trapframe = 0,
     p_context = \<lparr>ctx_ra = 0, ctx_sp = 0, ctx_s = (\<lambda>_. 0)\<rparr>, p_ofile = (\<lambda>_. None), p_cwd = None,
     p_name = (\<lambda>_. 0)\<rparr>"

definition pst0 :: proc_st where
  "pst0 = \<lparr>hart = hart boot_hart, cpus = (cpus boot_hart)(0 := (cpus boot_hart 0)\<lparr>cpu_proc := Some 1\<rparr>),
     locks = locks boot_hart, mem = mem kmem0, freelist = freelist kmem0, syms = syms kmem0,
     kernel_pagetable = 0,
     procs = (\<lambda>_. proc_null)(
       1 := proc_null\<lparr>p_state := RUNNING, p_pid := 1\<rparr>,
       2 := proc_null\<lparr>p_state := SLEEPING, p_chan := TicksChan, p_pid := 2\<rparr>),
     initproc = Some 1, nextpid = 3, sleeplocks = (\<lambda>_. \<lparr>sl_locked = False, sl_name = [], sl_pid = 0\<rparr>),
     kobj = (\<lambda>_. 0)\<rparr>"

definition pst1 :: proc_st where
  "pst1 = acq TicksLock pst0"

lemma pst0_facts [simp]:
  "irq_ok pst0" "lock_ok lk pst0" "cpu_proc (mycpu pst0) = Some 1" "noff (mycpu pst0) = 0" "nextpid pst0 = 3"
  "procs pst0 = (\<lambda>_. proc_null)(1 := proc_null\<lparr>p_state := RUNNING, p_pid := 1\<rparr>,
       2 := proc_null\<lparr>p_state := SLEEPING, p_chan := TicksChan, p_pid := 2\<rparr>)"
  by (simp_all add: pst0_def boot_hart_def lock_defs bit_SIE)

theorem sleep_gives_up_lock_witness:
  "sleep_ready 1 TicksLock pst1 \<and> (\<exists>t. sleep TicksChan TicksLock pst1 = Sleep TicksChan t \<and>
     \<not> locked (locks t TicksLock) \<and> holding (ProcLock 1) t)"
proof -
  have r: "sleep_ready 1 TicksLock pst1" by (simp add: sleep_ready_def pst1_def acq_noff)
  then show ?thesis using sleep_gives_up_lock [OF r, of TicksChan] by auto
qed

section \<open>Process identifiers\<close>

definition pid_table :: "(nat \<Rightarrow> proc) \<Rightarrow> int \<Rightarrow> bool" where
  "pid_table ps n \<longleftrightarrow> 0 < n \<and>
     (\<forall>p < NPROC. p_state (ps p) \<noteq> UNUSED \<longrightarrow> 0 < p_pid (ps p) \<and> p_pid (ps p) < n) \<and>
     (\<forall>p < NPROC. \<forall>q < NPROC. p_state (ps p) \<noteq> UNUSED \<longrightarrow> p_state (ps q) \<noteq> UNUSED \<longrightarrow>
        p_pid (ps p) = p_pid (ps q) \<longrightarrow> p = q)"

text \<open>The identifiers of the slots in use are positive, below \<^verbatim>\<open>nextpid\<close> and distinct.\<close>

definition pid_inv :: "'a proc_st_scheme \<Rightarrow> bool" where
  "pid_inv s \<longleftrightarrow> pid_table (procs s) (nextpid s)"

text \<open>No operation of the memory system or of the locks touches the process table.\<close>

interpretation table_frame: mem_frame "\<lambda>s. R (procs s) (nextpid s)" for R
  by unfold_locales simp_all

lemmas table_keeps = table_frame.lock_keeps table_frame.vm_keeps

lemma set_proc_keeps:
  assumes "\<And>ps n. R ps n \<Longrightarrow> R (ps(p := f (ps p))) n"
  shows "keeps (\<lambda>s. R (procs s) (nextpid s)) (set_proc p f)"
  unfolding set_proc_def by (intro keeps_intros) (simp add: upd_proc_def assms)










lemma proc_pagetable_keeps: "keeps (\<lambda>s. R (procs s) (nextpid s)) (proc_pagetable p)"
  unfolding proc_pagetable_def by (intro keeps_intros table_keeps)





section \<open>Killing\<close>

definition kill_proc :: "proc \<Rightarrow> proc" where
  "kill_proc pr = pr\<lparr>p_killed := True, p_state := if p_state pr = SLEEPING then RUNNABLE else p_state pr\<rparr>"

definition proc_locks_free :: "'a proc_st_scheme \<Rightarrow> bool" where
  "proc_locks_free s \<longleftrightarrow> (\<forall>p < NPROC. lock_ok (ProcLock p) s)"

lemma kill_wp:
  assumes "proc_locks_free s"
  shows "wp (kill pid) (\<lambda>r t. case find (\<lambda>p. p_pid (procs s p) = pid) [0..<NPROC] of
      None \<Rightarrow> r = - 1 \<and> t = lockcycle s
    | Some p \<Rightarrow> r = 0 \<and> t = upd_proc p kill_proc (lockcycle s)) s"
    (is "wp _ ?Q s")
  unfolding kill_def
proof (rule wp_kfor_inv [where I = "\<lambda>ys t. t = (if ys = [] then s else lockcycle s) \<and>
    (\<forall>q \<in> set ys. p_pid (procs s q) \<noteq> pid)"])
  fix ys x zs t assume *: "[0..<NPROC] = ys @ x # zs"
    "t = (if ys = [] then s else lockcycle s) \<and> (\<forall>q \<in> set ys. p_pid (procs s q) \<noteq> pid)"
  have x: "x < NPROC" using upt_split [OF *(1)] by simp
  then have ok: "lock_ok (ProcLock x) s" and irq: "irq_ok s"
    using assms by (auto simp: proc_locks_free_def lock_ok_irq_ok)
  have t: "lock_ok (ProcLock x) t" "irq_ok t" "procs t = procs s" "lockcycle t = lockcycle s"
    using *(2) ok irq by auto
  have find: "find (\<lambda>p. p_pid (procs s p) = pid) [0..<NPROC] = Some x" if "p_pid (procs s x) = pid"
    using that *(2) unfolding *(1) by (intro find_first) auto
  show "wp (kthen [acquire (ProcLock x)] (
     kif (\<lambda>s. p_pid (procs s x) = pid)
       (kthen [
          set_proc x (p_killed_update (\<lambda>_. True)),
          kwhen (\<lambda>s. p_state (procs s x) = SLEEPING) (set_proc x (p_state_update (\<lambda>_. RUNNABLE))),
          release (ProcLock x)] (kreturn (Some 0)))
       (kthen [release (ProcLock x)] (kreturn None))))
     (\<lambda>r u. case r of None \<Rightarrow> u = (if ys @ [x] = [] then s else lockcycle s) \<and>
        (\<forall>q \<in> set (ys @ [x]). p_pid (procs s q) \<noteq> pid) | Some v \<Rightarrow> ?Q v u) t"
    using t *(2) find by (auto simp: wp_simps upd_proc_def kill_proc_def)
next
  show "wp (kreturn (- 1)) ?Q t" if "t = (if [0..<NPROC] = [] then s else lockcycle s) \<and>
      (\<forall>q \<in> set [0..<NPROC]. p_pid (procs s q) \<noteq> pid)" for t
  proof -
    have "find (\<lambda>p. p_pid (procs s p) = pid) [0..<NPROC] = None"
      using that by (subst find_None_iff) auto
    then show ?thesis using that by (simp add: wp_simps)
  qed
qed simp

text \<open>
  C23: \<^verbatim>\<open>kill(pid)\<close> marks the first slot of the table with that identifier killed, wakes it when it
  is asleep, changes nothing else and returns 0; when no slot has the identifier it changes
  nothing and returns -1.
\<close>

theorem kill_contract:
  assumes "proc_locks_free s"
  shows "kill pid s = (case find (\<lambda>p. p_pid (procs s p) = pid) [0..<NPROC] of
      None \<Rightarrow> Ret (- 1) (lockcycle s)
    | Some p \<Rightarrow> Ret 0 (upd_proc p kill_proc (lockcycle s)))"
  using kill_wp [OF assms, of pid] by (auto simp: wp_iff_Ret split: option.splits)

theorem kill_contract_witness:
  "proc_locks_free pst0 \<and> (\<exists>t. kill 2 pst0 = Ret 0 t \<and> p_killed (procs t 2) \<and> p_state (procs t 2) = RUNNABLE)"
proof -
  have f: "proc_locks_free pst0" by (simp add: proc_locks_free_def)
  have "[0..<NPROC] = [0, 1] @ 2 # [3..<NPROC]" by code_simp
  then have "find (\<lambda>p. p_pid (procs pst0 p) = 2) [0..<NPROC] = Some 2"
    by (simp only:) (simp add: proc_null_def)
  with f kill_contract [OF f, of 2] show ?thesis by (simp add: kill_proc_def)
qed

lemma allocproc_killed:
  fixes s :: "'a proc_st_scheme"
  assumes "allocproc s = Ret (Some p) t"
  shows "p_killed (procs t p) = p_killed (procs s p)"
proof -
  let ?K = "\<lambda>ps :: nat \<Rightarrow> proc. \<lambda>n :: int. \<forall>q. p_killed (ps q) = p_killed (procs s q)"
  let ?I = "\<lambda>t :: 'a proc_st_scheme. ?K (procs t) (nextpid t)"
  note pk = table_keeps [of ?K] proc_pagetable_keeps [of ?K]
  have set: "keeps ?I (set_proc p f)" if "\<And>pr. p_killed (f pr) = p_killed pr" for p f
    by (rule set_proc_keeps [of ?K]) (simp add: that)
  have np: "keeps ?I allocpid" unfolding allocpid_def by (intro keeps_intros pk) simp
  let ?Q = "\<lambda>r t. case r of Some p \<Rightarrow> p_killed (procs t p) = p_killed (procs s p) | None \<Rightarrow> True"
  have ret: "ends ?I m (\<lambda>r t. case r of None \<Rightarrow> ?I t | Some v \<Rightarrow> ?Q v t) (\<lambda>_. True)"
    if "keeps ?I m" for m :: "(nat option option, 'a) procop"
    using that by (rule ends_keeps) (auto split: option.splits)
  have any: "ends P (kthen ms (kreturn (Some None))) (\<lambda>r t. case r of None \<Rightarrow> ?I t | Some v \<Rightarrow> ?Q v t) (\<lambda>_. True)"
    for P and ms :: "(unit, 'a) procop list"
    by (rule ends_kthen [where R = "\<lambda>_. True"]) (auto simp: ends_def kreturn_def split: outcome.splits)
  have "ends ?I allocproc ?Q (\<lambda>_. True)"
    unfolding allocproc_def
    apply (rule ends_kfor)
     apply (rule ends_keeps_kthen)
      apply (intro keeps_intros pk)
     apply (rule ends_kif_any)
      apply (rule ret)
      apply (intro keeps_intros pk)
        apply (rule ends_keeps_kbind [OF np], rule ends_keeps_kthen, intro keeps_intros pk set, simp, simp)
        apply (rule ends_keeps_kbind, intro pk, rule ends_keeps_kthen, intro keeps_intros pk set, simp,
          rule ends_if, rule any)
        apply (rule ends_keeps_kbind, intro pk, rule ends_keeps_kthen, intro keeps_intros pk set, simp,
          rule ends_if, rule any)
        apply (rule ret, intro keeps_intros set)
        apply (simp_all add: ends_kreturn)
    done
  then show ?thesis using assms by (auto simp: ends_def split: outcome.splits dest!: spec [of _ s])
qed

text \<open>
  C24: \<^verbatim>\<open>kill(0)\<close> reports success on a free slot. A free slot has identifier 0 and no slot in use
  does, so \<^verbatim>\<open>kill(0)\<close> marks the first free slot killed and returns 0; \<^verbatim>\<open>allocproc\<close> does not
  clear the mark, so the process it creates in that slot starts out killed.
\<close>

theorem kill_zero_marks_free_slot:
  assumes "proc_locks_free s" and "pid_inv s"
    and "\<forall>p < NPROC. p_state (procs s p) = UNUSED \<longrightarrow> p_pid (procs s p) = 0"
    and "find (\<lambda>p. p_state (procs s p) = UNUSED) [0..<NPROC] = Some p"
  shows "\<exists>t. kill 0 s = Ret 0 t \<and> p_state (procs t p) = UNUSED \<and> p_killed (procs t p) \<and>
    (\<forall>u. allocproc t = Ret (Some p) u \<longrightarrow> p_killed (procs u p))"
proof -
  have "p_pid (procs s q) = 0 \<longleftrightarrow> p_state (procs s q) = UNUSED" if "q \<in> set [0..<NPROC]" for q
    using assms(2,3) that by (force simp: pid_inv_def pid_table_def)
  then have "find (\<lambda>q. p_pid (procs s q) = 0) [0..<NPROC] = find (\<lambda>q. p_state (procs s q) = UNUSED) [0..<NPROC]"
    by (intro find_cong) simp_all
  with assms(4) have "find (\<lambda>q. p_pid (procs s q) = 0) [0..<NPROC] = Some p" by simp
  then have k: "kill 0 s = Ret 0 (upd_proc p kill_proc (lockcycle s))"
    using kill_wp [OF assms(1), of 0] by (auto simp: wp_iff_Ret)
  moreover have "p_state (procs s p) = UNUSED" using assms(4) by (auto simp: find_Some_iff)
  ultimately show ?thesis by (auto simp: kill_proc_def dest: allocproc_killed)
qed

theorem kill_zero_marks_free_slot_witness:
  "proc_locks_free pst0 \<and> pid_inv pst0 \<and>
   (\<exists>t. kill 0 pst0 = Ret 0 t \<and> p_state (procs t 0) = UNUSED \<and> p_killed (procs t 0))"
proof -
  have f: "proc_locks_free pst0" by (simp add: proc_locks_free_def)
  have i: "pid_inv pst0" by (auto simp: pid_inv_def pid_table_def proc_null_def)
  have z: "\<forall>p < NPROC. p_state (procs pst0 p) = UNUSED \<longrightarrow> p_pid (procs pst0 p) = 0"
    by (simp add: proc_null_def)
  have "[0..<NPROC] = 0 # [1..<NPROC]" by code_simp
  then have "find (\<lambda>p. p_state (procs pst0 p) = UNUSED) [0..<NPROC] = Some 0"
    by (simp only:) (simp add: proc_null_def)
  with f i kill_zero_marks_free_slot [OF f i z this] show ?thesis by auto
qed

section \<open>Sleep locks\<close>

lemma upd_sleeplock_facts [simp]:
  "sleeplocks (upd_sleeplock lk f s) = (sleeplocks s)(lk := f (sleeplocks s lk))"
  "procs (upd_sleeplock lk f s) = procs s"
  "lock_ok l (upd_sleeplock lk f s) = lock_ok l s"
  "holding l (upd_sleeplock lk f s) = holding l s"
  "irq_ok (upd_sleeplock lk f s) = irq_ok s"
  "irq_held (upd_sleeplock lk f s) = irq_held s"
  "mycpu (upd_sleeplock lk f s) = mycpu s"
  "lockcycle (upd_sleeplock lk f s) = upd_sleeplock lk f (lockcycle s)"
  "acq l (upd_sleeplock lk f s) = upd_sleeplock lk f (acq l s)"
  "rel l (upd_sleeplock lk f s) = upd_sleeplock lk f (rel l s)"
  by (simp_all add: upd_sleeplock_def)

definition sleep_owner :: "int \<Rightarrow> sleeplock \<Rightarrow> sleeplock" where
  "sleep_owner pid l = l\<lparr>sl_locked := True, sl_pid := pid\<rparr>"

lemma acquiresleep_free:
  assumes "lock_ok lk s" "cpu_proc (mycpu s) = Some p" "\<not> sl_locked (sleeplocks s lk)"
  shows "acquiresleep lk s = Ret () (upd_sleeplock lk (sleep_owner (p_pid (procs s p))) (lockcycle s))"
proof -
  have "wp (acquiresleep lk) (\<lambda>_ t. t = upd_sleeplock lk (sleep_owner (p_pid (procs s p))) (lockcycle s)) s"
    using assms lock_ok_irq_ok [OF assms(1)]
    by (simp add: acquiresleep_def acquiresleep_round_def wp_simps)
      (simp add: upd_sleeplock_def sleep_owner_def)
  then show ?thesis by (simp add: wp_iff_Ret)
qed

lemma acquiresleep_busy:
  assumes "lock_ok lk s" "cpu_proc (mycpu s) = Some p" "sl_locked (sleeplocks s lk)"
    and "lk \<noteq> ProcLock p" "lock_ok (ProcLock p) s" "noff (mycpu s) = 0"
  shows "\<exists>t. acquiresleep lk s = Sleep (slchan lk) t \<and> \<not> locked (locks t lk) \<and> sleeplocks t = sleeplocks s \<and>
    p_state (procs t p) = SLEEPING \<and> p_chan (procs t p) = slchan lk"
proof -
  have r: "sleep_ready p lk (acq lk s)"
    using assms lock_ok_irq_ok [OF assms(1)] by (simp add: sleep_ready_def acq_noff)
  show ?thesis
    using assms by (simp add: acquiresleep_def acquiresleep_round_def run_defs acquire_eq
        rel_held_facts asleep_def sleep_eq [OF r])
qed

lemma releasesleep_eq:
  assumes "lock_ok lk s" "wakeup_ready s" "\<And>q. lk \<noteq> ProcLock q"
  shows "releasesleep lk s = Ret () ((upd_sleeplock lk (\<lambda>l. l\<lparr>sl_locked := False, sl_pid := 0\<rparr>) (lockcycle s))
    \<lparr>procs := wake_upto NPROC (cpu_proc (mycpu s)) (slchan lk) (procs s)\<rparr>)"
proof -
  let ?f = "\<lambda>l. l\<lparr>sl_locked := False, sl_pid := 0\<rparr>"
  have irq: "irq_ok s" using assms(1) by (rule lock_ok_irq_ok)
  let ?s = "upd_sleeplock lk ?f (acq lk s)"
  have "wakeup_ready ?s" using assms irq by (simp add: wakeup_ready_def)
  note w = wakeup_eq [OF this, of "slchan lk"]
  have u: "upd_sleeplock lk (sl_pid_update (\<lambda>_. 0)) (upd_sleeplock lk (sl_locked_update (\<lambda>_. False)) t) =
    upd_sleeplock lk ?f t" for t :: "'a proc_st_scheme"
    by (simp add: upd_sleeplock_def)
  show ?thesis
    using assms(1) irq by (simp add: releasesleep_def run_defs acquire_eq u w release_eq)
qed

lemma holdingsleep_eq:
  assumes "lock_ok lk s" "cpu_proc (mycpu s) = Some p"
  shows "holdingsleep lk s =
    Ret (sl_locked (sleeplocks s lk) \<and> sl_pid (sleeplocks s lk) = p_pid (procs s p)) (lockcycle s)"
proof -
  have "wp (holdingsleep lk) (\<lambda>r t. r = (sl_locked (sleeplocks s lk) \<and>
      sl_pid (sleeplocks s lk) = p_pid (procs s p)) \<and> t = lockcycle s) s"
    using assms lock_ok_irq_ok [OF assms(1)] by (simp add: holdingsleep_def wp_simps)
  then show ?thesis by (simp add: wp_iff_Ret)
qed

text \<open>
  A sleep lock. \<^verbatim>\<open>acquiresleep\<close> on a free lock takes it for the calling process, which
  \<^verbatim>\<open>holdingsleep\<close> then confirms; on a taken lock it goes to sleep on the lock's channel with the
  inner spinlock released; \<^verbatim>\<open>releasesleep\<close> frees it and makes every process asleep on it runnable.
\<close>

lemma sleeplock_contract:
  assumes "lock_ok lk s" "cpu_proc (mycpu s) = Some p" "\<not> sl_locked (sleeplocks s lk)"
    and "wakeup_ready s" "lock_ok (ProcLock p) s" "noff (mycpu s) = 0" "\<forall>q. lk \<noteq> ProcLock q"
  shows "\<exists>t. acquiresleep lk s = Ret () t \<and> holdingsleep lk t = Ret True t \<and>
    (\<exists>u. acquiresleep lk t = Sleep (slchan lk) u \<and> \<not> locked (locks u lk) \<and> sleeplocks u = sleeplocks t \<and>
       p_state (procs u p) = SLEEPING \<and> p_chan (procs u p) = slchan lk) \<and>
    (\<exists>u. releasesleep lk t = Ret () u \<and> \<not> sl_locked (sleeplocks u lk) \<and> holdingsleep lk u = Ret False u \<and>
       (\<forall>q. wakes (Some p) (slchan lk) (procs t q) q \<longrightarrow> p_state (procs u q) = RUNNABLE))"
proof -
  let ?t = "upd_sleeplock lk (sleep_owner (p_pid (procs s p))) (lockcycle s)"
  let ?u = "(upd_sleeplock lk (\<lambda>l. l\<lparr>sl_locked := False, sl_pid := 0\<rparr>) ?t)
    \<lparr>procs := wake_upto NPROC (cpu_proc (mycpu s)) (slchan lk) (procs s)\<rparr>"
  have t: "lock_ok lk ?t" "cpu_proc (mycpu ?t) = Some p" "sl_locked (sleeplocks ?t lk)" "wakeup_ready ?t"
    "lock_ok (ProcLock p) ?t" "noff (mycpu ?t) = 0"
    using assms by (simp_all add: sleep_owner_def wakeup_ready_def)
  have 1: "acquiresleep lk s = Ret () ?t" using assms by (intro acquiresleep_free)
  have 2: "holdingsleep lk ?t = Ret True ?t"
    using holdingsleep_eq [OF t(1,2)] by (simp add: sleep_owner_def)
  have 3: "\<exists>u. acquiresleep lk ?t = Sleep (slchan lk) u \<and> \<not> locked (locks u lk) \<and> sleeplocks u = sleeplocks ?t \<and>
       p_state (procs u p) = SLEEPING \<and> p_chan (procs u p) = slchan lk"
    using t assms(7) by (intro acquiresleep_busy) auto
  have 4: "releasesleep lk ?t = Ret () ?u"
    using releasesleep_eq [OF t(1,4)] assms(7) by simp
  have 5: "holdingsleep lk ?u = Ret False ?u"
    using assms(1,2) by (subst holdingsleep_eq [of _ _ p]) simp_all
  have 6: "p_state (procs ?u q) = RUNNABLE" if "wakes (Some p) (slchan lk) (procs ?t q) q" for q
    using that assms(2) by (auto simp: wake_upto_def wakes_def)
  have 7: "\<not> sl_locked (sleeplocks ?u lk)" by simp
  from 4 5 6 7 have "\<exists>u. releasesleep lk ?t = Ret () u \<and> \<not> sl_locked (sleeplocks u lk) \<and>
      holdingsleep lk u = Ret False u \<and>
      (\<forall>q. wakes (Some p) (slchan lk) (procs ?t q) q \<longrightarrow> p_state (procs u q) = RUNNABLE)" by blast
  with 1 2 3 show ?thesis by blast
qed

end
