(* ===== verification/Wakeup.thy ===== *)
theory Wakeup
  imports Proc
begin

text \<open>
  Interleavings of \<^verbatim>\<open>sleep\<close>, \<^verbatim>\<open>wakeup\<close> and the scheduler (\<^verbatim>\<open>kernel/proc.c\<close>). One
  process runs \<^verbatim>\<open>acquire(lk); while(!cond) sleep(chan, lk);\<close> on one hart while any number of
  wakers run \<^verbatim>\<open>acquire(lk); cond = 1; wakeup(chan); release(lk);\<close> on others. Every action that
  reads or writes shared state is a step of its own, and the locks are taken in the order of the
  code. The theorem is the reason for that order: no wakeup is lost.
\<close>

section \<open>The system\<close>

datatype thread = Sleeper | Waker nat

text \<open>
  The sleeper is about to: take \<^verbatim>\<open>lk\<close>; test the condition; in \<^verbatim>\<open>sleep\<close> take
  \<^verbatim>\<open>p->lock\<close>, release \<^verbatim>\<open>lk\<close>, mark itself asleep, switch away; it is switched out; it is
  back in \<^verbatim>\<open>sleep\<close> to clear the channel and release \<^verbatim>\<open>p->lock\<close>; to take \<^verbatim>\<open>lk\<close> again; it has
  seen the condition.
\<close>

datatype sleeper_pc = SLock | STest | SAcqP | SRelLk | SMark | SSwitch | SOut | SBack | SReacq | SDone

text \<open>
  A waker is about to: take \<^verbatim>\<open>lk\<close>; set the condition; in \<^verbatim>\<open>wakeup\<close> take \<^verbatim>\<open>p->lock\<close>, check
  and change the state, release \<^verbatim>\<open>p->lock\<close>; release \<^verbatim>\<open>lk\<close>; it is done.
\<close>

datatype waker_pc = WLock | WSet | WAcqP | WCheck | WRelP | WRelLk | WDone

record sw_sys =
  sw_lk :: "thread option"  \<comment> \<open>who holds \<^verbatim>\<open>lk\<close>\<close>
  sw_plock :: "thread option"  \<comment> \<open>who holds \<^verbatim>\<open>p->lock\<close>\<close>
  sw_cond :: bool
  sw_state :: procstate
  sw_chan :: bool  \<comment> \<open>\<^verbatim>\<open>p->chan == chan\<close>\<close>
  sw_spc :: sleeper_pc
  sw_wpc :: "nat \<Rightarrow> waker_pc"

inductive sw_step :: "sw_sys \<Rightarrow> sw_sys \<Rightarrow> bool" where
  s_lock: "sw_spc s = SLock \<Longrightarrow> sw_lk s = None \<Longrightarrow>
    sw_step s (s\<lparr>sw_lk := Some Sleeper, sw_spc := STest\<rparr>)"
| s_test_go: "sw_spc s = STest \<Longrightarrow> sw_cond s \<Longrightarrow> sw_step s (s\<lparr>sw_spc := SDone\<rparr>)"
| s_test_sleep: "sw_spc s = STest \<Longrightarrow> \<not> sw_cond s \<Longrightarrow> sw_step s (s\<lparr>sw_spc := SAcqP\<rparr>)"
| s_acquire_p: "sw_spc s = SAcqP \<Longrightarrow> sw_plock s = None \<Longrightarrow>
    sw_step s (s\<lparr>sw_plock := Some Sleeper, sw_spc := SRelLk\<rparr>)"
| s_release_lk: "sw_spc s = SRelLk \<Longrightarrow> sw_step s (s\<lparr>sw_lk := None, sw_spc := SMark\<rparr>)"
| s_mark: "sw_spc s = SMark \<Longrightarrow>
    sw_step s (s\<lparr>sw_chan := True, sw_state := SLEEPING, sw_spc := SSwitch\<rparr>)"
| s_switch: "sw_spc s = SSwitch \<Longrightarrow> sw_step s (s\<lparr>sw_plock := None, sw_spc := SOut\<rparr>)"
| scheduler_run: "sw_spc s = SOut \<Longrightarrow> sw_plock s = None \<Longrightarrow> sw_state s = RUNNABLE \<Longrightarrow>
    sw_step s (s\<lparr>sw_plock := Some Sleeper, sw_state := RUNNING, sw_spc := SBack\<rparr>)"
| s_back: "sw_spc s = SBack \<Longrightarrow> sw_step s (s\<lparr>sw_chan := False, sw_plock := None, sw_spc := SReacq\<rparr>)"
| s_reacquire: "sw_spc s = SReacq \<Longrightarrow> sw_lk s = None \<Longrightarrow>
    sw_step s (s\<lparr>sw_lk := Some Sleeper, sw_spc := STest\<rparr>)"
| w_lock: "sw_wpc s i = WLock \<Longrightarrow> sw_lk s = None \<Longrightarrow>
    sw_step s (s\<lparr>sw_lk := Some (Waker i), sw_wpc := (sw_wpc s)(i := WSet)\<rparr>)"
| w_set: "sw_wpc s i = WSet \<Longrightarrow> sw_step s (s\<lparr>sw_cond := True, sw_wpc := (sw_wpc s)(i := WAcqP)\<rparr>)"
| w_acquire_p: "sw_wpc s i = WAcqP \<Longrightarrow> sw_plock s = None \<Longrightarrow>
    sw_step s (s\<lparr>sw_plock := Some (Waker i), sw_wpc := (sw_wpc s)(i := WCheck)\<rparr>)"
| w_check: "sw_wpc s i = WCheck \<Longrightarrow>
    sw_step s (s\<lparr>sw_state := (if sw_state s = SLEEPING \<and> sw_chan s then RUNNABLE else sw_state s),
      sw_wpc := (sw_wpc s)(i := WRelP)\<rparr>)"
| w_release_p: "sw_wpc s i = WRelP \<Longrightarrow>
    sw_step s (s\<lparr>sw_plock := None, sw_wpc := (sw_wpc s)(i := WRelLk)\<rparr>)"
| w_release_lk: "sw_wpc s i = WRelLk \<Longrightarrow>
    sw_step s (s\<lparr>sw_lk := None, sw_wpc := (sw_wpc s)(i := WDone)\<rparr>)"

definition sw_init :: "sw_sys \<Rightarrow> bool" where
  "sw_init s \<longleftrightarrow> sw_lk s = None \<and> sw_plock s = None \<and> \<not> sw_cond s \<and> sw_state s = RUNNING \<and>
     \<not> sw_chan s \<and> sw_spc s = SLock \<and> (\<forall>i. sw_wpc s i = WLock)"

section \<open>The invariant\<close>

text \<open>
  Who holds a lock is a function of the program counters, and a process that sleeps on the
  channel while the condition holds has a waker that has not examined it yet.
\<close>

fun s_has_lk :: "sleeper_pc \<Rightarrow> bool" where
  "s_has_lk STest = True"
| "s_has_lk SAcqP = True"
| "s_has_lk SRelLk = True"
| "s_has_lk SDone = True"
| "s_has_lk _ = False"

fun s_has_p :: "sleeper_pc \<Rightarrow> bool" where
  "s_has_p SRelLk = True"
| "s_has_p SMark = True"
| "s_has_p SSwitch = True"
| "s_has_p SBack = True"
| "s_has_p _ = False"

fun s_decided :: "sleeper_pc \<Rightarrow> bool" where
  "s_decided SAcqP = True"
| "s_decided SRelLk = True"
| "s_decided _ = False"

fun s_away :: "sleeper_pc \<Rightarrow> bool" where
  "s_away SSwitch = True"
| "s_away SOut = True"
| "s_away _ = False"

fun w_has_lk :: "waker_pc \<Rightarrow> bool" where
  "w_has_lk WSet = True"
| "w_has_lk WAcqP = True"
| "w_has_lk WCheck = True"
| "w_has_lk WRelP = True"
| "w_has_lk WRelLk = True"
| "w_has_lk _ = False"

fun w_has_p :: "waker_pc \<Rightarrow> bool" where
  "w_has_p WCheck = True"
| "w_has_p WRelP = True"
| "w_has_p _ = False"

fun w_will_wake :: "waker_pc \<Rightarrow> bool" where
  "w_will_wake WAcqP = True"
| "w_will_wake WCheck = True"
| "w_will_wake _ = False"

definition sw_inv :: "sw_sys \<Rightarrow> bool" where
  "sw_inv s \<longleftrightarrow>
     (s_has_lk (sw_spc s) \<longrightarrow> sw_lk s = Some Sleeper) \<and>
     (\<forall>i. w_has_lk (sw_wpc s i) \<longrightarrow> sw_lk s = Some (Waker i)) \<and>
     (s_has_p (sw_spc s) \<longrightarrow> sw_plock s = Some Sleeper) \<and>
     (\<forall>i. w_has_p (sw_wpc s i) \<longrightarrow> sw_plock s = Some (Waker i)) \<and>
     (s_away (sw_spc s) \<longrightarrow> sw_state s \<in> {SLEEPING, RUNNABLE} \<and> sw_chan s) \<and>
     (\<not> s_away (sw_spc s) \<longrightarrow> sw_state s = RUNNING) \<and>
     (s_decided (sw_spc s) \<longrightarrow> \<not> sw_cond s) \<and>
     (sw_cond s \<longrightarrow> s_away (sw_spc s) \<or> sw_spc s = SMark \<longrightarrow> sw_state s \<noteq> RUNNABLE \<longrightarrow>
        (\<exists>i. w_will_wake (sw_wpc s i)))"

lemma pc_facts:
  "s_decided pc \<Longrightarrow> s_has_lk pc"
  "w_will_wake wpc \<Longrightarrow> w_has_lk wpc"
  by (cases pc; simp) (cases wpc; simp)

text \<open>A waker that moves its program counter and takes or releases a lock that is its own to take.\<close>

lemma sw_inv_waker:
  assumes inv: "sw_inv s"
    and lk: "w_has_lk pc \<Longrightarrow> l = Some (Waker i)"
      "l = sw_lk s \<or> \<not> s_has_lk (sw_spc s) \<and> (\<forall>j. j \<noteq> i \<longrightarrow> \<not> w_has_lk (sw_wpc s j))"
    and pl: "w_has_p pc \<Longrightarrow> q = Some (Waker i)"
      "q = sw_plock s \<or> \<not> s_has_p (sw_spc s) \<and> (\<forall>j. j \<noteq> i \<longrightarrow> \<not> w_has_p (sw_wpc s j))"
    and wake: "w_will_wake (sw_wpc s i) \<Longrightarrow> w_will_wake pc \<or> sw_state s = RUNNABLE \<or>
      \<not> s_away (sw_spc s) \<and> sw_spc s \<noteq> SMark"
  shows "sw_inv (s\<lparr>sw_lk := l, sw_plock := q, sw_wpc := (sw_wpc s)(i := pc)\<rparr>)"
proof -
  have 8: "\<exists>j. w_will_wake (((sw_wpc s)(i := pc)) j)"
    if c: "sw_cond s" "s_away (sw_spc s) \<or> sw_spc s = SMark" "sw_state s \<noteq> RUNNABLE"
  proof -
    obtain j where "w_will_wake (sw_wpc s j)" using c inv unfolding sw_inv_def by blast
    then show ?thesis using wake c by (intro exI [of _ j]) auto
  qed
  have 1: "s_has_lk (sw_spc s) \<Longrightarrow> l = Some Sleeper" using lk(2) inv unfolding sw_inv_def by blast
  have 2: "w_has_lk (((sw_wpc s)(i := pc)) j) \<Longrightarrow> l = Some (Waker j)" for j
    using lk inv unfolding sw_inv_def by (cases "j = i") (simp_all, blast)
  have 3: "s_has_p (sw_spc s) \<Longrightarrow> q = Some Sleeper" using pl(2) inv unfolding sw_inv_def by blast
  have 4: "w_has_p (((sw_wpc s)(i := pc)) j) \<Longrightarrow> q = Some (Waker j)" for j
    using pl inv unfolding sw_inv_def by (cases "j = i") (simp_all, blast)
  show ?thesis unfolding sw_inv_def
    using 1 2 3 4 8 inv [unfolded sw_inv_def] by (simp del: fun_upd_apply)
qed

lemma sw_inv_cond: "sw_inv s \<Longrightarrow> \<not> s_decided (sw_spc s) \<Longrightarrow> \<exists>i. w_will_wake (sw_wpc s i) \<Longrightarrow>
  sw_inv (s\<lparr>sw_cond := True\<rparr>)"
  by (simp add: sw_inv_def)

lemma sw_inv_runnable: "sw_inv s \<Longrightarrow> s_away (sw_spc s) \<Longrightarrow> sw_inv (s\<lparr>sw_state := RUNNABLE\<rparr>)"
  by (simp add: sw_inv_def)

lemma sw_step_inv: "sw_step s t \<Longrightarrow> sw_inv s \<Longrightarrow> sw_inv t"
proof (induction rule: sw_step.induct)
  case (w_lock s i)
  then have "sw_inv (s\<lparr>sw_lk := Some (Waker i), sw_plock := sw_plock s, sw_wpc := (sw_wpc s)(i := WSet)\<rparr>)"
    by (intro sw_inv_waker) (auto simp: sw_inv_def)
  then show ?case by simp
next
  case (w_acquire_p s i)
  then have "sw_inv (s\<lparr>sw_lk := sw_lk s, sw_plock := Some (Waker i), sw_wpc := (sw_wpc s)(i := WCheck)\<rparr>)"
    by (intro sw_inv_waker) (auto simp: sw_inv_def)
  then show ?case by simp
next
  case (w_release_p s i)
  moreover from this have "sw_plock s = Some (Waker i)" by (simp add: sw_inv_def)
  ultimately have "sw_inv (s\<lparr>sw_lk := sw_lk s, sw_plock := None, sw_wpc := (sw_wpc s)(i := WRelLk)\<rparr>)"
    by (intro sw_inv_waker) (auto simp: sw_inv_def)
  then show ?case by simp
next
  case (w_release_lk s i)
  moreover from this have "sw_lk s = Some (Waker i)" by (simp add: sw_inv_def)
  ultimately have "sw_inv (s\<lparr>sw_lk := None, sw_plock := sw_plock s, sw_wpc := (sw_wpc s)(i := WDone)\<rparr>)"
    by (intro sw_inv_waker) (auto simp: sw_inv_def)
  then show ?case by simp
next
  case (w_set s i)
  have lk: "sw_lk s = Some (Waker i)" using w_set by (simp add: sw_inv_def)
  then have nd: "\<not> s_decided (sw_spc s)" using w_set by (auto simp: sw_inv_def dest: pc_facts)
  have "sw_inv (s\<lparr>sw_lk := sw_lk s, sw_plock := sw_plock s, sw_wpc := (sw_wpc s)(i := WAcqP)\<rparr>)"
    using w_set lk by (intro sw_inv_waker) auto
  then have "sw_inv (s\<lparr>sw_lk := sw_lk s, sw_plock := sw_plock s, sw_wpc := (sw_wpc s)(i := WAcqP), sw_cond := True\<rparr>)"
    using nd by (intro sw_inv_cond) (auto intro: exI [of _ i])
  moreover have "s\<lparr>sw_wpc := w, sw_cond := True\<rparr> = s\<lparr>sw_cond := True, sw_wpc := w\<rparr>" for w by simp
  ultimately show ?case by simp
next
  case (w_check s i)
  let ?s = "s\<lparr>sw_state := if sw_state s = SLEEPING \<and> sw_chan s then RUNNABLE else sw_state s\<rparr>"
  have pl: "sw_plock s = Some (Waker i)" using w_check by (simp add: sw_inv_def)
  then have nm: "sw_spc s \<noteq> SMark" using w_check by (auto simp: sw_inv_def)
  have away: "s_away (sw_spc s) \<Longrightarrow> sw_state ?s = RUNNABLE"
    and here: "\<not> s_away (sw_spc s) \<Longrightarrow> ?s = s"
    using w_check by (auto simp: sw_inv_def)
  have "sw_inv ?s" by (cases "s_away (sw_spc s)") (use away here w_check sw_inv_runnable in auto)
  then have "sw_inv (?s\<lparr>sw_lk := sw_lk ?s, sw_plock := sw_plock ?s, sw_wpc := (sw_wpc ?s)(i := WRelP)\<rparr>)"
    by (rule sw_inv_waker) (use pl nm away w_check in \<open>auto simp: sw_inv_def\<close>)
  then show ?case by simp
qed (auto simp: sw_inv_def)

interpretation sleep_wakeup: invariant_system sw_init sw_step sw_inv
proof
  show "sw_init s \<Longrightarrow> sw_inv s" for s by (simp add: sw_init_def sw_inv_def)
qed (rule sw_step_inv)

section \<open>No lost wakeup\<close>

lemma waker_moves:
  assumes "sw_step t u" "sw_wpc t i = WCheck" "sw_wpc u i = WRelP"
  shows "sw_state u = (if sw_state t = SLEEPING \<and> sw_chan t then RUNNABLE else sw_state t)"
  using assms by (cases rule: sw_step.cases) (simp_all split: if_split_asm)

text \<open>
  C6: no wakeup is lost. In every state reachable by the atomic actions of the sleeper, the
  scheduler and any number of wakers: if the process sleeps while the condition it waits for holds,
  then some waker is still on its way to examine the process; a waker that examines a sleeping
  process leaves it runnable; and at most one party is inside each of the two locks' critical sections.
\<close>

theorem no_lost_wakeup:
  assumes "sw_init s" and "sw_step\<^sup>*\<^sup>* s t"
  shows "(sw_state t = SLEEPING \<and> sw_cond t \<longrightarrow> (\<exists>i. sw_wpc t i \<in> {WAcqP, WCheck})) \<and>
    (\<forall>u i. sw_step t u \<and> sw_wpc t i = WCheck \<and> sw_wpc u i = WRelP \<longrightarrow> sw_state u \<noteq> SLEEPING) \<and>
    (\<forall>i. w_has_lk (sw_wpc t i) \<longrightarrow> \<not> s_has_lk (sw_spc t) \<and> (\<forall>j. w_has_lk (sw_wpc t j) \<longrightarrow> j = i))"
proof (intro conjI allI impI)
  have inv: "sw_inv t" using assms by (rule sleep_wakeup.inv_reachable)
  have away: "sw_state t = SLEEPING \<Longrightarrow> s_away (sw_spc t) \<and> sw_chan t"
    using inv by (cases "s_away (sw_spc t)") (simp_all add: sw_inv_def)
  show "\<exists>i. sw_wpc t i \<in> {WAcqP, WCheck}" if c: "sw_state t = SLEEPING \<and> sw_cond t"
  proof -
    have "sw_cond t \<longrightarrow> s_away (sw_spc t) \<longrightarrow> sw_state t \<noteq> RUNNABLE \<longrightarrow> (\<exists>i. w_will_wake (sw_wpc t i))"
      using inv unfolding sw_inv_def by blast
    then obtain i where "w_will_wake (sw_wpc t i)" using c away by auto
    then show ?thesis by (intro exI [of _ i]) (cases "sw_wpc t i", simp_all)
  qed
  show "sw_state u \<noteq> SLEEPING" if "sw_step t u \<and> sw_wpc t i = WCheck \<and> sw_wpc u i = WRelP" for u i
    using that away waker_moves [of t u i] by (cases "sw_state t = SLEEPING") auto
  fix i assume i: "w_has_lk (sw_wpc t i)"
  have s_lk: "s_has_lk (sw_spc t) \<Longrightarrow> sw_lk t = Some Sleeper"
    and w_lk: "w_has_lk (sw_wpc t j) \<Longrightarrow> sw_lk t = Some (Waker j)" for j
    using inv unfolding sw_inv_def by blast+
  show "\<not> s_has_lk (sw_spc t)" using s_lk w_lk [OF i] by auto
  show "j = i" if "w_has_lk (sw_wpc t j)" for j using w_lk [OF that] w_lk [OF i] by simp
qed

definition sw_sys0 :: sw_sys where
  "sw_sys0 = \<lparr>sw_lk = None, sw_plock = None, sw_cond = False, sw_state = RUNNING, sw_chan = False,
     sw_spc = SLock, sw_wpc = (\<lambda>_. WLock)\<rparr>"

definition sw_sys1 :: sw_sys where
  "sw_sys1 = \<lparr>sw_lk = Some (Waker 7), sw_plock = None, sw_cond = True, sw_state = SLEEPING, sw_chan = True,
     sw_spc = SOut, sw_wpc = (\<lambda>_. WLock)(7 := WAcqP)\<rparr>"

lemma sw_sys_run: "sw_step\<^sup>*\<^sup>* sw_sys0 sw_sys1"
proof -
  let ?W = "\<lambda>_. WLock"
  have asleep: "sw_step\<^sup>*\<^sup>* sw_sys0 (sw_sys0\<lparr>sw_state := SLEEPING, sw_chan := True, sw_spc := SOut\<rparr>)"
    unfolding sw_sys0_def
    apply (rule converse_rtranclp_into_rtranclp, rule s_lock, simp, simp)
    apply (rule converse_rtranclp_into_rtranclp, rule s_test_sleep, simp, simp)
    apply (rule converse_rtranclp_into_rtranclp, rule s_acquire_p, simp, simp)
    apply (rule converse_rtranclp_into_rtranclp, rule s_release_lk, simp)
    apply (rule converse_rtranclp_into_rtranclp, rule s_mark, simp)
    apply (rule converse_rtranclp_into_rtranclp, rule s_switch, simp)
    by simp
  have "sw_step\<^sup>*\<^sup>* (sw_sys0\<lparr>sw_state := SLEEPING, sw_chan := True, sw_spc := SOut\<rparr>) sw_sys1"
    unfolding sw_sys0_def sw_sys1_def
    apply (rule converse_rtranclp_into_rtranclp, rule w_lock [of _ 7], simp, simp)
    apply (rule converse_rtranclp_into_rtranclp, rule w_set [of _ 7], simp)
    by simp
  with asleep show ?thesis by (rule rtranclp_trans)
qed

theorem no_lost_wakeup_witness:
  "sw_init sw_sys0 \<and> sw_step\<^sup>*\<^sup>* sw_sys0 sw_sys1 \<and> sw_state sw_sys1 = SLEEPING \<and> sw_cond sw_sys1 \<and>
   (\<exists>i. sw_wpc sw_sys1 i \<in> {WAcqP, WCheck})"
proof -
  have i: "sw_init sw_sys0" by (simp add: sw_init_def sw_sys0_def)
  have "sw_state sw_sys1 = SLEEPING \<and> sw_cond sw_sys1" by (simp add: sw_sys1_def)
  with i sw_sys_run no_lost_wakeup [OF i sw_sys_run] show ?thesis by blast
qed

end
