(* ===== verification/Calm.thy ===== *)
theory Calm
  imports Proc_Sched
begin

text \<open>
  The state in which kernel code of a process runs between critical sections when nobody contends
  with it: no spinlock held, the saved interrupt flag up to date, and no other process asleep on a
  channel of the file system. A critical section entered from such a state has no effect beyond its
  body, a free sleep lock is taken at once, and waking is a no-op. The file system's contracts are
  stated for runs from calm states.
\<close>

fun io_chan :: "chan \<Rightarrow> bool" where
  "io_chan LogChan = True"
| "io_chan (BufLockChan i) = True"
| "io_chan (InodeLockChan i) = True"
| "io_chan (BufChan i) = True"
| "io_chan DiskFreeChan = True"
| "io_chan _ = False"

definition calm :: "nat \<Rightarrow> 'a proc_st_scheme \<Rightarrow> bool" where
  "calm p s \<longleftrightarrow> cpu_proc (mycpu s) = Some p \<and> noff (mycpu s) = 0 \<and> intena (mycpu s) = intr_get s \<and>
     (\<forall>lk. lock_ok lk s) \<and>
     (\<forall>q < NPROC. q \<noteq> p \<longrightarrow> p_state (procs s q) = SLEEPING \<longrightarrow> \<not> io_chan (p_chan (procs s q)))"

lemma calmD:
  assumes "calm p s"
  shows "lock_ok lk s" "irq_ok s" "cpu_proc (mycpu s) = Some p" "noff (mycpu s) = 0"
  using assms lock_ok_irq_ok by (auto simp: calm_def)

lemma lockcycle_calm: "calm p s \<Longrightarrow> lockcycle s = s"
  by (cases s) (auto simp: calm_def lockcycle_def upd_mycpu_def mycpu_def cpuid_def fun_upd_idem_iff
      intro!: cpu.equality)

lemma curproc_calm: "calm p s \<Longrightarrow> curproc s = Ret p s"
  by (simp add: curproc_eq calmD lockcycle_calm)

text \<open>The state inside the critical section of a lock.\<close>

lemma crit_facts:
  assumes "calm p s"
  shows "holding lk (acq lk s)" "irq_held (acq lk s)" "irq_ok (acq lk s)" "rel lk (acq lk s) = s"
    "noff (mycpu (acq lk s)) = 1" "cpu_proc (mycpu (acq lk s)) = Some p"
    "lk \<noteq> lk' \<Longrightarrow> lock_ok lk' (acq lk s)" "lockcycle (acq lk s) = acq lk s"
  using assms calmD [OF assms] by (simp_all add: lockcycle_calm acq_noff)

lemma wp_acquire_calm: "calm p s \<Longrightarrow> wp (acquire lk) Q s = Q () (acq lk s)"
  by (simp add: wp_acquire calmD)

lemma wp_release_calm: "calm p s \<Longrightarrow> wp (release lk) Q (acq lk s) = Q () s"
  by (simp add: wp_release crit_facts)

lemma wakeup_calm:
  assumes "calm p s" "io_chan c" "\<And>q. lk \<noteq> ProcLock q"
  shows "wakeup c (acq lk s) = Ret () (acq lk s)"
proof -
  have "wakeup_ready (acq lk s)" using assms calmD [OF assms(1)] by (simp add: wakeup_ready_def)
  moreover have "wake_upto NPROC (Some p) c (procs s) = procs s"
    using assms(1,2) by (auto simp: calm_def wake_upto_def wakes_def fun_eq_iff)
  moreover have "(acq lk s)\<lparr>procs := procs (acq lk s)\<rparr> = acq lk s" by (rule procs_update_procs)
  ultimately show ?thesis using assms(1) by (simp add: wakeup_eq crit_facts calmD)
qed

lemma wp_wakeup_calm: "calm p s \<Longrightarrow> io_chan c \<Longrightarrow> (\<And>q. lk \<noteq> ProcLock q) \<Longrightarrow>
  wp (wakeup c) Q (acq lk s) = Q () (acq lk s)"
  by (simp add: wp_def wakeup_calm)

section \<open>Updates that keep the calm\<close>

lemma calm_upd [simp]:
  "calm p (sleeplocks_update f s) = calm p s"
  "calm p (kobj_update g s) = calm p s"
  "calm p (mem_update h s) = calm p s"
  "calm p (freelist_update k s) = calm p s"
  by (simp_all add: calm_def)

lemma calm_upd_sleeplock [simp]: "calm p (upd_sleeplock lk f s) = calm p s"
  by (simp add: upd_sleeplock_def)

section \<open>Sleep locks\<close>

abbreviation sl_held :: "nat \<Rightarrow> lockid \<Rightarrow> 'a proc_st_scheme \<Rightarrow> bool" where
  "sl_held p lk s \<equiv> sl_locked (sleeplocks s lk) \<and> sl_pid (sleeplocks s lk) = p_pid (procs s p)"

definition sl_take :: "nat \<Rightarrow> lockid \<Rightarrow> 'a proc_st_scheme \<Rightarrow> 'a proc_st_scheme" where
  "sl_take p lk s = upd_sleeplock lk (sleep_owner (p_pid (procs s p))) s"

definition sl_drop :: "lockid \<Rightarrow> 'a proc_st_scheme \<Rightarrow> 'a proc_st_scheme" where
  "sl_drop lk s = upd_sleeplock lk (\<lambda>l. l\<lparr>sl_locked := False, sl_pid := 0\<rparr>) s"

lemma wp_acquiresleep_calm:
  "calm p s \<Longrightarrow> \<not> sl_locked (sleeplocks s lk) \<Longrightarrow> wp (acquiresleep lk) Q s = Q () (sl_take p lk s)"
  by (simp add: wp_def acquiresleep_free calmD lockcycle_calm sl_take_def)

lemma wp_holdingsleep_calm: "calm p s \<Longrightarrow> wp (holdingsleep lk) Q s = Q (sl_held p lk s) s"
  by (simp add: wp_def holdingsleep_eq calmD lockcycle_calm)

lemma wp_releasesleep_calm:
  assumes "calm p s" "io_chan (slchan lk)"
  shows "wp (releasesleep lk) Q s = Q () (sl_drop lk s)"
proof -
  have lk: "\<And>q. lk \<noteq> ProcLock q" using assms(2) by auto
  have "wakeup_ready s" using calmD [OF assms(1)] by (simp add: wakeup_ready_def)
  moreover have "wake_upto NPROC (Some p) (slchan lk) (procs s) = procs s"
    using assms by (auto simp: calm_def wake_upto_def wakes_def fun_eq_iff)
  ultimately have "releasesleep lk s = Ret () (sl_drop lk s)"
    using releasesleep_eq [OF _ _ lk, of s] calmD [OF assms(1)] assms(1)
    by (simp add: lockcycle_calm sl_drop_def upd_sleeplock_def)
  then show ?thesis by (simp add: wp_def)
qed

lemmas calm_wp = wp_acquire_calm wp_release_calm wp_wakeup_calm wp_acquiresleep_calm wp_holdingsleep_calm wp_releasesleep_calm

lemma sl_facts [simp]:
  "calm p (sl_take q lk s) = calm p s" "calm p (sl_drop lk s) = calm p s"
  "procs (sl_take q lk s) = procs s" "procs (sl_drop lk s) = procs s"
  "sleeplocks (sl_take q lk s) = (sleeplocks s)(lk := sleep_owner (p_pid (procs s q)) (sleeplocks s lk))"
  "sleeplocks (sl_drop lk s) = (sleeplocks s)(lk := (sleeplocks s lk)\<lparr>sl_locked := False, sl_pid := 0\<rparr>)"
  by (simp_all add: sl_take_def sl_drop_def)

end
