(* ===== verification/Bio.thy ===== *)
theory Bio
  imports Calm
begin

text \<open>
  The buffer cache, \<^verbatim>\<open>kernel/bio.c\<close>, over a disk of blocks. The buffers are the array
  \<^verbatim>\<open>bcache.buf\<close> with their links \<^verbatim>\<open>prev\<close> and \<^verbatim>\<open>next\<close>; index \<open>NBUF\<close> is \<^verbatim>\<open>bcache.head\<close>.
  The disk is a device: its blocks and the sequence of writes it has been given. A transfer is
  synchronous here: \<^verbatim>\<open>virtio_disk_rw\<close> sleeps until the device has finished the request, and the
  theory \<^verbatim>\<open>Virtio\<close> has the driver in detail. An array of \<^verbatim>\<open>BSIZE\<close> bytes is a function from
  indices, of which only those below \<^verbatim>\<open>BSIZE\<close> count.
\<close>

section \<open>State\<close>

abbreviation (input) BSIZE :: nat where "BSIZE \<equiv> 1024"

record buf =
  b_valid :: bool
  b_disk :: bool
  b_dev :: uint
  b_blockno :: uint
  b_refcnt :: uint
  b_prev :: nat
  b_next :: nat
  b_data :: bytes

record bio_st = proc_st +
  bufs :: "nat \<Rightarrow> buf"
  disk :: "uint \<Rightarrow> bytes"
  dwrites :: "(uint \<times> bytes) list"  \<comment> \<open>the writes the device was given, latest last\<close>

type_synonym ('r, 'a) bioop = "('r, 'a bio_st_scheme) kmonad"

abbreviation (input) bhead :: nat where "bhead \<equiv> NBUF"

definition upd_buf :: "nat \<Rightarrow> (buf \<Rightarrow> buf) \<Rightarrow> 'a bio_st_scheme \<Rightarrow> 'a bio_st_scheme" where
  "upd_buf b f s = s\<lparr>bufs := (bufs s)(b := f (bufs s b))\<rparr>"

definition set_buf :: "nat \<Rightarrow> (buf \<Rightarrow> buf) \<Rightarrow> (unit, 'a) bioop" where
  "set_buf b f = kmodify (upd_buf b f)"

definition get_buf :: "nat \<Rightarrow> (buf, 'a) bioop" where
  "get_buf b = kgets (\<lambda>s. bufs s b)"

section \<open>Operations\<close>

text \<open>
  The request is queued under \<^verbatim>\<open>vdisk_lock\<close>; the caller then sleeps, which \<^verbatim>\<open>sched\<close> refuses
  while it holds any other spinlock.
\<close>

definition virtio_disk_rw :: "nat \<Rightarrow> bool \<Rightarrow> (unit, 'a) bioop" where
  "virtio_disk_rw b write = kdo [
     acquire VdiskLock,
     panic_if (\<lambda>s. noff (mycpu s) \<noteq> 1) ''sched locks'',
     if write then kmodify (\<lambda>s. s\<lparr>disk := (disk s)(b_blockno (bufs s b) := b_data (bufs s b)),
       dwrites := dwrites s @ [(b_blockno (bufs s b), b_data (bufs s b))]\<rparr>)
     else kmodify (\<lambda>s. upd_buf b (b_data_update (\<lambda>_. disk s (b_blockno (bufs s b)))) s),
     release VdiskLock]"

definition binit :: "(unit, 'a) bioop" where
  "binit = kdo [
     initlock BcacheLock ''bcache'',
     set_buf bhead (b_prev_update (\<lambda>_. bhead)),
     set_buf bhead (b_next_update (\<lambda>_. bhead)),
     kforeach [0..<NBUF] (\<lambda>b. kdo [
       kmodify (\<lambda>s. upd_buf b (b_next_update (\<lambda>_. b_next (bufs s bhead))) s),
       set_buf b (b_prev_update (\<lambda>_. bhead)),
       initsleeplock (BufLk b) ''buffer'',
       kmodify (\<lambda>s. upd_buf (b_next (bufs s bhead)) (b_prev_update (\<lambda>_. b)) s),
       set_buf bhead (b_next_update (\<lambda>_. b))])]"

text \<open>
  The buffers a loop over the list meets before it comes back to the head; the list has at most
  \<open>NBUF\<close> of them.
\<close>

primrec lru_walk :: "(nat \<Rightarrow> nat) \<Rightarrow> nat \<Rightarrow> nat \<Rightarrow> nat list" where
  "lru_walk step 0 b = []"
| "lru_walk step (Suc n) b = (if b = bhead then [] else b # lru_walk step n (step b))"

definition lru_forward :: "'a bio_st_scheme \<Rightarrow> nat list" where
  "lru_forward s = lru_walk (\<lambda>b. b_next (bufs s b)) NBUF (b_next (bufs s bhead))"

definition lru_backward :: "'a bio_st_scheme \<Rightarrow> nat list" where
  "lru_backward s = lru_walk (\<lambda>b. b_prev (bufs s b)) NBUF (b_prev (bufs s bhead))"

definition bget :: "uint \<Rightarrow> uint \<Rightarrow> (nat, 'a) bioop" where
  "bget dev blockno = kthen [acquire BcacheLock] (kbind (kgets lru_forward) (\<lambda>bs. kfor bs (\<lambda>b.
       kif (\<lambda>s. b_dev (bufs s b) = dev \<and> b_blockno (bufs s b) = blockno)
         (kthen [
            set_buf b (b_refcnt_update (\<lambda>n. n + 1)),
            release BcacheLock,
            acquiresleep (BufLk b)] (kreturn (Some b)))
         (kreturn None))
     (kbind (kgets lru_backward) (\<lambda>bs. kfor bs (\<lambda>b.
        kif (\<lambda>s. b_refcnt (bufs s b) = 0)
          (kthen [
             set_buf b (\<lambda>bf. bf\<lparr>b_dev := dev, b_blockno := blockno, b_valid := False, b_refcnt := 1\<rparr>),
             release BcacheLock,
             acquiresleep (BufLk b)] (kreturn (Some b)))
          (kreturn None))
        (kpanic ''bget: no buffers'')))))"

definition bread :: "uint \<Rightarrow> uint \<Rightarrow> (nat, 'a) bioop" where
  "bread dev blockno = kbind (bget dev blockno) (\<lambda>b. kthen [
     kwhen (\<lambda>s. \<not> b_valid (bufs s b)) (kdo [
       virtio_disk_rw b False,
       set_buf b (b_valid_update (\<lambda>_. True))])] (kreturn b))"

definition bwrite :: "nat \<Rightarrow> (unit, 'a) bioop" where
  "bwrite b = kbind (holdingsleep (BufLk b)) (\<lambda>h. kdo [
     panic_if (\<lambda>_. \<not> h) ''bwrite'',
     virtio_disk_rw b True])"

definition lru_to_front :: "nat \<Rightarrow> (unit, 'a) bioop" where
  "lru_to_front b = kdo [
     kmodify (\<lambda>s. upd_buf (b_next (bufs s b)) (b_prev_update (\<lambda>_. b_prev (bufs s b))) s),
     kmodify (\<lambda>s. upd_buf (b_prev (bufs s b)) (b_next_update (\<lambda>_. b_next (bufs s b))) s),
     kmodify (\<lambda>s. upd_buf b (b_next_update (\<lambda>_. b_next (bufs s bhead))) s),
     set_buf b (b_prev_update (\<lambda>_. bhead)),
     kmodify (\<lambda>s. upd_buf (b_next (bufs s bhead)) (b_prev_update (\<lambda>_. b)) s),
     set_buf bhead (b_next_update (\<lambda>_. b))]"

definition brelse :: "nat \<Rightarrow> (unit, 'a) bioop" where
  "brelse b = kbind (holdingsleep (BufLk b)) (\<lambda>h. kdo [
     panic_if (\<lambda>_. \<not> h) ''brelse'',
     releasesleep (BufLk b),
     acquire BcacheLock,
     set_buf b (b_refcnt_update (\<lambda>n. n - 1)),
     kwhen (\<lambda>s. b_refcnt (bufs s b) = 0) (lru_to_front b),
     release BcacheLock])"

definition bpin :: "nat \<Rightarrow> (unit, 'a) bioop" where
  "bpin b = kdo [acquire BcacheLock, set_buf b (b_refcnt_update (\<lambda>n. n + 1)), release BcacheLock]"

definition bunpin :: "nat \<Rightarrow> (unit, 'a) bioop" where
  "bunpin b = kdo [acquire BcacheLock, set_buf b (b_refcnt_update (\<lambda>n. n - 1)), release BcacheLock]"

section \<open>Frames\<close>

lemma bio_proj [simp]:
  "bufs (acq lk s) = bufs s"
  "bufs (rel lk s) = bufs s"
  "bufs (lockcycle s) = bufs s"
  "disk (acq lk s) = disk s"
  "disk (rel lk s) = disk s"
  "disk (lockcycle s) = disk s"
  "dwrites (acq lk s) = dwrites s"
  "dwrites (rel lk s) = dwrites s"
  "dwrites (lockcycle s) = dwrites s"
  by (simp_all add: lock_defs Let_def)

lemma bio_lock [simp]:
  "lock_ok lk (bufs_update f0 s) = lock_ok lk s"
  "holding lk (bufs_update f0 s) = holding lk s"
  "irq_ok (bufs_update f0 s) = irq_ok s"
  "irq_held (bufs_update f0 s) = irq_held s"
  "intr_get (bufs_update f0 s) = intr_get s"
  "cpuid (bufs_update f0 s) = cpuid s"
  "mycpu (bufs_update f0 s) = mycpu s"
  "lock_ok lk (disk_update f1 s) = lock_ok lk s"
  "holding lk (disk_update f1 s) = holding lk s"
  "irq_ok (disk_update f1 s) = irq_ok s"
  "irq_held (disk_update f1 s) = irq_held s"
  "intr_get (disk_update f1 s) = intr_get s"
  "cpuid (disk_update f1 s) = cpuid s"
  "mycpu (disk_update f1 s) = mycpu s"
  "lock_ok lk (dwrites_update f2 s) = lock_ok lk s"
  "holding lk (dwrites_update f2 s) = holding lk s"
  "irq_ok (dwrites_update f2 s) = irq_ok s"
  "irq_held (dwrites_update f2 s) = irq_held s"
  "intr_get (dwrites_update f2 s) = intr_get s"
  "cpuid (dwrites_update f2 s) = cpuid s"
  "mycpu (dwrites_update f2 s) = mycpu s"
  by (simp_all add: lock_defs)

lemma bio_comm [simp]:
  "acq lk (bufs_update f0 s) = bufs_update f0 (acq lk s)"
  "rel lk (bufs_update f0 s) = bufs_update f0 (rel lk s)"
  "lockcycle (bufs_update f0 s) = bufs_update f0 (lockcycle s)"
  "acq lk (disk_update f1 s) = disk_update f1 (acq lk s)"
  "rel lk (disk_update f1 s) = disk_update f1 (rel lk s)"
  "lockcycle (disk_update f1 s) = disk_update f1 (lockcycle s)"
  "acq lk (dwrites_update f2 s) = dwrites_update f2 (acq lk s)"
  "rel lk (dwrites_update f2 s) = dwrites_update f2 (rel lk s)"
  "lockcycle (dwrites_update f2 s) = dwrites_update f2 (lockcycle s)"
  by (simp_all add: lock_defs Let_def)


end
