(* ===== verification/Bio_Cache.thy ===== *)
theory Bio_Cache
  imports Bio
begin

text \<open>
  What the buffer cache promises its clients. The doubly linked list is a cyclic list of all the
  buffers; \<open>brelse\<close> moves a buffer to its front; \<open>bget\<close> never gives two buffers to one block. To
  a client the cache is a partial map \<open>ents\<close> from the blocks in use to their contents and reference
  counts over the disk: a block not in use reads as the disk has it. The contracts of
  \<open>bread\<close>, \<open>bwrite\<close>, \<open>brelse\<close>, \<open>bpin\<close> and \<open>bunpin\<close> are stated on that map.
\<close>

section \<open>Doubly linked lists\<close>

fun linked :: "(nat \<Rightarrow> nat) \<Rightarrow> (nat \<Rightarrow> nat) \<Rightarrow> nat list \<Rightarrow> bool" where
  "linked nx pv (a # b # xs) = (nx a = b \<and> pv b = a \<and> linked nx pv (b # xs))"
| "linked nx pv _ = True"

lemma linked_append: "linked nx pv (xs @ a # ys) \<longleftrightarrow> linked nx pv (xs @ [a]) \<and> linked nx pv (a # ys)"
proof (induction xs)
  case (Cons x xs)
  then show ?case by (cases xs) auto
qed simp

lemma linked_split: "linked nx pv (xs @ a # b # ys) \<longleftrightarrow>
  linked nx pv (xs @ [a]) \<and> nx a = b \<and> pv b = a \<and> linked nx pv (b # ys)"
  using linked_append [of nx pv xs a "b # ys"] by simp

lemma linked_nx_upd: "a \<notin> set (butlast ys) \<Longrightarrow> linked (nx(a := v)) pv ys = linked nx pv ys"
  by (induction nx pv ys rule: linked.induct) (auto split: if_splits)

lemma linked_pv_upd: "a \<notin> set (tl ys) \<Longrightarrow> linked nx (pv(a := v)) ys = linked nx pv ys"
  by (induction nx pv ys rule: linked.induct) auto

lemma linked_rev: "linked nx pv (rev ys) = linked pv nx ys"
proof (induction ys)
  case (Cons a ys)
  then show ?case
  proof (cases ys)
    case (Cons b zs)
    then have "linked nx pv (rev (a # ys)) = linked nx pv (rev zs @ b # a # [])" by simp
    also have "\<dots> = linked pv nx (a # ys)"
      unfolding linked_split using Cons \<open>linked nx pv (rev ys) = linked pv nx ys\<close> by auto
    finally show ?thesis .
  qed simp
qed simp

lemma lru_walk_linked:
  "linked nx pv (xs @ [bhead]) \<Longrightarrow> bhead \<notin> set xs \<Longrightarrow> length xs \<le> n \<Longrightarrow>
   lru_walk nx n (hd (xs @ [bhead])) = xs"
proof (induction xs arbitrary: n)
  case Nil
  then show ?case by (cases n) simp_all
next
  case (Cons a xs)
  then obtain m where n: "n = Suc m" by (cases n) auto
  have "linked nx pv (xs @ [bhead]) \<and> nx a = hd (xs @ [bhead])"
    using Cons.prems(1) by (cases xs) auto
  with Cons n show ?case by simp
qed

text \<open>The ring through the head that has the buffers \<open>xs\<close> in this order.\<close>

definition ring :: "(nat \<Rightarrow> nat) \<Rightarrow> (nat \<Rightarrow> nat) \<Rightarrow> nat list \<Rightarrow> bool" where
  "ring nx pv xs \<longleftrightarrow> linked nx pv (bhead # xs @ [bhead]) \<and> distinct xs \<and> bhead \<notin> set xs"

lemma ring_ends:
  assumes "ring nx pv xs"
  shows "nx bhead = hd (xs @ [bhead])" "pv bhead = last (bhead # xs)"
proof -
  show "nx bhead = hd (xs @ [bhead])" using assms by (cases xs) (auto simp: ring_def)
  show "pv bhead = last (bhead # xs)"
  proof (cases xs rule: rev_cases)
    case (snoc ys y)
    then have "linked nx pv ((bhead # ys) @ y # bhead # [])" using assms by (simp add: ring_def)
    then show ?thesis unfolding linked_split using snoc by simp
  qed (use assms in \<open>simp add: ring_def\<close>)
qed

lemma ring_walks:
  assumes "ring nx pv xs" "length xs \<le> n"
  shows "lru_walk nx n (nx bhead) = xs" "lru_walk pv n (pv bhead) = rev xs"
proof -
  have l: "linked nx pv ((bhead # xs) @ [bhead])" and h: "bhead \<notin> set xs"
    using assms by (auto simp: ring_def)
  have "linked nx pv (xs @ [bhead])" using l by (cases xs) auto
  from lru_walk_linked [OF this h assms(2)] show "lru_walk nx n (nx bhead) = xs"
    by (simp only: ring_ends(1) [OF assms(1)])
  have "linked pv nx (rev ((bhead # xs) @ [bhead]))" using l by (simp only: linked_rev)
  then have "linked pv nx (rev xs @ [bhead])" by (cases "rev xs") auto
  from lru_walk_linked [OF this _ , of n] have "lru_walk pv n (hd (rev xs @ [bhead])) = rev xs"
    using h assms(2) by simp
  moreover have "hd (rev xs @ [bhead]) = last (bhead # xs)" by (cases xs rule: rev_cases) auto
  ultimately show "lru_walk pv n (pv bhead) = rev xs" by (simp only: ring_ends(2) [OF assms(1)])
qed

text \<open>Unlinking a buffer, and linking one in behind the head, as \<open>brelse\<close> does.\<close>

lemma linked_remove:
  assumes "linked nx pv (as @ l # b # r # cs)"
    and "l \<notin> set as" "l \<notin> set (butlast (r # cs))" "r \<notin> set cs" "r \<notin> set (tl (as @ [l]))"
  shows "linked (nx(l := r)) (pv(r := l)) (as @ l # r # cs)" "nx b = r" "pv b = l"
proof -
  have "linked nx pv (as @ [l]) \<and> nx l = b \<and> pv b = l \<and> linked nx pv (b # r # cs)"
    using assms(1) unfolding linked_split .
  then have 1: "linked nx pv (as @ [l])" "nx l = b" "pv b = l" "nx b = r" "pv r = b" "linked nx pv (r # cs)"
    by simp_all
  then show "nx b = r" "pv b = l" by simp_all
  have "linked (nx(l := r)) (pv(r := l)) (as @ [l])"
    using 1(1) assms(2,5) by (subst linked_nx_upd, simp, subst linked_pv_upd) auto
  moreover have "linked (nx(l := r)) (pv(r := l)) (r # cs)"
    using 1(6) assms(3,4) by (subst linked_nx_upd, simp, subst linked_pv_upd) auto
  ultimately show "linked (nx(l := r)) (pv(r := l)) (as @ l # r # cs)"
    unfolding linked_split by simp
qed

lemma ring_remove:
  assumes "ring nx pv (us @ b # ws)"
  shows "ring (nx(pv b := nx b)) (pv(nx b := pv b)) (us @ ws)"
proof -
  have d: "distinct us" "distinct ws" "b \<notin> set us" "b \<notin> set ws" "set us \<inter> set ws = {}"
    "bhead \<notin> set us" "bhead \<notin> set ws"
    using assms by (auto simp: ring_def)
  have lk: "linked nx pv (bhead # us @ b # ws @ [bhead])" using assms by (simp add: ring_def)
  obtain as l where l: "bhead # us = as @ [l]" by (cases us rule: rev_cases) auto
  obtain r cs where r: "ws @ [bhead] = r # cs" by (cases ws) auto
  have as: "l \<notin> set as" "set (tl (as @ [l])) = set us" "l \<notin> set ws"
  proof -
    have "distinct (as @ [l])" using d by (simp add: l [symmetric])
    then show "l \<notin> set as" by simp
    show "set (tl (as @ [l])) = set us" by (simp add: l [symmetric])
    have "l \<in> set (bhead # us)" by (simp only: l) simp
    then show "l \<notin> set ws" using d by auto
  qed
  have cs: "butlast (r # cs) = ws" "r \<notin> set cs" "r \<notin> set us"
  proof -
    show "butlast (r # cs) = ws" by (simp only: r [symmetric]) simp
    have "distinct (r # cs)" using d by (simp only: r [symmetric]) simp
    then show "r \<notin> set cs" by simp
    have "r \<in> set (ws @ [bhead])" by (simp only: r) simp
    then show "r \<notin> set us" using d by auto
  qed
  have split: "bhead # us @ b # ws @ [bhead] = as @ l # b # r # cs" "bhead # us @ ws @ [bhead] = as @ l # r # cs"
    using l r by (simp_all add: append_Cons [symmetric] del: append_Cons)
  note rm = linked_remove [of nx pv as l b r cs]
  have "linked (nx(l := r)) (pv(r := l)) (as @ l # r # cs)" "nx b = r" "pv b = l"
    using lk as cs unfolding split by (simp_all add: rm)
  then have "linked (nx(pv b := nx b)) (pv(nx b := pv b)) (bhead # us @ ws @ [bhead])"
    unfolding split by simp
  then show ?thesis using d by (simp add: ring_def)
qed

lemma ring_insert:
  assumes "ring nx pv xs" "b \<notin> set xs" "b \<noteq> bhead"
  shows "ring (nx(b := nx bhead, bhead := b)) (pv(b := bhead, nx bhead := b)) (b # xs)"
proof -
  obtain r cs where r: "xs @ [bhead] = r # cs" by (cases xs) auto
  have n: "nx bhead = r" and l: "linked nx pv (r # cs)"
    using assms(1) by (simp_all add: ring_def r)
  have bl: "butlast (r # cs) = xs" by (simp only: r [symmetric]) simp
  have "distinct (r # cs)" using assms(1) by (simp only: r [symmetric]) (simp add: ring_def)
  then have rc: "r \<notin> set cs" by simp
  have "set (r # cs) = set (xs @ [bhead])" by (simp only: r)
  then have rb: "r \<noteq> b" "b \<notin> set cs" using assms(2,3) by (auto simp del: r)
  have "linked (nx(b := r, bhead := b)) (pv(b := bhead, r := b)) (r # cs)"
    using l rb rc bl assms by (simp add: linked_nx_upd linked_pv_upd ring_def)
  then show ?thesis
    using assms rb unfolding ring_def n by (simp add: r)
qed

text \<open>The six assignments of \<open>brelse\<close> move a buffer to the front.\<close>

definition unlink_next :: "(nat \<Rightarrow> nat) \<Rightarrow> (nat \<Rightarrow> nat) \<Rightarrow> nat \<Rightarrow> nat \<Rightarrow> nat" where
  "unlink_next nx pv b = nx(pv b := nx b)"

lemma ring_move:
  assumes "ring nx pv (us @ b # ws)"
    and "nx' = unlink_next nx pv b" "pv' = unlink_next pv nx b"
  shows "ring (nx'(b := nx' bhead, bhead := b)) (pv'(b := bhead, nx' bhead := b)) (b # us @ ws)"
proof -
  have "b \<notin> set (us @ ws)" "b \<noteq> bhead" using assms(1) by (auto simp: ring_def)
  with ring_insert [OF ring_remove [OF assms(1)]] show ?thesis by (simp add: assms(2,3) unlink_next_def)
qed

section \<open>The invariant and the client's view\<close>

abbreviation bnx :: "'a bio_st_scheme \<Rightarrow> nat \<Rightarrow> nat" where "bnx s \<equiv> \<lambda>b. b_next (bufs s b)"
abbreviation bpv :: "'a bio_st_scheme \<Rightarrow> nat \<Rightarrow> nat" where "bpv s \<equiv> \<lambda>b. b_prev (bufs s b)"

definition caches :: "buf \<Rightarrow> uint \<Rightarrow> bool" where
  "caches bf b \<longleftrightarrow> b_dev bf = ROOTDEV \<and> b_blockno bf = b"

text \<open>
  The list holds every buffer once; no block has two buffers; a buffer nobody refers to is free and
  has the contents of the disk if it has been read; one somebody refers to has been read. Only
  this process holds buffers.
\<close>

definition lru_ok :: "'a bio_st_scheme \<Rightarrow> bool" where
  "lru_ok s \<longleftrightarrow> (\<exists>xs. ring (bnx s) (bpv s) xs \<and> set xs = {..<NBUF})"

definition buf_ok :: "nat \<Rightarrow> 'a bio_st_scheme \<Rightarrow> nat \<Rightarrow> bool" where
  "buf_ok p s i \<longleftrightarrow>
     (if b_refcnt (bufs s i) = 0
      then \<not> sl_locked (sleeplocks s (BufLk i)) \<and>
        (b_valid (bufs s i) \<longrightarrow> b_dev (bufs s i) = ROOTDEV \<longrightarrow>
           b_data (bufs s i) = disk s (b_blockno (bufs s i)))
      else b_valid (bufs s i) \<and> b_dev (bufs s i) = ROOTDEV \<and>
        (sl_locked (sleeplocks s (BufLk i)) \<longrightarrow> sl_pid (sleeplocks s (BufLk i)) = p_pid (procs s p)))"

definition bio_inv :: "nat \<Rightarrow> 'a bio_st_scheme \<Rightarrow> bool" where
  "bio_inv p s \<longleftrightarrow> calm p s \<and> lru_ok s \<and> (\<forall>i < NBUF. buf_ok p s i) \<and>
     (\<forall>i < NBUF. \<forall>j < NBUF. \<forall>b. caches (bufs s i) b \<longrightarrow> caches (bufs s j) b \<longrightarrow> i = j)"

definition bufno :: "'a bio_st_scheme \<Rightarrow> uint \<Rightarrow> nat option" where
  "bufno s b = find (\<lambda>i. caches (bufs s i) b) [0..<NBUF]"

record bent =
  e_idx :: nat
  e_cnt :: nat
  e_data :: bytes
  e_held :: bool

definition ent_of :: "'a bio_st_scheme \<Rightarrow> nat \<Rightarrow> bent" where
  "ent_of s i = \<lparr>e_idx = i, e_cnt = unat (b_refcnt (bufs s i)), e_data = b_data (bufs s i),
     e_held = sl_locked (sleeplocks s (BufLk i))\<rparr>"

text \<open>The blocks in use, and the contents of every block.\<close>

definition ents :: "'a bio_st_scheme \<Rightarrow> uint \<Rightarrow> bent option" where
  "ents s b = (case bufno s b of None \<Rightarrow> None
     | Some i \<Rightarrow> if b_refcnt (bufs s i) = 0 then None else Some (ent_of s i))"

definition view :: "'a bio_st_scheme \<Rightarrow> uint \<Rightarrow> bytes" where
  "view s b = (case ents s b of None \<Rightarrow> disk s b | Some e \<Rightarrow> e_data e)"

lemma bufno_Some: "bufno s b = Some i \<Longrightarrow> i < NBUF \<and> caches (bufs s i) b"
  by (auto simp: bufno_def find_Some_iff)

lemma bufno_None: "bufno s b = None \<Longrightarrow> i < NBUF \<Longrightarrow> \<not> caches (bufs s i) b"
  by (auto simp: bufno_def find_None_iff)

lemma bufno_caches: "bio_inv p s \<Longrightarrow> i < NBUF \<Longrightarrow> caches (bufs s i) b \<Longrightarrow> bufno s b = Some i"
proof (cases "bufno s b")
  case (Some j)
  assume "bio_inv p s" "i < NBUF" "caches (bufs s i) b"
  with bufno_Some [OF Some] Some show ?thesis by (auto simp: bio_inv_def)
qed (auto dest: bufno_None)

lemma ents_SomeI:
  "bio_inv p s \<Longrightarrow> i < NBUF \<Longrightarrow> caches (bufs s i) b \<Longrightarrow> b_refcnt (bufs s i) \<noteq> 0 \<Longrightarrow> ents s b = Some (ent_of s i)"
  by (simp add: ents_def bufno_caches)

lemma ents_SomeD:
  assumes "ents s b = Some e"
  shows "e_idx e < NBUF" "caches (bufs s (e_idx e)) b" "b_refcnt (bufs s (e_idx e)) \<noteq> 0" "e = ent_of s (e_idx e)"
  using assms by (auto simp: ents_def ent_of_def dest!: bufno_Some split: option.splits if_splits)

lemma bio_invD:
  assumes "bio_inv p s"
  shows "calm p s" "lru_ok s" "i < NBUF \<Longrightarrow> buf_ok p s i"
    "i < NBUF \<Longrightarrow> j < NBUF \<Longrightarrow> caches (bufs s i) b \<Longrightarrow> caches (bufs s j) b \<Longrightarrow> i = j"
  using assms by (auto simp: bio_inv_def)

lemma finite_ents: "finite (dom (ents s))"
proof (rule finite_subset)
  show "dom (ents s) \<subseteq> (\<lambda>i. b_blockno (bufs s i)) ` {..<NBUF}" by (force dest: ents_SomeD simp: caches_def)
qed simp

text \<open>As long as fewer than \<open>NBUF\<close> blocks are in use there is a buffer to recycle.\<close>

lemma free_buffer:
  assumes "bio_inv p s" "card (dom (ents s)) < NBUF"
  shows "\<exists>i < NBUF. b_refcnt (bufs s i) = 0"
proof (rule ccontr)
  assume "\<not> ?thesis"
  then have used: "\<And>i. i < NBUF \<Longrightarrow> b_refcnt (bufs s i) \<noteq> 0" by blast
  let ?f = "\<lambda>i. b_blockno (bufs s i)"
  have c: "i < NBUF \<Longrightarrow> caches (bufs s i) (?f i)" for i
    using used bio_invD(3) [OF assms(1), of i] by (auto simp: caches_def buf_ok_def)
  have "inj_on ?f {..<NBUF}"
    using bio_invD(4) [OF assms(1)] c by (auto simp: inj_on_def) metis
  then have "card (?f ` {..<NBUF}) = NBUF" by (simp add: card_image)
  moreover have "?f ` {..<NBUF} \<subseteq> dom (ents s)"
  proof (clarsimp simp: dom_def)
    show "\<exists>e. ents s (?f i) = Some e" if "i < NBUF" for i
      using ents_SomeI [OF assms(1) that c used] that by blast
  qed
  ultimately show False using assms(2) finite_ents [of s] by (metis card_mono not_less)
qed

section \<open>Reading a block\<close>

definition bread_st :: "nat \<Rightarrow> uint \<Rightarrow> nat \<Rightarrow> 'a bio_st_scheme \<Rightarrow> 'a bio_st_scheme" where
  "bread_st p b i s = sl_take p (BufLk i) (upd_buf i (\<lambda>bf. bf\<lparr>b_valid := True, b_dev := ROOTDEV,
     b_blockno := b, b_refcnt := b_refcnt bf + 1, b_data := view s b\<rparr>) s)"

lemma upd_buf_facts [simp]:
  "bufs (upd_buf i f s) = (bufs s)(i := f (bufs s i))"
  "disk (upd_buf i f s) = disk s"
  "dwrites (upd_buf i f s) = dwrites s"
  "procs (upd_buf i f s) = procs s"
  "sleeplocks (upd_buf i f s) = sleeplocks s"
  "calm p (upd_buf i f s) = calm p s"
  "acq lk (upd_buf i f s) = upd_buf i f (acq lk s)"
  "rel lk (upd_buf i f s) = upd_buf i f (rel lk s)"
  "holding lk (upd_buf i f s) = holding lk s"
  "irq_held (upd_buf i f s) = irq_held s"
  "mycpu (upd_buf i f s) = mycpu s"
  by (simp_all add: upd_buf_def calm_def)

lemma calm_bio [simp]:
  "calm p (bufs_update f s) = calm p s" "calm p (disk_update g s) = calm p s"
  "calm p (dwrites_update h s) = calm p s"
  by (simp_all add: calm_def)

lemma upd_buf_cong: "f (bufs s i) = g (bufs s i) \<Longrightarrow> upd_buf i f s = upd_buf i g s"
  by (simp add: upd_buf_def)

lemma upd_buf_upd_buf [simp]: "upd_buf i f (upd_buf i g s) = upd_buf i (f \<circ> g) s"
  by (simp add: upd_buf_def)

lemma sl_take_upd_buf [simp]: "sl_take p lk (upd_buf i f s) = upd_buf i f (sl_take p lk s)"
  by (simp add: sl_take_def upd_buf_def upd_sleeplock_def)

lemma sl_bio_facts [simp]:
  "bufs (sl_take p lk s) = bufs s" "disk (sl_take p lk s) = disk s" "dwrites (sl_take p lk s) = dwrites s"
  "bufs (sl_drop lk s) = bufs s" "disk (sl_drop lk s) = disk s" "dwrites (sl_drop lk s) = dwrites s"
  by (simp_all add: sl_take_def sl_drop_def upd_sleeplock_def)

lemma wp_set_buf [wp_simps]: "wp (set_buf i f) Q s = Q () (upd_buf i f s)"
  by (simp add: set_buf_def wp_simps)

lemma lru_walks:
  assumes "bio_inv p s"
  obtains xs where "lru_forward s = xs" "lru_backward s = rev xs" "set xs = {..<NBUF}" "distinct xs"
    "ring (bnx s) (bpv s) xs"
proof -
  from bio_invD(2) [OF assms] obtain xs where r: "ring (bnx s) (bpv s) xs" and s: "set xs = {..<NBUF}"
    by (auto simp: lru_ok_def)
  have d: "distinct xs" using r by (simp add: ring_def)
  then have "length xs = card (set xs)" by (simp add: distinct_card)
  then have "length xs \<le> NBUF" using s by simp
  from ring_walks [OF r this] that r s d show ?thesis by (simp add: lru_forward_def lru_backward_def)
qed

text \<open>A loop that skips the elements its body does not want and returns at the first it wants.\<close>

lemma wp_kfor_find:
  assumes "\<And>x. x \<in> set xs \<Longrightarrow> \<not> P x \<Longrightarrow> wp (body x) (\<lambda>r t. r = None \<and> t = s) s"
    and "\<And>x. x \<in> set xs \<Longrightarrow> P x \<Longrightarrow> wp (body x) (\<lambda>r t. case r of None \<Rightarrow> False | Some v \<Rightarrow> Q v t) s"
    and "\<forall>x \<in> set xs. \<not> P x \<Longrightarrow> wp rest Q s"
  shows "wp (kfor xs body rest) Q s"
  using assms
proof (induction xs)
  case (Cons x xs)
  show ?case
  proof (cases "P x")
    case True
    with Cons.prems(2) [of x] show ?thesis
      unfolding wp_kfor_Cons by (auto elim!: wp_mono split: option.splits)
  next
    case False
    have "wp (kfor xs body rest) Q s" using Cons False by simp
    with Cons.prems(1) [of x] False show ?thesis
      unfolding wp_kfor_Cons by (auto elim!: wp_mono)
  qed
qed simp

lemma bget_hit:
  assumes inv: "bio_inv p s" and hit: "bufno s b = Some i" and free: "\<not> sl_locked (sleeplocks s (BufLk i))"
  shows "wp (bget ROOTDEV b) (\<lambda>j t. j = i \<and> t = sl_take p (BufLk i) (upd_buf i (b_refcnt_update (\<lambda>n. n + 1)) s)) s"
proof -
  have c: "calm p s" using inv by (rule bio_invD)
  obtain xs where xs: "lru_forward s = xs" "set xs = {..<NBUF}" by (rule lru_walks [OF inv])
  have fwd: "lru_forward (acq BcacheLock s) = xs" using xs by (simp add: lru_forward_def)
  have only: "x = i" if "x \<in> set xs" "caches (bufs s x) b" for x
    using bufno_Some [OF hit] that xs bio_invD(4) [OF inv, of x i b] by auto
  have i: "i \<in> set xs" "caches (bufs s i) b" using bufno_Some [OF hit] xs by auto
  show ?thesis
    unfolding bget_def wp_kthen wp_kdo_Cons wp_kdo_Nil wp_acquire_calm [OF c] wp_kbind wp_kgets fwd
  proof (rule wp_kfor_find [where P = "\<lambda>x. caches (bufs s x) b"])
    fix x assume "x \<in> set xs" "\<not> caches (bufs s x) b"
    then show "wp (kif (\<lambda>s. b_dev (bufs s x) = ROOTDEV \<and> b_blockno (bufs s x) = b)
         (kthen [set_buf x (b_refcnt_update (\<lambda>n. n + 1)), release BcacheLock, acquiresleep (BufLk x)]
            (kreturn (Some x))) (kreturn None))
       (\<lambda>r t. r = None \<and> t = acq BcacheLock s) (acq BcacheLock s)"
      by (auto simp: wp_simps caches_def)
  next
    fix x assume "x \<in> set xs" "caches (bufs s x) b"
    moreover from this have "x = i" by (rule only)
    ultimately show "wp (kif (\<lambda>s. b_dev (bufs s x) = ROOTDEV \<and> b_blockno (bufs s x) = b)
         (kthen [set_buf x (b_refcnt_update (\<lambda>n. n + 1)), release BcacheLock, acquiresleep (BufLk x)]
            (kreturn (Some x))) (kreturn None))
       (\<lambda>r t. case r of None \<Rightarrow> False | Some j \<Rightarrow>
          j = i \<and> t = sl_take p (BufLk i) (upd_buf i (b_refcnt_update (\<lambda>n. n + 1)) s)) (acq BcacheLock s)"
      using c free by (simp add: wp_simps caches_def crit_facts wp_acquiresleep_calm)
  qed (use i in blast)
qed

lemma bget_miss:
  assumes inv: "bio_inv p s" and miss: "bufno s b = None" and free: "\<exists>i < NBUF. b_refcnt (bufs s i) = 0"
  shows "\<exists>i < NBUF. b_refcnt (bufs s i) = 0 \<and> wp (bget ROOTDEV b) (\<lambda>j t. j = i \<and>
    t = sl_take p (BufLk i) (upd_buf i (\<lambda>bf. bf\<lparr>b_dev := ROOTDEV, b_blockno := b, b_valid := False, b_refcnt := 1\<rparr>) s)) s"
proof -
  have c: "calm p s" using inv by (rule bio_invD)
  obtain xs where xs: "lru_forward s = xs" "lru_backward s = rev xs" "set xs = {..<NBUF}" by (rule lru_walks [OF inv])
  have fwd: "lru_forward (acq BcacheLock s) = xs" "lru_backward (acq BcacheLock s) = rev xs"
    using xs by (simp_all add: lru_forward_def lru_backward_def)
  let ?r = "\<lambda>i t. t = sl_take p (BufLk i) (upd_buf i (\<lambda>bf. bf\<lparr>b_dev := ROOTDEV, b_blockno := b, b_valid := False, b_refcnt := 1\<rparr>) s)"
  have last: "wp (kfor (rev xs) (\<lambda>b'. kif (\<lambda>s. b_refcnt (bufs s b') = 0)
        (kthen [set_buf b' (\<lambda>bf. bf\<lparr>b_dev := ROOTDEV, b_blockno := b, b_valid := False, b_refcnt := 1\<rparr>),
           release BcacheLock, acquiresleep (BufLk b')] (kreturn (Some b'))) (kreturn None))
      (kpanic ''bget: no buffers'')) (\<lambda>i t. i < NBUF \<and> b_refcnt (bufs s i) = 0 \<and> ?r i t) (acq BcacheLock s)"
  proof (rule wp_kfor_find [where P = "\<lambda>x. b_refcnt (bufs s x) = 0"])
    fix x assume x: "x \<in> set (rev xs)" "b_refcnt (bufs s x) = 0"
    then have "\<not> sl_locked (sleeplocks s (BufLk x))"
      using bio_invD(3) [OF inv, of x] xs by (simp add: buf_ok_def)
    then show "wp (kif (\<lambda>s. b_refcnt (bufs s x) = 0)
        (kthen [set_buf x (\<lambda>bf. bf\<lparr>b_dev := ROOTDEV, b_blockno := b, b_valid := False, b_refcnt := 1\<rparr>),
           release BcacheLock, acquiresleep (BufLk x)] (kreturn (Some x))) (kreturn None))
        (\<lambda>r t. case r of None \<Rightarrow> False | Some i \<Rightarrow> i < NBUF \<and> b_refcnt (bufs s i) = 0 \<and> ?r i t) (acq BcacheLock s)"
      using c x xs by (simp add: wp_simps crit_facts wp_acquiresleep_calm)
  qed (use free xs in \<open>auto simp: wp_simps\<close>)
  have "wp (bget ROOTDEV b) (\<lambda>i t. i < NBUF \<and> b_refcnt (bufs s i) = 0 \<and> ?r i t) s"
    unfolding bget_def wp_kthen wp_kdo_Cons wp_kdo_Nil wp_acquire_calm [OF c] wp_kbind wp_kgets fwd
  proof (rule wp_kfor_find [where P = "\<lambda>_. False"])
    fix x assume "x \<in> set xs"
    then have "\<not> caches (bufs s x) b" using bufno_None [OF miss] xs by simp
    then show "wp (kif (\<lambda>s. b_dev (bufs s x) = ROOTDEV \<and> b_blockno (bufs s x) = b)
         (kthen [set_buf x (b_refcnt_update (\<lambda>n. n + 1)), release BcacheLock, acquiresleep (BufLk x)]
            (kreturn (Some x))) (kreturn None))
       (\<lambda>r t. r = None \<and> t = acq BcacheLock s) (acq BcacheLock s)"
      by (auto simp: wp_simps caches_def)
  qed (use last in \<open>simp_all add: wp_kbind wp_kgets fwd\<close>)
  then show ?thesis by (auto simp: wp_iff_Ret)
qed

lemma wp_disk_read: "calm p s \<Longrightarrow> wp (virtio_disk_rw i False) Q s =
  Q () (upd_buf i (b_data_update (\<lambda>_. disk s (b_blockno (bufs s i)))) s)"
  by (simp add: virtio_disk_rw_def wp_simps wp_acquire_calm crit_facts)

lemma wp_disk_write: "calm p s \<Longrightarrow> wp (virtio_disk_rw i True) Q s =
  Q () (s\<lparr>disk := (disk s)(b_blockno (bufs s i) := b_data (bufs s i)),
     dwrites := dwrites s @ [(b_blockno (bufs s i), b_data (bufs s i))]\<rparr>)"
  by (simp add: virtio_disk_rw_def wp_simps wp_acquire_calm crit_facts)

definition picks :: "'a bio_st_scheme \<Rightarrow> uint \<Rightarrow> nat \<Rightarrow> bool" where
  "picks s b i \<longleftrightarrow> i < NBUF \<and> (bufno s b = Some i \<or> bufno s b = None \<and> b_refcnt (bufs s i) = 0)"

definition unheld :: "'a bio_st_scheme \<Rightarrow> uint \<Rightarrow> bool" where
  "unheld s b \<longleftrightarrow> (case ents s b of None \<Rightarrow> True | Some e \<Rightarrow> \<not> e_held e)"

definition room :: "'a bio_st_scheme \<Rightarrow> uint \<Rightarrow> bool" where
  "room s b \<longleftrightarrow> ents s b \<noteq> None \<or> card (dom (ents s)) < NBUF"

lemma view_cached:
  assumes "bio_inv p s" "i < NBUF" "caches (bufs s i) b" "b_valid (bufs s i)"
  shows "view s b = b_data (bufs s i)"
  using assms bufno_caches [OF assms(1,2,3)] bio_invD(3) [OF assms(1,2)]
  by (auto simp: view_def ents_def ent_of_def buf_ok_def caches_def)

lemma view_uncached:
  assumes "bio_inv p s" "bufno s b = None \<or> (\<exists>i < NBUF. caches (bufs s i) b \<and> \<not> b_valid (bufs s i))"
  shows "view s b = disk s b"
  using assms bufno_caches [OF assms(1)] bio_invD(3) [OF assms(1)]
  by (fastforce simp: view_def ents_def buf_ok_def split: option.splits)

lemma bread_wp:
  assumes inv: "bio_inv p s" and un: "unheld s b" and rm: "room s b"
  shows "\<exists>i. picks s b i \<and> wp (bread ROOTDEV b) (\<lambda>j t. j = i \<and> t = bread_st p b i s) s"
proof -
  have c: "calm p s" using inv by (rule bio_invD)
  show ?thesis
  proof (cases "bufno s b")
    case (Some i)
    have i: "i < NBUF" "caches (bufs s i) b" using bufno_Some [OF Some] by auto
    have free: "\<not> sl_locked (sleeplocks s (BufLk i))"
      using un bio_invD(3) [OF inv i(1)] Some by (auto simp: unheld_def ents_def buf_ok_def ent_of_def split: if_splits)
    let ?t = "sl_take p (BufLk i) (upd_buf i (b_refcnt_update (\<lambda>n. n + 1)) s)"
    have "wp (bread ROOTDEV b) (\<lambda>j t. j = i \<and> t = bread_st p b i s) s"
      unfolding bread_def wp_kbind
    proof (rule wp_mono [OF bget_hit [OF inv Some free]], clarify)
      show "wp (kthen [kwhen (\<lambda>s. \<not> b_valid (bufs s i)) (kdo [virtio_disk_rw i False,
          set_buf i (b_valid_update (\<lambda>_. True))])] (kreturn i)) (\<lambda>j t. j = i \<and> t = bread_st p b i s) ?t"
      proof (cases "b_valid (bufs s i)")
        case True
        then have "b_refcnt_update (\<lambda>n. n + 1) (bufs s i) = (bufs s i)\<lparr>b_valid := True, b_dev := ROOTDEV,
          b_blockno := b, b_refcnt := b_refcnt (bufs s i) + 1, b_data := view s b\<rparr>"
          using i view_cached [OF inv i True] by (cases "bufs s i") (simp add: caches_def)
        then show ?thesis using True by (auto simp: wp_simps bread_st_def intro!: upd_buf_cong)
      next
        case False
        then have v: "view s b = disk s b" using view_uncached [OF inv] i by blast
        then show ?thesis using False i c
          by (auto simp: wp_simps wp_disk_read bread_st_def caches_def intro!: upd_buf_cong buf.equality)
      qed
    qed
    then show ?thesis using Some i by (auto simp: picks_def)
  next
    case None
    have "ents s b = None" using None by (simp add: ents_def)
    then have "\<exists>i < NBUF. b_refcnt (bufs s i) = 0" using rm free_buffer [OF inv] by (simp add: room_def)
    from bget_miss [OF inv None this] obtain i where i: "i < NBUF" "b_refcnt (bufs s i) = 0" and
      w: "wp (bget ROOTDEV b) (\<lambda>j t. j = i \<and> t = sl_take p (BufLk i)
        (upd_buf i (\<lambda>bf. bf\<lparr>b_dev := ROOTDEV, b_blockno := b, b_valid := False, b_refcnt := 1\<rparr>) s)) s" by blast
    have v: "view s b = disk s b" using view_uncached [OF inv] None by blast
    have "wp (bread ROOTDEV b) (\<lambda>j t. j = i \<and> t = bread_st p b i s) s"
      unfolding bread_def wp_kbind
      by (rule wp_mono [OF w])
        (use c i v in \<open>auto simp: wp_simps wp_disk_read bread_st_def intro!: upd_buf_cong buf.equality\<close>)
    then show ?thesis using None i by (auto simp: picks_def)
  qed
qed

section \<open>What an operation on one buffer does to the client's view\<close>

lemma ents_iff:
  assumes "bio_inv p s"
  shows "ents s b = Some e \<longleftrightarrow> (\<exists>i < NBUF. caches (bufs s i) b \<and> b_refcnt (bufs s i) \<noteq> 0 \<and> e = ent_of s i)"
  using ents_SomeI [OF assms] ents_SomeD [of s b e] by (metis)

definition same_buf :: "'a bio_st_scheme \<Rightarrow> 'a bio_st_scheme \<Rightarrow> nat \<Rightarrow> bool" where
  "same_buf s t j \<longleftrightarrow> (\<exists>n m. bufs t j = (bufs s j)\<lparr>b_next := n, b_prev := m\<rparr>) \<and>
     sleeplocks t (BufLk j) = sleeplocks s (BufLk j)"

lemma same_buf_facts:
  assumes "same_buf s t j"
  shows "caches (bufs t j) b = caches (bufs s j) b" "b_refcnt (bufs t j) = b_refcnt (bufs s j)"
    "ent_of t j = ent_of s j" "b_valid (bufs t j) = b_valid (bufs s j)" "b_dev (bufs t j) = b_dev (bufs s j)"
    "b_data (bufs t j) = b_data (bufs s j)" "b_blockno (bufs t j) = b_blockno (bufs s j)"
    "sleeplocks t (BufLk j) = sleeplocks s (BufLk j)"
  using assms by (auto simp: same_buf_def caches_def ent_of_def)

lemma ents_step:
  assumes s: "bio_inv p s" and t: "bio_inv p t" and i: "i < NBUF"
    and others: "\<And>j. j < NBUF \<Longrightarrow> j \<noteq> i \<Longrightarrow> same_buf s t j"
    and bs: "b_refcnt (bufs s i) \<noteq> 0 \<Longrightarrow> caches (bufs s i) b"
    and bt: "b_refcnt (bufs t i) \<noteq> 0 \<Longrightarrow> caches (bufs t i) b"
    and only: "\<And>j. j < NBUF \<Longrightarrow> j \<noteq> i \<Longrightarrow> \<not> caches (bufs s j) b"
  shows "ents t = (ents s)(b := if b_refcnt (bufs t i) = 0 then None else Some (ent_of t i))"
proof
  fix b2
  let ?r = "((ents s)(b := if b_refcnt (bufs t i) = 0 then None else Some (ent_of t i))) b2"
  have "ents t b2 = Some e \<longleftrightarrow> ?r = Some e" for e
  proof (cases "b2 = b")
    case True
    have "ents t b = Some e \<longleftrightarrow> b_refcnt (bufs t i) \<noteq> 0 \<and> e = ent_of t i"
      unfolding ents_iff [OF t] using i bt only same_buf_facts(1) [OF others] by metis
    with True show ?thesis by auto
  next
    case False
    have "(\<exists>j < NBUF. caches (bufs t j) b2 \<and> b_refcnt (bufs t j) \<noteq> 0 \<and> e = ent_of t j) \<longleftrightarrow>
      (\<exists>j < NBUF. caches (bufs s j) b2 \<and> b_refcnt (bufs s j) \<noteq> 0 \<and> e = ent_of s j)"
    proof -
      have "caches (bufs t j) b2 \<and> b_refcnt (bufs t j) \<noteq> 0 \<and> e = ent_of t j \<longleftrightarrow>
        caches (bufs s j) b2 \<and> b_refcnt (bufs s j) \<noteq> 0 \<and> e = ent_of s j" if "j < NBUF" for j
      proof (cases "j = i")
        case True
        then show ?thesis using bs bt False by (auto simp: caches_def)
      next
        case j: False
        show ?thesis using same_buf_facts [OF others [OF that j]] by simp
      qed
      then show ?thesis by blast
    qed
    with False show ?thesis by (simp add: ents_iff [OF s] ents_iff [OF t])
  qed
  then show "ents t b2 = ?r" by (metis option.exhaust)
qed

text \<open>Everything outside the cache, its sleep locks and the disk.\<close>

definition bio_frame :: "'a bio_st_scheme \<Rightarrow> 'a bio_st_scheme \<Rightarrow> bool" where
  "bio_frame s t \<longleftrightarrow> t = s\<lparr>sleeplocks := sleeplocks t, bufs := bufs t, disk := disk t, dwrites := dwrites t\<rparr> \<and>
     (\<forall>lk. (\<forall>i. lk \<noteq> BufLk i) \<longrightarrow> sleeplocks t lk = sleeplocks s lk)"

lemma bio_frame_refl [simp]: "bio_frame s s"
  by (simp add: bio_frame_def)

lemma bio_frame_trans [trans]: "bio_frame s t \<Longrightarrow> bio_frame t u \<Longrightarrow> bio_frame s u"
proof -
  assume st: "bio_frame s t" and tu: "bio_frame t u"
  have "u = t\<lparr>sleeplocks := sleeplocks u, bufs := bufs u, disk := disk u, dwrites := dwrites u\<rparr>"
    using tu by (simp add: bio_frame_def)
  also have "\<dots> = (s\<lparr>sleeplocks := sleeplocks t, bufs := bufs t, disk := disk t, dwrites := dwrites t\<rparr>)
      \<lparr>sleeplocks := sleeplocks u, bufs := bufs u, disk := disk u, dwrites := dwrites u\<rparr>"
    using st by (simp add: bio_frame_def)
  also have "\<dots> = s\<lparr>sleeplocks := sleeplocks u, bufs := bufs u, disk := disk u, dwrites := dwrites u\<rparr>" by simp
  finally show ?thesis using st tu by (simp add: bio_frame_def)
qed

lemma bio_frame_procs: "bio_frame s t \<Longrightarrow> procs t = procs s"
proof -
  assume "bio_frame s t"
  then have "t = s\<lparr>sleeplocks := sleeplocks t, bufs := bufs t, disk := disk t, dwrites := dwrites t\<rparr>"
    by (simp add: bio_frame_def)
  from arg_cong [OF this, of procs] show ?thesis by simp
qed

lemma bio_inv_step:
  assumes s: "bio_inv p s" and c: "calm p t" and lru: "lru_ok t" and pr: "procs t = procs s" and i: "i < NBUF"
    and others: "\<And>j. j < NBUF \<Longrightarrow> j \<noteq> i \<Longrightarrow> same_buf s t j"
    and ok: "buf_ok p t i" and bt: "caches (bufs t i) b"
    and dk: "\<And>b'. b' \<noteq> b \<Longrightarrow> disk t b' = disk s b'"
    and only: "\<And>j. j < NBUF \<Longrightarrow> j \<noteq> i \<Longrightarrow> \<not> caches (bufs s j) b"
  shows "bio_inv p t"
proof -
  have "buf_ok p t j" if j: "j < NBUF" for j
  proof (cases "j = i")
    case False
    note sb = same_buf_facts [OF others [OF j False]]
    have "b_dev (bufs s j) = ROOTDEV \<Longrightarrow> disk t (b_blockno (bufs s j)) = disk s (b_blockno (bufs s j))"
      using only [OF j False] dk by (auto simp: caches_def)
    with bio_invD(3) [OF s j] show ?thesis by (auto simp: buf_ok_def sb pr)
  qed (use ok in simp)
  moreover have "j = k" if "j < NBUF" "k < NBUF" "caches (bufs t j) b'" "caches (bufs t k) b'" for j k b'
  proof -
    have cj: "m \<noteq> i \<Longrightarrow> caches (bufs s m) b'" if "m < NBUF" "caches (bufs t m) b'" for m
      using same_buf_facts(1) [OF others] that by auto
    have bi: "caches (bufs t i) b' \<Longrightarrow> b' = b" using bt by (auto simp: caches_def)
    show ?thesis
      using that bio_invD(4) [OF s, of j k b'] cj only bi by metis
  qed
  ultimately show ?thesis using c lru by (auto simp: bio_inv_def)
qed

lemma same_links: "(\<And>j. b_next (bufs t j) = b_next (bufs s j)) \<Longrightarrow> (\<And>j. b_prev (bufs t j) = b_prev (bufs s j)) \<Longrightarrow>
  lru_ok t = lru_ok s"
  by (simp add: lru_ok_def)

lemma same_buf_refl: "bufs t j = bufs s j \<Longrightarrow> sleeplocks t (BufLk j) = sleeplocks s (BufLk j) \<Longrightarrow> same_buf s t j"
  unfolding same_buf_def
  by (intro conjI exI [of _ "b_next (bufs s j)"] exI [where x = "b_prev (bufs s j)"]) simp_all

section \<open>Contracts\<close>

definition cnt :: "'a bio_st_scheme \<Rightarrow> uint \<Rightarrow> nat" where
  "cnt s b = (case ents s b of None \<Rightarrow> 0 | Some e \<Rightarrow> e_cnt e)"

lemma refcnt_inc: "unat (n :: uint) + 1 < 4294967296 \<Longrightarrow> unat (n + 1) = Suc (unat n) \<and> n + 1 \<noteq> 0"
  by (simp add: unat_word_ariths unat_eq_zero [symmetric])

lemma refcnt_dec: "(n :: uint) \<noteq> 0 \<Longrightarrow> unat (n - 1) = unat n - 1"
  by (metis unat_minus_one)

lemma picks_only:
  assumes "bio_inv p s" "picks s b i" "j < NBUF" "j \<noteq> i"
  shows "\<not> caches (bufs s j) b"
  using assms bufno_caches [OF assms(1,3)] by (auto simp: picks_def)

lemma picks_refs: "bio_inv p s \<Longrightarrow> picks s b i \<Longrightarrow>
  unat (b_refcnt (bufs s i)) = cnt s b \<and> (b_refcnt (bufs s i) \<noteq> 0 \<longrightarrow> caches (bufs s i) b)"
  by (auto simp: picks_def cnt_def ents_def ent_of_def dest: bufno_Some)

lemma bread_st_spec:
  assumes s: "bio_inv p s" and i: "picks s b i" and n: "cnt s b + 1 < 4294967296"
  shows "bio_inv p (bread_st p b i s)" (is "bio_inv p ?t")
    and "ents (bread_st p b i s) = (ents s)(b \<mapsto> \<lparr>e_idx = i, e_cnt = Suc (cnt s b), e_data = view s b, e_held = True\<rparr>)"
    and "bio_frame s (bread_st p b i s)" "disk (bread_st p b i s) = disk s" "dwrites (bread_st p b i s) = dwrites s"
proof -
  have lt: "i < NBUF" using i by (simp add: picks_def)
  note r = picks_refs [OF s i]
  have inc: "unat (b_refcnt (bufs s i) + 1) = Suc (cnt s b)" "b_refcnt (bufs s i) + 1 \<noteq> 0"
    using r n refcnt_inc [of "b_refcnt (bufs s i)"] by auto
  have others: "same_buf s ?t j" if "j < NBUF" "j \<noteq> i" for j
    using that by (intro same_buf_refl) (simp_all add: bread_st_def)
  have bt: "caches (bufs ?t i) b" by (simp add: bread_st_def caches_def)
  have ok: "buf_ok p ?t i" using inc by (simp add: bread_st_def buf_ok_def sleep_owner_def)
  have lru: "lru_ok ?t" using bio_invD(2) [OF s] by (subst same_links [of _ s]) (simp_all add: bread_st_def)
  have c: "calm p ?t" using bio_invD(1) [OF s] by (simp add: bread_st_def)
  show t: "bio_inv p ?t"
    by (rule bio_inv_step [OF s c lru _ lt others ok bt _ picks_only [OF s i]]) (simp_all add: bread_st_def)
  have "ents ?t = (ents s)(b := if b_refcnt (bufs ?t i) = 0 then None else Some (ent_of ?t i))"
    using r by (intro ents_step [OF s t lt others _ bt picks_only [OF s i]]) auto
  then show "ents ?t = (ents s)(b \<mapsto> \<lparr>e_idx = i, e_cnt = Suc (cnt s b), e_data = view s b, e_held = True\<rparr>)"
    using inc by (simp add: bread_st_def ent_of_def sleep_owner_def)
  show "bio_frame s ?t"
    by (simp add: bread_st_def bio_frame_def sl_take_def upd_sleeplock_def upd_buf_def)
qed (simp_all add: bread_st_def)

lemma bread_spec:
  assumes "bio_inv p s" "unheld s b" "room s b" "cnt s b + 1 < 4294967296"
  shows "wp (bread ROOTDEV b) (\<lambda>i t. bio_inv p t \<and> bio_frame s t \<and> disk t = disk s \<and> dwrites t = dwrites s \<and>
    (\<forall>e. ents s b = Some e \<longrightarrow> i = e_idx e) \<and>
    ents t = (ents s)(b \<mapsto> \<lparr>e_idx = i, e_cnt = Suc (cnt s b), e_data = view s b, e_held = True\<rparr>)) s"
proof -
  from bread_wp [OF assms(1,2,3)] obtain i where i: "picks s b i"
    and w: "wp (bread ROOTDEV b) (\<lambda>j t. j = i \<and> t = bread_st p b i s) s" by blast
  have "ents s b = Some e \<Longrightarrow> i = e_idx e" for e
    using i by (auto simp: picks_def ents_def ent_of_def split: option.splits if_splits)
  then show ?thesis by (intro wp_mono [OF w]) (use bread_st_spec [OF assms(1) i assms(4)] in simp)
qed

text \<open>An operation on the buffer of a block in use that leaves the links alone.\<close>

lemma touch_spec:
  fixes s t :: "'a bio_st_scheme"
  assumes s: "bio_inv p s" and e: "ents s b = Some e" and i: "i = e_idx e"
    and t: "calm p t" "procs t = procs s" "bufs t = (bufs s)(i := bf)" "b_next bf = b_next (bufs s i)" "b_prev bf = b_prev (bufs s i)"
      "caches bf b" "b_valid bf" "b_refcnt bf \<noteq> 0"
    and sl: "\<And>j. j \<noteq> i \<Longrightarrow> sleeplocks t (BufLk j) = sleeplocks s (BufLk j)"
    and slp: "sl_locked (sleeplocks t (BufLk i)) \<longrightarrow> sl_pid (sleeplocks t (BufLk i)) = p_pid (procs s p)"
    and dk: "\<And>b'. b' \<noteq> b \<Longrightarrow> disk t b' = disk s b'"
  shows "bio_inv p t" "ents t = (ents s)(b \<mapsto> \<lparr>e_idx = i, e_cnt = unat (b_refcnt bf), e_data = b_data bf,
    e_held = sl_locked (sleeplocks t (BufLk i))\<rparr>)"
proof -
  note ed = ents_SomeD [OF e, folded i]
  have only: "\<not> caches (bufs s j) b" if "j < NBUF" "j \<noteq> i" for j
    using bio_invD(4) [OF s that(1) ed(1) _ ed(2)] that by blast
  have others: "same_buf s t j" if "j < NBUF" "j \<noteq> i" for j
    using that t sl by (intro same_buf_refl) auto
  have ok: "buf_ok p t i" using t slp by (simp add: buf_ok_def caches_def)
  have bt: "caches (bufs t i) b" using t by simp
  have lru: "lru_ok t" using bio_invD(2) [OF s] t by (subst same_links [of _ s]) auto
  show inv: "bio_inv p t"
    using dk by (intro bio_inv_step [OF s t(1) lru t(2) ed(1) others ok bt _ only]) auto
  have "ents t = (ents s)(b := if b_refcnt (bufs t i) = 0 then None else Some (ent_of t i))"
    using ed by (intro ents_step [OF s inv ed(1) others _ bt only]) auto
  then show "ents t = (ents s)(b \<mapsto> \<lparr>e_idx = i, e_cnt = unat (b_refcnt bf), e_data = b_data bf,
    e_held = sl_locked (sleeplocks t (BufLk i))\<rparr>)" using t by (simp add: ent_of_def)
qed

lemma ent_fields:
  assumes "bio_inv p s" "ents s b = Some e"
  shows "caches (bufs s (e_idx e)) b" "b_refcnt (bufs s (e_idx e)) \<noteq> 0" "unat (b_refcnt (bufs s (e_idx e))) = e_cnt e"
    "b_data (bufs s (e_idx e)) = e_data e" "sl_locked (sleeplocks s (BufLk (e_idx e))) = e_held e"
    "b_valid (bufs s (e_idx e))" "e_held e \<Longrightarrow> sl_held p (BufLk (e_idx e)) s" "e_idx e < NBUF" "0 < e_cnt e"
proof -
  note ed = ents_SomeD [OF assms(2)]
  show "caches (bufs s (e_idx e)) b" "b_refcnt (bufs s (e_idx e)) \<noteq> 0" "e_idx e < NBUF" using ed by simp_all
  have 1: "e_cnt e = unat (b_refcnt (bufs s (e_idx e)))" "e_data e = b_data (bufs s (e_idx e))"
    "e_held e = sl_locked (sleeplocks s (BufLk (e_idx e)))"
    by (subst ed(4), simp add: ent_of_def)+
  then show "unat (b_refcnt (bufs s (e_idx e))) = e_cnt e" "b_data (bufs s (e_idx e)) = e_data e"
    "sl_locked (sleeplocks s (BufLk (e_idx e))) = e_held e" by simp_all
  show "b_valid (bufs s (e_idx e))" "e_held e \<Longrightarrow> sl_held p (BufLk (e_idx e)) s"
    using bio_invD(3) [OF assms(1) ed(1)] ed(3) 1 by (simp_all add: buf_ok_def)
  show "0 < e_cnt e" using 1 ed(3) by (simp add: unat_gt_0)
qed

lemma ent_idx_inj:
  assumes "bio_inv p s" "ents s b = Some e" "ents s c = Some d" "e_idx e = e_idx d"
  shows "b = c"
  using ents_SomeD(2) [OF assms(2)] ents_SomeD(2) [OF assms(3)] assms(4) by (auto simp: caches_def)

lemma set_data_spec:
  assumes s: "bio_inv p s" and e: "ents s b = Some e"
  shows "bio_inv p (upd_buf (e_idx e) (b_data_update f) s)"
    and "ents (upd_buf (e_idx e) (b_data_update f) s) = (ents s)(b \<mapsto> e\<lparr>e_data := f (e_data e)\<rparr>)"
    and "bio_frame s (upd_buf (e_idx e) (b_data_update f) s)"
proof -
  note ef = ent_fields [OF s e]
  note ts = touch_spec [OF s e refl, of "upd_buf (e_idx e) (b_data_update f) s" "b_data_update f (bufs s (e_idx e))"]
  show "bio_inv p (upd_buf (e_idx e) (b_data_update f) s)"
    using bio_invD(1) [OF s] ef by (intro ts(1)) (auto simp: caches_def)
  have "ents (upd_buf (e_idx e) (b_data_update f) s) = (ents s)(b \<mapsto>
      \<lparr>e_idx = e_idx e, e_cnt = e_cnt e, e_data = f (e_data e), e_held = e_held e\<rparr>)"
    using bio_invD(1) [OF s] ef by (subst ts(2)) (auto simp: caches_def)
  then show "ents (upd_buf (e_idx e) (b_data_update f) s) = (ents s)(b \<mapsto> e\<lparr>e_data := f (e_data e)\<rparr>)"
    by (cases e) simp
  show "bio_frame s (upd_buf (e_idx e) (b_data_update f) s)"
    by (simp add: bio_frame_def upd_buf_def)
qed

lemma bwrite_spec:
  assumes s: "bio_inv p s" and e: "ents s b = Some e" "e_held e"
  shows "wp (bwrite (e_idx e)) (\<lambda>_ t. bio_inv p t \<and> bio_frame s t \<and> disk t = (disk s)(b := e_data e) \<and>
    dwrites t = dwrites s @ [(b, e_data e)] \<and> ents t = ents s) s"
proof -
  note ef = ent_fields [OF s e(1)]
  have c: "calm p s" using s by (rule bio_invD)
  let ?t = "s\<lparr>disk := (disk s)(b := e_data e), dwrites := dwrites s @ [(b, e_data e)]\<rparr>"
  have cb: "b_blockno (bufs s (e_idx e)) = b" using ef(1) by (simp add: caches_def)
  note ts = touch_spec [OF s e(1) refl, of ?t "bufs s (e_idx e)"]
  have inv: "bio_inv p ?t" using c ef e by (intro ts(1)) auto
  have "ents ?t = (ents s)(b \<mapsto> \<lparr>e_idx = e_idx e, e_cnt = e_cnt e, e_data = e_data e, e_held = e_held e\<rparr>)"
    using c ef e by (subst ts(2)) auto
  then have "ents ?t = ents s" using e by (cases e) auto
  with inv show ?thesis
    using c ef(4) ef(7) [OF e(2)] cb 
    by (simp add: bwrite_def wp_simps wp_holdingsleep_calm wp_disk_write [of p] bio_frame_def) (simp add: cb)?
qed

lemma pin_spec:
  assumes s: "bio_inv p s" and e: "ents s b = Some e" and n: "unat (f (b_refcnt (bufs s (e_idx e)))) = n" "0 < n"
  shows "wp (kdo [acquire BcacheLock, set_buf (e_idx e) (b_refcnt_update f), release BcacheLock])
    (\<lambda>_ t. bio_inv p t \<and> bio_frame s t \<and> disk t = disk s \<and> dwrites t = dwrites s \<and>
      ents t = (ents s)(b \<mapsto> e\<lparr>e_cnt := n\<rparr>)) s"
proof -
  note ef = ent_fields [OF s e]
  have c: "calm p s" using s by (rule bio_invD)
  let ?t = "upd_buf (e_idx e) (b_refcnt_update f) s"
  have nz: "f (b_refcnt (bufs s (e_idx e))) \<noteq> 0" using n by auto
  note ts = touch_spec [OF s e refl, of ?t "b_refcnt_update f (bufs s (e_idx e))"]
  have inv: "bio_inv p ?t" using c ef nz by (intro ts(1)) (auto simp: caches_def)
  have "ents ?t = (ents s)(b \<mapsto> \<lparr>e_idx = e_idx e, e_cnt = n, e_data = e_data e, e_held = e_held e\<rparr>)"
    using c ef n nz by (subst ts(2)) (auto simp: caches_def)
  then have "ents ?t = (ents s)(b \<mapsto> e\<lparr>e_cnt := n\<rparr>)" by (cases e) auto
  with inv show ?thesis
    using c by (simp add: wp_simps wp_acquire_calm crit_facts bio_frame_def) (simp add: upd_buf_def)
qed

lemma bpin_spec:
  assumes "bio_inv p s" "ents s b = Some e" "e_cnt e + 1 < 4294967296"
  shows "wp (bpin (e_idx e)) (\<lambda>_ t. bio_inv p t \<and> bio_frame s t \<and> disk t = disk s \<and> dwrites t = dwrites s \<and>
      ents t = (ents s)(b \<mapsto> e\<lparr>e_cnt := Suc (e_cnt e)\<rparr>)) s"
  unfolding bpin_def using assms refcnt_inc ent_fields(3) [OF assms(1,2)] by (intro pin_spec) auto

lemma bunpin_spec:
  assumes "bio_inv p s" "ents s b = Some e" "1 < e_cnt e"
  shows "wp (bunpin (e_idx e)) (\<lambda>_ t. bio_inv p t \<and> bio_frame s t \<and> disk t = disk s \<and> dwrites t = dwrites s \<and>
      ents t = (ents s)(b \<mapsto> e\<lparr>e_cnt := e_cnt e - 1\<rparr>)) s"
  unfolding bunpin_def using assms refcnt_dec [OF ent_fields(2) [OF assms(1,2)]] ent_fields(3) [OF assms(1,2)]
  by (intro pin_spec) auto

text \<open>The list after \<open>brelse\<close> has moved an unreferenced buffer to its front.\<close>

definition lru_front :: "nat \<Rightarrow> 'a bio_st_scheme \<Rightarrow> 'a bio_st_scheme" where
  "lru_front b s =
     upd_buf bhead (b_next_update (\<lambda>_. b))
     ((\<lambda>s. upd_buf (b_next (bufs s bhead)) (b_prev_update (\<lambda>_. b)) s)
     (upd_buf b (b_prev_update (\<lambda>_. bhead))
     ((\<lambda>s. upd_buf b (b_next_update (\<lambda>_. b_next (bufs s bhead))) s)
     ((\<lambda>s. upd_buf (b_prev (bufs s b)) (b_next_update (\<lambda>_. b_next (bufs s b))) s)
     ((\<lambda>s. upd_buf (b_next (bufs s b)) (b_prev_update (\<lambda>_. b_prev (bufs s b))) s) s)))))"

lemma links_upd [simp]:
  "bnx (upd_buf i (b_next_update f) s) = (bnx s)(i := f (bnx s i))"
  "bpv (upd_buf i (b_next_update f) s) = bpv s"
  "bpv (upd_buf i (b_prev_update f) s) = (bpv s)(i := f (bpv s i))"
  "bnx (upd_buf i (b_prev_update f) s) = bnx s"
  by (auto simp: fun_eq_iff)

lemma lru_front_ring:
  assumes r: "ring (bnx s) (bpv s) (us @ b # ws)"
  shows "ring (bnx (lru_front b s)) (bpv (lru_front b s)) (b # us @ ws)"
proof -
  let ?nx = "unlink_next (bnx s) (bpv s) b" and ?pv = "unlink_next (bpv s) (bnx s) b"
  have ne: "b_next (bufs s b) \<noteq> b" "b_prev (bufs s b) \<noteq> b" "b \<noteq> bhead"
  proof -
    have d: "distinct (us @ b # ws)" "bhead \<notin> set (us @ b # ws)"
      and l: "linked (bnx s) (bpv s) (bhead # us @ b # ws @ [bhead])"
      using r by (auto simp: ring_def)
    show "b \<noteq> bhead" using d by auto
    obtain as l' where as: "bhead # us = as @ [l']" by (cases us rule: rev_cases) auto
    obtain r' cs where cs: "ws @ [bhead] = r' # cs" by (cases ws) auto
    have "bhead # us @ b # ws @ [bhead] = as @ l' # b # r' # cs"
      using as cs by (simp add: append_Cons [symmetric] del: append_Cons)
    then have "linked (bnx s) (bpv s) (as @ l' # b # r' # cs)" using l by simp
    then have "b_next (bufs s b) = r'" "b_prev (bufs s b) = l'" unfolding linked_split by simp_all
    moreover have "r' \<in> set (ws @ [bhead])" by (simp only: cs) simp
    moreover have "l' \<in> set (bhead # us)" by (simp only: as) simp
    ultimately show "b_next (bufs s b) \<noteq> b" "b_prev (bufs s b) \<noteq> b" using d by auto
  qed
  have "bnx (lru_front b s) = ?nx(b := ?nx bhead, bhead := b)"
    using ne by (simp add: lru_front_def unlink_next_def fun_eq_iff)
  moreover have "bpv (lru_front b s) = ?pv(b := bhead, ?nx bhead := b)"
    using ne by (simp add: lru_front_def unlink_next_def fun_eq_iff)
  ultimately show ?thesis using ring_move [OF r refl refl] by simp
qed

lemma lru_front_facts [simp]:
  "disk (lru_front b s) = disk s" "dwrites (lru_front b s) = dwrites s" "procs (lru_front b s) = procs s"
  "sleeplocks (lru_front b s) = sleeplocks s" "calm p (lru_front b s) = calm p s"
  by (simp_all add: lru_front_def)

lemma upd_links_id: "\<exists>n m. (bufs (upd_buf i (b_next_update f) s) j) = (bufs s j)\<lparr>b_next := n, b_prev := m\<rparr>"
  "\<exists>n m. (bufs (upd_buf i (b_prev_update f) s) j) = (bufs s j)\<lparr>b_next := n, b_prev := m\<rparr>"
  by (cases "bufs s j", auto)+

lemma lru_front_links: "\<exists>n m. bufs (lru_front b s) j = (bufs s j)\<lparr>b_next := n, b_prev := m\<rparr>"
proof -
  have step: "\<exists>n m. bufs u j = (bufs s j)\<lparr>b_next := n, b_prev := m\<rparr>"
    if "\<exists>n m. bufs t j = (bufs s j)\<lparr>b_next := n, b_prev := m\<rparr>"
      "\<exists>n m. bufs u j = (bufs t j)\<lparr>b_next := n, b_prev := m\<rparr>" for t u :: "'a bio_st_scheme"
    using that by auto blast
  show ?thesis unfolding lru_front_def
    by (rule step [OF _ upd_links_id(1)], rule step [OF _ upd_links_id(2)], rule step [OF _ upd_links_id(2)],
        rule step [OF _ upd_links_id(1)], rule step [OF _ upd_links_id(1)], rule upd_links_id(2))
qed

lemma lru_front_frame: "lru_front b s = s\<lparr>bufs := bufs (lru_front b s)\<rparr>"
  by (simp add: lru_front_def upd_buf_def)

text \<open>The state after \<open>brelse\<close>.\<close>

definition brelse_st :: "nat \<Rightarrow> 'a bio_st_scheme \<Rightarrow> 'a bio_st_scheme" where
  "brelse_st i s = (let t = upd_buf i (b_refcnt_update (\<lambda>n. n - 1)) (sl_drop (BufLk i) s)
     in if b_refcnt (bufs t i) = 0 then lru_front i t else t)"

lemma crit_upd: "upd_buf i f (acq lk s) = acq lk (upd_buf i f s)"
  by simp

lemma lru_front_acq: "lru_front i (acq lk s) = acq lk (lru_front i s)"
  by (simp add: lru_front_def)

lemma wp_brelse:
  assumes "calm p s" "sl_held p (BufLk i) s"
  shows "wp (brelse i) Q s = Q () (brelse_st i s)"
proof -
  let ?d = "sl_drop (BufLk i) s"
  have c: "calm p ?d" "calm p (upd_buf i f ?d)" "calm p (lru_front i t) = calm p t" for f t
    using assms(1) by simp_all
  have front: "wp (lru_to_front i) R t = R () (lru_front i t)" for R and t :: "'a bio_st_scheme"
    by (simp only: lru_to_front_def wp_kdo_Cons wp_kdo_Nil wp_kmodify wp_set_buf lru_front_def)
  show ?thesis
    using assms(2) unfolding brelse_def
    by (simp add: wp_simps wp_holdingsleep_calm [OF assms(1)] wp_releasesleep_calm [OF assms(1)]
        wp_acquire_calm [OF c(1)] front lru_front_acq wp_release_calm [of p] crit_upd c brelse_st_def Let_def
        del: upd_buf_facts)
qed

lemma brelse_spec:
  assumes s: "bio_inv p s" and e: "ents s b = Some e" "e_held e" and cl: "e_cnt e = 1 \<Longrightarrow> e_data e = disk s b"
  shows "wp (brelse (e_idx e)) (\<lambda>_ t. bio_inv p t \<and> bio_frame s t \<and> disk t = disk s \<and> dwrites t = dwrites s \<and>
    ents t = (ents s)(b := if e_cnt e = 1 then None else Some (e\<lparr>e_cnt := e_cnt e - 1, e_held := False\<rparr>))) s"
proof -
  note ef = ent_fields [OF s e(1)]
  have c: "calm p s" using s by (rule bio_invD)
  let ?i = "e_idx e"
  let ?d = "upd_buf ?i (b_refcnt_update (\<lambda>n. n - 1)) (sl_drop (BufLk ?i) s)"
  have dec: "unat (b_refcnt (bufs s ?i) - 1) = e_cnt e - 1" using ef(2,3) by (simp add: refcnt_dec)
  have fr: "bio_frame s (brelse_st ?i s)"
    unfolding bio_frame_def brelse_st_def Let_def
    by (cases "b_refcnt (bufs ?d ?i) = 0", simp, subst lru_front_frame)
      (simp_all add: sl_drop_def upd_sleeplock_def upd_buf_def)
  have w: "wp (brelse ?i) Q s = Q () (brelse_st ?i s)" for Q using wp_brelse [OF c ef(7) [OF e(2)]] .
  show ?thesis
  proof (cases "e_cnt e = 1")
    case False
    then have "b_refcnt (bufs s ?i) - 1 \<noteq> 0" using dec ef(9) by auto
    then have st: "brelse_st ?i s = ?d" by (simp add: brelse_st_def)
    note ts = touch_spec [OF s e(1) refl, of ?d "b_refcnt_update (\<lambda>n. n - 1) (bufs s ?i)"]
    have "bio_inv p ?d" using c ef dec False by (intro ts(1)) (auto simp: caches_def)
    moreover have "ents ?d = (ents s)(b \<mapsto> \<lparr>e_idx = ?i, e_cnt = e_cnt e - 1, e_data = e_data e, e_held = False\<rparr>)"
      using c ef dec False by (subst ts(2)) (auto simp: caches_def)
    then have "ents ?d = (ents s)(b \<mapsto> e\<lparr>e_cnt := e_cnt e - 1, e_held := False\<rparr>)" by (cases e) simp
    ultimately show ?thesis using fr False unfolding w st by simp
  next
    case True
    then have z: "b_refcnt (bufs s ?i) - 1 = 0" using dec by (metis diff_self_eq_0 unat_eq_zero)
    then have st: "brelse_st ?i s = lru_front ?i ?d" by (simp add: brelse_st_def)
    let ?t = "lru_front ?i ?d"
    obtain n m where bi: "bufs ?t ?i = (b_refcnt_update (\<lambda>n. n - 1) (bufs s ?i))\<lparr>b_next := n, b_prev := m\<rparr>"
      using lru_front_links [of ?i ?d ?i] by auto
    have others: "same_buf s ?t j" if "j < NBUF" "j \<noteq> ?i" for j
      using lru_front_links [of ?i ?d j] that by (auto simp: same_buf_def)
    have only: "\<not> caches (bufs s j) b" if "j < NBUF" "j \<noteq> ?i" for j
      using bio_invD(4) [OF s that(1) ef(8) _ ef(1)] that by blast
    have ok: "buf_ok p ?t ?i" using z ef cl [OF True] bi by (auto simp: buf_ok_def caches_def)
    have bt: "caches (bufs ?t ?i) b" using bi ef(1) by (simp add: caches_def)
    have lru: "lru_ok ?t"
    proof -
      obtain xs where r: "ring (bnx s) (bpv s) xs" "set xs = {..<NBUF}" by (rule lru_walks [OF s])
      then obtain us ws where xs: "xs = us @ ?i # ws" using ef(8) split_list [of ?i xs] by auto
      have "bnx ?d = bnx s" "bpv ?d = bpv s" by (auto simp: fun_eq_iff)
      then have "ring (bnx ?d) (bpv ?d) (us @ ?i # ws)" using r(1) xs by simp
      from lru_front_ring [OF this] have "ring (bnx ?t) (bpv ?t) (?i # us @ ws)" .
      moreover have "set (?i # us @ ws) = {..<NBUF}" using r(2) xs by auto
      ultimately show ?thesis unfolding lru_ok_def by blast
    qed
    have inv: "bio_inv p ?t"
      using c by (intro bio_inv_step [OF s _ lru _ ef(8) others ok bt _ only]) simp_all
    have "ents ?t = (ents s)(b := if b_refcnt (bufs ?t ?i) = 0 then None else Some (ent_of ?t ?i))"
      using ef(1) by (intro ents_step [OF s inv ef(8) others _ bt only]) auto
    moreover have "b_refcnt (bufs ?t ?i) = 0" using bi z by simp
    ultimately show ?thesis using inv fr True unfolding w st by simp
  qed
qed

end
