(* ===== verification/Block_Store.thy ===== *)
theory Block_Store
  imports Bio_Cache
begin

text \<open>
  The buffer cache as an interface. The locale \<open>block_store\<close> has the operations a client calls and
  the laws the cache promises, on the map \<open>ent\<close> of the blocks in use and the disk \<open>dsk\<close>; its lemmas
  are the access patterns of \<^verbatim>\<open>log.c\<close> and \<^verbatim>\<open>fs.c\<close>: read a block and let it go, update a
  block on the disk, copy one block to another. The cache of \<^verbatim>\<open>bio.c\<close> is an interpretation.
\<close>

definition cnt_of :: "bent option \<Rightarrow> nat" where
  "cnt_of x = (case x of None \<Rightarrow> 0 | Some e \<Rightarrow> e_cnt e)"

definition data_of :: "bent option \<Rightarrow> bytes \<Rightarrow> bytes" where
  "data_of x d = (case x of None \<Rightarrow> d | Some e \<Rightarrow> e_data e)"

definition free_of :: "bent option \<Rightarrow> bool" where
  "free_of x = (case x of None \<Rightarrow> True | Some e \<Rightarrow> \<not> e_held e)"

definition idx_of :: "nat \<Rightarrow> bent option \<Rightarrow> bool" where
  "idx_of i x = (case x of None \<Rightarrow> True | Some e \<Rightarrow> e_idx e = i)"

lemma of_simps [simp]:
  "cnt_of None = 0" "cnt_of (Some e) = e_cnt e" "data_of None d = d" "data_of (Some e) d = e_data e"
  "free_of None" "free_of (Some e) = (\<not> e_held e)" "idx_of i None" "idx_of i (Some e) = (e_idx e = i)"
  by (simp_all add: cnt_of_def data_of_def free_of_def idx_of_def)

text \<open>A block can be had: nobody holds it, there is a buffer for it, its count does not overflow.\<close>

definition can_get :: "(uint \<Rightarrow> bent option) \<Rightarrow> uint \<Rightarrow> bool" where
  "can_get E b \<longleftrightarrow> free_of (E b) \<and> (E b \<noteq> None \<or> card (dom E) < NBUF) \<and> cnt_of (E b) + 1 < 4294967296"

definition got_block :: "(uint \<Rightarrow> bent option) \<Rightarrow> (uint \<Rightarrow> bytes) \<Rightarrow> uint \<Rightarrow> nat \<Rightarrow> bent" where
  "got_block E D b i = \<lparr>e_idx = i, e_cnt = Suc (cnt_of (E b)), e_data = data_of (E b) (D b), e_held = True\<rparr>"

definition let_go :: "bent \<Rightarrow> bent option" where
  "let_go e = (if e_cnt e = 1 then None else Some (e\<lparr>e_cnt := e_cnt e - 1, e_held := False\<rparr>))"

lemma let_go_got:
  assumes "idx_of i (E b)" "free_of (E b)" "E b \<noteq> None \<Longrightarrow> 0 < cnt_of (E b)"
  shows "let_go (got_block E D b i) = (E b :: bent option)"
  using assms by (cases "E b") (auto simp: let_go_def got_block_def)

text \<open>What is left of a block whose contents were replaced, and then let go.\<close>

definition new_data :: "bent option \<Rightarrow> bytes \<Rightarrow> bent option" where
  "new_data x d = map_option (e_data_update (\<lambda>_. d)) x"

lemma let_go_set:
  assumes "idx_of i x" "free_of x" "x \<noteq> None \<Longrightarrow> 0 < cnt_of x"
  shows "let_go \<lparr>e_idx = i, e_cnt = Suc (cnt_of x), e_data = d, e_held = True\<rparr> = new_data x d"
  using assms by (cases x) (auto simp: let_go_def new_data_def)

lemma new_data_same: "x = Some e \<Longrightarrow> e_data e = d \<Longrightarrow> new_data x d = x" "new_data None d = None"
  by (auto simp: new_data_def)

lemma got_block_fields [simp]:
  "e_idx (got_block E D b i) = i" "e_held (got_block E D b i)" "e_cnt (got_block E D b i) = Suc (cnt_of (E b))"
  "e_data (got_block E D b i) = data_of (E b) (D b)"
  by (simp_all add: got_block_def)

lemma new_data_fields [simp]:
  "cnt_of (new_data x d) = cnt_of x" "free_of (new_data x d) = free_of x" "new_data x d = None \<longleftrightarrow> x = None"
  "data_of (new_data x d) d = d" "new_data (new_data x c) d = new_data x d"
  by (cases x; simp add: new_data_def)+

locale block_store =
  fixes inv :: "'s \<Rightarrow> bool"
    and ent :: "'s \<Rightarrow> uint \<Rightarrow> bent option"
    and dsk :: "'s \<Rightarrow> uint \<Rightarrow> bytes"
    and wrs :: "'s \<Rightarrow> (uint \<times> bytes) list"
    and frame :: "'s \<Rightarrow> 's \<Rightarrow> bool"
    and getd :: "nat \<Rightarrow> 's \<Rightarrow> bytes"
    and rd :: "uint \<Rightarrow> (nat, 's) kmonad"
    and setd :: "nat \<Rightarrow> (bytes \<Rightarrow> bytes) \<Rightarrow> (unit, 's) kmonad"
    and wr :: "nat \<Rightarrow> (unit, 's) kmonad"
    and rl :: "nat \<Rightarrow> (unit, 's) kmonad"
  assumes frame_refl: "frame s s"
    and frame_trans: "frame s t \<Longrightarrow> frame t u \<Longrightarrow> frame s u"
    and ent_inj: "inv s \<Longrightarrow> ent s b = Some e \<Longrightarrow> ent s c = Some d \<Longrightarrow> e_idx e = e_idx d \<Longrightarrow> b = c"
    and ent_pos: "inv s \<Longrightarrow> ent s b = Some e \<Longrightarrow> 0 < e_cnt e"
    and getd_law: "inv s \<Longrightarrow> ent s b = Some e \<Longrightarrow> getd (e_idx e) s = e_data e"
    and rd_law: "inv s \<Longrightarrow> can_get (ent s) b \<Longrightarrow>
      wp (rd b) (\<lambda>i t. inv t \<and> frame s t \<and> dsk t = dsk s \<and> wrs t = wrs s \<and> idx_of i (ent s b) \<and>
        ent t = (ent s)(b \<mapsto> got_block (ent s) (dsk s) b i)) s"
    and setd_law: "inv s \<Longrightarrow> ent s b = Some e \<Longrightarrow> e_held e \<Longrightarrow>
      wp (setd (e_idx e) f) (\<lambda>_ t. inv t \<and> frame s t \<and> dsk t = dsk s \<and> wrs t = wrs s \<and>
        ent t = (ent s)(b \<mapsto> e\<lparr>e_data := f (e_data e)\<rparr>)) s"
    and wr_law: "inv s \<Longrightarrow> ent s b = Some e \<Longrightarrow> e_held e \<Longrightarrow>
      wp (wr (e_idx e)) (\<lambda>_ t. inv t \<and> frame s t \<and> dsk t = (dsk s)(b := e_data e) \<and>
        wrs t = wrs s @ [(b, e_data e)] \<and> ent t = ent s) s"
    and rl_law: "inv s \<Longrightarrow> ent s b = Some e \<Longrightarrow> e_held e \<Longrightarrow> (e_cnt e = 1 \<Longrightarrow> e_data e = dsk s b) \<Longrightarrow>
      wp (rl (e_idx e)) (\<lambda>_ t. inv t \<and> frame s t \<and> dsk t = dsk s \<and> wrs t = wrs s \<and>
        ent t = (ent s)(b := let_go e)) s"
begin

text \<open>The laws in the form that steps through a program: a state described by its map and disk.\<close>

definition at :: "'s \<Rightarrow> (uint \<Rightarrow> bent option) \<Rightarrow> (uint \<Rightarrow> bytes) \<Rightarrow> (uint \<times> bytes) list \<Rightarrow> 's \<Rightarrow> bool" where
  "at s0 E D W s \<longleftrightarrow> inv s \<and> frame s0 s \<and> ent s = E \<and> dsk s = D \<and> wrs s = W"

lemma at_step:
  "at s0 E D W s \<Longrightarrow> inv t \<Longrightarrow> frame s t \<Longrightarrow> ent t = E' \<Longrightarrow> dsk t = D' \<Longrightarrow> wrs t = W' \<Longrightarrow> at s0 E' D' W' t"
  unfolding at_def using frame_trans by blast

lemma atD: "at s0 E D W s \<Longrightarrow> inv s \<and> frame s0 s \<and> ent s = E \<and> dsk s = D \<and> wrs s = W"
  by (simp add: at_def)

lemma at_rd:
  assumes "at s0 E D W s" "can_get E b"
    and "\<And>i t. at s0 (E(b \<mapsto> got_block E D b i)) D W t \<Longrightarrow> idx_of i (E b) \<Longrightarrow> wp (k i) Q t"
  shows "wp (kbind (rd b) k) Q s"
  unfolding wp_kbind
  using atD [OF assms(1)] assms(2)
  by (intro wp_mono [OF rd_law [of s b]]) (auto intro!: assms(3) at_step [OF assms(1)])

lemma at_setd:
  assumes "at s0 E D W s" "E b = Some e" "e_held e" "e_idx e = i"
    and "\<And>t. at s0 (E(b \<mapsto> e\<lparr>e_data := f (e_data e)\<rparr>)) D W t \<Longrightarrow> Q () t"
  shows "wp (setd i f) Q s"
  using atD [OF assms(1)] assms(2,3)
  by (intro wp_mono [OF setd_law [of s b e, unfolded assms(4)]]) (auto intro!: assms(5) at_step [OF assms(1)])

lemma at_wr:
  assumes "at s0 E D W s" "E b = Some e" "e_held e" "e_idx e = i"
    and "\<And>t. at s0 E (D(b := e_data e)) (W @ [(b, e_data e)]) t \<Longrightarrow> Q () t"
  shows "wp (wr i) Q s"
  using atD [OF assms(1)] assms(2,3)
  by (intro wp_mono [OF wr_law [of s b e, unfolded assms(4)]]) (auto intro!: assms(5) at_step [OF assms(1)])

lemma at_rl:
  assumes "at s0 E D W s" "E b = Some e" "e_held e" "e_idx e = i" "e_cnt e = 1 \<Longrightarrow> e_data e = D b"
    and "\<And>t. at s0 (E(b := let_go e)) D W t \<Longrightarrow> Q () t"
  shows "wp (rl i) Q s"
  using atD [OF assms(1)] assms(2,3,5)
  by (intro wp_mono [OF rl_law [of s b e, unfolded assms(4)]]) (auto intro!: assms(6) at_step [OF assms(1)])

lemma at_getd: "at s0 E D W s \<Longrightarrow> E b = Some e \<Longrightarrow> getd (e_idx e) s = e_data e"
  using getd_law [of s b e] by (auto simp: at_def)

lemma at_cnt: "at s0 E D W s \<Longrightarrow> E b \<noteq> None \<Longrightarrow> 0 < cnt_of (E b)"
  by (cases "E b") (auto simp: at_def dest: ent_pos)

text \<open>Read a block, use its contents, let it go.\<close>

lemma at_read:
  assumes a: "at s0 E D W s" and g: "can_get E b"
    and k: "\<And>i t. at s0 (E(b \<mapsto> got_block E D b i)) D W t \<Longrightarrow> wp (k i) (\<lambda>r u. u = t \<and> P r) t"
    and q: "\<And>r t. at s0 E D W t \<Longrightarrow> P r \<Longrightarrow> Q r t"
  shows "wp (kbind (rd b) (\<lambda>i. kbind (k i) (\<lambda>r. kthen [rl i] (kreturn r)))) Q s"
proof (rule at_rd [OF a g])
  fix i t assume t: "at s0 (E(b \<mapsto> got_block E D b i)) D W t" and i: "idx_of i (E b)"
  have free: "free_of (E b)" using g by (simp add: can_get_def)
  have "let_go (got_block E D b i) = E b" using i free at_cnt [OF a] by (rule let_go_got)
  then have E: "E(b := let_go (got_block E D b i)) = E" by simp
  have rl: "wp (rl i) (\<lambda>_. Q r) t" if "P r" for r
  proof (rule at_rl [OF t, of b "got_block E D b i"])
    show "Q r u" if "at s0 ((E(b \<mapsto> got_block E D b i))(b := let_go (got_block E D b i))) D W u" for u
      using q [OF _ \<open>P r\<close>] that E by simp
    show "e_cnt (got_block E D b i) = 1 \<Longrightarrow> e_data (got_block E D b i) = D b"
      using at_cnt [OF a, of b] by (cases "E b") auto
  qed simp_all
  show "wp (kbind (k i) (\<lambda>r. kthen [rl i] (kreturn r))) Q t"
    unfolding wp_kbind by (rule wp_mono [OF k [OF t]]) (auto simp: wp_simps rl)
qed

text \<open>Copy one block in use to another that is held.\<close>

lemma at_mv:
  assumes "at s0 E D W s" "E b = Some e" "e_held e" "e_idx e = i" "E c = Some d" "e_idx d = j"
    and "\<And>t. at s0 (E(b \<mapsto> e\<lparr>e_data := e_data d\<rparr>)) D W t \<Longrightarrow> Q () t"
  shows "wp (kbind (kgets (getd j)) (\<lambda>x. setd i (\<lambda>_. x))) Q s"
proof -
  have g: "getd j s = e_data d" using assms(1,5,6) getd_law [of s c d] by (auto simp: at_def)
  show ?thesis
    unfolding wp_kbind wp_kgets g using assms(7) by (intro at_setd [OF assms(1,2,3,4)]) simp
qed

end

section \<open>The cache of bio.c\<close>

text \<open>\<^verbatim>\<open>memmove(to->data, from->data, BSIZE)\<close> between two buffers.\<close>

definition buf_copy :: "nat \<Rightarrow> nat \<Rightarrow> (unit, 'a) bioop" where
  "buf_copy to from = kbind (kgets (\<lambda>s. b_data (bufs s from))) (\<lambda>d. set_buf to (b_data_update (\<lambda>_. d)))"

lemma can_get_bio: "can_get (ents s) b \<longleftrightarrow> unheld s b \<and> room s b \<and> cnt s b + 1 < 4294967296"
  by (cases "ents s b") (auto simp: can_get_def unheld_def room_def cnt_def)

lemma got_block_bio: "got_block (ents s) (disk s) b i =
  \<lparr>e_idx = i, e_cnt = Suc (cnt s b), e_data = view s b, e_held = True\<rparr>"
  by (cases "ents s b") (auto simp: got_block_def cnt_def view_def)

interpretation bc: block_store "bio_inv p" ents disk dwrites bio_frame "\<lambda>i s. b_data (bufs s i)"
  "bread ROOTDEV" "\<lambda>i f. set_buf i (b_data_update f)" bwrite brelse for p
proof
  fix s t u :: "'a bio_st_scheme" and b c e d f
  show "bio_frame s s" by simp
  show "bio_frame s t \<Longrightarrow> bio_frame t u \<Longrightarrow> bio_frame s u" by (rule bio_frame_trans)
  assume s: "bio_inv p s"
  show "ents s b = Some e \<Longrightarrow> ents s c = Some d \<Longrightarrow> e_idx e = e_idx d \<Longrightarrow> b = c" by (rule ent_idx_inj [OF s])
  show "ents s b = Some e \<Longrightarrow> 0 < e_cnt e" using ent_fields(9) [OF s] .
  show "ents s b = Some e \<Longrightarrow> b_data (bufs s (e_idx e)) = e_data e" using ent_fields(4) [OF s] .
  show "can_get (ents s) b \<Longrightarrow> wp (bread ROOTDEV b) (\<lambda>i t. bio_inv p t \<and> bio_frame s t \<and> disk t = disk s \<and>
      dwrites t = dwrites s \<and> idx_of i (ents s b) \<and> ents t = (ents s)(b \<mapsto> got_block (ents s) (disk s) b i)) s"
    unfolding can_get_bio got_block_bio
    by (rule wp_mono [OF bread_spec [OF s, of b]]) (auto simp: idx_of_def split: option.splits)
  assume e: "ents s b = Some e"
  show "wp (set_buf (e_idx e) (b_data_update f)) (\<lambda>_ t. bio_inv p t \<and> bio_frame s t \<and> disk t = disk s \<and>
      dwrites t = dwrites s \<and> ents t = (ents s)(b \<mapsto> e\<lparr>e_data := f (e_data e)\<rparr>)) s"
    using set_data_spec [OF s e] by (simp add: wp_simps)
  assume h: "e_held e"
  show "wp (bwrite (e_idx e)) (\<lambda>_ t. bio_inv p t \<and> bio_frame s t \<and> disk t = (disk s)(b := e_data e) \<and>
      dwrites t = dwrites s @ [(b, e_data e)] \<and> ents t = ents s) s" by (rule bwrite_spec [OF s e h])
  show "(e_cnt e = 1 \<Longrightarrow> e_data e = disk s b) \<Longrightarrow> wp (brelse (e_idx e)) (\<lambda>_ t. bio_inv p t \<and> bio_frame s t \<and>
      disk t = disk s \<and> dwrites t = dwrites s \<and> ents t = (ents s)(b := let_go e)) s"
    unfolding let_go_def by (rule brelse_spec [OF s e h])
qed

end
