(* ===== verification/Log.thy ===== *)
theory Log
  imports Block_Store
begin

text \<open>
  The redo log, \<^verbatim>\<open>kernel/log.c\<close>. The state gains \<^verbatim>\<open>struct log\<close>. The header block and the
  block numbers in it are laid out in the bytes of the block as \<^verbatim>\<open>struct logheader\<close> is.
  \<open>begin_op\<close> is split where it sleeps.
\<close>

section \<open>State\<close>

record superblock =
  sb_magic :: uint
  sb_size :: uint
  sb_nblocks :: uint
  sb_ninodes :: uint
  sb_nlog :: uint
  sb_logstart :: uint
  sb_inodestart :: uint
  sb_bmapstart :: uint

record logst =
  l_start :: uint
  l_size :: int
  l_outstanding :: int
  l_committing :: bool
  l_dev :: uint
  lh_n :: int
  lh_block :: "nat \<Rightarrow> uint"

record log_st = bio_st +
  klog :: logst

type_synonym ('r, 'a) logop = "('r, 'a log_st_scheme) kmonad"

definition set_log :: "(logst \<Rightarrow> logst) \<Rightarrow> (unit, 'a) logop" where
  "set_log f = kmodify (\<lambda>s. s\<lparr>klog := f (klog s)\<rparr>)"

text \<open>\<^verbatim>\<open>struct logheader\<close> in the bytes of a block.\<close>

definition hdr_n :: "bytes \<Rightarrow> int" where
  "hdr_n d = sint (get32 d 0)"

definition hdr_block :: "bytes \<Rightarrow> nat \<Rightarrow> uint" where
  "hdr_block d i = get32 d (4 + 4 * i)"

definition hdr_put :: "int \<Rightarrow> (nat \<Rightarrow> uint) \<Rightarrow> bytes \<Rightarrow> bytes" where
  "hdr_put n blk d = foldl (\<lambda>d i. put32 d (4 + 4 * i) (blk i)) (put32 d 0 (of_int n)) [0..<nat n]"

section \<open>Operations\<close>

text \<open>The body of the loop of \<^verbatim>\<open>install_trans\<close>, and the loop.\<close>

definition install_block :: "bool \<Rightarrow> nat \<Rightarrow> (unit, 'a) logop" where
  "install_block recovering tail = kbind (kgets klog) (\<lambda>l.
     kbind (bread (l_dev l) (l_start l + of_nat tail + 1)) (\<lambda>lbuf.
     kbind (bread (l_dev l) (lh_block l tail)) (\<lambda>dbuf. kdo [
       buf_copy dbuf lbuf,
       bwrite dbuf,
       if recovering then kreturn () else bunpin dbuf,
       brelse lbuf,
       brelse dbuf])))"

definition install_trans :: "bool \<Rightarrow> (unit, 'a) logop" where
  "install_trans recovering = kbind (kgets (\<lambda>s. lh_n (klog s))) (\<lambda>n.
     kforeach [0..<nat n] (install_block recovering))"

definition read_head :: "(unit, 'a) logop" where
  "read_head = kbind (kgets klog) (\<lambda>l. kbind (bread (l_dev l) (l_start l)) (\<lambda>buf. kdo [
     kbind (get_buf buf) (\<lambda>bf. set_log (\<lambda>l. l\<lparr>lh_n := hdr_n (b_data bf),
       lh_block := (\<lambda>i. if i < nat (hdr_n (b_data bf)) then hdr_block (b_data bf) i else lh_block l i)\<rparr>)),
     brelse buf]))"

definition write_head :: "(unit, 'a) logop" where
  "write_head = kbind (kgets klog) (\<lambda>l. kbind (bread (l_dev l) (l_start l)) (\<lambda>buf. kdo [
     set_buf buf (b_data_update (hdr_put (lh_n l) (lh_block l))),
     bwrite buf,
     brelse buf]))"

definition recover_from_log :: "(unit, 'a) logop" where
  "recover_from_log = kdo [
     read_head,
     install_trans True,
     set_log (lh_n_update (\<lambda>_. 0)),
     write_head]"

definition initlog :: "uint \<Rightarrow> superblock \<Rightarrow> (unit, 'a) logop" where
  "initlog dev sb = kdo [
     panic_if (\<lambda>_. 4 + 4 * LOGSIZE \<ge> BSIZE) ''initlog: too big logheader'',
     initlock LogLock ''log'',
     set_log (\<lambda>l. l\<lparr>l_start := sb_logstart sb, l_size := sint (sb_nlog sb), l_dev := dev\<rparr>),
     recover_from_log]"

text \<open>One round of the loop in \<^verbatim>\<open>begin_op\<close>.\<close>

definition begin_round :: "(unit, 'a) logop" where
  "begin_round =
     kif (\<lambda>s. l_committing (klog s))
       (sleep LogChan LogLock)
       (kif (\<lambda>s. lh_n (klog s) + (l_outstanding (klog s) + 1) * int MAXOPBLOCKS > int LOGSIZE)
         (sleep LogChan LogLock)
         (kdo [
            set_log (l_outstanding_update (\<lambda>n. n + 1)),
            release LogLock]))"

definition begin_op :: "(unit, 'a) logop" where
  "begin_op = kdo [acquire LogLock, begin_round]"

definition begin_op_return :: "bool \<Rightarrow> (unit, 'a) logop" where
  "begin_op_return old = kdo [sleep_return old LogLock, begin_round]"

definition write_log_block :: "nat \<Rightarrow> (unit, 'a) logop" where
  "write_log_block tail = kbind (kgets klog) (\<lambda>l.
     kbind (bread (l_dev l) (l_start l + of_nat tail + 1)) (\<lambda>to.
     kbind (bread (l_dev l) (lh_block l tail)) (\<lambda>from. kdo [
       buf_copy to from,
       bwrite to,
       brelse from,
       brelse to])))"

definition write_log :: "(unit, 'a) logop" where
  "write_log = kbind (kgets (\<lambda>s. lh_n (klog s))) (\<lambda>n. kforeach [0..<nat n] write_log_block)"

definition commit :: "(unit, 'a) logop" where
  "commit = kwhen (\<lambda>s. lh_n (klog s) > 0) (kdo [
     write_log,
     write_head,
     install_trans False,
     set_log (lh_n_update (\<lambda>_. 0)),
     write_head])"

definition end_op :: "(unit, 'a) logop" where
  "end_op = kthen [
     acquire LogLock,
     set_log (l_outstanding_update (\<lambda>n. n - 1)),
     panic_if (\<lambda>s. l_committing (klog s)) ''log.committing''] (
     kbind (kgets (\<lambda>s. l_outstanding (klog s) = 0)) (\<lambda>do_commit. kdo [
       if do_commit then set_log (l_committing_update (\<lambda>_. True)) else wakeup LogChan,
       release LogLock,
       if do_commit then kdo [
         commit,
         acquire LogLock,
         set_log (l_committing_update (\<lambda>_. False)),
         wakeup LogChan,
         release LogLock]
       else kreturn ()]))"

text \<open>The index at which the loop of \<^verbatim>\<open>log_write\<close> stops.\<close>

definition log_index :: "logst \<Rightarrow> uint \<Rightarrow> nat" where
  "log_index l b = (case find (\<lambda>i. lh_block l i = b) [0..<nat (lh_n l)] of Some i \<Rightarrow> i | None \<Rightarrow> nat (lh_n l))"

definition log_write :: "nat \<Rightarrow> (unit, 'a) logop" where
  "log_write b = kthen [
     acquire LogLock,
     panic_if (\<lambda>s. lh_n (klog s) \<ge> int LOGSIZE \<or> lh_n (klog s) \<ge> l_size (klog s) - 1) ''too big a transaction'',
     panic_if (\<lambda>s. l_outstanding (klog s) < 1) ''log_write outside of trans''] (
     kbind (kgets (\<lambda>s. b_blockno (bufs s b))) (\<lambda>bno.
     kbind (kgets (\<lambda>s. log_index (klog s) bno)) (\<lambda>i. kdo [
       set_log (\<lambda>l. l\<lparr>lh_block := (lh_block l)(i := bno)\<rparr>),
       kwhen (\<lambda>s. int i = lh_n (klog s)) (kdo [
         bpin b,
         set_log (lh_n_update (\<lambda>n. n + 1))]),
       release LogLock])))"

section \<open>Frames\<close>

lemma klog_proj [simp]:
  "klog (acq lk s) = klog s"
  "klog (rel lk s) = klog s"
  "klog (lockcycle s) = klog s"
  by (simp_all add: lock_defs Let_def)

lemma klog_lock [simp]:
  "lock_ok lk (klog_update f0 s) = lock_ok lk s"
  "holding lk (klog_update f0 s) = holding lk s"
  "irq_ok (klog_update f0 s) = irq_ok s"
  "irq_held (klog_update f0 s) = irq_held s"
  "intr_get (klog_update f0 s) = intr_get s"
  "cpuid (klog_update f0 s) = cpuid s"
  "mycpu (klog_update f0 s) = mycpu s"
  by (simp_all add: lock_defs)

lemma klog_comm [simp]:
  "acq lk (klog_update f0 s) = klog_update f0 (acq lk s)"
  "rel lk (klog_update f0 s) = klog_update f0 (rel lk s)"
  "lockcycle (klog_update f0 s) = klog_update f0 (lockcycle s)"
  by (simp_all add: lock_defs Let_def)


end
