(* ===== verification/Log_Commit.thy ===== *)
theory Log_Commit
  imports Log
begin

text \<open>
  What the log guarantees. \<open>commit\<close> gives the disk a fixed sequence of writes: the new contents to
  the log, the header, the new contents to their home blocks, and an empty header. A crash leaves
  the disk after some prefix of them; \<open>recover_from_log\<close>, run from a fresh boot, then restores
  either all of the old or all of the new contents. A crash during recovery is harmless: recovery
  run again ends in the same disk.
\<close>

section \<open>States described by the cache's map, the disk and the log\<close>

lemma ent_of_klog [simp]: "ent_of (klog_update f s) = ent_of s"
  by (simp add: fun_eq_iff ent_of_def)

lemma klog_bio [simp]: "ents (klog_update f s) = ents s" "calm p (klog_update f s) = calm p s"
proof -
  have "bufno (klog_update f s) = bufno s" by (simp add: fun_eq_iff bufno_def)
  then show "ents (klog_update f s) = ents s"
    by (auto simp: ents_def fun_eq_iff split: option.split)
qed (simp add: calm_def)

lemma klog_bio_inv [simp]: "bio_inv p (klog_update f s) = bio_inv p s"
  by (simp add: bio_inv_def lru_ok_def buf_ok_def)

definition log_frame :: "'a log_st_scheme \<Rightarrow> 'a log_st_scheme \<Rightarrow> bool" where
  "log_frame s t \<longleftrightarrow> t = s\<lparr>sleeplocks := sleeplocks t, bufs := bufs t, disk := disk t, dwrites := dwrites t, klog := klog t\<rparr> \<and>
     (\<forall>lk. (\<forall>i. lk \<noteq> BufLk i) \<longrightarrow> sleeplocks t lk = sleeplocks s lk)"

lemma log_frame_refl [simp]: "log_frame s s"
  by (simp add: log_frame_def)

lemma log_frame_trans: "log_frame s t \<Longrightarrow> log_frame t u \<Longrightarrow> log_frame s u"
proof -
  assume st: "log_frame s t" and tu: "log_frame t u"
  have "u = t\<lparr>sleeplocks := sleeplocks u, bufs := bufs u, disk := disk u, dwrites := dwrites u, klog := klog u\<rparr>"
    using tu by (simp add: log_frame_def)
  also have "\<dots> = (s\<lparr>sleeplocks := sleeplocks t, bufs := bufs t, disk := disk t, dwrites := dwrites t, klog := klog t\<rparr>)
      \<lparr>sleeplocks := sleeplocks u, bufs := bufs u, disk := disk u, dwrites := dwrites u, klog := klog u\<rparr>"
    using st by (simp add: log_frame_def)
  also have "\<dots> = s\<lparr>sleeplocks := sleeplocks u, bufs := bufs u, disk := disk u, dwrites := dwrites u, klog := klog u\<rparr>" by simp
  finally show ?thesis using st tu by (simp add: log_frame_def)
qed

lemma bio_log_frame: "bio_frame s t \<Longrightarrow> log_frame s t \<and> klog t = klog s"
proof -
  assume f: "bio_frame s t"
  have e: "t = s\<lparr>sleeplocks := sleeplocks t, bufs := bufs t, disk := disk t, dwrites := dwrites t\<rparr>"
    using f by (simp add: bio_frame_def)
  from arg_cong [OF this, of klog] have k: "klog t = klog s" by simp
  have "t = s\<lparr>sleeplocks := sleeplocks t, bufs := bufs t, disk := disk t, dwrites := dwrites t, klog := klog t\<rparr>"
    by (subst e) (simp add: k)
  with f k show ?thesis by (simp add: log_frame_def bio_frame_def)
qed

definition lat :: "nat \<Rightarrow> 'a log_st_scheme \<Rightarrow> (uint \<Rightarrow> bent option) \<Rightarrow> (uint \<Rightarrow> bytes) \<Rightarrow> (uint \<times> bytes) list \<Rightarrow>
    logst \<Rightarrow> 'a log_st_scheme \<Rightarrow> bool" where
  "lat p s0 E D W L s \<longleftrightarrow> bio_inv p s \<and> log_frame s0 s \<and> ents s = E \<and> disk s = D \<and> dwrites s = W \<and> klog s = L"

lemma lat_at: "lat p s0 E D W L s \<Longrightarrow> bc.at p s E D W s"
  by (simp add: lat_def bc.at_def)

lemma at_lat:
  assumes "lat p s0 E D W L s" "bc.at p s E' D' W' t"
  shows "lat p s0 E' D' W' L t"
  using assms bio_log_frame [of s t] log_frame_trans [of s0 s t] by (simp add: lat_def bc.at_def)

lemma lat_log: "lat p s0 E D W L s \<Longrightarrow> lat p s0 E D W (f L) (s\<lparr>klog := f (klog s)\<rparr>)"
proof -
  assume l: "lat p s0 E D W L s"
  have "log_frame s (s\<lparr>klog := f (klog s)\<rparr>)" by (simp add: log_frame_def)
  with l log_frame_trans [of s0 s] show ?thesis by (simp add: lat_def)
qed

lemma wp_set_log [wp_simps]: "wp (set_log f) Q s = Q () (s\<lparr>klog := f (klog s)\<rparr>)"
  by (simp add: set_log_def wp_simps)

section \<open>Copying the changed blocks to the log\<close>

definition log_home :: "logst \<Rightarrow> nat \<Rightarrow> uint" where
  "log_home L i = lh_block L i"

definition log_slot :: "logst \<Rightarrow> nat \<Rightarrow> uint" where
  "log_slot L i = l_start L + of_nat i + 1"

lemma write_log_block_spec:
  assumes l: "lat p s0 E D W L s" and dev: "l_dev L = ROOTDEV" and b: "b = log_slot L i" "E b = None"
    and c: "E (lh_block L i) = Some e" "\<not> e_held e" "e_cnt e + 1 < 4294967296" and rm: "card (dom E) < NBUF"
  shows "wp (write_log_block i) (\<lambda>_. lat p s0 E (D(b := e_data e)) (W @ [(b, e_data e)]) L) s"
proof -
  let ?c = "lh_block L i"
  have ne: "b \<noteq> ?c" using b c by auto
  have kl: "klog s = L" using l by (simp add: lat_def)
  note a = lat_at [OF l]
  have cpos: "0 < e_cnt e" using bc.at_cnt [OF a, of ?c] c by simp
  show ?thesis
    unfolding write_log_block_def wp_kbind [of "kgets klog"] wp_kgets kl dev b(1) [unfolded log_slot_def, symmetric]
  proof (rule bc.at_rd [OF a])
    show "can_get E b" using b rm by (simp add: can_get_def)
    fix i t assume t: "bc.at p s (E(b \<mapsto> got_block E D b i)) D W t"
    show "wp (kbind (bread ROOTDEV ?c) (\<lambda>from. kdo [buf_copy i from, bwrite i, brelse from, brelse i]))
      (\<lambda>_. lat p s0 E (D(b := e_data e)) (W @ [(b, e_data e)]) L) t"
    proof (rule bc.at_rd [OF t])
      show "can_get (E(b \<mapsto> got_block E D b i)) ?c" using c ne by (simp add: can_get_def)
      fix j u
      let ?b = "\<lparr>e_idx = i, e_cnt = 1, e_data = D b, e_held = True\<rparr>"
      let ?d = "\<lparr>e_idx = j, e_cnt = Suc (e_cnt e), e_data = e_data e, e_held = True\<rparr>"
      have gb: "got_block E D b i = ?b" using b by (simp add: got_block_def)
      have gc: "got_block (E(b \<mapsto> x)) D ?c j = ?d" for x using c ne by (simp add: got_block_def)
      assume "bc.at p s ((E(b \<mapsto> got_block E D b i))(?c \<mapsto> got_block (E(b \<mapsto> got_block E D b i)) D ?c j)) D W u"
        and "idx_of j ((E(b \<mapsto> got_block E D b i)) ?c)"
      then have u: "bc.at p s (E(b \<mapsto> ?b, ?c \<mapsto> ?d)) D W u" and j: "e_idx e = j"
        using c ne unfolding gb gc by auto
      have g: "let_go ?d = Some e" "let_go \<lparr>e_idx = i, e_cnt = Suc 0, e_data = x, e_held = True\<rparr> = None" for x
        using c j cpos by (cases e, auto simp: let_go_def)+
      have fin: "E(?c \<mapsto> e, b := None) = E" using b(2) c(1) by (auto simp: fun_eq_iff)
      show "wp (kdo [buf_copy i j, bwrite i, brelse j, brelse i])
        (\<lambda>_. lat p s0 E (D(b := e_data e)) (W @ [(b, e_data e)]) L) u"
        unfolding wp_kdo_Cons buf_copy_def
        apply (rule bc.at_mv [OF u, of b ?b _ ?c ?d])
             apply (simp add: ne, simp, simp, simp, simp)
        apply (rule bc.at_wr [where b = b], assumption, simp, simp, simp)
        apply (rule bc.at_rl [where b = ?c and e = ?d], assumption, simp add: ne [symmetric], simp, simp)
         apply (use cpos in simp)
        apply (rule bc.at_rl [where b = b], assumption, simp add: ne, simp, simp, simp)
        subgoal for t1 t2 t3 t4
          using at_lat [OF l, of _ _ _ t4] by (simp add: wp_simps fun_upd_twist [OF ne] g fin)
        done
    qed
  qed
qed

text \<open>What the blocks of a transaction look like before the commit.\<close>

definition homes :: "logst \<Rightarrow> uint list" where
  "homes L = map (lh_block L) [0..<nat (lh_n L)]"

definition slots :: "logst \<Rightarrow> uint list" where
  "slots L = map (log_slot L) [0..<nat (lh_n L)]"

definition pinned :: "(uint \<Rightarrow> bent option) \<Rightarrow> uint \<Rightarrow> bool" where
  "pinned E b \<longleftrightarrow> (\<exists>e. E b = Some e \<and> \<not> e_held e \<and> e_cnt e + 1 < 4294967296)"

definition apply_writes :: "(uint \<times> bytes) list \<Rightarrow> (uint \<Rightarrow> bytes) \<Rightarrow> uint \<Rightarrow> bytes" where
  "apply_writes ws D = foldl (\<lambda>D (b, d). D(b := d)) D ws"

lemma apply_writes_simps [simp]:
  "apply_writes [] D = D" "apply_writes ((b, d) # ws) D = apply_writes ws (D(b := d))"
  "apply_writes (ws @ vs) D = apply_writes vs (apply_writes ws D)"
  by (simp_all add: apply_writes_def)

text \<open>The contents of a block as the cache shows it.\<close>

definition shown :: "(uint \<Rightarrow> bent option) \<Rightarrow> (uint \<Rightarrow> bytes) \<Rightarrow> uint \<Rightarrow> bytes" where
  "shown E D b = data_of (E b) (D b)"

lemma lat_view: "lat p s0 E D W L s \<Longrightarrow> view s b = shown E D b"
  by (cases "ents s b") (auto simp: lat_def view_def shown_def)

definition slot_writes :: "logst \<Rightarrow> (uint \<Rightarrow> bytes) \<Rightarrow> nat \<Rightarrow> (uint \<times> bytes) list" where
  "slot_writes L v n = map (\<lambda>i. (log_slot L i, v (lh_block L i))) [0..<n]"

definition home_writes :: "logst \<Rightarrow> (uint \<Rightarrow> bytes) \<Rightarrow> nat \<Rightarrow> (uint \<times> bytes) list" where
  "home_writes L v n = map (\<lambda>i. (lh_block L i, v (log_slot L i))) [0..<n]"

lemma apply_writes_other: "b \<notin> fst ` set ws \<Longrightarrow> apply_writes ws D b = D b"
  by (induction ws rule: rev_induct) auto

lemma write_log_spec:
  assumes l: "lat p s0 E D W L s" and dev: "l_dev L = ROOTDEV"
    and sl: "\<And>b. b \<in> set (slots L) \<Longrightarrow> E b = None" and hm: "\<And>b. b \<in> set (homes L) \<Longrightarrow> pinned E b"
    and rm: "card (dom E) < NBUF"
  shows "wp write_log (\<lambda>_. lat p s0 E (apply_writes (slot_writes L (shown E D) (nat (lh_n L))) D)
    (W @ slot_writes L (shown E D) (nat (lh_n L))) L) s"
proof -
  have kl: "klog s = L" using l by (simp add: lat_def)
  let ?I = "\<lambda>ys. lat p s0 E (apply_writes (slot_writes L (shown E D) (length ys)) D)
    (W @ slot_writes L (shown E D) (length ys)) L"
  show ?thesis
    unfolding write_log_def wp_kbind wp_kgets kl
  proof (rule wp_kforeach_inv [where I = ?I])
    show "?I [] s" using l by (simp add: slot_writes_def)
    fix ys i zs t assume i: "[0..<nat (lh_n L)] = ys @ i # zs" and t: "?I ys t"
    have ii: "i = length ys" "i < nat (lh_n L)" using upt_split [OF i] by auto
    have sn: "E (log_slot L i) = None" using ii sl by (simp add: slots_def)
    have "pinned E (lh_block L i)" using ii hm by (simp add: homes_def)
    then obtain e where e: "E (lh_block L i) = Some e" "\<not> e_held e" "e_cnt e + 1 < 4294967296"
      by (auto simp: pinned_def)
    have "slot_writes L (shown E D) (length (ys @ [i])) = slot_writes L (shown E D) (length ys) @ [(log_slot L i, e_data e)]"
      using ii e by (simp add: slot_writes_def shown_def)
    with write_log_block_spec [OF t dev refl sn e rm] show "wp (write_log_block i) (\<lambda>_. ?I (ys @ [i])) t" by simp
  qed simp
qed

section \<open>The header\<close>

lemma write_head_spec:
  assumes l: "lat p s0 E D W L s" and dev: "l_dev L = ROOTDEV" and E: "E (l_start L) = None" "card (dom E) < NBUF"
    and d: "d = hdr_put (lh_n L) (lh_block L) (D (l_start L))"
  shows "wp write_head (\<lambda>_. lat p s0 E (D(l_start L := d)) (W @ [(l_start L, d)]) L) s"
proof -
  have kl: "klog s = L" using l by (simp add: lat_def)
  note a = lat_at [OF l]
  let ?b = "l_start L"
  show ?thesis
    unfolding write_head_def wp_kbind [of "kgets klog"] wp_kgets kl dev
  proof (rule bc.at_rd [OF a])
    show "can_get E ?b" using E by (simp add: can_get_def)
    fix i t
    let ?e = "\<lparr>e_idx = i, e_cnt = 1, e_data = D ?b, e_held = True\<rparr>"
    have g: "got_block E D ?b i = ?e" using E by (simp add: got_block_def)
    assume "bc.at p s (E(?b \<mapsto> got_block E D ?b i)) D W t"
    then have t: "bc.at p s (E(?b \<mapsto> ?e)) D W t" by (simp add: g)
    have fin: "let_go \<lparr>e_idx = i, e_cnt = Suc 0, e_data = x, e_held = True\<rparr> = None" "E(?b := None) = E" for x
      using E(1) by (auto simp: let_go_def fun_eq_iff)
    show "wp (kdo [set_buf i (b_data_update (hdr_put (lh_n L) (lh_block L))), bwrite i, brelse i])
        (\<lambda>_. lat p s0 E (D(?b := d)) (W @ [(?b, d)]) L) t"
      unfolding wp_kdo_Cons
      apply (rule bc.at_setd [OF t, of ?b ?e], simp, simp, simp)
      apply (rule bc.at_wr [where b = ?b], assumption, simp, simp, simp)
      apply (rule bc.at_rl [where b = ?b], assumption, simp, simp, simp, simp)
      subgoal for t1 t2 t3 using at_lat [OF l, of _ _ _ t3] by (simp add: wp_simps fin d)
      done
  qed
qed

section \<open>Installing the blocks\<close>

lemma at_bunpin:
  assumes "bc.at p s0 E D W s" "E b = Some e" "e_idx e = i" "1 < e_cnt e"
    and "\<And>t. bc.at p s0 (E(b \<mapsto> e\<lparr>e_cnt := e_cnt e - 1\<rparr>)) D W t \<Longrightarrow> Q () t"
  shows "wp (bunpin i) Q s"
  using bc.atD [OF assms(1)] assms(2,4)
  by (intro wp_mono [OF bunpin_spec [of p s b e, unfolded assms(3)]]) (auto intro!: assms(5) bc.at_step [OF assms(1)])

definition unpin :: "bent \<Rightarrow> bent option" where
  "unpin e = (if e_cnt e = 1 then None else Some (e\<lparr>e_cnt := e_cnt e - 1\<rparr>))"

lemma install_block_spec:
  assumes l: "lat p s0 E D W L s" and dev: "l_dev L = ROOTDEV" and b: "b = log_slot L i" "E b = None"
    and c: "E (lh_block L i) = Some e" "\<not> e_held e" "e_cnt e + 1 < 4294967296" "e_data e = D b" and rm: "card (dom E) < NBUF"
  shows "wp (install_block False i)
    (\<lambda>_. lat p s0 (E(lh_block L i := unpin e)) (D(lh_block L i := D b)) (W @ [(lh_block L i, D b)]) L) s"
proof -
  let ?c = "lh_block L i"
  have ne: "b \<noteq> ?c" using b c by auto
  have kl: "klog s = L" using l by (simp add: lat_def)
  note a = lat_at [OF l]
  have cpos: "0 < e_cnt e" using bc.at_cnt [OF a, of ?c] c by simp
  show ?thesis
    unfolding install_block_def wp_kbind [of "kgets klog"] wp_kgets kl dev b(1) [unfolded log_slot_def, symmetric]
  proof (rule bc.at_rd [OF a])
    show "can_get E b" using b rm by (simp add: can_get_def)
    fix i t assume t: "bc.at p s (E(b \<mapsto> got_block E D b i)) D W t"
    show "wp (kbind (bread ROOTDEV ?c) (\<lambda>dbuf. kdo [buf_copy dbuf i, bwrite dbuf,
        if False then kreturn () else bunpin dbuf, brelse i, brelse dbuf]))
      (\<lambda>_. lat p s0 (E(?c := unpin e)) (D(?c := D b)) (W @ [(?c, D b)]) L) t"
    proof (rule bc.at_rd [OF t])
      show "can_get (E(b \<mapsto> got_block E D b i)) ?c" using c ne by (simp add: can_get_def)
      fix j u
      let ?b = "\<lparr>e_idx = i, e_cnt = 1, e_data = D b, e_held = True\<rparr>"
      let ?d = "\<lparr>e_idx = j, e_cnt = Suc (e_cnt e), e_data = e_data e, e_held = True\<rparr>"
      have gb: "got_block E D b i = ?b" using b by (simp add: got_block_def)
      have gc: "got_block (E(b \<mapsto> x)) D ?c j = ?d" for x using c ne by (simp add: got_block_def)
      assume "bc.at p s ((E(b \<mapsto> got_block E D b i))(?c \<mapsto> got_block (E(b \<mapsto> got_block E D b i)) D ?c j)) D W u"
        and "idx_of j ((E(b \<mapsto> got_block E D b i)) ?c)"
      then have u: "bc.at p s (E(b \<mapsto> ?b, ?c \<mapsto> ?d)) D W u" and j: "e_idx e = j"
        using c ne unfolding gb gc by auto
      have g: "let_go \<lparr>e_idx = j, e_cnt = e_cnt e, e_data = D b, e_held = True\<rparr> = unpin e"
        "let_go \<lparr>e_idx = i, e_cnt = Suc 0, e_data = D b, e_held = True\<rparr> = None"
        using c j cpos by (cases e, auto simp: let_go_def unpin_def)+
      have fin: "E(?c := x, b := None) = E(?c := x)" for x using b(2) ne by (auto simp: fun_eq_iff)
      show "wp (kdo [buf_copy j i, bwrite j, if False then kreturn () else bunpin j, brelse i, brelse j])
        (\<lambda>_. lat p s0 (E(?c := unpin e)) (D(?c := D b)) (W @ [(?c, D b)]) L) u"
        unfolding wp_kdo_Cons buf_copy_def if_False
        apply (rule bc.at_mv [OF u, of ?c ?d _ b ?b])
             apply (simp, simp, simp, simp add: ne, simp)
        apply (rule bc.at_wr [where b = ?c], assumption, simp, simp, simp)
        apply (rule at_bunpin [where b = ?c], assumption, simp, simp)
         apply (use cpos in simp)
        apply (rule bc.at_rl [where b = b and e = ?b], assumption, simp add: ne, simp, simp, simp add: ne)
        apply (rule bc.at_rl [where b = ?c], assumption, simp add: ne [symmetric], simp, simp, simp)
        subgoal for t1 t2 t3 t4 t5
          using at_lat [OF l, of _ _ _ t5] by (simp add: wp_simps fun_upd_twist [OF ne] g fin)
        done
    qed
  qed
qed

text \<open>In recovery no block is in use.\<close>

lemma recover_block_spec:
  assumes l: "lat p s0 Map.empty D W L s" and dev: "l_dev L = ROOTDEV" and ne: "log_slot L i \<noteq> lh_block L i"
  shows "wp (install_block True i) (\<lambda>_. lat p s0 Map.empty (D(lh_block L i := D (log_slot L i)))
    (W @ [(lh_block L i, D (log_slot L i))]) L) s"
proof -
  let ?b = "log_slot L i" and ?c = "lh_block L i"
  have kl: "klog s = L" using l by (simp add: lat_def)
  show ?thesis
    unfolding install_block_def wp_kbind [of "kgets klog"] wp_kgets kl dev log_slot_def [symmetric]
  proof (rule bc.at_rd [OF lat_at [OF l]])
    show "can_get Map.empty ?b" by (simp add: can_get_def)
    fix i t
    let ?eb = "\<lparr>e_idx = i, e_cnt = 1, e_data = D ?b, e_held = True\<rparr>"
    have gb: "got_block Map.empty D ?b i = ?eb" by (simp add: got_block_def)
    assume t: "bc.at p s [?b \<mapsto> got_block Map.empty D ?b i] D W t"
    show "wp (kbind (bread ROOTDEV ?c) (\<lambda>dbuf. kdo [buf_copy dbuf i, bwrite dbuf,
        if True then kreturn () else bunpin dbuf, brelse i, brelse dbuf]))
      (\<lambda>_. lat p s0 Map.empty (D(?c := D ?b)) (W @ [(?c, D ?b)]) L) t"
    proof (rule bc.at_rd [OF t])
      show "can_get [?b \<mapsto> got_block Map.empty D ?b i] ?c" using ne by (simp add: can_get_def)
      fix j u
      let ?ec = "\<lparr>e_idx = j, e_cnt = 1, e_data = D ?c, e_held = True\<rparr>"
      have gc: "got_block [?b \<mapsto> x] D ?c j = ?ec" for x using ne by (simp add: got_block_def)
      assume "bc.at p s ([?b \<mapsto> got_block Map.empty D ?b i, ?c \<mapsto> got_block [?b \<mapsto> got_block Map.empty D ?b i] D ?c j]) D W u"
      then have u: "bc.at p s [?b \<mapsto> ?eb, ?c \<mapsto> ?ec] D W u" unfolding gb gc .
      have g: "let_go \<lparr>e_idx = k, e_cnt = Suc 0, e_data = x, e_held = True\<rparr> = None" for k x by (simp add: let_go_def)
      have fin: "[?c \<mapsto> x, ?b \<mapsto> y](?b := None, ?c := None) = Map.empty" for x y by (auto simp: fun_eq_iff)
      show "wp (kdo [buf_copy j i, bwrite j, if True then kreturn () else bunpin j, brelse i, brelse j])
        (\<lambda>_. lat p s0 Map.empty (D(?c := D ?b)) (W @ [(?c, D ?b)]) L) u"
        unfolding wp_kdo_Cons buf_copy_def if_True
        apply (rule bc.at_mv [OF u, of ?c ?ec _ ?b ?eb])
             apply (simp, simp, simp, simp add: ne, simp)
        apply (rule bc.at_wr [where b = ?c], assumption, simp, simp, simp)
        apply (simp only: wp_kreturn)
        apply (rule bc.at_rl [where b = ?b and e = ?eb], assumption, simp add: ne, simp, simp, simp add: ne)
        apply (rule bc.at_rl [where b = ?c], assumption, simp add: ne [symmetric], simp, simp, simp)
        subgoal for t1 t2 t3 t4
          using at_lat [OF l, of _ _ _ t4] by (simp add: wp_simps fun_upd_twist [OF ne] g)
        done
    qed
  qed
qed

definition unpins :: "logst \<Rightarrow> nat \<Rightarrow> (uint \<Rightarrow> bent option) \<Rightarrow> uint \<Rightarrow> bent option" where
  "unpins L n E b = (if b \<in> lh_block L ` {..<n} then Option.bind (E b) unpin else E b)"

lemma unpins_Suc: "lh_block L n \<notin> lh_block L ` {..<n} \<Longrightarrow> E (lh_block L n) = Some e \<Longrightarrow>
  unpins L (Suc n) E = (unpins L n E)(lh_block L n := unpin e)"
  by (auto simp: unpins_def fun_eq_iff lessThan_Suc)

lemma unpins_0 [simp]: "unpins L 0 E = E"
  by (simp add: unpins_def fun_eq_iff)

lemma dom_unpins: "dom (unpins L n E) \<subseteq> dom E"
  by (auto simp: unpins_def split: if_splits bind_splits)

definition log_layout :: "logst \<Rightarrow> bool" where
  "log_layout L \<longleftrightarrow> l_dev L = ROOTDEV \<and> distinct (homes L) \<and> distinct (l_start L # slots L) \<and>
     set (homes L) \<inter> set (l_start L # slots L) = {}"

lemma log_layoutD:
  assumes "log_layout L" "i < nat (lh_n L)"
  shows "lh_block L i \<notin> lh_block L ` {..<i}" "log_slot L i \<noteq> l_start L" "lh_block L i \<noteq> l_start L"
    "j < nat (lh_n L) \<Longrightarrow> log_slot L j \<noteq> lh_block L i" "j < nat (lh_n L) \<Longrightarrow> log_slot L i = log_slot L j \<Longrightarrow> i = j"
    "j < nat (lh_n L) \<Longrightarrow> lh_block L i = lh_block L j \<Longrightarrow> i = j" "l_dev L = ROOTDEV"
proof -
  have d: "distinct (map (lh_block L) [0..<nat (lh_n L)])" "distinct (map (log_slot L) [0..<nat (lh_n L)])"
    "l_start L \<notin> set (slots L)" "set (homes L) \<inter> set (l_start L # slots L) = {}"
    using assms(1) by (auto simp: log_layout_def homes_def slots_def)
  have h: "lh_block L i \<in> set (homes L)" "log_slot L i \<in> set (slots L)"
    and h2: "j < nat (lh_n L) \<Longrightarrow> log_slot L j \<in> set (slots L)" for j
    using assms(2) by (auto simp: homes_def slots_def)
  show "log_slot L i \<noteq> l_start L" "lh_block L i \<noteq> l_start L" "j < nat (lh_n L) \<Longrightarrow> log_slot L j \<noteq> lh_block L i"
    using d h h2 [of j] by auto
  show 1: "j < nat (lh_n L) \<Longrightarrow> log_slot L i = log_slot L j \<Longrightarrow> i = j" for j
    using d(2) assms(2) by (auto simp: distinct_map inj_on_def)
  show 2: "j < nat (lh_n L) \<Longrightarrow> lh_block L i = lh_block L j \<Longrightarrow> i = j" for j
    using d(1) assms(2) by (auto simp: distinct_map inj_on_def)
  show "lh_block L i \<notin> lh_block L ` {..<i}"
  proof
    assume "lh_block L i \<in> lh_block L ` {..<i}"
    then obtain k where "k < i" "lh_block L i = lh_block L k" by blast
    with 2 [of k] assms(2) show False by simp
  qed
  show "l_dev L = ROOTDEV" using assms(1) by (simp add: log_layout_def)
qed

lemma home_writes_slot:
  assumes "log_layout L" "j < nat (lh_n L)" "n \<le> nat (lh_n L)"
  shows "apply_writes (home_writes L v n) D (log_slot L j) = D (log_slot L j)"
proof (rule apply_writes_other)
  show "log_slot L j \<notin> fst ` set (home_writes L v n)"
  proof
    assume "log_slot L j \<in> fst ` set (home_writes L v n)"
    then obtain i where "i < n" "log_slot L j = lh_block L i" by (auto simp: home_writes_def)
    with log_layoutD(4) [OF assms(1) _ assms(2), of i] assms(3) show False by simp
  qed
qed

lemma install_spec:
  assumes l: "lat p s0 E D W L s" and lo: "log_layout L"
    and sl: "\<And>i. i < nat (lh_n L) \<Longrightarrow> E (log_slot L i) = None"
    and hm: "\<And>i. i < nat (lh_n L) \<Longrightarrow> pinned E (lh_block L i) \<and> shown E D (lh_block L i) = D (log_slot L i)"
    and rm: "card (dom E) < NBUF"
  shows "wp (install_trans False) (\<lambda>_. lat p s0 (unpins L (nat (lh_n L)) E)
    (apply_writes (home_writes L D (nat (lh_n L))) D) (W @ home_writes L D (nat (lh_n L))) L) s"
proof -
  have kl: "klog s = L" using l by (simp add: lat_def)
  let ?I = "\<lambda>ys. lat p s0 (unpins L (length ys) E) (apply_writes (home_writes L D (length ys)) D)
    (W @ home_writes L D (length ys)) L"
  have fin: "finite (dom E)" using l finite_ents by (auto simp: lat_def)
  show ?thesis
    unfolding install_trans_def wp_kbind wp_kgets kl
  proof (rule wp_kforeach_inv [where I = ?I])
    show "?I [] s" using l by (simp add: home_writes_def)
    fix ys i zs t assume i: "[0..<nat (lh_n L)] = ys @ i # zs" and t: "?I ys t"
    have ii: "i = length ys" "i < nat (lh_n L)" using upt_split [OF i] by auto
    note lay = log_layoutD [OF lo ii(2)]
    from hm [OF ii(2)] obtain e where e: "E (lh_block L i) = Some e" "\<not> e_held e" "e_cnt e + 1 < 4294967296"
      and ed: "e_data e = D (log_slot L i)" by (auto simp: pinned_def shown_def)
    have slot: "apply_writes (home_writes L D (length ys)) D (log_slot L i) = D (log_slot L i)"
      using home_writes_slot [OF lo ii(2)] ii by simp
    have sn: "unpins L (length ys) E (log_slot L i) = None" using sl [OF ii(2)] by (simp add: unpins_def)
    have un: "unpins L (length ys) E (lh_block L i) = Some e" using lay(1) ii e by (auto simp: unpins_def)
    have rm': "card (dom (unpins L (length ys) E)) < NBUF"
      using card_mono [OF fin dom_unpins [of L "length ys" E]] rm by linarith
    note step = install_block_spec [OF t lay(7) refl sn un e(2,3) _ rm', unfolded slot, OF ed]
    have "home_writes L D (length (ys @ [i])) = home_writes L D (length ys) @ [(lh_block L i, D (log_slot L i))]"
      using ii by (simp add: home_writes_def)
    moreover have "unpins L (length (ys @ [i])) E = (unpins L (length ys) E)(lh_block L i := unpin e)"
      using unpins_Suc [of L i E e] lay(1) e ii by simp
    ultimately show "wp (install_block False i) (\<lambda>_. ?I (ys @ [i])) t" using step by simp
  qed simp
qed

section \<open>The commit\<close>

lemma apply_writes_at:
  assumes "i < n" "\<And>j. j < n \<Longrightarrow> f j = f i \<Longrightarrow> j = i"
  shows "apply_writes (map (\<lambda>i. (f i, g i)) [0..<n]) D (f i) = g i"
  using assms
proof (induction n)
  case (Suc n)
  show ?case
  proof (cases "i = n")
    case False
    then have "i < n" "f n \<noteq> f i" using Suc.prems by force+
    then show ?thesis using Suc.IH Suc.prems(2) by simp
  qed simp
qed simp

definition home_new :: "logst \<Rightarrow> (uint \<Rightarrow> bytes) \<Rightarrow> (uint \<times> bytes) list" where
  "home_new L v = map (\<lambda>i. (lh_block L i, v (lh_block L i))) [0..<nat (lh_n L)]"

definition new_hdr :: "logst \<Rightarrow> bytes \<Rightarrow> bytes" where
  "new_hdr L d = hdr_put (lh_n L) (lh_block L) d"

definition old_hdr :: "logst \<Rightarrow> bytes \<Rightarrow> bytes" where
  "old_hdr L d = hdr_put 0 (lh_block L) d"

text \<open>The writes of a commit, in order; \<open>v\<close> are the new contents and \<open>d\<close> is the header block before.\<close>

definition commit_writes :: "logst \<Rightarrow> (uint \<Rightarrow> bytes) \<Rightarrow> bytes \<Rightarrow> (uint \<times> bytes) list" where
  "commit_writes L v d = slot_writes L v (nat (lh_n L)) @ [(l_start L, new_hdr L d)] @ home_new L v @
     [(l_start L, old_hdr L (new_hdr L d))]"

definition commit_ready :: "logst \<Rightarrow> (uint \<Rightarrow> bent option) \<Rightarrow> bool" where
  "commit_ready L E \<longleftrightarrow> log_layout L \<and> (\<forall>b \<in> set (l_start L # slots L). E b = None) \<and>
     (\<forall>b \<in> set (homes L). pinned E b) \<and> card (dom E) < NBUF"

lemma start_untouched:
  assumes "log_layout L"
  shows "apply_writes (slot_writes L v (nat (lh_n L))) D (l_start L) = D (l_start L)"
    and "apply_writes (home_new L v) D (l_start L) = D (l_start L)"
  using log_layoutD(2,3) [OF assms]
  by (intro apply_writes_other; fastforce simp: slot_writes_def home_new_def)+

lemma commit_spec:
  assumes l: "lat p s0 E D W L s" and n: "0 < lh_n L" and r: "commit_ready L E"
  shows "wp commit (\<lambda>_. lat p s0 (unpins L (nat (lh_n L)) E) (apply_writes (commit_writes L (shown E D) (D (l_start L))) D)
    (W @ commit_writes L (shown E D) (D (l_start L))) (L\<lparr>lh_n := 0\<rparr>)) s"
proof -
  let ?n = "nat (lh_n L)" and ?v = "shown E D" and ?b = "l_start L"
  let ?h = "new_hdr L (D ?b)"
  let ?D1 = "apply_writes (slot_writes L ?v ?n) D"
  let ?D2 = "?D1(?b := ?h)"
  have lo: "log_layout L" and rm: "card (dom E) < NBUF" and sb: "E ?b = None"
    and sl: "b \<in> set (slots L) \<Longrightarrow> E b = None" and hm: "b \<in> set (homes L) \<Longrightarrow> pinned E b" for b
    using r by (auto simp: commit_ready_def)
  have dev: "l_dev L = ROOTDEV" using lo by (simp add: log_layout_def)
  have kl: "klog s = L" using l by (simp add: lat_def)
  have D1b: "?D1 ?b = D ?b" using start_untouched(1) [OF lo] .
  have slot: "?D2 (log_slot L i) = ?v (lh_block L i)" if "i < ?n" for i
  proof -
    have "log_slot L j = log_slot L i \<Longrightarrow> j = i" if "j < ?n" for j
      using log_layoutD(5) [OF lo \<open>i < ?n\<close> that] by simp
    from apply_writes_at [OF that this] show ?thesis
      using log_layoutD(2) [OF lo that] by (simp add: slot_writes_def)
  qed
  have pin: "pinned E (lh_block L i)" if "i < ?n" for i using hm that by (simp add: homes_def)
  have hm2: "pinned E (lh_block L i) \<and> shown E ?D2 (lh_block L i) = ?D2 (log_slot L i)" if "i < ?n" for i
    using pin [OF that] slot [OF that] by (auto simp: pinned_def shown_def)
  have sl2: "E (log_slot L i) = None" if "i < ?n" for i using sl that by (simp add: slots_def)
  have hw: "home_writes L ?D2 ?n = home_new L ?v" using slot by (auto simp: home_writes_def home_new_def)
  let ?D3 = "apply_writes (home_new L ?v) ?D2"
  have D3b: "?D3 ?b = ?h" using start_untouched(2) [OF lo, of ?v ?D2] by simp
  have fin: "finite (dom E)" using l finite_ents by (auto simp: lat_def)
  have rm3: "card (dom (unpins L ?n E)) < NBUF"
    using card_mono [OF fin dom_unpins [of L ?n E]] rm by linarith
  have sb3: "unpins L ?n E ?b = None" using sb by (simp add: unpins_def)
  have "wp (kdo [write_log, write_head, install_trans False, set_log (lh_n_update (\<lambda>_. 0)), write_head])
    (\<lambda>_. lat p s0 (unpins L ?n E) (?D3(?b := old_hdr L ?h))
      ((((W @ slot_writes L ?v ?n) @ [(?b, ?h)]) @ home_new L ?v) @ [(?b, old_hdr L ?h)]) (L\<lparr>lh_n := 0\<rparr>)) s"
    unfolding wp_kdo_Cons
  proof (rule wp_mono [OF write_log_spec [OF l dev sl hm rm]])
    fix u t assume t: "lat p s0 E ?D1 (W @ slot_writes L ?v ?n) L t"
    note wh = write_head_spec [OF t dev sb rm refl, unfolded D1b, folded new_hdr_def]
    show "wp write_head (\<lambda>_. wp (install_trans False) (\<lambda>_. wp (set_log (lh_n_update (\<lambda>_. 0))) (\<lambda>_. wp write_head (\<lambda>_. wp (kdo [])
      (\<lambda>_. lat p s0 (unpins L ?n E) (?D3(?b := old_hdr L ?h))
        ((((W @ slot_writes L ?v ?n) @ [(?b, ?h)]) @ home_new L ?v) @ [(?b, old_hdr L ?h)]) (L\<lparr>lh_n := 0\<rparr>)))))) t"
    proof (rule wp_mono [OF wh])
      fix x t2 assume t2: "lat p s0 E ?D2 ((W @ slot_writes L ?v ?n) @ [(?b, ?h)]) L t2"
      note it = install_spec [OF t2 lo sl2 hm2 rm, unfolded hw]
      show "wp (install_trans False) (\<lambda>_. wp (set_log (lh_n_update (\<lambda>_. 0))) (\<lambda>_. wp write_head (\<lambda>_. wp (kdo [])
      (\<lambda>_. lat p s0 (unpins L ?n E) (?D3(?b := old_hdr L ?h))
        ((((W @ slot_writes L ?v ?n) @ [(?b, ?h)]) @ home_new L ?v) @ [(?b, old_hdr L ?h)]) (L\<lparr>lh_n := 0\<rparr>))))) t2"
      proof (rule wp_mono [OF it], unfold wp_set_log wp_kdo_Nil)
        fix y t3 assume t3: "lat p s0 (unpins L ?n E) ?D3 (((W @ slot_writes L ?v ?n) @ [(?b, ?h)]) @ home_new L ?v) L t3"
        from write_head_spec [OF lat_log [OF this, of "lh_n_update (\<lambda>_. 0)"], of "old_hdr L ?h"]
        show "wp write_head (\<lambda>_. lat p s0 (unpins L ?n E) (?D3(?b := old_hdr L ?h))
          ((((W @ slot_writes L ?v ?n) @ [(?b, ?h)]) @ home_new L ?v) @ [(?b, old_hdr L ?h)]) (L\<lparr>lh_n := 0\<rparr>))
          (t3\<lparr>klog := lh_n_update (\<lambda>_. 0) (klog t3)\<rparr>)"
          using dev sb3 rm3 D3b by (simp add: old_hdr_def)
      qed
    qed
  qed
  then show ?thesis
    using n kl by (simp add: commit_def wp_kwhen commit_writes_def)
qed

end
