(* ===== verification/Log_Recover.thy ===== *)
theory Log_Recover
  imports Log_Commit
begin

text \<open>
  Recovery, and what it makes of a disk on which a commit was cut short. \<open>recover_from_log\<close> and
  \<open>initlog\<close> are run from a state in which no buffer is in use, the state after a boot.
\<close>

section \<open>The header round trip\<close>

lemma put32_put32 [simp]: "put32 (put32 d i v) i w = put32 d i w"
  by (simp add: fun_eq_iff put32_def put_bytes_def)

lemma sint_of_int32: "0 \<le> n \<Longrightarrow> n < 2 ^ 31 \<Longrightarrow> sint (of_int n :: uint) = n"
  by (simp add: sint_uint signed_take_bit_int_eq_self_iff uint_word_of_int take_bit_int_eq_self)

lemma hdr_put_n: "0 \<le> n \<Longrightarrow> n < 2 ^ 31 \<Longrightarrow> hdr_n (hdr_put n blk d) = n"
proof -
  assume n: "0 \<le> n" "n < 2 ^ 31"
  have "get32 (foldl (\<lambda>d i. put32 d (4 + 4 * i) (blk i)) e [0..<k]) 0 = get32 e 0" for k e
    by (induction k) auto
  with n show ?thesis by (simp add: hdr_n_def hdr_put_def sint_of_int32)
qed

lemma hdr_put_block: "i < nat n \<Longrightarrow> hdr_block (hdr_put n blk d) i = blk i"
proof -
  have "i < k \<Longrightarrow> get32 (foldl (\<lambda>d i. put32 d (4 + 4 * i) (blk i)) e [0..<k]) (4 + 4 * i) = blk i" for k e
  proof (induction k)
    case (Suc k)
    then show ?case by (cases "i = k") auto
  qed simp
  then show "i < nat n \<Longrightarrow> ?thesis" by (simp add: hdr_block_def hdr_put_def)
qed

lemma old_hdr_eq: "old_hdr L d = put32 d 0 0"
  by (simp add: old_hdr_def hdr_put_def)

section \<open>Recovery\<close>

text \<open>The log as the header block describes it, and the writes recovery makes.\<close>

definition hdr_log :: "logst \<Rightarrow> bytes \<Rightarrow> logst" where
  "hdr_log L d = L\<lparr>lh_n := hdr_n d, lh_block := (\<lambda>i. if i < nat (hdr_n d) then hdr_block d i else lh_block L i)\<rparr>"

definition recovery_writes :: "logst \<Rightarrow> (uint \<Rightarrow> bytes) \<Rightarrow> (uint \<times> bytes) list" where
  "recovery_writes L D = (let l = hdr_log L (D (l_start L)) in
     home_writes l D (nat (lh_n l)) @ [(l_start L, put32 (D (l_start L)) 0 0)])"

lemma hdr_log_sel [simp]: "l_start (hdr_log L d) = l_start L" "l_dev (hdr_log L d) = l_dev L"
  "lh_n (hdr_log L d) = hdr_n d" "log_slot (hdr_log L d) = log_slot L"
  by (simp_all add: hdr_log_def fun_eq_iff log_slot_def)

lemma read_head_spec:
  assumes l: "lat p s0 Map.empty D W L s" and dev: "l_dev L = ROOTDEV"
  shows "wp read_head (\<lambda>_. lat p s0 Map.empty D W (hdr_log L (D (l_start L)))) s"
proof -
  let ?b = "l_start L"
  have kl: "klog s = L" using l by (simp add: lat_def)
  show ?thesis
    unfolding read_head_def wp_kbind [of "kgets klog"] wp_kgets kl dev
  proof (rule bc.at_rd [OF lat_at [OF l]])
    show "can_get Map.empty ?b" by (simp add: can_get_def)
    fix i t
    let ?e = "\<lparr>e_idx = i, e_cnt = 1, e_data = D ?b, e_held = True\<rparr>"
    assume "bc.at p s (Map.empty(?b \<mapsto> got_block Map.empty D ?b i)) D W t"
    then have t: "bc.at p s (Map.empty(?b \<mapsto> ?e)) D W t" by (simp add: got_block_def)
    have d: "b_data (bufs t i) = D ?b" using bc.at_getd [OF t, of ?b ?e] by simp
    have lt: "lat p s0 (Map.empty(?b \<mapsto> ?e)) D W L t" using at_lat [OF l t] .
    let ?t = "t\<lparr>klog := hdr_log L (D ?b)\<rparr>"
    have kt: "klog t = L" using lt by (simp add: lat_def)
    have lt': "lat p s0 (Map.empty(?b \<mapsto> ?e)) D W (hdr_log L (D ?b)) ?t"
      using lat_log [OF lt, of "\<lambda>l. hdr_log l (D ?b)"] kt by simp
    have "wp (brelse i) (\<lambda>_. lat p s0 Map.empty D W (hdr_log L (D ?b))) ?t"
      apply (rule bc.at_rl [OF lat_at [OF lt'], where b = ?b], simp, simp, simp, simp)
      using at_lat [OF lt'] by (simp add: let_go_def)
    then show "wp (kdo [kbind (get_buf i) (\<lambda>bf. set_log (\<lambda>l. l\<lparr>lh_n := hdr_n (b_data bf),
         lh_block := (\<lambda>i. if i < nat (hdr_n (b_data bf)) then hdr_block (b_data bf) i else lh_block l i)\<rparr>)), brelse i])
       (\<lambda>_. lat p s0 Map.empty D W (hdr_log L (D ?b))) t"
      by (simp add: wp_simps get_buf_def d kt hdr_log_def cong: if_cong)
  qed
qed

lemma recover_install_spec:
  assumes l: "lat p s0 Map.empty D W L s" and lo: "log_layout L"
  shows "wp (install_trans True) (\<lambda>_. lat p s0 Map.empty (apply_writes (home_writes L D (nat (lh_n L))) D)
    (W @ home_writes L D (nat (lh_n L))) L) s"
proof -
  have kl: "klog s = L" using l by (simp add: lat_def)
  let ?I = "\<lambda>ys. lat p s0 Map.empty (apply_writes (home_writes L D (length ys)) D) (W @ home_writes L D (length ys)) L"
  show ?thesis
    unfolding install_trans_def wp_kbind wp_kgets kl
  proof (rule wp_kforeach_inv [where I = ?I])
    show "?I [] s" using l by (simp add: home_writes_def)
    fix ys i zs t assume i: "[0..<nat (lh_n L)] = ys @ i # zs" and t: "?I ys t"
    have ii: "i = length ys" "i < nat (lh_n L)" using upt_split [OF i] by auto
    note lay = log_layoutD [OF lo ii(2)]
    have slot: "apply_writes (home_writes L D (length ys)) D (log_slot L i) = D (log_slot L i)"
      using home_writes_slot [OF lo ii(2)] ii by simp
    have "home_writes L D (length (ys @ [i])) = home_writes L D (length ys) @ [(lh_block L i, D (log_slot L i))]"
      using ii by (simp add: home_writes_def)
    with recover_block_spec [OF t lay(7), of i, unfolded slot] lay(4) [OF ii(2)]
    show "wp (install_block True i) (\<lambda>_. ?I (ys @ [i])) t" by simp
  qed simp
qed

lemma home_writes_start: "log_layout L \<Longrightarrow> apply_writes (home_writes L D (nat (lh_n L))) D (l_start L) = D (l_start L)"
  using log_layoutD(3) by (intro apply_writes_other) (fastforce simp: home_writes_def)

lemma recover_spec:
  assumes l: "lat p s0 Map.empty D W L s" and lo: "log_layout (hdr_log L (D (l_start L)))"
  shows "wp recover_from_log (\<lambda>_. lat p s0 Map.empty (apply_writes (recovery_writes L D) D)
    (W @ recovery_writes L D) ((hdr_log L (D (l_start L)))\<lparr>lh_n := 0\<rparr>)) s"
proof -
  let ?b = "l_start L" and ?L = "hdr_log L (D (l_start L))"
  let ?w = "home_writes ?L D (nat (lh_n ?L))"
  have dev: "l_dev L = ROOTDEV" using lo by (simp add: log_layout_def)
  have hd: "apply_writes ?w D ?b = D ?b" using home_writes_start [OF lo] by simp
  have "wp (kdo [read_head, install_trans True, set_log (lh_n_update (\<lambda>_. 0)), write_head])
    (\<lambda>_. lat p s0 Map.empty ((apply_writes ?w D)(?b := put32 (D ?b) 0 0)) ((W @ ?w) @ [(?b, put32 (D ?b) 0 0)])
      (?L\<lparr>lh_n := 0\<rparr>)) s"
    unfolding wp_kdo_Cons wp_set_log
  proof (rule wp_mono [OF read_head_spec [OF l dev]], rule wp_mono [OF recover_install_spec [OF _ lo]], assumption, unfold wp_kdo_Nil)
    fix t assume "lat p s0 Map.empty (apply_writes ?w D) (W @ ?w) ?L t"
    from write_head_spec [OF lat_log [OF this, of "lh_n_update (\<lambda>_. 0)"], of "put32 (D ?b) 0 0"]
    show "wp write_head (\<lambda>_. lat p s0 Map.empty ((apply_writes ?w D)(?b := put32 (D ?b) 0 0))
      ((W @ ?w) @ [(?b, put32 (D ?b) 0 0)]) (?L\<lparr>lh_n := 0\<rparr>)) (t\<lparr>klog := lh_n_update (\<lambda>_. 0) (klog t)\<rparr>)"
      using dev hd by (simp add: hdr_put_def)
  qed
  then show ?thesis by (simp add: recover_from_log_def recovery_writes_def Let_def)
qed

definition boot :: "nat \<Rightarrow> 'a bio_st_scheme \<Rightarrow> bool" where
  "boot p s \<longleftrightarrow> bio_inv p s \<and> ents s = Map.empty"

lemma initlock_bio:
  "bio_inv p s \<Longrightarrow> bio_inv p (upd_lock LogLock (\<lambda>l. l\<lparr>lk_name := nm, locked := False, lk_cpu := None\<rparr>) s)"
  "ents (upd_lock lk f s) = ents s" "disk (upd_lock lk f s) = disk s" "dwrites (upd_lock lk f s) = dwrites s"
  "klog (upd_lock lk f s) = klog s"
proof -
  have "ent_of (upd_lock lk f s) = ent_of s" "bufno (upd_lock lk f s) = bufno s"
    by (simp_all add: fun_eq_iff ent_of_def bufno_def upd_lock_def)
  then show "ents (upd_lock lk f s) = ents s"
    by (auto simp: ents_def fun_eq_iff upd_lock_def split: option.split)
  show "bio_inv p s \<Longrightarrow> bio_inv p (upd_lock LogLock (\<lambda>l. l\<lparr>lk_name := nm, locked := False, lk_cpu := None\<rparr>) s)"
    by (simp add: bio_inv_def calm_def lru_ok_def buf_ok_def lock_defs upd_lock_def)
qed (simp_all add: upd_lock_def)

definition mount_log :: "superblock \<Rightarrow> logst \<Rightarrow> logst" where
  "mount_log sb l = l\<lparr>l_start := sb_logstart sb, l_size := sint (sb_nlog sb), l_dev := ROOTDEV\<rparr>"

lemma initlog_spec:
  assumes "boot p s" and lo: "log_layout (hdr_log L (disk s (l_start L)))" and L: "L = mount_log sb (klog s)"
  shows "wp (initlog ROOTDEV sb) (\<lambda>_ t. boot p t \<and> disk t = apply_writes (recovery_writes L (disk s)) (disk s) \<and>
    dwrites t = dwrites s @ recovery_writes L (disk s) \<and> lh_n (klog t) = 0) s"
proof -
  let ?u = "upd_lock LogLock (\<lambda>l. l\<lparr>lk_name := ''log'', locked := False, lk_cpu := None\<rparr>) s"
  have "lat p ?u (ents s) (disk s) (dwrites s) (klog s) ?u"
    using assms(1) by (simp add: lat_def initlock_bio boot_def)
  from recover_spec [OF lat_log [OF this, of "mount_log sb", folded L, unfolded assms(1) [unfolded boot_def, THEN conjunct2]] lo]
  show ?thesis
    unfolding initlog_def initlock_def
    by (simp add: wp_simps panic_if_def mount_log_def) (erule wp_mono, simp add: lat_def boot_def)
qed

section \<open>Disks on which a commit was cut short\<close>

definition log_area :: "logst \<Rightarrow> uint set" where
  "log_area L = set (l_start L # slots L)"

definition committed :: "logst \<Rightarrow> (uint \<Rightarrow> bytes) \<Rightarrow> (uint \<Rightarrow> bytes) \<Rightarrow> uint \<Rightarrow> bytes" where
  "committed L v D b = (if b \<in> set (homes L) then v b else D b)"

lemma slot_writes_outside: "b \<notin> log_area L \<Longrightarrow> n \<le> nat (lh_n L) \<Longrightarrow> apply_writes (slot_writes L v n) D b = D b"
  by (intro apply_writes_other) (auto simp: slot_writes_def log_area_def slots_def)

lemma home_new_at:
  assumes "log_layout L" "i < nat (lh_n L)"
  shows "apply_writes (home_new L v) D (lh_block L i) = v (lh_block L i)"
proof -
  have "lh_block L j = lh_block L i \<Longrightarrow> j = i" if "j < nat (lh_n L)" for j
    using log_layoutD(6) [OF assms(1) that assms(2)] by simp
  then show ?thesis unfolding home_new_def by (rule apply_writes_at [OF assms(2)])
qed

lemma home_new_apply: "log_layout L \<Longrightarrow> apply_writes (home_new L v) D b = committed L v D b"
proof (cases "b \<in> set (homes L)")
  case True
  assume "log_layout L"
  with True home_new_at [of L _ v D] show ?thesis by (auto simp: committed_def homes_def)
next
  case False
  then have "b \<notin> fst ` set (home_new L v)" by (force simp: home_new_def homes_def)
  with False show ?thesis by (simp add: committed_def apply_writes_other)
qed

text \<open>Where a crash can leave the disk.\<close>

inductive crashed :: "logst \<Rightarrow> (uint \<Rightarrow> bytes) \<Rightarrow> (uint \<Rightarrow> bytes) \<Rightarrow> (uint \<Rightarrow> bytes) \<Rightarrow> bool"
  for L v D where
  Uncommitted: "D' (l_start L) = D (l_start L) \<Longrightarrow> (\<And>b. b \<notin> log_area L \<Longrightarrow> D' b = D b) \<Longrightarrow> crashed L v D D'"
| Committed: "D' (l_start L) = new_hdr L (D (l_start L)) \<Longrightarrow>
    (\<And>i. i < nat (lh_n L) \<Longrightarrow> D' (log_slot L i) = v (lh_block L i)) \<Longrightarrow>
    (\<And>b. b \<notin> log_area L \<Longrightarrow> b \<notin> set (homes L) \<Longrightarrow> D' b = D b) \<Longrightarrow> crashed L v D D'"
| Installed: "D' (l_start L) = put32 (new_hdr L (D (l_start L))) 0 0 \<Longrightarrow>
    (\<And>b. b \<notin> log_area L \<Longrightarrow> D' b = committed L v D b) \<Longrightarrow> crashed L v D D'"

lemma take_snoc_cases:
  obtains "take k (A @ [h] @ H @ [g]) = take k A"
  | j where "take k (A @ [h] @ H @ [g]) = A @ h # take j H"
  | "take k (A @ [h] @ H @ [g]) = A @ [h] @ H @ [g]"
proof -
  consider "k \<le> length A" | j where "k = Suc (length A + j)" "j \<le> length H" | "k \<ge> length A + length H + 2"
  proof -
    assume *: "k \<le> length A \<Longrightarrow> thesis" "\<And>j. k = Suc (length A + j) \<Longrightarrow> j \<le> length H \<Longrightarrow> thesis"
      "k \<ge> length A + length H + 2 \<Longrightarrow> thesis"
    then show thesis using *(2) [of "k - Suc (length A)"] by linarith
  qed
  then show thesis
    by cases (use that in auto)
qed

lemma commit_crashed:
  assumes lo: "log_layout L"
  shows "crashed L v D (apply_writes (take k (commit_writes L v (D (l_start L)))) D)"
proof -
  let ?b = "l_start L" and ?n = "nat (lh_n L)"
  let ?A = "slot_writes L v ?n" and ?H = "home_new L v" and ?h = "new_hdr L (D (l_start L))"
  have A: "apply_writes ?A D ?b = D ?b" and H: "apply_writes ?H E ?b = E ?b" for E
    using start_untouched [OF lo] by auto
  have part: "apply_writes (take j ws) D' b = D' b" if "b \<notin> fst ` set ws" for j ws D' and b :: uint
    using that by (intro apply_writes_other) (auto dest: in_set_takeD)
  have hs: "fst ` set ?H = set (homes L)" by (force simp: home_new_def homes_def)
  have as: "fst ` set ?A = set (slots L)" by (force simp: slot_writes_def slots_def)
  have ar: "set (homes L) \<inter> log_area L = {}" "?b \<notin> set (slots L)" using lo by (auto simp: log_layout_def log_area_def)
  have slot: "apply_writes ?A D (log_slot L i) = v (lh_block L i)" if "i < ?n" for i
    unfolding slot_writes_def using log_layoutD(5) [OF lo that] by (intro apply_writes_at [OF that]) metis
  show ?thesis
    unfolding commit_writes_def
  proof (cases rule: take_snoc_cases [of k ?A "(?b, ?h)" ?H "(?b, old_hdr L ?h)"])
    case 1
    show "crashed L v D (apply_writes (take k (?A @ [(?b, ?h)] @ ?H @ [(?b, old_hdr L ?h)])) D)"
      unfolding 1 using as ar by (intro Uncommitted part) (auto simp: log_area_def)
  next
    case (2 j)
    show "crashed L v D (apply_writes (take k (?A @ [(?b, ?h)] @ ?H @ [(?b, old_hdr L ?h)])) D)"
      unfolding 2
    proof (rule Committed)
      show "apply_writes (?A @ (?b, ?h) # take j ?H) D ?b = ?h" using ar hs by (simp add: part log_area_def)
      fix i assume i: "i < ?n"
      have "log_slot L i \<notin> fst ` set ?H" "log_slot L i \<noteq> ?b" using ar log_layoutD(2) [OF lo i] i
        unfolding hs by (auto simp: log_area_def slots_def)
      then show "apply_writes (?A @ (?b, ?h) # take j ?H) D (log_slot L i) = v (lh_block L i)"
        using slot [OF i] by (simp add: part)
    next
      fix c assume "c \<notin> log_area L" "c \<notin> set (homes L)"
      then show "apply_writes (?A @ (?b, ?h) # take j ?H) D c = D c"
        using hs slot_writes_outside by (auto simp: part log_area_def)
    qed
  next
    case 3
    have "committed L v E c = committed L v D c" if "c \<notin> log_area L" "E = (apply_writes ?A D)(?b := ?h)" for c E
      using that slot_writes_outside [of c L ?n v D] by (auto simp: committed_def log_area_def)
    then show "crashed L v D (apply_writes (take k (?A @ [(?b, ?h)] @ ?H @ [(?b, old_hdr L ?h)])) D)"
      unfolding 3 by (intro Installed) (auto simp: home_new_apply [OF lo] old_hdr_eq log_area_def)
  qed
qed

section \<open>What recovery makes of them\<close>

lemma layout_empty: "l_dev L = ROOTDEV \<Longrightarrow> hdr_n d \<le> 0 \<Longrightarrow> log_layout (hdr_log L d)"
  by (simp add: log_layout_def homes_def slots_def)

lemma recovery_empty: "hdr_n (D (l_start L)) \<le> 0 \<Longrightarrow> recovery_writes L D = [(l_start L, put32 (D (l_start L)) 0 0)]"
  by (simp add: recovery_writes_def home_writes_def)

lemma hdr_n_put0 [simp]: "hdr_n (put32 d 0 0) = 0"
  by (simp add: hdr_n_def)

lemma log_slot_start: "l_start L0 = l_start L \<Longrightarrow> log_slot L0 = log_slot L"
  by (simp add: log_slot_def fun_eq_iff)

lemma new_hdr_log:
  assumes "0 \<le> lh_n L" "lh_n L \<le> int LOGSIZE" "l_start L0 = l_start L"
  shows "lh_n (hdr_log L0 (new_hdr L d)) = lh_n L" "homes (hdr_log L0 (new_hdr L d)) = homes L"
    "slots (hdr_log L0 (new_hdr L d)) = slots L"
    "i < nat (lh_n L) \<Longrightarrow> lh_block (hdr_log L0 (new_hdr L d)) i = lh_block L i"
proof -
  have n: "hdr_n (new_hdr L d) = lh_n L" using assms by (simp add: new_hdr_def hdr_put_n)
  then show "lh_n (hdr_log L0 (new_hdr L d)) = lh_n L" by simp
  show b: "lh_block (hdr_log L0 (new_hdr L d)) i = lh_block L i" if "i < nat (lh_n L)" for i
    using that hdr_put_block [OF that] n by (simp add: hdr_log_def new_hdr_def)
  note s = log_slot_start [OF assms(3)]
  show "homes (hdr_log L0 (new_hdr L d)) = homes L" "slots (hdr_log L0 (new_hdr L d)) = slots L"
    using n b by (auto simp: homes_def slots_def s)
qed

lemma new_hdr_layout:
  "0 \<le> lh_n L \<Longrightarrow> lh_n L \<le> int LOGSIZE \<Longrightarrow> l_start L0 = l_start L \<Longrightarrow> l_dev L0 = ROOTDEV \<Longrightarrow>
   log_layout L \<Longrightarrow> log_layout (hdr_log L0 (new_hdr L d))"
  using new_hdr_log [of L L0, where d = d] by (simp add: log_layout_def)

lemma recovery_full:
  assumes n: "0 \<le> lh_n L" "lh_n L \<le> int LOGSIZE" and st: "l_start L0 = l_start L" and lo: "log_layout L"
    and h: "D' (l_start L) = new_hdr L d" and sl: "\<And>i. i < nat (lh_n L) \<Longrightarrow> D' (log_slot L i) = v (lh_block L i)"
  shows "recovery_writes L0 D' = home_new L v @ [(l_start L, put32 (new_hdr L d) 0 0)]"
  using new_hdr_log [OF n st, where d = d] log_slot_start [OF st] h sl st
  by (auto simp: recovery_writes_def home_writes_def home_new_def Let_def)

lemma recover_crashed:
  assumes n: "0 \<le> lh_n L" "lh_n L \<le> int LOGSIZE" and st: "l_start L0 = l_start L" and dev: "l_dev L0 = ROOTDEV"
    and lo: "log_layout L" and cl: "hdr_n (D (l_start L)) = 0" and c: "crashed L v D D'"
    and R: "R = apply_writes (recovery_writes L0 D') D'"
  shows "log_layout (hdr_log L0 (D' (l_start L))) \<and>
    ((\<forall>b. b \<notin> log_area L \<longrightarrow> R b = D b) \<or> (\<forall>b. b \<notin> log_area L \<longrightarrow> R b = committed L v D b))"
  using c
proof (cases rule: crashed.cases)
  case Uncommitted
  have "hdr_n (D' (l_start L0)) = 0" using cl st Uncommitted(1) by simp
  then have "R = D'(l_start L := put32 (D' (l_start L)) 0 0)" using st by (simp add: R recovery_empty)
  with Uncommitted show ?thesis using cl dev by (auto simp: log_area_def intro: layout_empty)
next
  case Committed
  let ?w = "home_new L v @ [(l_start L, put32 (new_hdr L (D (l_start L))) 0 0)]"
  have w: "R = apply_writes ?w D'" using recovery_full [OF n st lo Committed(1,2)] by (simp add: R)
  have "R b = committed L v D b" if "b \<notin> log_area L" for b
    using that Committed(3) unfolding w by (auto simp: home_new_apply [OF lo] log_area_def committed_def)
  then show ?thesis using new_hdr_layout [OF n st dev lo] Committed(1) by simp
next
  case Installed
  then have "hdr_n (D' (l_start L)) = 0" by simp
  then have "R = D'(l_start L := put32 (D' (l_start L)) 0 0)" using st by (simp add: R recovery_empty)
  with Installed show ?thesis using dev by (auto simp: log_area_def intro: layout_empty)
qed

lemma apply_writes_hit: "c \<in> fst ` set ws \<Longrightarrow> apply_writes ws D c = apply_writes ws D' c"
proof (induction ws arbitrary: D D')
  case (Cons w ws)
  obtain b d where w: "w = (b, d)" by (cases w)
  show ?case
  proof (cases "c \<in> fst ` set ws")
    case False
    with Cons.prems w show ?thesis by (simp add: apply_writes_other)
  next
    case True
    from Cons.IH [OF this, of "D(b := d)" "D'(b := d)"] show ?thesis by (simp only: w apply_writes_simps)
  qed
qed simp

text \<open>Cutting recovery itself short, and running it again.\<close>

lemma recovery_again:
  assumes lo: "log_layout (hdr_log L (D (l_start L)))" and st: "l_start L1 = l_start L" "l_dev L1 = ROOTDEV"
    and D': "D' = apply_writes (take j (recovery_writes L D)) D"
  shows "log_layout (hdr_log L1 (D' (l_start L))) \<and> apply_writes (recovery_writes L1 D') D' = apply_writes (recovery_writes L D) D"
proof -
  let ?b = "l_start L" and ?L = "hdr_log L (D (l_start L))"
  let ?w = "home_writes ?L D (nat (lh_n ?L))" and ?z = "put32 (D (l_start L)) 0 0"
  have rw: "recovery_writes L D = ?w @ [(?b, ?z)]" by (simp add: recovery_writes_def Let_def)
  have ws: "fst ` set ?w = set (homes ?L)" by (force simp: home_writes_def homes_def)
  have part: "apply_writes (take i ?w) D c = D c" if "c \<notin> set (homes ?L)" for i c
    using that ws by (intro apply_writes_other) (auto dest: in_set_takeD)
  consider "j \<le> length ?w" | "length ?w < j" by linarith
  then show ?thesis
  proof cases
    case 1
    then have D'': "D' = apply_writes (take j ?w) D" by (simp add: D' rw)
    have b: "D' ?b = D ?b" using part lo by (simp add: D'' log_layout_def)
    have "D' (log_slot L i) = D (log_slot L i)" if "i < nat (lh_n ?L)" for i
      unfolding D'' using lo that by (intro part) (auto simp: log_layout_def slots_def)
    moreover have "lh_n (hdr_log L1 (D ?b)) = lh_n ?L" "\<And>i. i < nat (lh_n ?L) \<Longrightarrow> lh_block (hdr_log L1 (D ?b)) i = lh_block ?L i"
      "log_slot L1 = log_slot L"
      using st by (simp_all add: hdr_log_def log_slot_def fun_eq_iff)
    ultimately have e: "recovery_writes L1 D' = recovery_writes L D"
      and lo1: "homes (hdr_log L1 (D ?b)) = homes ?L" "slots (hdr_log L1 (D ?b)) = slots ?L"
      by (auto simp: recovery_writes_def Let_def b st home_writes_def homes_def slots_def)
    have "apply_writes ?w D' c = apply_writes ?w D c" for c
    proof (cases "c \<in> set (homes ?L)")
      case True
      then have "c \<in> fst ` set ?w" using ws by simp
      then show ?thesis by (rule apply_writes_hit)
    qed (use part ws in \<open>simp add: D'' apply_writes_other\<close>)
    then have "apply_writes ?w D' = apply_writes ?w D" by blast
    with e lo lo1 st show ?thesis by (simp add: rw b log_layout_def)
  next
    case 2
    then have "take j (?w @ [(?b, ?z)]) = ?w @ [(?b, ?z)]" by simp
    then have "D' = (apply_writes ?w D)(?b := ?z)" by (simp add: D' rw)
    then show ?thesis using st by (simp add: rw recovery_empty layout_empty)
  qed
qed

end
