(* ===== verification/Log_Atomic.thy ===== *)
theory Log_Atomic
  imports Log_Recover
begin

text \<open>
  The guarantees of the log: a commit is atomic under a crash after any of its disk writes, and
  recovery can itself be cut short and repeated.
\<close>

section \<open>A concrete state\<close>

definition buf0 :: buf where
  "buf0 = \<lparr>b_valid = False, b_disk = False, b_dev = 0, b_blockno = 0, b_refcnt = 0, b_prev = 0, b_next = 0,
     b_data = (\<lambda>_. 0)\<rparr>"

text \<open>The list \<^verbatim>\<open>binit\<close> builds: the last buffer first.\<close>

definition link_bufs :: "(nat \<Rightarrow> buf) \<Rightarrow> nat \<Rightarrow> buf" where
  "link_bufs f = (\<lambda>i. (f i)\<lparr>b_next := (if i = 0 then NBUF else i - 1), b_prev := (if i = NBUF then 0 else i + 1)\<rparr>)"

definition log0 :: logst where
  "log0 = \<lparr>l_start = 2, l_size = 30, l_outstanding = 0, l_committing = False, l_dev = ROOTDEV, lh_n = 0,
     lh_block = (\<lambda>_. 0)\<rparr>"

text \<open>A disk of zeros, with the cache and the log given.\<close>

definition lst :: "(nat \<Rightarrow> buf) \<Rightarrow> logst \<Rightarrow> log_st" where
  "lst f l = \<lparr>hart = hart pst0, cpus = (cpus pst0)(0 := (cpus pst0 0)\<lparr>intena := True\<rparr>), locks = locks pst0, mem = mem pst0, freelist = freelist pst0,
     syms = syms pst0, kernel_pagetable = 0, procs = procs pst0, initproc = Some 1, nextpid = 3,
     sleeplocks = sleeplocks pst0, kobj = kobj pst0, bufs = link_bufs f, disk = (\<lambda>_ _. 0), dwrites = [],
     klog = l\<rparr>"

lemma lst_sel [simp]: "bufs (lst f l) = link_bufs f" "disk (lst f l) = (\<lambda>_ _. 0)" "dwrites (lst f l) = []"
  "klog (lst f l) = l" "procs (lst f l) = procs pst0"
  by (simp_all add: lst_def)

lemma link_bufs_sel [simp]:
  "b_valid (link_bufs f i) = b_valid (f i)" "b_dev (link_bufs f i) = b_dev (f i)"
  "b_blockno (link_bufs f i) = b_blockno (f i)" "b_refcnt (link_bufs f i) = b_refcnt (f i)"
  "b_data (link_bufs f i) = b_data (f i)"
  "b_next (link_bufs f i) = (if i = 0 then NBUF else i - 1)" "b_prev (link_bufs f i) = (if i = NBUF then 0 else i + 1)"
  by (simp_all add: link_bufs_def)

lemma lst_calm: "calm 1 (lst f l)"
proof -
  have "lock_ok lk (lst f l)" for lk
    by (simp add: lst_def pst0_def boot_hart_def bit_SIE lock_defs)
  then show ?thesis
    by (simp add: calm_def lock_defs proc_null_def) (simp add: lst_def pst0_def boot_hart_def bit_SIE lock_defs)
qed

lemma lst_lru: "lru_ok (lst f l)"
proof -
  have "ring (bnx (lst f l)) (bpv (lst f l)) (rev [0..<NBUF])"
    by (simp add: ring_def upt_rec)
  then show ?thesis unfolding lru_ok_def by (intro exI [of _ "rev [0..<NBUF]"]) auto
qed

lemma lst_bio_inv:
  assumes "\<And>i. i < NBUF \<Longrightarrow> b_refcnt (f i) = 0 \<longrightarrow> \<not> b_valid (f i)"
    "\<And>i. i < NBUF \<Longrightarrow> b_refcnt (f i) \<noteq> 0 \<longrightarrow> b_valid (f i) \<and> b_dev (f i) = ROOTDEV"
    "\<And>i j b. i < NBUF \<Longrightarrow> j < NBUF \<Longrightarrow> caches (f i) b \<Longrightarrow> caches (f j) b \<Longrightarrow> i = j"
  shows "bio_inv 1 (lst f l)"
proof -
  have "\<not> sl_locked (sleeplocks (lst f l) lk)" for lk by (simp add: lst_def pst0_def)
  then show ?thesis
    using assms lst_calm [of f l] lst_lru [of f l] by (simp add: bio_inv_def buf_ok_def caches_def)
qed

section \<open>Atomic commit\<close>

definition ready_to_commit :: "nat \<Rightarrow> 'a log_st_scheme \<Rightarrow> bool" where
  "ready_to_commit p s \<longleftrightarrow> bio_inv p s \<and> commit_ready (klog s) (ents s) \<and> 0 < lh_n (klog s) \<and>
     lh_n (klog s) \<le> int LOGSIZE \<and> hdr_n (disk s (l_start (klog s))) = 0"

text \<open>
  C1: A transaction commits atomically. The commit leaves every changed block on the disk with its
  new contents; and if the machine stops after any number \<open>k\<close> of the commit's disk writes, then
  \<open>initlog\<close>, run after the next boot on the disk as it is, ends with either every block outside the
  log as it was before the transaction, or every one as the transaction left it.
\<close>

theorem log_commit_atomic:
  fixes s :: "'a log_st_scheme"
  assumes r: "ready_to_commit p s"
  shows "wp commit (\<lambda>_ t. \<exists>ws. dwrites t = dwrites s @ ws \<and> lh_n (klog t) = 0 \<and>
     (\<forall>b. b \<notin> log_area (klog s) \<longrightarrow> disk t b = committed (klog s) (view s) (disk s) b) \<and>
     (\<forall>k q sb (u :: 'a log_st_scheme). boot q u \<longrightarrow> disk u = apply_writes (take k ws) (disk s) \<longrightarrow>
       sb_logstart sb = l_start (klog s) \<longrightarrow>
       wp (initlog ROOTDEV sb) (\<lambda>_ v. (\<forall>b. b \<notin> log_area (klog s) \<longrightarrow> disk v b = disk s b) \<or>
         (\<forall>b. b \<notin> log_area (klog s) \<longrightarrow> disk v b = committed (klog s) (view s) (disk s) b)) u)) s"
proof -
  let ?L = "klog s" and ?ws = "commit_writes (klog s) (view s) (disk s (l_start (klog s)))"
  have b: "bio_inv p s" "commit_ready ?L (ents s)" and n: "0 < lh_n ?L" "lh_n ?L \<le> int LOGSIZE"
    and cl: "hdr_n (disk s (l_start ?L)) = 0" using r by (auto simp: ready_to_commit_def)
  have lo: "log_layout ?L" using b by (simp add: commit_ready_def)
  have v: "shown (ents s) (disk s) = view s" by (auto simp: fun_eq_iff shown_def view_def data_of_def split: option.split)
  have l: "lat p s (ents s) (disk s) (dwrites s) ?L s" using b by (simp add: lat_def)
  have all: "apply_writes ?ws (disk s) b = committed ?L (view s) (disk s) b" if "b \<notin> log_area ?L" for b
  proof -
    have "?ws = slot_writes ?L (view s) (nat (lh_n ?L)) @ [(l_start ?L, new_hdr ?L (disk s (l_start ?L)))] @ home_new ?L (view s) @
      [(l_start ?L, old_hdr ?L (new_hdr ?L (disk s (l_start ?L))))]" by (simp add: commit_writes_def)
    then show ?thesis
      using that slot_writes_outside [OF that, of "nat (lh_n ?L)" "view s" "disk s"]
      by (auto simp: home_new_apply [OF lo] committed_def log_area_def)
  qed
  have rec: "wp (initlog ROOTDEV sb) (\<lambda>_ v. (\<forall>b. b \<notin> log_area ?L \<longrightarrow> disk v b = disk s b) \<or>
         (\<forall>b. b \<notin> log_area ?L \<longrightarrow> disk v b = committed ?L (view s) (disk s) b)) u"
    if "boot q u" "disk u = apply_writes (take k ?ws) (disk s)" "sb_logstart sb = l_start ?L"
    for k q sb and u :: "'a log_st_scheme"
  proof -
    let ?M = "mount_log sb (klog u)"
    have st: "l_start ?M = l_start ?L" "l_dev ?M = ROOTDEV" using that by (simp_all add: mount_log_def)
    have "crashed ?L (view s) (disk s) (disk u)" using commit_crashed [OF lo] that(2) by simp
    from recover_crashed [OF less_imp_le [OF n(1)] n(2) st lo cl this refl]
    have rc: "log_layout (hdr_log ?M (disk u (l_start ?M)))"
      and "(\<forall>b. b \<notin> log_area ?L \<longrightarrow> apply_writes (recovery_writes ?M (disk u)) (disk u) b = disk s b) \<or>
        (\<forall>b. b \<notin> log_area ?L \<longrightarrow> apply_writes (recovery_writes ?M (disk u)) (disk u) b = committed ?L (view s) (disk s) b)"
      using st by auto
    then show ?thesis by (intro wp_mono [OF initlog_spec [OF that(1) rc refl]]) auto
  qed
  show ?thesis
    using commit_spec [OF l n(1) b(2), unfolded v]
    by (rule wp_mono) (auto simp: lat_def intro!: exI [of _ ?ws] all rec)
qed

definition pinned0 :: "nat \<Rightarrow> buf" where
  "pinned0 = (\<lambda>_. buf0)(0 := buf0\<lparr>b_valid := True, b_dev := ROOTDEV, b_blockno := 50, b_refcnt := 1, b_data := (\<lambda>_. 7)\<rparr>)"

abbreviation log1 :: logst where
  "log1 \<equiv> \<lparr>l_start = 2, l_size = 30, l_outstanding = 0, l_committing = False, l_dev = ROOTDEV, lh_n = 1,
     lh_block = (\<lambda>_. 50)\<rparr>"

abbreviation cst :: log_st where
  "cst \<equiv> lst pinned0 log1"

lemma cst_ents: "ents cst = [50 \<mapsto> \<lparr>e_idx = 0, e_cnt = 1, e_data = (\<lambda>_. 7), e_held = False\<rparr>]"
proof -
  have "bufno cst b = (if b = 50 then Some 0 else None)" for b
  proof -
    have "[0..<NBUF] = 0 # [1..<NBUF]" by (simp add: upt_rec)
    moreover have "find (\<lambda>i. caches (bufs cst i) b) [1..<NBUF] = None"
      by (auto simp: find_None_iff caches_def pinned0_def buf0_def)
    ultimately show ?thesis by (simp only: bufno_def) (simp add: caches_def pinned0_def)
  qed
  then show ?thesis
    by (auto simp: fun_eq_iff ents_def ent_of_def pinned0_def) (simp add: lst_def pst0_def)
qed

lemma cst_ready: "ready_to_commit 1 cst"
proof -
  have "bio_inv 1 cst" by (rule lst_bio_inv) (auto simp: pinned0_def buf0_def caches_def split: if_splits)
  then show ?thesis
    by (simp add: ready_to_commit_def commit_ready_def cst_ents log_layout_def homes_def slots_def log_slot_def
        log0_def pinned_def hdr_n_def)
qed

lemma boot_lst: "boot 1 (lst (\<lambda>_. buf0) log0)"
proof -
  have "bio_inv 1 (lst (\<lambda>_. buf0) log0)" by (rule lst_bio_inv) (auto simp: buf0_def caches_def)
  then show ?thesis by (auto simp: boot_def ents_def buf0_def split: option.split)
qed

theorem log_commit_atomic_witness:
  "ready_to_commit 1 cst \<and> wp commit (\<lambda>_ t. disk t 50 = (\<lambda>_. 7)) cst"
proof -
  have v: "view cst 50 = (\<lambda>_. 7)" by (simp add: view_def cst_ents)
  have "50 \<notin> log_area (klog cst)" "committed (klog cst) (view cst) (disk cst) 50 = (\<lambda>_. 7)"
    using v by (simp_all add: log_area_def slots_def log_slot_def log0_def committed_def homes_def)
  then show ?thesis
    using cst_ready by (intro conjI wp_mono [OF log_commit_atomic [OF cst_ready]]) auto
qed

section \<open>Repeated recovery\<close>

definition mountable :: "superblock \<Rightarrow> 'a log_st_scheme \<Rightarrow> bool" where
  "mountable sb s \<longleftrightarrow> (let l = mount_log sb (klog s) in log_layout (hdr_log l (disk s (l_start l))))"

text \<open>
  C29: Recovery can be cut short and repeated. \<open>initlog\<close> run from a boot returns, with the log empty
  in memory and in the header on the disk; and if the machine stops after any number of recovery's
  disk writes, \<open>initlog\<close> run again after the next boot ends with exactly the same disk.
\<close>

theorem recovery_repeatable:
  fixes s :: "'a log_st_scheme"
  assumes b: "boot p s" and m: "mountable sb s"
  shows "wp (initlog ROOTDEV sb) (\<lambda>_ t. \<exists>ws. dwrites t = dwrites s @ ws \<and> boot p t \<and> lh_n (klog t) = 0 \<and>
     hdr_n (disk t (sb_logstart sb)) = 0 \<and>
     (\<forall>k q (u :: 'a log_st_scheme). boot q u \<longrightarrow> disk u = apply_writes (take k ws) (disk s) \<longrightarrow>
       wp (initlog ROOTDEV sb) (\<lambda>_ v. disk v = disk t) u)) s"
proof -
  let ?M = "mount_log sb (klog s)"
  let ?ws = "recovery_writes ?M (disk s)"
  have lo: "log_layout (hdr_log ?M (disk s (l_start ?M)))" using m by (simp add: mountable_def Let_def)
  have st: "l_start (mount_log sb l) = sb_logstart sb" "l_dev (mount_log sb l) = ROOTDEV" for l
    by (simp_all add: mount_log_def)
  have again: "wp (initlog ROOTDEV sb) (\<lambda>_ v. disk v = apply_writes ?ws (disk s)) u"
    if "boot q u" "disk u = apply_writes (take k ?ws) (disk s)" for k q and u :: "'a log_st_scheme"
  proof -
    let ?N = "mount_log sb (klog u)"
    from recovery_again [OF lo _ _ that(2), of ?N] st
    have lo': "log_layout (hdr_log ?N (disk u (l_start ?N)))"
      and e: "apply_writes (recovery_writes ?N (disk u)) (disk u) = apply_writes ?ws (disk s)" by simp_all
    show ?thesis using e by (intro wp_mono [OF initlog_spec [OF that(1) lo' refl]]) auto
  qed
  have h: "hdr_n (apply_writes ?ws (disk s) (sb_logstart sb)) = 0"
    by (simp add: recovery_writes_def Let_def st)
  show ?thesis
    using initlog_spec [OF b lo refl] by (rule wp_mono) (auto intro!: exI [of _ ?ws] again h)
qed

theorem recovery_repeatable_witness:
  "boot 1 (lst (\<lambda>_. buf0) log0) \<and> mountable \<lparr>sb_magic = 0x10203040, sb_size = 1000, sb_nblocks = 954, sb_ninodes = 200,
     sb_nlog = 30, sb_logstart = 2, sb_inodestart = 32, sb_bmapstart = 45\<rparr> (lst (\<lambda>_. buf0) log0) \<and>
   wp (initlog ROOTDEV \<lparr>sb_magic = 0x10203040, sb_size = 1000, sb_nblocks = 954, sb_ninodes = 200,
     sb_nlog = 30, sb_logstart = 2, sb_inodestart = 32, sb_bmapstart = 45\<rparr>) (\<lambda>_ t. lh_n (klog t) = 0) (lst (\<lambda>_. buf0) log0)"
proof -
  let ?sb = "\<lparr>sb_magic = 0x10203040, sb_size = 1000, sb_nblocks = 954, sb_ninodes = 200,
     sb_nlog = 30, sb_logstart = 2, sb_inodestart = 32, sb_bmapstart = 45\<rparr>"
  have m: "mountable ?sb (lst (\<lambda>_. buf0) log0)"
    by (simp add: mountable_def mount_log_def Let_def layout_empty hdr_n_def)
  show ?thesis
    using boot_lst m by (intro conjI wp_mono [OF recovery_repeatable [OF boot_lst m]]) auto
qed

section \<open>Space in the log\<close>

lemma acquire_calm: "calm p s \<Longrightarrow> acquire lk s = Ret () (acq lk s)"
  using wp_acquire_calm [of p s lk "\<lambda>_ t. t = acq lk s"] by (auto simp: wp_iff_Ret)

lemma release_calm: "calm p s \<Longrightarrow> release lk (acq lk s) = Ret () s"
  using wp_release_calm [of p s lk "\<lambda>_ t. t = s"] by (auto simp: wp_iff_Ret)

lemma l_outstanding_upd: "l_outstanding_update (\<lambda>n. n + 1) l = l\<lparr>l_outstanding := l_outstanding l + 1\<rparr>"
  by simp

lemma rel_unlocks: "\<not> locked (locks (rel lk s) lk)"
  by (simp add: rel_def pop_st_def upd_lock_def upd_mycpu_def intr_on_def w_sstatus_def Let_def)

text \<open>
  C31: \<open>begin_op\<close> lets a system call in exactly when no commit is running and the log has room for
  \<open>MAXOPBLOCKS\<close> blocks of it and of each of the others; it then counts it and changes nothing else.
  Otherwise the caller gives up the log's lock and goes to sleep.
\<close>

theorem begin_op_reserves_space:
  assumes c: "calm p s"
  shows "if l_committing (klog s) \<or> int LOGSIZE < lh_n (klog s) + (l_outstanding (klog s) + 1) * int MAXOPBLOCKS
    then \<exists>t. begin_op s = Sleep LogChan t \<and> \<not> locked (locks t LogLock) \<and> p_state (procs t p) = SLEEPING \<and> klog t = klog s
    else begin_op s = Ret () (s\<lparr>klog := (klog s)\<lparr>l_outstanding := l_outstanding (klog s) + 1\<rparr>\<rparr>)"
proof -
  let ?a = "acq LogLock s"
  have r: "sleep_ready p LogLock ?a" using crit_facts [OF c, of LogLock] by (simp add: sleep_ready_def)
  have sl: "\<exists>t. sleep LogChan LogLock ?a = (Sleep LogChan t :: (unit, _) outcome) \<and> \<not> locked (locks t LogLock) \<and>
      p_state (procs t p) = SLEEPING \<and> klog t = klog s"
    unfolding sleep_eq [OF r] by (simp add: asleep_def rel_unlocks)
  let ?t = "s\<lparr>klog := (klog s)\<lparr>l_outstanding := l_outstanding (klog s) + 1\<rparr>\<rparr>"
  have "calm p ?t" using c by simp
  note rel = release_calm [OF this, of LogLock]
  have *: "begin_op s = begin_round ?a"
    by (simp add: begin_op_def run_defs acquire_calm [OF c] split: outcome.split)
  obtain u where u: "sleep LogChan LogLock ?a = (Sleep LogChan u :: (unit, _) outcome)" "\<not> locked (locks u LogLock)"
      "p_state (procs u p) = SLEEPING" "klog u = klog s" using sl by blast
  show ?thesis
    unfolding * using u rel by (simp add: begin_round_def kif_def run_defs set_log_def l_outstanding_upd)
qed

theorem begin_op_reserves_space_witness:
  "calm 1 cst \<and> (\<exists>t. begin_op cst = Ret () t \<and> l_outstanding (klog t) = 1)"
  using begin_op_reserves_space [OF lst_calm, of pinned0 log1] lst_calm by simp

lemma log_index_cases:
  assumes "0 \<le> lh_n L"
  shows "if b \<in> set (homes L) then log_index L b < nat (lh_n L) \<and> lh_block L (log_index L b) = b else log_index L b = nat (lh_n L)"
proof (cases "find (\<lambda>i. lh_block L i = b) [0..<nat (lh_n L)]")
  case None
  then have "b \<notin> set (homes L)" by (auto simp: find_None_iff homes_def)
  with None show ?thesis by (simp add: log_index_def)
next
  case (Some i)
  then have "i < nat (lh_n L)" "lh_block L i = b" by (auto simp: find_Some_iff)
  moreover from this have "b \<in> set (homes L)" by (auto simp: homes_def)
  ultimately show ?thesis using Some by (simp add: log_index_def)
qed

lemma wp_bpin_in: "calm p s \<Longrightarrow> wp (bpin b) Q (acq LogLock s) = wp (bpin b) (\<lambda>r t. Q r (acq LogLock t)) s"
proof -
  assume c: "calm p s"
  note f = crit_facts [OF c, of LogLock]
  have "wp (bpin b) Q (acq LogLock s) = Q () (acq LogLock (upd_buf b (b_refcnt_update (\<lambda>n. n + 1)) s))"
    using f by (simp add: bpin_def wp_simps wp_acquire wp_release set_buf_def upd_buf_def)
  moreover have "wp (bpin b) (\<lambda>r t. Q r (acq LogLock t)) s = Q () (acq LogLock (upd_buf b (b_refcnt_update (\<lambda>n. n + 1)) s))"
    using crit_facts [OF c, of BcacheLock] c by (simp add: bpin_def wp_simps wp_acquire_calm wp_release set_buf_def upd_buf_def)
  ultimately show ?thesis by simp
qed

definition log_room :: "logst \<Rightarrow> bool" where
  "log_room l \<longleftrightarrow> lh_n l < int LOGSIZE \<and> lh_n l < l_size l - 1"

definition log_add :: "uint \<Rightarrow> logst \<Rightarrow> logst" where
  "log_add b l = (if b \<in> set (homes l) then l else l\<lparr>lh_block := (lh_block l)(nat (lh_n l) := b), lh_n := lh_n l + 1\<rparr>)"

lemma homes_log_add: "0 \<le> lh_n l \<Longrightarrow> homes (log_add b l) = (if b \<in> set (homes l) then homes l else homes l @ [b])"
  by (auto simp: log_add_def homes_def nat_add_distrib)

lemma bio_klog_frame: "bio_frame (s\<lparr>klog := l\<rparr>) t \<Longrightarrow> log_frame s (klog_update f t)"
proof -
  assume "bio_frame (s\<lparr>klog := l\<rparr>) t"
  then have "log_frame (s\<lparr>klog := l\<rparr>) t" using bio_log_frame by blast
  moreover have "log_frame s (s\<lparr>klog := l\<rparr>)" "log_frame t (klog_update f t)" by (simp_all add: log_frame_def)
  ultimately show ?thesis using log_frame_trans by metis
qed

lemma log_write_spec:
  assumes b: "bio_inv p s" and e: "ents s b = Some e" "e_cnt e + 1 < 4294967296" and n: "0 \<le> lh_n (klog s)"
    and r: "log_room (klog s)" and o: "1 \<le> l_outstanding (klog s)"
  shows "wp (log_write (e_idx e)) (\<lambda>_ t. bio_inv p t \<and> disk t = disk s \<and> dwrites t = dwrites s \<and>
    klog t = log_add b (klog s) \<and> log_frame s t \<and>
    ents t = (if b \<in> set (homes (klog s)) then ents s else (ents s)(b \<mapsto> e\<lparr>e_cnt := Suc (e_cnt e)\<rparr>))) s"
proof -
  let ?L = "klog s"
  have c: "calm p s" using b by (simp add: bio_inv_def)
  have bn: "b_blockno (bufs s (e_idx e)) = b" using ent_fields [OF b e(1)] by (auto simp: caches_def)
  note ix = log_index_cases [OF n, of b]
  show ?thesis
  proof (cases "b \<in> set (homes ?L)")
    case True
    then have "?L\<lparr>lh_block := (lh_block ?L)(log_index ?L b := b)\<rparr> = ?L" "int (log_index ?L b) \<noteq> lh_n ?L"
      using ix by (auto simp: fun_upd_idem)
    moreover have k: "(acq LogLock s)\<lparr>klog := klog s\<rparr> = acq LogLock s" by simp
    ultimately show ?thesis
      using True b r o c bn wp_release_calm [OF c]
      by (simp add: log_write_def wp_simps wp_acquire_calm [OF c] panic_if_def log_room_def log_add_def k)
  next
    case False
    let ?l = "?L\<lparr>lh_block := (lh_block ?L)(nat (lh_n ?L) := b)\<rparr>"
    let ?u = "s\<lparr>klog := ?l\<rparr>"
    have u: "bio_inv p ?u" "ents ?u = ents s" "calm p ?u" using b c by simp_all
    have "wp (bpin (e_idx e)) (\<lambda>_ t. bio_inv p t \<and> bio_frame ?u t \<and> disk t = disk s \<and> dwrites t = dwrites s \<and>
      ents t = (ents s)(b \<mapsto> e\<lparr>e_cnt := Suc (e_cnt e)\<rparr>)) ?u"
      using bpin_spec [OF u(1), of b e] e u(2) by simp
    then have "wp (bpin (e_idx e)) (\<lambda>_ t. wp (kdo [set_log (lh_n_update (\<lambda>n. n + 1)), release LogLock])
      (\<lambda>_ t. bio_inv p t \<and> disk t = disk s \<and> dwrites t = dwrites s \<and>
         klog t = log_add b ?L \<and> log_frame s t \<and> ents t = (ents s)(b \<mapsto> e\<lparr>e_cnt := Suc (e_cnt e)\<rparr>)) (acq LogLock t)) ?u"
    proof (rule wp_mono)
      fix r t assume t: "bio_inv p t \<and> bio_frame ?u t \<and> disk t = disk s \<and> dwrites t = dwrites s \<and>
        ents t = (ents s)(b \<mapsto> e\<lparr>e_cnt := Suc (e_cnt e)\<rparr>)"
      then have k: "klog t = ?l" using bio_log_frame [of ?u t] by simp
      have "calm p (t\<lparr>klog := lh_n_update (\<lambda>n. n + 1) (klog t)\<rparr>)" using t by (simp add: bio_inv_def)
      from wp_release_calm [OF this] t k False bio_klog_frame [of ?l s t]
      show "wp (kdo [set_log (lh_n_update (\<lambda>n. n + 1)), release LogLock])
      (\<lambda>_ t. bio_inv p t \<and> disk t = disk s \<and> dwrites t = dwrites s \<and>
         klog t = log_add b ?L \<and> log_frame s t \<and> ents t = (ents s)(b \<mapsto> e\<lparr>e_cnt := Suc (e_cnt e)\<rparr>)) (acq LogLock t)"
        by (simp add: wp_simps log_add_def)
    qed
    then show ?thesis
      using False r o n ix wp_bpin_in [OF u(3)] bn
      by (simp add: log_write_def wp_simps wp_acquire_calm [OF c] panic_if_def log_room_def)
  qed
qed

text \<open>
  C30: \<open>log_write\<close> on a buffer in use. In a log with room it records the buffer's block once: a block
  already recorded is absorbed, a new one is appended and its buffer pinned; the disk is not
  touched. A log that is full, which a log of \<open>size\<close> blocks is at \<open>size - 1\<close>, and a call outside a
  transaction are panics.
\<close>

theorem log_write_contract:
  assumes b: "bio_inv p s" and e: "ents s b = Some e" "e_cnt e + 1 < 4294967296" and n: "0 \<le> lh_n (klog s)"
  shows "if \<not> log_room (klog s) then panics_with (log_write (e_idx e)) ''too big a transaction'' s
    else if l_outstanding (klog s) < 1 then panics_with (log_write (e_idx e)) ''log_write outside of trans'' s
    else wp (log_write (e_idx e)) (\<lambda>_ t. bio_inv p t \<and> disk t = disk s \<and> dwrites t = dwrites s \<and>
      homes (klog t) = (if b \<in> set (homes (klog s)) then homes (klog s) else homes (klog s) @ [b]) \<and>
      ents t = (if b \<in> set (homes (klog s)) then ents s else (ents s)(b \<mapsto> e\<lparr>e_cnt := Suc (e_cnt e)\<rparr>))) s"
proof -
  have c: "calm p s" using b by (simp add: bio_inv_def)
  have p: "panics_with (log_write (e_idx e)) ''too big a transaction'' s" if "\<not> log_room (klog s)"
    using that by (auto simp: log_write_def panics_with_def run_defs acquire_calm [OF c] panic_if_def log_room_def)
  have q: "panics_with (log_write (e_idx e)) ''log_write outside of trans'' s"
    if "log_room (klog s)" "l_outstanding (klog s) < 1"
    using that by (auto simp: log_write_def panics_with_def run_defs acquire_calm [OF c] panic_if_def log_room_def)
  have "wp (log_write (e_idx e)) (\<lambda>_ t. bio_inv p t \<and> disk t = disk s \<and> dwrites t = dwrites s \<and>
      homes (klog t) = (if b \<in> set (homes (klog s)) then homes (klog s) else homes (klog s) @ [b]) \<and>
      ents t = (if b \<in> set (homes (klog s)) then ents s else (ents s)(b \<mapsto> e\<lparr>e_cnt := Suc (e_cnt e)\<rparr>))) s"
    if "log_room (klog s)" "\<not> l_outstanding (klog s) < 1"
    using that by (intro wp_mono [OF log_write_spec [OF b e n]]) (auto simp: homes_log_add [OF n])
  with p q show ?thesis by simp
qed

theorem log_write_contract_witness:
  "bio_inv 1 cst \<and> panics_with (log_write 0) ''log_write outside of trans'' cst"
proof -
  have b: "bio_inv 1 cst" using cst_ready by (simp add: ready_to_commit_def)
  with log_write_contract [OF b, of 50 "\<lparr>e_idx = 0, e_cnt = 1, e_data = (\<lambda>_. 7), e_held = False\<rparr>"]
  show ?thesis by (simp add: cst_ents log_room_def)
qed

end
