(* ===== verification/Bio_Contract.thy ===== *)
theory Bio_Contract
  imports Log_Atomic
begin

text \<open>
  What the buffer cache promises its callers: \<open>binit\<close> establishes the invariant of the cache, and
  in it \<open>bread\<close> hands out the latest contents of a block.
\<close>

definition zeroed_bufs :: "'a bio_st_scheme \<Rightarrow> bool" where
  "zeroed_bufs s \<longleftrightarrow> (\<forall>i \<le> NBUF. b_refcnt (bufs s i) = 0 \<and> \<not> b_valid (bufs s i) \<and> b_dev (bufs s i) = 0)"

definition binit_upto :: "nat \<Rightarrow> nat \<Rightarrow> 'a bio_st_scheme \<Rightarrow> bool" where
  "binit_upto p n s \<longleftrightarrow> calm p s \<and> zeroed_bufs s \<and> ring (bnx s) (bpv s) (rev [0..<n]) \<and>
     (\<forall>i < n. \<not> sl_locked (sleeplocks s (BufLk i)))"

lemma calm_initlock: "calm p s \<Longrightarrow> calm p (upd_lock lk (\<lambda>l. l\<lparr>lk_name := nm, locked := False, lk_cpu := None\<rparr>) s)"
  by (simp add: calm_def lock_defs)

lemma upd_lock_bio [simp]: "bufs (upd_lock lk f s) = bufs s" "sleeplocks (upd_lock lk f s) = sleeplocks s"
  by (simp_all add: upd_lock_def)

lemma calm_upd_buf [simp]: "calm p (upd_buf i f s) = calm p s"
  by (simp add: upd_buf_def calm_def)

lemma zeroed_upd_links [simp]:
  "zeroed_bufs (upd_buf i (b_next_update f) s) = zeroed_bufs s" "zeroed_bufs (upd_buf i (b_prev_update f) s) = zeroed_bufs s"
  by (auto simp: zeroed_bufs_def upd_buf_def)

lemma binit_round:
  assumes s: "binit_upto p n s" and n: "n < NBUF"
  shows "wp (kdo [
       kmodify (\<lambda>s. upd_buf n (b_next_update (\<lambda>_. b_next (bufs s bhead))) s),
       set_buf n (b_prev_update (\<lambda>_. bhead)),
       initsleeplock (BufLk n) ''buffer'',
       kmodify (\<lambda>s. upd_buf (b_next (bufs s bhead)) (b_prev_update (\<lambda>_. n)) s),
       set_buf bhead (b_next_update (\<lambda>_. n))]) (\<lambda>_. binit_upto p (Suc n)) s"
proof -
  let ?h = "b_next (bufs s bhead)"
  let ?s2 = "upd_buf n (b_prev_update (\<lambda>_. bhead)) (upd_buf n (b_next_update (\<lambda>_. ?h)) s)"
  let ?s3 = "upd_sleeplock (BufLk n) (\<lambda>l. l\<lparr>sl_name := ''buffer'', sl_locked := False, sl_pid := 0\<rparr>)
     (upd_lock (BufLk n) (\<lambda>l. l\<lparr>lk_name := ''sleep lock'', locked := False, lk_cpu := None\<rparr>) ?s2)"
  let ?t = "upd_buf bhead (b_next_update (\<lambda>_. n)) (upd_buf ?h (b_prev_update (\<lambda>_. n)) ?s3)"
  have h: "b_next (bufs ?s3 bhead) = ?h" using n by (simp add: upd_buf_def upd_sleeplock_def)
  have "ring ((bnx s)(n := ?h, bhead := n)) ((bpv s)(n := bhead, ?h := n)) (n # rev [0..<n])"
    using s n by (intro ring_insert) (auto simp: binit_upto_def)
  moreover have "bnx ?t = (bnx s)(n := ?h, bhead := n)" "bpv ?t = (bpv s)(n := bhead, ?h := n)"
    by (auto simp: fun_eq_iff upd_buf_def upd_sleeplock_def)
  moreover have "calm p ?t" using s by (simp add: binit_upto_def calm_initlock)
  moreover have "zeroed_bufs ?t" using s by (auto simp: binit_upto_def zeroed_bufs_def upd_buf_def upd_sleeplock_def)
  moreover have "\<not> sl_locked (sleeplocks ?t (BufLk i))" if "i < Suc n" for i
    using s that by (auto simp: binit_upto_def upd_buf_def upd_sleeplock_def less_Suc_eq)
  ultimately have "binit_upto p (Suc n) ?t" by (simp add: binit_upto_def)
  then show ?thesis
    using h by (simp add: wp_simps set_buf_def initsleeplock_def initlock_def)
qed

text \<open>
  Run on a cache that is all zeros, as it is at boot, \<open>binit\<close> returns with the invariant of the
  cache: the list holds every buffer once in both directions, no two buffers hold the same block,
  and no buffer is in use.
\<close>

lemma binit_establishes_cache:
  assumes c: "calm p s" and z: "zeroed_bufs s"
  shows "wp binit (\<lambda>_. boot p) s"
proof -
  let ?s0 = "upd_buf bhead (b_next_update (\<lambda>_. bhead)) (upd_buf bhead (b_prev_update (\<lambda>_. bhead))
    (upd_lock BcacheLock (\<lambda>l. l\<lparr>lk_name := ''bcache'', locked := False, lk_cpu := None\<rparr>) s))"
  have b0: "binit_upto p 0 ?s0"
    using c z by (simp add: binit_upto_def calm_initlock zeroed_bufs_def ring_def upd_buf_def)
  have fin: "boot p t" if t: "binit_upto p NBUF t" for t :: "'a bio_st_scheme"
  proof -
    have "lru_ok t" unfolding lru_ok_def using t by (intro exI [of _ "rev [0..<NBUF]"]) (auto simp: binit_upto_def)
    moreover have "\<not> caches (bufs t i) b" if "i < NBUF" for i b
      using t that by (auto simp: binit_upto_def zeroed_bufs_def caches_def)
    moreover from this have "ents t = Map.empty"
      by (auto simp: ents_def fun_eq_iff dest: bufno_Some split: option.split)
    ultimately show ?thesis
      using t by (auto simp: boot_def bio_inv_def buf_ok_def binit_upto_def zeroed_bufs_def)
  qed
  have "wp (kforeach [0..<NBUF] (\<lambda>b. kdo [
       kmodify (\<lambda>s. upd_buf b (b_next_update (\<lambda>_. b_next (bufs s bhead))) s),
       set_buf b (b_prev_update (\<lambda>_. bhead)),
       initsleeplock (BufLk b) ''buffer'',
       kmodify (\<lambda>s. upd_buf (b_next (bufs s bhead)) (b_prev_update (\<lambda>_. b)) s),
       set_buf bhead (b_next_update (\<lambda>_. b))])) (\<lambda>_. boot p) ?s0"
  proof (rule wp_kforeach_inv [where I = "\<lambda>ys. binit_upto p (length ys)"])
    fix ys i zs t assume i: "[0..<NBUF] = ys @ i # zs" and t: "binit_upto p (length ys) t"
    then show "wp (kdo [
       kmodify (\<lambda>s. upd_buf i (b_next_update (\<lambda>_. b_next (bufs s bhead))) s),
       set_buf i (b_prev_update (\<lambda>_. bhead)),
       initsleeplock (BufLk i) ''buffer'',
       kmodify (\<lambda>s. upd_buf (b_next (bufs s bhead)) (b_prev_update (\<lambda>_. i)) s),
       set_buf bhead (b_next_update (\<lambda>_. i))]) (\<lambda>_. binit_upto p (length (ys @ [i]))) t"
      using upt_split [OF i] binit_round [of p i t] by simp
  qed (use b0 fin in simp_all)
  then show ?thesis by (simp add: binit_def wp_simps initlock_def set_buf_def)
qed

text \<open>
  C32: \<open>bread\<close> is a lookup in the abstract map from block numbers to contents: it returns a buffer
  that holds the latest contents of the block, in the cache or else on the disk; the block is then
  in use by one more holder and locked; no other block's entry, and no block's contents, change.
\<close>

theorem bread_refines_view:
  assumes "bio_inv p s" "unheld s b" "room s b" "cnt s b + 1 < 4294967296"
  shows "wp (bread ROOTDEV b) (\<lambda>i t. bio_inv p t \<and> b_data (bufs t i) = view s b \<and> view t = view s \<and> disk t = disk s \<and>
    cnt t b = Suc (cnt s b) \<and> \<not> unheld t b \<and> (\<forall>c. c \<noteq> b \<longrightarrow> ents t c = ents s c)) s"
proof (rule wp_mono [OF bread_spec [OF assms]])
  fix i t
  let ?e = "\<lparr>e_idx = i, e_cnt = Suc (cnt s b), e_data = view s b, e_held = True\<rparr>"
  assume t: "bio_inv p t \<and> bio_frame s t \<and> disk t = disk s \<and> dwrites t = dwrites s \<and>
    (\<forall>e. ents s b = Some e \<longrightarrow> i = e_idx e) \<and> ents t = (ents s)(b \<mapsto> ?e)"
  then have e: "ents t b = Some ?e" by simp
  then have "b_data (bufs t i) = view s b" using ent_fields(4) [of p t b ?e] t by simp
  moreover have "view t c = view s c" for c using t by (auto simp: view_def split: option.split)
  ultimately show "bio_inv p t \<and> b_data (bufs t i) = view s b \<and> view t = view s \<and> disk t = disk s \<and>
    cnt t b = Suc (cnt s b) \<and> \<not> unheld t b \<and> (\<forall>c. c \<noteq> b \<longrightarrow> ents t c = ents s c)"
    using t by (auto simp: cnt_def unheld_def)
qed

theorem bread_refines_view_witness:
  "bio_inv 1 cst \<and> wp (bread ROOTDEV 50) (\<lambda>i t. b_data (bufs t i) = (\<lambda>_. 7)) cst"
proof -
  have b: "bio_inv 1 cst" using cst_ready by (simp add: ready_to_commit_def)
  have "unheld cst 50" "room cst 50" "cnt cst 50 + 1 < 4294967296" "view cst 50 = (\<lambda>_. 7)"
    by (simp_all add: unheld_def room_def cnt_def view_def cst_ents)
  with b show ?thesis by (intro conjI wp_mono [OF bread_refines_view [OF b]]) auto
qed

end
