(* ===== verification/Ring.thy ===== *)
theory Ring
  imports Prelude
begin

text \<open>
  Ring buffers with free-running indices, the data structure of pipes, of the UART's output and of
  the console's input. The indices are machine words that wrap around; the buffer's size divides
  the range of the indices. A ring implements a queue of bounded length.
\<close>

definition ring_queue :: "nat \<Rightarrow> (nat \<Rightarrow> 'v) \<Rightarrow> 'w::len word \<Rightarrow> 'w word \<Rightarrow> 'v list" where
  "ring_queue n buf r w = map (\<lambda>i. buf (unat (r + of_nat i) mod n)) [0..<unat (w - r)]"

definition ring_ok :: "nat \<Rightarrow> 'w::len word \<Rightarrow> 'w word \<Rightarrow> bool" where
  "ring_ok n r w \<longleftrightarrow> unat (w - r) \<le> n"

lemma length_ring_queue [simp]: "length (ring_queue n buf r w) = unat (w - r)"
  by (simp add: ring_queue_def)

lemma unat_Suc_diff: "unat (w - r) < 2 ^ LENGTH('w) - 1 \<Longrightarrow> unat (w + 1 - r) = Suc (unat (w - r))"
  for r w :: "'w::len word"
proof -
  assume "unat (w - r) < 2 ^ LENGTH('w) - 1"
  then have "unat ((w - r) + 1) = unat (w - r) + 1" by (simp add: unat_word_ariths unat_eq_0)
  then show ?thesis by (simp add: algebra_simps)
qed

lemma unat_diff_Suc: "r \<noteq> w \<Longrightarrow> unat (w - (r + 1)) = unat (w - r) - 1" for r w :: "'w::len word"
proof -
  assume "r \<noteq> w"
  then have "w - r \<noteq> 0" by simp
  then have "unat ((w - r) - 1) = unat (w - r) - 1" by (simp add: unat_minus_one)
  then show ?thesis by (simp add: algebra_simps)
qed

lemma ring_index_apart:
  fixes r :: "'w::len word"
  assumes "n dvd 2 ^ LENGTH('w)" "i < j" "j < i + n" "n < 2 ^ LENGTH('w)"
  shows "unat (r + of_nat i) mod n \<noteq> unat (r + of_nat j) mod n"
proof
  let ?N = "2 ^ LENGTH('w) :: nat"
  have u: "unat (r + of_nat k) mod n = (unat r + k) mod n" for k
  proof -
    have "unat (r + of_nat k) = (unat r + k mod ?N) mod ?N" by (simp add: unat_word_ariths unat_of_nat)
    also have "\<dots> mod n = (unat r + k mod ?N) mod n" using mod_mod_cancel [OF assms(1)] .
    also have "\<dots> = (unat r + k) mod n"
      using mod_mod_cancel [OF assms(1), of k] mod_add_right_eq [of "unat r" "k mod ?N" n] mod_add_right_eq [of "unat r" k n] by simp
    finally show ?thesis .
  qed
  assume "unat (r + of_nat i) mod n = unat (r + of_nat j) mod n"
  then have "(unat r + i) mod n = (unat r + j) mod n" by (simp add: u)
  then have "n dvd (unat r + j) - (unat r + i)" using mod_eq_dvd_iff_nat [of "unat r + i" "unat r + j" n] assms(2) by simp
  then have "n dvd j - i" by simp
  then show False using assms(2,3) by (auto dest: dvd_imp_le)
qed

lemma ring_queue_put:
  fixes r w :: "'w::len word"
  assumes "n dvd 2 ^ LENGTH('w)" "n < 2 ^ LENGTH('w)" "unat (w - r) < n"
  shows "ring_queue n (buf(unat w mod n := c)) r (w + 1) = ring_queue n buf r w @ [c]"
proof -
  have w: "w = r + of_nat (unat (w - r))" by simp
  have len: "unat (w + 1 - r) = Suc (unat (w - r))" using assms by (intro unat_Suc_diff) linarith
  have ne: "unat (r + of_nat i) mod n \<noteq> unat w mod n" if "i < unat (w - r)" for i
    using ring_index_apart [of n i "unat (w - r)" r] that assms by (simp add: w [symmetric])
  have "(buf(unat w mod n := c)) (unat (r + of_nat (unat (w - r))) mod n) = c" by (simp add: w [symmetric])
  then show ?thesis using ne by (simp add: ring_queue_def len)
qed

lemma ring_queue_take:
  fixes r w :: "'w::len word"
  assumes "r \<noteq> w"
  shows "ring_queue n buf r w = buf (unat r mod n) # ring_queue n buf (r + 1) w"
proof -
  have "0 < unat (w - r)" using assms by (simp add: unat_gt_0)
  then obtain k where k: "unat (w - r) = Suc k" by (cases "unat (w - r)") auto
  then have k': "unat (w - (r + 1)) = k" using unat_diff_Suc [OF assms] by simp
  have "[0..<Suc k] = 0 # map Suc [0..<k]" by (simp only: map_Suc_upt upt_conv_Cons zero_less_Suc)
  then show ?thesis by (simp add: ring_queue_def k k' add.assoc del: upt_Suc)
qed

text \<open>The interface: a ring held in a structure, with an operation that adds and one that removes.\<close>

locale ring_buffer =
  fixes n :: nat and buf :: "'p \<Rightarrow> nat \<Rightarrow> 'v" and rd wr :: "'p \<Rightarrow> 'w::len word"
    and put :: "'v \<Rightarrow> 'p \<Rightarrow> 'p" and take :: "'p \<Rightarrow> 'p"
  assumes size: "n dvd 2 ^ LENGTH('w)" "n < 2 ^ LENGTH('w)" "0 < n"
    and put: "rd (put c p) = rd p" "wr (put c p) = wr p + 1" "buf (put c p) = (buf p)(unat (wr p) mod n := c)"
    and take: "rd (take p) = rd p + 1" "wr (take p) = wr p" "buf (take p) = buf p"
begin

definition queue :: "'p \<Rightarrow> 'v list" where
  "queue p = ring_queue n (buf p) (rd p) (wr p)"

definition fits :: "'p \<Rightarrow> bool" where
  "fits p \<longleftrightarrow> length (queue p) \<le> n"

lemma full_iff: "fits p \<Longrightarrow> wr p = rd p + of_nat n \<longleftrightarrow> length (queue p) = n"
proof -
  have "wr p - rd p = of_nat n \<longleftrightarrow> unat (wr p - rd p) = n"
    using size(2) by (auto simp: unat_of_nat)
  then show ?thesis by (auto simp: queue_def algebra_simps)
qed

lemma empty_iff: "rd p = wr p \<longleftrightarrow> queue p = []"
  by (auto simp: queue_def ring_queue_def unat_eq_0)

lemma queue_put: "length (queue p) < n \<Longrightarrow> queue (put c p) = queue p @ [c]"
  using size by (simp add: queue_def put ring_queue_put)

lemma queue_take: "queue p \<noteq> [] \<Longrightarrow> queue p = buf p (unat (rd p) mod n) # queue (take p)"
  using empty_iff [of p] by (simp add: queue_def take ring_queue_take)

lemma fits_put: "length (queue p) < n \<Longrightarrow> fits (put c p)"
  by (simp add: fits_def queue_put)

lemma fits_take: "fits p \<Longrightarrow> queue p \<noteq> [] \<Longrightarrow> fits (take p)"
  using queue_take [of p] by (simp add: fits_def)

end

end
