(* ===== verification/Uart.thy ===== *)
theory Uart
  imports Log
begin

text \<open>
  The driver of the 16550 UART, \<^verbatim>\<open>kernel/uart.c\<close>. The device is what the driver can see of it: the
  registers it has written, the bytes it was given to send, the bytes that wait to be read, and
  \<open>u_idle\<close>, which says of each number of bytes sent whether the holding register then takes
  another one. The driver's transmit buffer is a ring with free-running indices.
\<close>

section \<open>State\<close>

record uart =
  u_regs :: "nat \<Rightarrow> uchar"
  u_sent :: "uchar list"
  u_recv :: "uchar list"
  u_idle :: "nat \<Rightarrow> bool"
  uart_tx_buf :: "nat \<Rightarrow> uchar"
  uart_tx_w :: uint64
  uart_tx_r :: uint64

record uart_st = log_st +
  uart0 :: uart
  panicked :: bool

type_synonym ('r, 'a) uartop = "('r, 'a uart_st_scheme) kmonad"

abbreviation (input) UART_TX_BUF_SIZE :: nat where "UART_TX_BUF_SIZE \<equiv> 32"
abbreviation (input) IER :: nat where "IER \<equiv> 1"
abbreviation (input) FCR :: nat where "FCR \<equiv> 2"
abbreviation (input) LCR :: nat where "LCR \<equiv> 3"
abbreviation (input) THR :: nat where "THR \<equiv> 0"

definition set_uart :: "(uart \<Rightarrow> uart) \<Rightarrow> (unit, 'a) uartop" where
  "set_uart f = kmodify (\<lambda>s. s\<lparr>uart0 := f (uart0 s)\<rparr>)"

section \<open>Registers\<close>

text \<open>
  A byte written to register 0 is sent, unless the line control register selects the divisor
  latch (bit 7), which registers 0 and 1 then are.
\<close>

definition baud_latch :: "uart \<Rightarrow> bool" where
  "baud_latch u \<longleftrightarrow> bit (u_regs u LCR) 7"

definition write_reg :: "nat \<Rightarrow> uchar \<Rightarrow> uart \<Rightarrow> uart" where
  "write_reg r v u =
     (if r = THR \<and> \<not> baud_latch u then u\<lparr>u_sent := u_sent u @ [v]\<rparr>
      else if r \<le> 1 \<and> baud_latch u then u\<lparr>u_regs := (u_regs u)(16 + r := v)\<rparr>
      else u\<lparr>u_regs := (u_regs u)(r := v)\<rparr>)"

definition WriteReg :: "nat \<Rightarrow> uchar \<Rightarrow> (unit, 'a) uartop" where
  "WriteReg r v = set_uart (write_reg r v)"

definition tx_idle :: "uart \<Rightarrow> bool" where
  "tx_idle u \<longleftrightarrow> u_idle u (length (u_sent u))"

section \<open>Operations\<close>

definition uartinit :: "(unit, 'a) uartop" where
  "uartinit = kdo [
     WriteReg IER 0,
     WriteReg LCR 0x80,
     WriteReg 0 3,
     WriteReg 1 0,
     WriteReg LCR 3,
     WriteReg FCR 7,
     WriteReg IER 3,
     initlock UartTxLock ''uart'']"

text \<open>
  The loop of \<^verbatim>\<open>uartstart\<close>; each round sends one byte of the buffer, so as many rounds as there
  are bytes in it are enough.
\<close>

primrec uartstart_loop :: "nat \<Rightarrow> (unit, 'a) uartop" where
  "uartstart_loop 0 = kreturn ()"
| "uartstart_loop (Suc n) =
     kif (\<lambda>s. uart_tx_w (uart0 s) = uart_tx_r (uart0 s)) (kreturn ())
     (kif (\<lambda>s. \<not> tx_idle (uart0 s)) (kreturn ())
     (kbind (kgets (\<lambda>s. uart_tx_buf (uart0 s) (unat (uart_tx_r (uart0 s)) mod UART_TX_BUF_SIZE))) (\<lambda>c. kdo [
       set_uart (uart_tx_r_update (\<lambda>r. r + 1)),
       wakeup UartTxChan,
       WriteReg THR c,
       uartstart_loop n])))"

definition uartstart :: "(unit, 'a) uartop" where
  "uartstart = kbind (kgets (\<lambda>s. unat (uart_tx_w (uart0 s) - uart_tx_r (uart0 s)))) uartstart_loop"

text \<open>
  One round of the wait for space in \<^verbatim>\<open>uartputc\<close> and what follows it. A hart that finds
  \<open>panicked\<close> set spins for ever.
\<close>

definition uartputc_round :: "uchar \<Rightarrow> (unit, 'a) uartop" where
  "uartputc_round c =
     kif (\<lambda>s. uart_tx_w (uart0 s) = uart_tx_r (uart0 s) + of_nat UART_TX_BUF_SIZE)
       (sleep UartTxChan UartTxLock)
       (kdo [
          set_uart (\<lambda>u. u\<lparr>uart_tx_buf := (uart_tx_buf u)(unat (uart_tx_w u) mod UART_TX_BUF_SIZE := c)\<rparr>),
          set_uart (uart_tx_w_update (\<lambda>w. w + 1)),
          uartstart,
          release UartTxLock])"

definition uartputc :: "uchar \<Rightarrow> (unit, 'a) uartop" where
  "uartputc c = kdo [
     acquire UartTxLock,
     kif panicked (kspin UartTxLock) (uartputc_round c)]"

definition uartputc_return :: "bool \<Rightarrow> uchar \<Rightarrow> (unit, 'a) uartop" where
  "uartputc_return old c = kdo [sleep_return old UartTxLock, uartputc_round c]"

text \<open>
  \<^verbatim>\<open>uartputc_sync\<close> polls the device until it takes a byte, which it does after a while, and
  sends the byte.
\<close>

definition uartputc_sync :: "uchar \<Rightarrow> (unit, 'a) uartop" where
  "uartputc_sync c = kdo [
     push_off,
     kif panicked (kspin UartTxLock) (WriteReg THR c),
     pop_off]"

definition uartgetc :: "(uchar option, 'a) uartop" where
  "uartgetc = kbind (kgets (\<lambda>s. u_recv (uart0 s))) (\<lambda>q. case q of
       [] \<Rightarrow> kreturn None
     | c # cs \<Rightarrow> kthen [set_uart (u_recv_update (\<lambda>_. cs))] (kreturn (Some c)))"
lemma uart_proj [simp]:
  "uart0 (acq lk s) = uart0 s"
  "uart0 (rel lk s) = uart0 s"
  "uart0 (lockcycle s) = uart0 s"
  "panicked (acq lk s) = panicked s"
  "panicked (rel lk s) = panicked s"
  "panicked (lockcycle s) = panicked s"
  by (simp_all add: lock_defs Let_def)

lemma uart_lock [simp]:
  "lock_ok lk (uart0_update f0 s) = lock_ok lk s"
  "holding lk (uart0_update f0 s) = holding lk s"
  "irq_ok (uart0_update f0 s) = irq_ok s"
  "irq_held (uart0_update f0 s) = irq_held s"
  "intr_get (uart0_update f0 s) = intr_get s"
  "cpuid (uart0_update f0 s) = cpuid s"
  "mycpu (uart0_update f0 s) = mycpu s"
  "lock_ok lk (panicked_update f1 s) = lock_ok lk s"
  "holding lk (panicked_update f1 s) = holding lk s"
  "irq_ok (panicked_update f1 s) = irq_ok s"
  "irq_held (panicked_update f1 s) = irq_held s"
  "intr_get (panicked_update f1 s) = intr_get s"
  "cpuid (panicked_update f1 s) = cpuid s"
  "mycpu (panicked_update f1 s) = mycpu s"
  by (simp_all add: lock_defs)

lemma uart_comm [simp]:
  "acq lk (uart0_update f0 s) = uart0_update f0 (acq lk s)"
  "rel lk (uart0_update f0 s) = uart0_update f0 (rel lk s)"
  "lockcycle (uart0_update f0 s) = uart0_update f0 (lockcycle s)"
  "acq lk (panicked_update f1 s) = panicked_update f1 (acq lk s)"
  "rel lk (panicked_update f1 s) = panicked_update f1 (rel lk s)"
  "lockcycle (panicked_update f1 s) = panicked_update f1 (lockcycle s)"
  by (simp_all add: lock_defs Let_def)

end
