(* ===== verification/Printf.thy ===== *)
theory Printf
  imports Uart
begin

text \<open>
  Formatted kernel output: \<^verbatim>\<open>consputc\<close> of \<^verbatim>\<open>kernel/console.c\<close>, \<^verbatim>\<open>kernel/printf.c\<close>, and
  \<^verbatim>\<open>procdump\<close> of \<^verbatim>\<open>kernel/proc.c\<close>. The arguments of \<^verbatim>\<open>printf\<close> are a list of typed values;
  taking one of the wrong type, which is undefined in C, ends the run.
\<close>

record pr_st = uart_st +
  pr_locking :: bool

type_synonym ('r, 'a) prnop = "('r, 'a pr_st_scheme) kmonad"

abbreviation (input) BACKSPACE :: nat where "BACKSPACE \<equiv> 0x100"

definition consputc :: "nat \<Rightarrow> (unit, 'a) uartop" where
  "consputc c = (if c = BACKSPACE then kdo [uartputc_sync 8, uartputc_sync 32, uartputc_sync 8]
     else uartputc_sync (of_nat c))"

definition putchar :: "uchar \<Rightarrow> (unit, 'a) uartop" where
  "putchar c = consputc (unat c)"

definition cstr :: "string \<Rightarrow> uchar list" where
  "cstr xs = map of_char xs"

definition digits :: "uchar list" where
  "digits = cstr ''0123456789abcdef''"

text \<open>
  The \<^verbatim>\<open>do\<close> loop of \<^verbatim>\<open>printint\<close>: the digits from the last one on. The base is 10 or 16.
\<close>

function int_digits :: "uint \<Rightarrow> uint \<Rightarrow> uchar list" where
  "int_digits base x = digits ! unat (x mod base) #
     (if x div base \<noteq> 0 \<and> 1 < base then int_digits base (x div base) else [])"
  by auto

termination int_digits
proof (relation "measure (\<lambda>(base, x). unat x)")
  fix base x :: uint assume a: "x div base \<noteq> 0 \<and> 1 < base"
  then have "1 < unat base" "0 < unat x div unat base"
    by (auto simp: word_less_nat_alt unat_div [symmetric] unat_gt_0)
  then have "unat x div unat base < unat x" by (cases "unat x = 0") (simp_all add: div_less_dividend)
  then show "((base, x div base), base, x) \<in> measure (\<lambda>(base, x). unat x)" by (simp add: unat_div)
qed simp

declare int_digits.simps [simp del]

definition int_text :: "uint \<Rightarrow> uint \<Rightarrow> bool \<Rightarrow> uchar list" where
  "int_text xx base sign = (let neg = (sign \<and> sint xx < 0); x = (if neg then - xx else xx) in
     rev (int_digits base x @ (if neg then [45] else [])))"

definition printint :: "uint \<Rightarrow> uint \<Rightarrow> bool \<Rightarrow> (unit, 'a) uartop" where
  "printint xx base sign = kforeach (int_text xx base sign) putchar"

definition ptr_text :: "uint64 \<Rightarrow> uchar list" where
  "ptr_text x = [48, 120] @ map (\<lambda>i. digits ! unat (drop_bit 60 (push_bit (4 * i) x))) [0..<16]"

definition printptr :: "uint64 \<Rightarrow> (unit, 'a) uartop" where
  "printptr x = kforeach (ptr_text x) putchar"

datatype parg = PInt uint | PPtr uint64 | PStr "uchar list option"

definition bad_arg :: "('r, 's) kmonad" where
  "bad_arg = kpanic ''va_arg''"

text \<open>The loop of \<^verbatim>\<open>printf\<close> over the format.\<close>

fun printf_loop :: "uchar list \<Rightarrow> parg list \<Rightarrow> (unit, 'a) uartop" where
  "printf_loop [] args = kreturn ()"
| "printf_loop [c] args = (if c = 37 then kreturn () else putchar c)"
| "printf_loop (c # d # fmt) args =
     (if c \<noteq> 37 then kdo [putchar c, printf_loop (d # fmt) args]
      else if d = 100 then (case args of
          PInt x # args \<Rightarrow> kdo [printint x 10 True, printf_loop fmt args] | _ \<Rightarrow> bad_arg)
      else if d = 120 then (case args of
          PInt x # args \<Rightarrow> kdo [printint x 16 True, printf_loop fmt args] | _ \<Rightarrow> bad_arg)
      else if d = 112 then (case args of
          PPtr x # args \<Rightarrow> kdo [printptr x, printf_loop fmt args] | _ \<Rightarrow> bad_arg)
      else if d = 115 then (case args of
          PStr t # args \<Rightarrow> kdo [
            kforeach (case t of None \<Rightarrow> cstr ''(null)'' | Some t \<Rightarrow> t) putchar,
            printf_loop fmt args]
        | _ \<Rightarrow> bad_arg)
      else if d = 37 then kdo [putchar 37, printf_loop fmt args]
      else kdo [putchar 37, putchar d, printf_loop fmt args])"

definition printf :: "string \<Rightarrow> parg list \<Rightarrow> (unit, 'a) prnop" where
  "printf fmt args = kbind (kgets pr_locking) (\<lambda>locking. kdo [
     if locking then acquire PrLock else kreturn (),
     printf_loop (cstr fmt) args,
     if locking then release PrLock else kreturn ()])"

definition printfinit :: "(unit, 'a) prnop" where
  "printfinit = kdo [
     initlock PrLock ''pr'',
     kmodify (\<lambda>s. s\<lparr>pr_locking := True\<rparr>)]"

text \<open>What \<^verbatim>\<open>panic\<close> prints before it stops the machine.\<close>

definition panic_report :: "string \<Rightarrow> (unit, 'a) prnop" where
  "panic_report e = kdo [
     kmodify (\<lambda>s. s\<lparr>pr_locking := False\<rparr>),
     printf ''panic: '' [],
     printf e [],
     printf ''\<newline>'' [],
     kmodify (\<lambda>s. s\<lparr>panicked := True\<rparr>)]"

section \<open>procdump\<close>

fun state_name :: "procstate \<Rightarrow> string" where
  "state_name UNUSED = ''unused''"
| "state_name USED = ''used''"
| "state_name SLEEPING = ''sleep ''"
| "state_name RUNNABLE = ''runble''"
| "state_name RUNNING = ''run   ''"
| "state_name ZOMBIE = ''zombie''"

text \<open>The characters of \<^verbatim>\<open>p->name\<close>, at most its 16 bytes.\<close>

definition name_text :: "bytes \<Rightarrow> uchar list" where
  "name_text b = takeWhile (\<lambda>c. c \<noteq> 0) (get_bytes b 0 16)"

definition procdump :: "(unit, 'a) prnop" where
  "procdump = kdo [
     printf ''\<newline>'' [],
     kforeach [0..<NPROC] (\<lambda>p. kbind (kgets (\<lambda>s. procs s p)) (\<lambda>pr.
       if p_state pr = UNUSED then kreturn ()
       else kdo [
         printf ''%d %s %s'' [PInt (of_int (p_pid pr)), PStr (Some (cstr (state_name (p_state pr)))),
           PStr (Some (name_text (p_name pr)))],
         printf ''\<newline>'' []]))]"
lemma pr_proj [simp]:
  "pr_locking (acq lk s) = pr_locking s"
  "pr_locking (rel lk s) = pr_locking s"
  "pr_locking (lockcycle s) = pr_locking s"
  by (simp_all add: lock_defs Let_def)

lemma pr_lock [simp]:
  "lock_ok lk (pr_locking_update f0 s) = lock_ok lk s"
  "holding lk (pr_locking_update f0 s) = holding lk s"
  "irq_ok (pr_locking_update f0 s) = irq_ok s"
  "irq_held (pr_locking_update f0 s) = irq_held s"
  "intr_get (pr_locking_update f0 s) = intr_get s"
  "cpuid (pr_locking_update f0 s) = cpuid s"
  "mycpu (pr_locking_update f0 s) = mycpu s"
  by (simp_all add: lock_defs)

lemma pr_comm [simp]:
  "acq lk (pr_locking_update f0 s) = pr_locking_update f0 (acq lk s)"
  "rel lk (pr_locking_update f0 s) = pr_locking_update f0 (rel lk s)"
  "lockcycle (pr_locking_update f0 s) = pr_locking_update f0 (lockcycle s)"
  by (simp_all add: lock_defs Let_def)

end
