(* ===== verification/Console.thy ===== *)
theory Console
  imports Printf
begin

text \<open>
  The console, \<^verbatim>\<open>kernel/console.c\<close>, and the interrupt handler of \<^verbatim>\<open>kernel/uart.c\<close>. The input
  buffer is a ring with three free-running indices: read, write (what readers may take) and edit.
  \<^verbatim>\<open>consoleread\<close> is split where it sleeps.
\<close>

datatype devfn = ConsoleRead | ConsoleWrite

record devsw =
  d_read :: "devfn option"
  d_write :: "devfn option"

record cons =
  cons_buf :: "nat \<Rightarrow> uchar"
  cons_r :: uint
  cons_w :: uint
  cons_e :: uint

record cons_st = pr_st +
  cons :: cons
  devsw :: "nat \<Rightarrow> devsw"

type_synonym ('r, 'a) consop = "('r, 'a cons_st_scheme) kmonad"

abbreviation (input) INPUT_BUF_SIZE :: nat where "INPUT_BUF_SIZE \<equiv> 128"
abbreviation (input) CONSOLE :: nat where "CONSOLE \<equiv> 1"

definition set_cons :: "(cons \<Rightarrow> cons) \<Rightarrow> (unit, 'a) consop" where
  "set_cons f = kmodify (\<lambda>s. s\<lparr>cons := f (cons s)\<rparr>)"

definition cons_at :: "cons \<Rightarrow> uint \<Rightarrow> uchar" where
  "cons_at c i = cons_buf c (unat i mod INPUT_BUF_SIZE)"

definition consolewrite :: "kptr \<Rightarrow> int \<Rightarrow> (int, 'a) consop" where
  "consolewrite src n = kfor [0..<nat n] (\<lambda>i.
     kbind (either_copyin (\<lambda>_. 0) (kptr_add src i) 1) (\<lambda>(r, c).
     if r = -1 then kreturn (Some (int i))
     else kthen [uartputc (c 0)] (kreturn None)))
     (kreturn (max 0 n))"

text \<open>
  The loop of \<^verbatim>\<open>consoleread\<close> with \<open>n\<close> bytes still wanted. An empty buffer makes a killed process
  return and any other one sleep; it then goes on in \<open>consoleread_return\<close>.
\<close>

primrec consoleread_loop :: "nat \<Rightarrow> nat \<Rightarrow> kptr \<Rightarrow> (int, 'a) consop" where
  "consoleread_loop target 0 dst = kthen [release ConsLock] (kreturn (int target))"
| "consoleread_loop target (Suc n) dst =
     kif (\<lambda>s. cons_r (cons s) = cons_w (cons s))
       (kbind curproc (\<lambda>p. kbind (killed p) (\<lambda>k.
         if k then kthen [release ConsLock] (kreturn (-1))
         else sleep ConsReadChan ConsLock)))
       (kbind (kgets (\<lambda>s. cons_at (cons s) (cons_r (cons s)))) (\<lambda>c.
        kthen [set_cons (cons_r_update (\<lambda>r. r + 1))] (
        if c = 4 then kthen [
            if Suc n < target then set_cons (cons_r_update (\<lambda>r. r - 1)) else kreturn (),
            release ConsLock] (kreturn (int target - int (Suc n)))
        else kbind (either_copyout dst (\<lambda>_. c) 1) (\<lambda>r.
          if r = -1 then kthen [release ConsLock] (kreturn (int target - int (Suc n)))
          else if c = 10 then kthen [release ConsLock] (kreturn (int target - int n))
          else consoleread_loop target n (kptr_add dst 1)))))"

definition consoleread :: "kptr \<Rightarrow> int \<Rightarrow> (int, 'a) consop" where
  "consoleread dst n = kthen [acquire ConsLock] (consoleread_loop (nat n) (nat n) dst)"

definition consoleread_return :: "bool \<Rightarrow> nat \<Rightarrow> nat \<Rightarrow> kptr \<Rightarrow> (int, 'a) consop" where
  "consoleread_return old target n dst = kthen [sleep_return old ConsLock] (consoleread_loop target n dst)"

text \<open>
  Killing the line: back up to the start of the line, at most to the write index, in at most as
  many rounds as there are unread characters being edited.
\<close>

primrec kill_line :: "nat \<Rightarrow> (unit, 'a) consop" where
  "kill_line 0 = kreturn ()"
| "kill_line (Suc n) =
     kif (\<lambda>s. cons_e (cons s) \<noteq> cons_w (cons s) \<and> cons_at (cons s) (cons_e (cons s) - 1) \<noteq> 10)
       (kdo [
          set_cons (cons_e_update (\<lambda>e. e - 1)),
          consputc BACKSPACE,
          kill_line n])
       (kreturn ())"

definition cons_store :: "uchar \<Rightarrow> (unit, 'a) consop" where
  "cons_store c = kdo [
     putchar c,
     set_cons (\<lambda>k. k\<lparr>cons_buf := (cons_buf k)(unat (cons_e k) mod INPUT_BUF_SIZE := c)\<rparr>),
     set_cons (cons_e_update (\<lambda>e. e + 1)),
     kwhen (\<lambda>s. c = 10 \<or> c = 4 \<or> cons_e (cons s) - cons_r (cons s) = of_nat INPUT_BUF_SIZE) (kdo [
       set_cons (\<lambda>k. k\<lparr>cons_w := cons_e k\<rparr>),
       wakeup ConsReadChan])]"

definition consoleintr :: "uchar \<Rightarrow> (unit, 'a) consop" where
  "consoleintr c = kdo [
     acquire ConsLock,
     if c = 16 then procdump
     else if c = 21 then
       kbind (kgets (\<lambda>s. unat (cons_e (cons s) - cons_w (cons s)))) kill_line
     else if c = 8 \<or> c = 127 then
       kwhen (\<lambda>s. cons_e (cons s) \<noteq> cons_w (cons s)) (kdo [
         set_cons (cons_e_update (\<lambda>e. e - 1)),
         consputc BACKSPACE])
     else kwhen (\<lambda>s. c \<noteq> 0 \<and> cons_e (cons s) - cons_r (cons s) < of_nat INPUT_BUF_SIZE)
       (cons_store (if c = 13 then 10 else c)),
     release ConsLock]"

definition consoleinit :: "(unit, 'a) consop" where
  "consoleinit = kdo [
     initlock ConsLock ''cons'',
     uartinit,
     kmodify (\<lambda>s. s\<lparr>devsw := (devsw s)(CONSOLE := (devsw s CONSOLE)\<lparr>d_read := Some ConsoleRead\<rparr>)\<rparr>),
     kmodify (\<lambda>s. s\<lparr>devsw := (devsw s)(CONSOLE := (devsw s CONSOLE)\<lparr>d_write := Some ConsoleWrite\<rparr>)\<rparr>)]"

text \<open>The interrupt handler of the UART takes as many characters as wait in the device.\<close>

primrec uartintr_loop :: "nat \<Rightarrow> (unit, 'a) consop" where
  "uartintr_loop 0 = kreturn ()"
| "uartintr_loop (Suc n) = kbind uartgetc (\<lambda>c. case c of
       None \<Rightarrow> kreturn ()
     | Some c \<Rightarrow> kdo [consoleintr c, uartintr_loop n])"

definition uartintr :: "(unit, 'a) consop" where
  "uartintr = kdo [
     kbind (kgets (\<lambda>s. length (u_recv (uart0 s)))) uartintr_loop,
     acquire UartTxLock,
     uartstart,
     release UartTxLock]"
lemma cons_proj [simp]:
  "cons (acq lk s) = cons s"
  "cons (rel lk s) = cons s"
  "cons (lockcycle s) = cons s"
  "devsw (acq lk s) = devsw s"
  "devsw (rel lk s) = devsw s"
  "devsw (lockcycle s) = devsw s"
  by (simp_all add: lock_defs Let_def)

lemma cons_lock [simp]:
  "lock_ok lk (cons_update f0 s) = lock_ok lk s"
  "holding lk (cons_update f0 s) = holding lk s"
  "irq_ok (cons_update f0 s) = irq_ok s"
  "irq_held (cons_update f0 s) = irq_held s"
  "intr_get (cons_update f0 s) = intr_get s"
  "cpuid (cons_update f0 s) = cpuid s"
  "mycpu (cons_update f0 s) = mycpu s"
  "lock_ok lk (devsw_update f1 s) = lock_ok lk s"
  "holding lk (devsw_update f1 s) = holding lk s"
  "irq_ok (devsw_update f1 s) = irq_ok s"
  "irq_held (devsw_update f1 s) = irq_held s"
  "intr_get (devsw_update f1 s) = intr_get s"
  "cpuid (devsw_update f1 s) = cpuid s"
  "mycpu (devsw_update f1 s) = mycpu s"
  by (simp_all add: lock_defs)

lemma cons_comm [simp]:
  "acq lk (cons_update f0 s) = cons_update f0 (acq lk s)"
  "rel lk (cons_update f0 s) = cons_update f0 (rel lk s)"
  "lockcycle (cons_update f0 s) = cons_update f0 (lockcycle s)"
  "acq lk (devsw_update f1 s) = devsw_update f1 (acq lk s)"
  "rel lk (devsw_update f1 s) = devsw_update f1 (rel lk s)"
  "lockcycle (devsw_update f1 s) = devsw_update f1 (lockcycle s)"
  by (simp_all add: lock_defs Let_def)

end
