(* ===== verification/Fs.thy ===== *)
theory Fs
  imports Console
begin

text \<open>
  The file system, \<^verbatim>\<open>kernel/fs.c\<close>: the block allocator, inodes and their table, the contents of
  inodes, directories and path names. The state gains the super block and the inode
  table. An inode pointer is the index of its entry in the table, \<open>None\<close>
  for a null pointer. On-disk structures lie in the bytes of their blocks.
\<close>

section \<open>State\<close>

abbreviation (input) ROOTINO :: uint where "ROOTINO \<equiv> 1"
abbreviation (input) BSIZE :: nat where "BSIZE \<equiv> 1024"
abbreviation (input) FSMAGIC :: uint where "FSMAGIC \<equiv> 0x10203040"
abbreviation (input) NDIRECT :: nat where "NDIRECT \<equiv> 12"
abbreviation (input) NINDIRECT :: nat where "NINDIRECT \<equiv> 256"  \<comment> \<open>\<^verbatim>\<open>BSIZE / sizeof(uint)\<close>\<close>
abbreviation (input) MAXFILE :: nat where "MAXFILE \<equiv> 268"  \<comment> \<open>\<^verbatim>\<open>NDIRECT + NINDIRECT\<close>\<close>
abbreviation (input) IPB :: uint where "IPB \<equiv> 16"  \<comment> \<open>\<^verbatim>\<open>BSIZE / sizeof(struct dinode)\<close>\<close>
abbreviation (input) BPB :: nat where "BPB \<equiv> 8192"  \<comment> \<open>\<^verbatim>\<open>BSIZE*8\<close>\<close>
abbreviation (input) DIRSIZ :: nat where "DIRSIZ \<equiv> 14"
abbreviation (input) T_DIR :: ushort where "T_DIR \<equiv> 1"
abbreviation (input) T_FILE :: ushort where "T_FILE \<equiv> 2"
abbreviation (input) T_DEVICE :: ushort where "T_DEVICE \<equiv> 3"

record inode =
  i_dev :: uint
  i_inum :: uint
  i_ref :: int
  i_valid :: bool
  i_type :: ushort
  i_major :: ushort
  i_minor :: ushort
  i_nlink :: ushort
  i_size :: uint
  i_addrs :: "nat \<Rightarrow> uint"

record stat =
  st_dev :: uint
  st_ino :: uint
  st_type :: ushort
  st_nlink :: ushort
  st_size :: uint64

record fs_st = cons_st +
  sb :: superblock
  itable :: "nat \<Rightarrow> inode"

type_synonym ('r, 'a) fsop = "('r, 'a fs_st_scheme) kmonad"

definition upd_inode :: "nat \<Rightarrow> (inode \<Rightarrow> inode) \<Rightarrow> 'a fs_st_scheme \<Rightarrow> 'a fs_st_scheme" where
  "upd_inode ip f s = s\<lparr>itable := (itable s)(ip := f (itable s ip))\<rparr>"

definition set_inode :: "nat \<Rightarrow> (inode \<Rightarrow> inode) \<Rightarrow> (unit, 'a) fsop" where
  "set_inode ip f = kmodify (upd_inode ip f)"

definition get_inode :: "nat \<Rightarrow> (inode, 'a) fsop" where
  "get_inode ip = kgets (\<lambda>s. itable s ip)"

text \<open>Read a value of a buffer's contents.\<close>

definition buf_get :: "nat \<Rightarrow> (bytes \<Rightarrow> 'r) \<Rightarrow> ('r, 'a) bioop" where
  "buf_get b f = kgets (\<lambda>s. f (b_data (bufs s b)))"

definition buf_put :: "nat \<Rightarrow> (bytes \<Rightarrow> bytes) \<Rightarrow> (unit, 'a) bioop" where
  "buf_put b f = set_buf b (b_data_update f)"

section \<open>On-disk structures\<close>

definition IBLOCK :: "uint \<Rightarrow> superblock \<Rightarrow> uint" where
  "IBLOCK i sp = i div IPB + sb_inodestart sp"

definition BBLOCK :: "uint \<Rightarrow> superblock \<Rightarrow> uint" where
  "BBLOCK b sp = b div of_nat BPB + sb_bmapstart sp"

definition sb_decode :: "bytes \<Rightarrow> superblock" where
  "sb_decode d = \<lparr>sb_magic = get32 d 0, sb_size = get32 d 4, sb_nblocks = get32 d 8, sb_ninodes = get32 d 12,
     sb_nlog = get32 d 16, sb_logstart = get32 d 20, sb_inodestart = get32 d 24, sb_bmapstart = get32 d 28\<rparr>"

text \<open>Where \<^verbatim>\<open>(struct dinode*)bp->data + inum%IPB\<close> points to.\<close>

definition dinode_off :: "uint \<Rightarrow> nat" where
  "dinode_off inum = 64 * unat (inum mod IPB)"

text \<open>The fields a \<^verbatim>\<open>struct dinode\<close> at an offset of a block gives to, and takes from, an inode.\<close>

definition dinode_get :: "bytes \<Rightarrow> nat \<Rightarrow> inode \<Rightarrow> inode" where
  "dinode_get d k ip = ip\<lparr>i_type := get16 d k, i_major := get16 d (k + 2), i_minor := get16 d (k + 4),
     i_nlink := get16 d (k + 6), i_size := get32 d (k + 8),
     i_addrs := (\<lambda>j. if j \<le> NDIRECT then get32 d (k + 12 + 4 * j) else i_addrs ip j)\<rparr>"

definition dinode_put :: "inode \<Rightarrow> nat \<Rightarrow> bytes \<Rightarrow> bytes" where
  "dinode_put ip k d = foldl (\<lambda>d j. put32 d (k + 12 + 4 * j) (i_addrs ip j))
     (put32 (put16 (put16 (put16 (put16 d k (i_type ip)) (k + 2) (i_major ip)) (k + 4) (i_minor ip))
       (k + 6) (i_nlink ip)) (k + 8) (i_size ip)) [0..<NDIRECT + 1]"

section \<open>Super block\<close>

definition readsb :: "uint \<Rightarrow> (unit, 'a) fsop" where
  "readsb dev = kbind (bread dev 1) (\<lambda>bp. kdo [
     kmodify (\<lambda>s. s\<lparr>sb := sb_decode (b_data (bufs s bp))\<rparr>),
     brelse bp])"

definition fsinit :: "uint \<Rightarrow> (unit, 'a) fsop" where
  "fsinit dev = kdo [
     readsb dev,
     panic_if (\<lambda>s. sb_magic (sb s) \<noteq> FSMAGIC) ''invalid file system'',
     kbind (kgets sb) (initlog dev)]"

section \<open>Blocks\<close>

definition bzero :: "uint \<Rightarrow> uint \<Rightarrow> (unit, 'a) fsop" where
  "bzero dev bno = kbind (bread dev bno) (\<lambda>bp. kdo [
     buf_put bp (\<lambda>d i. if i < BSIZE then 0 else d i),
     log_write bp,
     brelse bp])"

definition bit_mask :: "nat \<Rightarrow> uchar" where
  "bit_mask bi = push_bit (bi mod 8) 1"

definition bit_free :: "nat \<Rightarrow> bytes \<Rightarrow> bool" where
  "bit_free bi d \<longleftrightarrow> d (bi div 8) AND bit_mask bi = 0"

definition bit_set :: "nat \<Rightarrow> bytes \<Rightarrow> bytes" where
  "bit_set bi d = d(bi div 8 := d (bi div 8) OR bit_mask bi)"

definition bit_clear :: "nat \<Rightarrow> bytes \<Rightarrow> bytes" where
  "bit_clear bi d = d(bi div 8 := d (bi div 8) AND NOT (bit_mask bi))"

text \<open>The values of \<open>b\<close> in the outer loop of \<^verbatim>\<open>balloc\<close>.\<close>

definition bitmap_starts :: "nat \<Rightarrow> nat list" where
  "bitmap_starts sz = map (\<lambda>k. k * BPB) [0..<(sz + (BPB - 1)) div BPB]"

text \<open>The inner loop, over the bits of one block of the map; it leaves with the block it took.\<close>

definition balloc_scan :: "uint \<Rightarrow> nat \<Rightarrow> nat \<Rightarrow> nat \<Rightarrow> (uint option, 'a) fsop" where
  "balloc_scan dev sz b bp = kfor [0..<min BPB (sz - b)] (\<lambda>bi.
     kbind (buf_get bp (bit_free bi)) (\<lambda>fr.
     if fr then kthen [
         buf_put bp (bit_set bi),
         log_write bp,
         brelse bp,
         bzero dev (of_nat (b + bi))] (kreturn (Some (Some (of_nat (b + bi)))))
     else kreturn None))
     (kthen [brelse bp] (kreturn None))"

definition balloc :: "uint \<Rightarrow> (uint, 'a) fsop" where
  "balloc dev = kbind (kgets sb) (\<lambda>sp. kfor (bitmap_starts (unat (sb_size sp))) (\<lambda>b.
       kbind (bread dev (BBLOCK (of_nat b) sp)) (\<lambda>bp. balloc_scan dev (unat (sb_size sp)) b bp))
     (kthen [printf ''balloc: out of blocks\<newline>'' []] (kreturn 0)))"

definition bfree :: "uint \<Rightarrow> uint \<Rightarrow> (unit, 'a) fsop" where
  "bfree dev b = kbind (kgets sb) (\<lambda>sp. kbind (bread dev (BBLOCK b sp)) (\<lambda>bp.
     let bi = unat b mod BPB in kdo [
       kbind (buf_get bp (bit_free bi)) (\<lambda>fr. panic_if (\<lambda>_. fr) ''freeing free block''),
       buf_put bp (bit_clear bi),
       log_write bp,
       brelse bp]))"

section \<open>Inodes\<close>

definition iinit :: "(unit, 'a) fsop" where
  "iinit = kdo [
     initlock ItableLock ''itable'',
     kforeach [0..<NINODE] (\<lambda>i. initsleeplock (InodeLk i) ''inode'')]"

text \<open>The loop of \<^verbatim>\<open>iget\<close>, with the empty slot remembered so far.\<close>

primrec iget_scan :: "uint \<Rightarrow> uint \<Rightarrow> nat list \<Rightarrow> nat option \<Rightarrow> (nat, 'a) fsop" where
  "iget_scan dev inum [] slot = (case slot of
       None \<Rightarrow> kpanic ''iget: no inodes''
     | Some ip \<Rightarrow> kthen [
         set_inode ip (\<lambda>i. i\<lparr>i_dev := dev, i_inum := inum, i_ref := 1, i_valid := False\<rparr>),
         release ItableLock] (kreturn ip))"
| "iget_scan dev inum (ip # ips) slot =
     kbind (get_inode ip) (\<lambda>i.
       if i_ref i > 0 \<and> i_dev i = dev \<and> i_inum i = inum then
         kthen [
           set_inode ip (i_ref_update (\<lambda>n. n + 1)),
           release ItableLock] (kreturn ip)
       else iget_scan dev inum ips (if slot = None \<and> i_ref i = 0 then Some ip else slot))"

definition iget :: "uint \<Rightarrow> uint \<Rightarrow> (nat, 'a) fsop" where
  "iget dev inum = kthen [acquire ItableLock] (iget_scan dev inum [0..<NINODE] None)"

definition ialloc :: "uint \<Rightarrow> ushort \<Rightarrow> (nat option, 'a) fsop" where
  "ialloc dev type = kbind (kgets sb) (\<lambda>sp. kfor [1..<unat (sb_ninodes sp)] (\<lambda>inum.
       kbind (bread dev (IBLOCK (of_nat inum) sp)) (\<lambda>bp.
       let dip = dinode_off (of_nat inum) in
       kbind (buf_get bp (\<lambda>d. get16 d dip = 0)) (\<lambda>fr.
       if fr then kthen [
           buf_put bp (\<lambda>d. put16 (put_bytes d dip (replicate 64 0)) dip type),
           log_write bp,
           brelse bp] (kbind (iget dev (of_nat inum)) (\<lambda>ip. kreturn (Some (Some ip))))
       else kthen [brelse bp] (kreturn None))))
     (kthen [printf ''ialloc: no inodes\<newline>'' []] (kreturn None)))"

definition iupdate :: "nat \<Rightarrow> (unit, 'a) fsop" where
  "iupdate ip = kbind (kgets sb) (\<lambda>sp. kbind (get_inode ip) (\<lambda>i.
     kbind (bread (i_dev i) (IBLOCK (i_inum i) sp)) (\<lambda>bp. kdo [
       kbind (get_inode ip) (\<lambda>i. buf_put bp (dinode_put i (dinode_off (i_inum i)))),
       log_write bp,
       brelse bp])))"

definition idup :: "nat \<Rightarrow> (nat, 'a) fsop" where
  "idup ip = kthen [
     acquire ItableLock,
     set_inode ip (i_ref_update (\<lambda>n. n + 1)),
     release ItableLock] (kreturn ip)"

text \<open>The part of \<^verbatim>\<open>ilock\<close> after the sleep lock is taken.\<close>

definition ilock_read :: "nat \<Rightarrow> (unit, 'a) fsop" where
  "ilock_read ip = kwhen (\<lambda>s. \<not> i_valid (itable s ip)) (
     kbind (kgets sb) (\<lambda>sp. kbind (get_inode ip) (\<lambda>i.
     kbind (bread (i_dev i) (IBLOCK (i_inum i) sp)) (\<lambda>bp. kdo [
       kbind (buf_get bp (\<lambda>d. d)) (\<lambda>d. set_inode ip (dinode_get d (dinode_off (i_inum i)))),
       brelse bp,
       set_inode ip (i_valid_update (\<lambda>_. True)),
       panic_if (\<lambda>s. i_type (itable s ip) = 0) ''ilock: no type'']))))"

definition ilock :: "nat option \<Rightarrow> (unit, 'a) fsop" where
  "ilock p = (case p of None \<Rightarrow> kpanic ''ilock'' | Some ip \<Rightarrow> kdo [
     panic_if (\<lambda>s. i_ref (itable s ip) < 1) ''ilock'',
     acquiresleep (InodeLk ip),
     ilock_read ip])"

definition iunlock :: "nat option \<Rightarrow> (unit, 'a) fsop" where
  "iunlock p = (case p of None \<Rightarrow> kpanic ''iunlock'' | Some ip \<Rightarrow>
     kbind (holdingsleep (InodeLk ip)) (\<lambda>h. kdo [
       panic_if (\<lambda>s. \<not> h \<or> i_ref (itable s ip) < 1) ''iunlock'',
       releasesleep (InodeLk ip)]))"

text \<open>\<^verbatim>\<open>itrunc\<close>: the direct blocks, the blocks listed in the indirect block, and that block.\<close>

definition itrunc_direct :: "nat \<Rightarrow> (unit, 'a) fsop" where
  "itrunc_direct ip = kforeach [0..<NDIRECT] (\<lambda>i. kbind (get_inode ip) (\<lambda>x.
     if i_addrs x i \<noteq> 0 then kdo [
       bfree (i_dev x) (i_addrs x i),
       set_inode ip (i_addrs_update (\<lambda>a. a(i := 0)))]
     else kreturn ()))"

definition itrunc_indirect :: "nat \<Rightarrow> (unit, 'a) fsop" where
  "itrunc_indirect ip = kbind (get_inode ip) (\<lambda>x.
     if i_addrs x NDIRECT \<noteq> 0 then
       kbind (bread (i_dev x) (i_addrs x NDIRECT)) (\<lambda>bp. kdo [
         kforeach [0..<NINDIRECT] (\<lambda>j. kbind (buf_get bp (\<lambda>d. get32 d (4 * j))) (\<lambda>a.
           if a \<noteq> 0 then bfree (i_dev x) a else kreturn ())),
         brelse bp,
         bfree (i_dev x) (i_addrs x NDIRECT),
         set_inode ip (i_addrs_update (\<lambda>a. a(NDIRECT := 0)))])
     else kreturn ())"

definition itrunc :: "nat \<Rightarrow> (unit, 'a) fsop" where
  "itrunc ip = kdo [
     itrunc_direct ip,
     itrunc_indirect ip,
     set_inode ip (i_size_update (\<lambda>_. 0)),
     iupdate ip]"

definition iput :: "nat \<Rightarrow> (unit, 'a) fsop" where
  "iput ip = kdo [
     acquire ItableLock,
     kwhen (\<lambda>s. i_ref (itable s ip) = 1 \<and> i_valid (itable s ip) \<and> i_nlink (itable s ip) = 0) (kdo [
       acquiresleep (InodeLk ip),
       release ItableLock,
       itrunc ip,
       set_inode ip (i_type_update (\<lambda>_. 0)),
       iupdate ip,
       set_inode ip (i_valid_update (\<lambda>_. False)),
       releasesleep (InodeLk ip),
       acquire ItableLock]),
     set_inode ip (i_ref_update (\<lambda>n. n - 1)),
     release ItableLock]"

definition iunlockput :: "nat \<Rightarrow> (unit, 'a) fsop" where
  "iunlockput ip = kdo [iunlock (Some ip), iput ip]"

section \<open>Inode content\<close>

definition bmap :: "nat \<Rightarrow> nat \<Rightarrow> (uint, 'a) fsop" where
  "bmap ip bn =
     (if bn < NDIRECT then
        kbind (get_inode ip) (\<lambda>i.
        if i_addrs i bn = 0 then
          kbind (balloc (i_dev i)) (\<lambda>addr.
          if addr = 0 then kreturn 0
          else kthen [set_inode ip (i_addrs_update (\<lambda>a. a(bn := addr)))] (kreturn addr))
        else kreturn (i_addrs i bn))
      else if bn - NDIRECT < NINDIRECT then
        let bn = bn - NDIRECT in
        kbind (get_inode ip) (\<lambda>i.
        kbind (if i_addrs i NDIRECT = 0 then
            kbind (balloc (i_dev i)) (\<lambda>addr.
            if addr = 0 then kreturn 0
            else kthen [set_inode ip (i_addrs_update (\<lambda>a. a(NDIRECT := addr)))] (kreturn addr))
          else kreturn (i_addrs i NDIRECT)) (\<lambda>ind.
        if ind = 0 then kreturn 0
        else kbind (bread (i_dev i) ind) (\<lambda>bp.
          kbind (buf_get bp (\<lambda>d. get32 d (4 * bn))) (\<lambda>a.
          kbind (if a = 0 then
              kbind (balloc (i_dev i)) (\<lambda>addr.
              if addr \<noteq> 0 then kthen [
                buf_put bp (\<lambda>d. put32 d (4 * bn) addr),
                log_write bp] (kreturn addr)
              else kreturn addr)
            else kreturn a) (\<lambda>addr.
          kthen [brelse bp] (kreturn addr))))))
      else kpanic ''bmap: out of range'')"

definition stati :: "nat \<Rightarrow> (stat, 'a) fsop" where
  "stati ip = kbind (get_inode ip) (\<lambda>i. kreturn \<lparr>st_dev = i_dev i, st_ino = i_inum i, st_type = i_type i,
     st_nlink = i_nlink i, st_size = ucast (i_size i)\<rparr>)"

text \<open>
  The values of \<open>tot\<close>, \<open>off\<close> and \<open>m\<close> in the rounds of the loops of \<^verbatim>\<open>readi\<close> and
  \<^verbatim>\<open>writei\<close>; \<open>off + n\<close> does not wrap there.
\<close>

function io_chunks :: "nat \<Rightarrow> nat \<Rightarrow> nat \<Rightarrow> (nat \<times> nat \<times> nat) list" where
  "io_chunks tot off n = (if tot < n then
     let m = min (n - tot) (BSIZE - off mod BSIZE) in (tot, off, m) # io_chunks (tot + m) (off + m) n
   else [])"
  by auto

termination io_chunks
  by (relation "measure (\<lambda>(tot, off, n). n - tot)") auto

declare io_chunks.simps [simp del]

definition readi :: "nat \<Rightarrow> kptr \<Rightarrow> uint \<Rightarrow> uint \<Rightarrow> (int, 'a) fsop" where
  "readi ip dst off n = kbind (get_inode ip) (\<lambda>i.
     if off > i_size i \<or> off + n < off then kreturn 0
     else let n = (if off + n > i_size i then i_size i - off else n) in
       kfor (io_chunks 0 (unat off) (unat n)) (\<lambda>(tot, off, m).
         kbind (bmap ip (off div BSIZE)) (\<lambda>addr.
         if addr = 0 then kreturn (Some (sint (of_nat tot :: uint)))
         else kbind (bread (i_dev i) addr) (\<lambda>bp.
           kbind (buf_get bp (\<lambda>d j. d (off mod BSIZE + j))) (\<lambda>src.
           kbind (either_copyout (kptr_add dst tot) src (of_nat m)) (\<lambda>r.
           kthen [brelse bp] (kreturn (if r = -1 then Some (-1) else None)))))))
         (kreturn (sint n)))"

definition splice :: "bytes \<Rightarrow> nat \<Rightarrow> nat \<Rightarrow> bytes \<Rightarrow> bytes" where
  "splice d k m x = (\<lambda>j. if k \<le> j \<and> j < k + m then x (j - k) else d j)"

text \<open>The loop of \<^verbatim>\<open>writei\<close>, which leaves the final \<open>tot\<close> and \<open>off\<close>.\<close>

definition writei_loop :: "nat \<Rightarrow> uint \<Rightarrow> kptr \<Rightarrow> nat \<Rightarrow> nat \<Rightarrow> (nat \<times> nat, 'a) fsop" where
  "writei_loop ip dev src off n = kfor (io_chunks 0 off n) (\<lambda>(tot, off, m).
     kbind (bmap ip (off div BSIZE)) (\<lambda>addr.
     if addr = 0 then kreturn (Some (tot, off))
     else kbind (bread dev addr) (\<lambda>bp.
       kbind (buf_get bp (\<lambda>d j. d (off mod BSIZE + j))) (\<lambda>dst.
       kbind (either_copyin dst (kptr_add src tot) (of_nat m)) (\<lambda>(r, x). kthen [
         buf_put bp (\<lambda>d. splice d (off mod BSIZE) m x),
         if r = -1 then kreturn () else log_write bp,
         brelse bp] (kreturn (if r = -1 then Some (tot, off) else None)))))))
     (kreturn (n, off + n))"

definition writei :: "nat \<Rightarrow> kptr \<Rightarrow> uint \<Rightarrow> uint \<Rightarrow> (int, 'a) fsop" where
  "writei ip src off n = kbind (get_inode ip) (\<lambda>i.
     if off > i_size i \<or> off + n < off then kreturn (-1)
     else if off + n > of_nat (MAXFILE * BSIZE) then kreturn (-1)
     else kbind (writei_loop ip (i_dev i) src (unat off) (unat n)) (\<lambda>(tot, off). kthen [
       kwhen (\<lambda>s. of_nat off > i_size (itable s ip)) (set_inode ip (i_size_update (\<lambda>_. of_nat off))),
       iupdate ip] (kreturn (int tot))))"

section \<open>Directories\<close>

definition namecmp :: "bytes \<Rightarrow> bytes \<Rightarrow> int" where
  "namecmp s t = strncmp s t DIRSIZ"

text \<open>\<^verbatim>\<open>struct dirent\<close> at the start of \<open>kobj\<close>.\<close>

definition de_inum :: "bytes \<Rightarrow> ushort" where
  "de_inum d = get16 d 0"

definition de_name :: "bytes \<Rightarrow> bytes" where
  "de_name d = (\<lambda>i. d (2 + i))"

definition dirent_offs :: "uint \<Rightarrow> nat list" where
  "dirent_offs sz = map (\<lambda>k. 16 * k) [0..<(unat sz + 15) div 16]"

definition dirlookup :: "nat \<Rightarrow> bytes \<Rightarrow> ((nat \<times> uint) option, 'a) fsop" where
  "dirlookup dp name = kthen [panic_if (\<lambda>s. i_type (itable s dp) \<noteq> T_DIR) ''dirlookup not DIR''] (
     kbind (kgets (\<lambda>s. dirent_offs (i_size (itable s dp)))) (\<lambda>offs.
     kfor offs (\<lambda>off.
       kbind (readi dp (ObjPtr 0) (of_nat off) 16) (\<lambda>r. kthen [panic_if (\<lambda>_. r \<noteq> 16) ''dirlookup read''] (
       kbind (kgets kobj) (\<lambda>de.
       if de_inum de = 0 then kreturn None
       else if namecmp name (de_name de) = 0 then
         kbind (get_inode dp) (\<lambda>i. kbind (iget (i_dev i) (ucast (de_inum de))) (\<lambda>ip.
           kreturn (Some (Some (ip, of_nat off)))))
       else kreturn None))))
     (kreturn None)))"

text \<open>The loop of \<^verbatim>\<open>dirlink\<close>: the offset of an unused entry, or the end of the directory.\<close>

definition dirlink_slot :: "nat \<Rightarrow> (nat, 'a) fsop" where
  "dirlink_slot dp = kbind (kgets (\<lambda>s. dirent_offs (i_size (itable s dp)))) (\<lambda>offs.
     kfor offs (\<lambda>off.
       kbind (readi dp (ObjPtr 0) (of_nat off) 16) (\<lambda>r. kthen [panic_if (\<lambda>_. r \<noteq> 16) ''dirlink read''] (
       kbind (kgets kobj) (\<lambda>de. kreturn (if de_inum de = 0 then Some off else None)))))
     (kreturn (16 * length offs)))"

definition dirlink :: "nat \<Rightarrow> bytes \<Rightarrow> uint \<Rightarrow> (int, 'a) fsop" where
  "dirlink dp name inum = kbind (dirlookup dp name) (\<lambda>x. case x of
       Some (ip, _) \<Rightarrow> kthen [iput ip] (kreturn (-1))
     | None \<Rightarrow> kbind (dirlink_slot dp) (\<lambda>off. kthen [
         kmodify (\<lambda>s. s\<lparr>kobj := splice (kobj s) 2 DIRSIZ (strncpy (de_name (kobj s)) name (int DIRSIZ))\<rparr>),
         kmodify (\<lambda>s. s\<lparr>kobj := put16 (kobj s) 0 (ucast inum)\<rparr>)] (
         kbind (writei dp (ObjPtr 0) (of_nat off) 16) (\<lambda>r. kreturn (if r \<noteq> 16 then -1 else 0)))))"

section \<open>Paths\<close>

text \<open>A path is the list of its characters before the terminating zero.\<close>

abbreviation (input) SLASH :: uchar where "SLASH \<equiv> 47"

definition skipelem :: "uchar list \<Rightarrow> bytes \<Rightarrow> (uchar list \<times> bytes) option" where
  "skipelem path name = (let path = dropWhile (\<lambda>c. c = SLASH) path in
     if path = [] then None
     else let s = takeWhile (\<lambda>c. c \<noteq> SLASH) path;
         path = dropWhile (\<lambda>c. c \<noteq> SLASH) path;
         len = length s;
         name = (if len \<ge> DIRSIZ then put_bytes name 0 (take DIRSIZ s) else (put_bytes name 0 s)(len := 0))
       in Some (dropWhile (\<lambda>c. c = SLASH) path, name))"

lemma skipelem_shorter: "skipelem path name = Some (path', name') \<Longrightarrow> length path' < length path"
proof -
  assume s: "skipelem path name = Some (path', name')"
  let ?p = "dropWhile (\<lambda>c. c = SLASH) path"
  have ne: "?p \<noteq> []" and p': "path' = dropWhile (\<lambda>c. c = SLASH) (dropWhile (\<lambda>c. c \<noteq> SLASH) ?p)"
    using s by (auto simp: skipelem_def Let_def split: if_splits)
  have "hd ?p \<noteq> SLASH" using hd_dropWhile [OF ne] by simp
  then have "dropWhile (\<lambda>c. c \<noteq> SLASH) ?p = dropWhile (\<lambda>c. c \<noteq> SLASH) (tl ?p)"
    using ne by (cases ?p) auto
  then have "length path' \<le> length (tl ?p)"
    unfolding p' by (simp only:) (rule le_trans [OF length_dropWhile_le length_dropWhile_le])
  moreover have "length (tl ?p) < length ?p" using ne by simp
  moreover have "length ?p \<le> length path" by (rule length_dropWhile_le)
  ultimately show ?thesis by linarith
qed

text \<open>The loop of \<^verbatim>\<open>namex\<close>; it returns the inode and what is in \<open>name\<close>.\<close>

function namex_loop :: "nat \<Rightarrow> uchar list \<Rightarrow> bool \<Rightarrow> bytes \<Rightarrow> (nat option \<times> bytes, 'a) fsop" where
  "namex_loop ip path parent name = (case skipelem path name of
       None \<Rightarrow> if parent then kthen [iput ip] (kreturn (None, name)) else kreturn (Some ip, name)
     | Some (path', name') \<Rightarrow> kthen [ilock (Some ip)] (
         kif (\<lambda>s. i_type (itable s ip) \<noteq> T_DIR)
           (kthen [iunlockput ip] (kreturn (None, name')))
           (if parent \<and> path' = [] then kthen [iunlock (Some ip)] (kreturn (Some ip, name'))
            else kbind (dirlookup ip name') (\<lambda>x. case x of
                None \<Rightarrow> kthen [iunlockput ip] (kreturn (None, name'))
              | Some (next, _) \<Rightarrow> kthen [iunlockput ip] (namex_loop next path' parent name')))))"
  by auto

termination namex_loop
  by (relation "measure (\<lambda>(_, path, _, _). length path)") (auto dest: skipelem_shorter)

declare namex_loop.simps [simp del]

definition namex :: "uchar list \<Rightarrow> bool \<Rightarrow> bytes \<Rightarrow> (nat option \<times> bytes, 'a) fsop" where
  "namex path parent name =
     kbind (if path \<noteq> [] \<and> hd path = SLASH then iget ROOTDEV ROOTINO
       else kbind curproc (\<lambda>p. kbind (kgets (\<lambda>s. p_cwd (procs s p))) (\<lambda>cwd. case cwd of
         None \<Rightarrow> kpanic ''kerneltrap'' | Some d \<Rightarrow> idup d))) (\<lambda>ip.
     namex_loop ip path parent name)"

definition namei :: "uchar list \<Rightarrow> (nat option, 'a) fsop" where
  "namei path = kbind (namex path False (\<lambda>_. 0)) (\<lambda>(ip, _). kreturn ip)"

definition nameiparent :: "uchar list \<Rightarrow> bytes \<Rightarrow> (nat option \<times> bytes, 'a) fsop" where
  "nameiparent path name = namex path True name"

lemma fs_proj [simp]:
  "sb (acq lk s) = sb s"
  "sb (rel lk s) = sb s"
  "sb (lockcycle s) = sb s"
  "itable (acq lk s) = itable s"
  "itable (rel lk s) = itable s"
  "itable (lockcycle s) = itable s"
  by (simp_all add: lock_defs Let_def)

lemma fs_lock [simp]:
  "lock_ok lk (sb_update f0 s) = lock_ok lk s"
  "holding lk (sb_update f0 s) = holding lk s"
  "irq_ok (sb_update f0 s) = irq_ok s"
  "irq_held (sb_update f0 s) = irq_held s"
  "intr_get (sb_update f0 s) = intr_get s"
  "cpuid (sb_update f0 s) = cpuid s"
  "mycpu (sb_update f0 s) = mycpu s"
  "lock_ok lk (itable_update f1 s) = lock_ok lk s"
  "holding lk (itable_update f1 s) = holding lk s"
  "irq_ok (itable_update f1 s) = irq_ok s"
  "irq_held (itable_update f1 s) = irq_held s"
  "intr_get (itable_update f1 s) = intr_get s"
  "cpuid (itable_update f1 s) = cpuid s"
  "mycpu (itable_update f1 s) = mycpu s"
  by (simp_all add: lock_defs)

lemma fs_comm [simp]:
  "acq lk (sb_update f0 s) = sb_update f0 (acq lk s)"
  "rel lk (sb_update f0 s) = sb_update f0 (rel lk s)"
  "lockcycle (sb_update f0 s) = sb_update f0 (lockcycle s)"
  "acq lk (itable_update f1 s) = itable_update f1 (acq lk s)"
  "rel lk (itable_update f1 s) = itable_update f1 (rel lk s)"
  "lockcycle (itable_update f1 s) = itable_update f1 (lockcycle s)"
  by (simp_all add: lock_defs Let_def)

end
