(* ===== verification/Pipe.thy ===== *)
theory Pipe
  imports Fs
begin

text \<open>
  Pipes, \<^verbatim>\<open>kernel/pipe.c\<close>, apart from \<^verbatim>\<open>pipealloc\<close>, which needs the file table. A pipe is found
  by the address of its page. Its buffer is a ring with free-running 32-bit indices. Reading and
  writing are split where they sleep.
\<close>

abbreviation (input) PIPESIZE :: nat where "PIPESIZE \<equiv> 512"

record pipe =
  pi_data :: "nat \<Rightarrow> uchar"
  pi_nread :: uint
  pi_nwrite :: uint
  pi_readopen :: bool
  pi_writeopen :: bool

record pipe_st = fs_st +
  pipes :: "uint64 \<Rightarrow> pipe"

type_synonym ('r, 'a) pipeop = "('r, 'a pipe_st_scheme) kmonad"

definition set_pipe :: "uint64 \<Rightarrow> (pipe \<Rightarrow> pipe) \<Rightarrow> (unit, 'a) pipeop" where
  "set_pipe pi f = kmodify (\<lambda>s. s\<lparr>pipes := (pipes s)(pi := f (pipes s pi))\<rparr>)"

definition pipeclose :: "uint64 \<Rightarrow> bool \<Rightarrow> (unit, 'a) pipeop" where
  "pipeclose pi writable = kdo [
     acquire (PipeLock pi),
     if writable then kdo [
       set_pipe pi (pi_writeopen_update (\<lambda>_. False)),
       wakeup (PipeReadChan pi)]
     else kdo [
       set_pipe pi (pi_readopen_update (\<lambda>_. False)),
       wakeup (PipeWriteChan pi)],
     kif (\<lambda>s. \<not> pi_readopen (pipes s pi) \<and> \<not> pi_writeopen (pipes s pi))
       (kdo [release (PipeLock pi), kfree pi])
       (release (PipeLock pi))]"

section \<open>Writing\<close>

definition pipe_full :: "pipe \<Rightarrow> bool" where
  "pipe_full p \<longleftrightarrow> pi_nwrite p = pi_nread p + of_nat PIPESIZE"

definition pipe_put :: "uchar \<Rightarrow> pipe \<Rightarrow> pipe" where
  "pipe_put c p = p\<lparr>pi_data := (pi_data p)(unat (pi_nwrite p) mod PIPESIZE := c), pi_nwrite := pi_nwrite p + 1\<rparr>"

definition pipewrite_end :: "uint64 \<Rightarrow> int \<Rightarrow> (int, 'a) pipeop" where
  "pipewrite_end pi i = kthen [wakeup (PipeReadChan pi), release (PipeLock pi)] (kreturn i)"

text \<open>The loop with \<open>k\<close> of the \<open>n\<close> bytes still to write.\<close>

primrec pipewrite_loop :: "uint64 \<Rightarrow> nat \<Rightarrow> uint64 \<Rightarrow> nat \<Rightarrow> nat \<Rightarrow> (int, 'a) pipeop" where
  "pipewrite_loop pi pr addr n 0 = pipewrite_end pi (int n)"
| "pipewrite_loop pi pr addr n (Suc k) =
     kbind (kgets (\<lambda>s. pi_readopen (pipes s pi))) (\<lambda>ro.
     kbind (if ro then killed pr else kreturn True) (\<lambda>stop.
     if stop then kthen [release (PipeLock pi)] (kreturn (-1))
     else kif (\<lambda>s. pipe_full (pipes s pi))
       (kthen [wakeup (PipeReadChan pi)] (sleep (PipeWriteChan pi) (PipeLock pi)))
       (kbind (kgets (\<lambda>s. p_pagetable (procs s pr))) (\<lambda>pt.
        kbind (copyin pt (\<lambda>_. 0) (addr + of_nat (n - Suc k)) 1) (\<lambda>(r, ch).
        if r = -1 then pipewrite_end pi (int (n - Suc k))
        else kthen [set_pipe pi (pipe_put (ch 0))] (pipewrite_loop pi pr addr n k))))))"

definition pipewrite :: "uint64 \<Rightarrow> uint64 \<Rightarrow> int \<Rightarrow> (int, 'a) pipeop" where
  "pipewrite pi addr n = kbind curproc (\<lambda>pr. kthen [acquire (PipeLock pi)] (
     pipewrite_loop pi pr addr (nat n) (nat n)))"

definition pipewrite_return :: "bool \<Rightarrow> uint64 \<Rightarrow> uint64 \<Rightarrow> nat \<Rightarrow> nat \<Rightarrow> (int, 'a) pipeop" where
  "pipewrite_return old pi addr n k = kbind curproc (\<lambda>pr. kthen [sleep_return old (PipeLock pi)] (
     pipewrite_loop pi pr addr n k))"

section \<open>Reading\<close>

definition pipe_empty :: "pipe \<Rightarrow> bool" where
  "pipe_empty p \<longleftrightarrow> pi_nread p = pi_nwrite p"

definition pipe_head :: "pipe \<Rightarrow> uchar" where
  "pipe_head p = pi_data p (unat (pi_nread p) mod PIPESIZE)"

definition piperead_copy :: "uint64 \<Rightarrow> nat \<Rightarrow> uint64 \<Rightarrow> nat \<Rightarrow> (int, 'a) pipeop" where
  "piperead_copy pi pr addr n =
     kbind (kfor [0..<n] (\<lambda>i.
       kif (\<lambda>s. pipe_empty (pipes s pi)) (kreturn (Some (int i)))
       (kbind (kgets (\<lambda>s. pipe_head (pipes s pi))) (\<lambda>ch.
        kthen [set_pipe pi (pi_nread_update (\<lambda>r. r + 1))] (
        kbind (kgets (\<lambda>s. p_pagetable (procs s pr))) (\<lambda>pt.
        kbind (copyout pt (addr + of_nat i) (\<lambda>_. ch) 1) (\<lambda>r.
        kreturn (if r = -1 then Some (int i) else None)))))))
       (kreturn (int n))) (\<lambda>i.
     kthen [wakeup (PipeWriteChan pi), release (PipeLock pi)] (kreturn i))"

definition piperead_round :: "uint64 \<Rightarrow> nat \<Rightarrow> uint64 \<Rightarrow> int \<Rightarrow> (int, 'a) pipeop" where
  "piperead_round pi pr addr n =
     kif (\<lambda>s. pipe_empty (pipes s pi) \<and> pi_writeopen (pipes s pi))
       (kbind (killed pr) (\<lambda>k.
        if k then kthen [release (PipeLock pi)] (kreturn (-1))
        else sleep (PipeReadChan pi) (PipeLock pi)))
       (piperead_copy pi pr addr (nat n))"

definition piperead :: "uint64 \<Rightarrow> uint64 \<Rightarrow> int \<Rightarrow> (int, 'a) pipeop" where
  "piperead pi addr n = kbind curproc (\<lambda>pr. kthen [acquire (PipeLock pi)] (piperead_round pi pr addr n))"

definition piperead_return :: "bool \<Rightarrow> uint64 \<Rightarrow> uint64 \<Rightarrow> int \<Rightarrow> (int, 'a) pipeop" where
  "piperead_return old pi addr n = kbind curproc (\<lambda>pr. kthen [sleep_return old (PipeLock pi)] (
     piperead_round pi pr addr n))"

lemma pipe_proj [simp]:
  "pipes (acq lk s) = pipes s"
  "pipes (rel lk s) = pipes s"
  "pipes (lockcycle s) = pipes s"
  by (simp_all add: lock_defs Let_def)

lemma pipe_lock [simp]:
  "lock_ok lk (pipes_update f0 s) = lock_ok lk s"
  "holding lk (pipes_update f0 s) = holding lk s"
  "irq_ok (pipes_update f0 s) = irq_ok s"
  "irq_held (pipes_update f0 s) = irq_held s"
  "intr_get (pipes_update f0 s) = intr_get s"
  "cpuid (pipes_update f0 s) = cpuid s"
  "mycpu (pipes_update f0 s) = mycpu s"
  by (simp_all add: lock_defs)

lemma pipe_comm [simp]:
  "acq lk (pipes_update f0 s) = pipes_update f0 (acq lk s)"
  "rel lk (pipes_update f0 s) = pipes_update f0 (rel lk s)"
  "lockcycle (pipes_update f0 s) = pipes_update f0 (lockcycle s)"
  by (simp_all add: lock_defs Let_def)

end
