(* ===== verification/File.thy ===== *)
theory File
  imports Pipe
begin

text \<open>
  Open files, \<^verbatim>\<open>kernel/file.c\<close>, and \<^verbatim>\<open>pipealloc\<close> of \<^verbatim>\<open>kernel/pipe.c\<close>. A file pointer is the
  index of its entry in the file table.
\<close>

section \<open>State\<close>

datatype ftype = FD_NONE | FD_PIPE | FD_INODE | FD_DEVICE

record kfile =
  f_type :: ftype
  f_ref :: int
  f_readable :: bool
  f_writable :: bool
  f_pipe :: uint64
  f_ip :: "nat option"
  f_off :: uint
  f_major :: ushort

record file_st = pipe_st +
  ftable :: "nat \<Rightarrow> kfile"

type_synonym ('r, 'a) fileop = "('r, 'a file_st_scheme) kmonad"

definition upd_file :: "nat \<Rightarrow> (kfile \<Rightarrow> kfile) \<Rightarrow> 'a file_st_scheme \<Rightarrow> 'a file_st_scheme" where
  "upd_file f g s = s\<lparr>ftable := (ftable s)(f := g (ftable s f))\<rparr>"

definition set_file :: "nat \<Rightarrow> (kfile \<Rightarrow> kfile) \<Rightarrow> (unit, 'a) fileop" where
  "set_file f g = kmodify (upd_file f g)"

definition get_file :: "nat \<Rightarrow> (kfile, 'a) fileop" where
  "get_file f = kgets (\<lambda>s. ftable s f)"

section \<open>Allocation and reference counts\<close>

definition fileinit :: "(unit, 'a) fileop" where
  "fileinit = initlock FtableLock ''ftable''"

definition filealloc :: "(nat option, 'a) fileop" where
  "filealloc = kthen [acquire FtableLock] (kfor [0..<NFILE] (\<lambda>f.
       kif (\<lambda>s. f_ref (ftable s f) = 0)
         (kthen [set_file f (f_ref_update (\<lambda>_. 1)), release FtableLock] (kreturn (Some (Some f))))
         (kreturn None))
     (kthen [release FtableLock] (kreturn None)))"

definition filedup :: "nat \<Rightarrow> (nat, 'a) fileop" where
  "filedup f = kthen [
     acquire FtableLock,
     panic_if (\<lambda>s. f_ref (ftable s f) < 1) ''filedup'',
     set_file f (f_ref_update (\<lambda>n. n + 1)),
     release FtableLock] (kreturn f)"

text \<open>A null inode pointer would fault.\<close>

definition deref :: "'x option \<Rightarrow> ('x \<Rightarrow> ('r, 's) kmonad) \<Rightarrow> ('r, 's) kmonad" where
  "deref p k = (case p of None \<Rightarrow> kpanic ''kerneltrap'' | Some x \<Rightarrow> k x)"

definition fileclose :: "nat \<Rightarrow> (unit, 'a) fileop" where
  "fileclose f = kdo [
     acquire FtableLock,
     panic_if (\<lambda>s. f_ref (ftable s f) < 1) ''fileclose'',
     set_file f (f_ref_update (\<lambda>n. n - 1)),
     kif (\<lambda>s. f_ref (ftable s f) > 0) (release FtableLock)
       (kbind (get_file f) (\<lambda>ff. kdo [
          set_file f (f_ref_update (\<lambda>_. 0)),
          set_file f (f_type_update (\<lambda>_. FD_NONE)),
          release FtableLock,
          if f_type ff = FD_PIPE then pipeclose (f_pipe ff) (f_writable ff)
          else if f_type ff = FD_INODE \<or> f_type ff = FD_DEVICE then kdo [
            begin_op,
            deref (f_ip ff) iput,
            end_op]
          else kreturn ()]))]"

section \<open>pipealloc\<close>

definition pipe_bad :: "uint64 \<Rightarrow> nat option \<Rightarrow> nat option \<Rightarrow> (int, 'a) fileop" where
  "pipe_bad pi f0 f1 = kthen [
     if pi \<noteq> 0 then kfree pi else kreturn (),
     case f0 of None \<Rightarrow> kreturn () | Some f \<Rightarrow> fileclose f,
     case f1 of None \<Rightarrow> kreturn () | Some f \<Rightarrow> fileclose f] (kreturn (-1))"

definition pipe_init :: "uint64 \<Rightarrow> nat \<Rightarrow> nat \<Rightarrow> (int, 'a) fileop" where
  "pipe_init pi f0 f1 = kthen [
     set_pipe pi (pi_readopen_update (\<lambda>_. True)),
     set_pipe pi (pi_writeopen_update (\<lambda>_. True)),
     set_pipe pi (pi_nwrite_update (\<lambda>_. 0)),
     set_pipe pi (pi_nread_update (\<lambda>_. 0)),
     initlock (PipeLock pi) ''pipe'',
     set_file f0 (\<lambda>f. f\<lparr>f_type := FD_PIPE, f_readable := True, f_writable := False, f_pipe := pi\<rparr>),
     set_file f1 (\<lambda>f. f\<lparr>f_type := FD_PIPE, f_readable := False, f_writable := True, f_pipe := pi\<rparr>)] (kreturn 0)"

definition pipealloc :: "(int \<times> nat option \<times> nat option, 'a) fileop" where
  "pipealloc = kbind filealloc (\<lambda>f0. case f0 of
       None \<Rightarrow> kbind (pipe_bad 0 None None) (\<lambda>r. kreturn (r, None, None))
     | Some g0 \<Rightarrow> kbind filealloc (\<lambda>f1. case f1 of
         None \<Rightarrow> kbind (pipe_bad 0 f0 None) (\<lambda>r. kreturn (r, f0, None))
       | Some g1 \<Rightarrow> kbind kalloc (\<lambda>pi.
           if pi = 0 then kbind (pipe_bad 0 f0 f1) (\<lambda>r. kreturn (r, f0, f1))
           else kbind (pipe_init pi g0 g1) (\<lambda>r. kreturn (r, f0, f1)))))"

section \<open>Metadata, reading and writing\<close>

text \<open>\<^verbatim>\<open>struct stat\<close> in the bytes of a local variable.\<close>

definition stat_put :: "stat \<Rightarrow> bytes \<Rightarrow> bytes" where
  "stat_put st d = put_bytes (put16 (put16 (put32 (put32 d 0 (st_dev st)) 4 (st_ino st)) 8 (st_type st))
     10 (st_nlink st)) 16 (le_bytes 8 (st_size st))"

definition filestat :: "nat \<Rightarrow> uint64 \<Rightarrow> (int, 'a) fileop" where
  "filestat f addr = kbind curproc (\<lambda>p. kbind (get_file f) (\<lambda>fl.
     if f_type fl = FD_INODE \<or> f_type fl = FD_DEVICE then kthen [ilock (f_ip fl)] (
       deref (f_ip fl) (\<lambda>ip. kbind (stati ip) (\<lambda>st. kthen [
         kmodify (\<lambda>s. s\<lparr>kobj := stat_put st (kobj s)\<rparr>),
         iunlock (f_ip fl)] (
         kbind (kgets (\<lambda>s. p_pagetable (procs s p))) (\<lambda>pt.
         kbind (kgets kobj) (\<lambda>d. kbind (copyout pt addr d 24) (\<lambda>r.
         kreturn (if r < 0 then -1 else 0))))))))
     else kreturn (-1)))"

fun dev_call :: "devfn \<Rightarrow> uint64 \<Rightarrow> int \<Rightarrow> (int, 'a) fileop" where
  "dev_call ConsoleRead addr n = consoleread (UserPtr addr) n"
| "dev_call ConsoleWrite addr n = consolewrite (UserPtr addr) n"

definition dev_io :: "(devsw \<Rightarrow> devfn option) \<Rightarrow> ushort \<Rightarrow> uint64 \<Rightarrow> int \<Rightarrow> (int, 'a) fileop" where
  "dev_io sel major addr n = (if sint major < 0 \<or> sint major \<ge> int NDEV then kreturn (-1)
     else kbind (kgets (\<lambda>s. sel (devsw s (unat major)))) (\<lambda>fn. case fn of
         None \<Rightarrow> kreturn (-1)
       | Some fn \<Rightarrow> dev_call fn addr n))"

definition add_off :: "nat \<Rightarrow> int \<Rightarrow> (unit, 'a) fileop" where
  "add_off f r = (if r > 0 then set_file f (f_off_update (\<lambda>o'. o' + of_int r)) else kreturn ())"

definition fileread :: "nat \<Rightarrow> uint64 \<Rightarrow> int \<Rightarrow> (int, 'a) fileop" where
  "fileread f addr n = kbind (get_file f) (\<lambda>fl.
     if \<not> f_readable fl then kreturn (-1)
     else case f_type fl of
       FD_PIPE \<Rightarrow> piperead (f_pipe fl) addr n
     | FD_DEVICE \<Rightarrow> dev_io d_read (f_major fl) addr n
     | FD_INODE \<Rightarrow> kthen [ilock (f_ip fl)] (deref (f_ip fl) (\<lambda>ip.
         kbind (get_file f) (\<lambda>fl. kbind (readi ip (UserPtr addr) (f_off fl) (of_int n)) (\<lambda>r.
         kthen [add_off f r, iunlock (f_ip fl)] (kreturn r)))))
     | FD_NONE \<Rightarrow> kpanic ''fileread'')"

text \<open>
  One transaction of \<^verbatim>\<open>filewrite\<close> writes at most \<open>WRITEMAX\<close> bytes; the loop goes on as long as
  all of them were written.
\<close>

abbreviation (input) WRITEMAX :: nat where "WRITEMAX \<equiv> (MAXOPBLOCKS - 1 - 1 - 2) div 2 * BSIZE"

definition write_starts :: "int \<Rightarrow> nat list" where
  "write_starts n = map (\<lambda>k. k * WRITEMAX) [0..<(nat n + (WRITEMAX - 1)) div WRITEMAX]"

definition filewrite_chunk :: "nat \<Rightarrow> uint64 \<Rightarrow> int \<Rightarrow> nat \<Rightarrow> (bool option, 'a) fileop" where
  "filewrite_chunk f addr n i = (let n1 = min (n - int i) (int WRITEMAX) in
     kbind (get_file f) (\<lambda>fl. kthen [begin_op, ilock (f_ip fl)] (deref (f_ip fl) (\<lambda>ip.
     kbind (get_file f) (\<lambda>fl.
     kbind (writei ip (UserPtr (addr + of_nat i)) (f_off fl) (of_int n1)) (\<lambda>r.
     kthen [add_off f r, iunlock (f_ip fl), end_op] (kreturn (if r \<noteq> n1 then Some False else None))))))))"

definition filewrite :: "nat \<Rightarrow> uint64 \<Rightarrow> int \<Rightarrow> (int, 'a) fileop" where
  "filewrite f addr n = kbind (get_file f) (\<lambda>fl.
     if \<not> f_writable fl then kreturn (-1)
     else case f_type fl of
       FD_PIPE \<Rightarrow> pipewrite (f_pipe fl) addr n
     | FD_DEVICE \<Rightarrow> dev_io d_write (f_major fl) addr n
     | FD_INODE \<Rightarrow> kbind (kfor (write_starts n) (filewrite_chunk f addr n) (kreturn (n \<ge> 0))) (\<lambda>all.
         kreturn (if all then n else -1))
     | FD_NONE \<Rightarrow> kpanic ''filewrite'')"

lemma file_proj [simp]:
  "ftable (acq lk s) = ftable s"
  "ftable (rel lk s) = ftable s"
  "ftable (lockcycle s) = ftable s"
  by (simp_all add: lock_defs Let_def)

lemma file_lock [simp]:
  "lock_ok lk (ftable_update f0 s) = lock_ok lk s"
  "holding lk (ftable_update f0 s) = holding lk s"
  "irq_ok (ftable_update f0 s) = irq_ok s"
  "irq_held (ftable_update f0 s) = irq_held s"
  "intr_get (ftable_update f0 s) = intr_get s"
  "cpuid (ftable_update f0 s) = cpuid s"
  "mycpu (ftable_update f0 s) = mycpu s"
  by (simp_all add: lock_defs)

lemma file_comm [simp]:
  "acq lk (ftable_update f0 s) = ftable_update f0 (acq lk s)"
  "rel lk (ftable_update f0 s) = ftable_update f0 (rel lk s)"
  "lockcycle (ftable_update f0 s) = ftable_update f0 (lockcycle s)"
  by (simp_all add: lock_defs Let_def)

end
