(* ===== verification/Procfs.thy ===== *)
theory Procfs
  imports File
begin

text \<open>
  The operations of \<^verbatim>\<open>kernel/proc.c\<close> that touch files: creating the first process, \<^verbatim>\<open>fork\<close> and
  \<^verbatim>\<open>exit\<close>.
\<close>

text \<open>The program of the first process, \<^verbatim>\<open>initcode\<close>.\<close>

definition initcode :: "uchar list" where
  "initcode = [
     0x17, 0x05, 0x00, 0x00, 0x13, 0x05, 0x45, 0x02,
     0x97, 0x05, 0x00, 0x00, 0x93, 0x85, 0x35, 0x02,
     0x93, 0x08, 0x70, 0x00, 0x73, 0x00, 0x00, 0x00,
     0x93, 0x08, 0x20, 0x00, 0x73, 0x00, 0x00, 0x00,
     0xef, 0xf0, 0x9f, 0xff, 0x2f, 0x69, 0x6e, 0x69,
     0x74, 0x00, 0x00, 0x24, 0x00, 0x00, 0x00, 0x00,
     0x00, 0x00, 0x00, 0x00]"

definition bytes_of :: "uchar list \<Rightarrow> bytes" where
  "bytes_of xs = (\<lambda>i. if i < length xs then xs ! i else 0)"

definition userinit :: "(unit, 'a) fileop" where
  "userinit = kbind allocproc (\<lambda>p. kthen [kmodify (\<lambda>s. s\<lparr>initproc := p\<rparr>)] (deref p (\<lambda>p.
     kbind (kgets (\<lambda>s. p_pagetable (procs s p))) (\<lambda>pt. kthen [
       uvmfirst pt (bytes_of initcode) (of_nat (length initcode)),
       set_proc p (p_sz_update (\<lambda>_. PGSIZE)),
       set_tf p TF_EPC 0,
       set_tf p TF_SP PGSIZE,
       set_proc p (\<lambda>pr. pr\<lparr>p_name := safestrcpy (p_name pr) (bytes_of (cstr ''initcode'')) 16\<rparr>)] (
     kbind (namei (cstr ''/'')) (\<lambda>cwd. kdo [
       set_proc p (p_cwd_update (\<lambda>_. cwd)),
       set_proc p (p_state_update (\<lambda>_. RUNNABLE)),
       release (ProcLock p)]))))))"

text \<open>\<^verbatim>\<open>*(np->trapframe) = *(p->trapframe)\<close>, 288 bytes.\<close>

definition copy_trapframe :: "nat \<Rightarrow> nat \<Rightarrow> (unit, 'a) procop" where
  "copy_trapframe np p = kmodify (\<lambda>s. s\<lparr>mem :=
     memcpy (mem s) (p_trapframe (procs s np)) (p_trapframe (procs s p)) 288\<rparr>)"

definition fork_files :: "nat \<Rightarrow> nat \<Rightarrow> (unit, 'a) fileop" where
  "fork_files np p = kforeach [0..<NOFILE] (\<lambda>i. kbind (kgets (\<lambda>s. p_ofile (procs s p) i)) (\<lambda>f. case f of
       None \<Rightarrow> kreturn ()
     | Some f \<Rightarrow> kbind (filedup f) (\<lambda>f. set_proc np (p_ofile_update (\<lambda>o'. o'(i := Some f))))))"

definition fork :: "(int, 'a) fileop" where
  "fork = kbind curproc (\<lambda>p. kbind allocproc (\<lambda>np. case np of
       None \<Rightarrow> kreturn (-1)
     | Some np \<Rightarrow> kbind (kgets (\<lambda>s. (p_pagetable (procs s p), p_pagetable (procs s np), p_sz (procs s p)))) (\<lambda>(pt, npt, sz).
         kbind (uvmcopy pt npt sz) (\<lambda>r.
         if r < 0 then kthen [freeproc np, release (ProcLock np)] (kreturn (-1))
         else kthen [
           set_proc np (p_sz_update (\<lambda>_. sz)),
           copy_trapframe np p,
           set_tf np TF_A0 0,
           fork_files np p,
           kbind (kgets (\<lambda>s. p_cwd (procs s p))) (\<lambda>cwd. deref cwd (\<lambda>d. kbind (idup d) (\<lambda>d.
             set_proc np (p_cwd_update (\<lambda>_. Some d))))),
           kmodify (\<lambda>s. upd_proc np (\<lambda>pr. pr\<lparr>p_name := safestrcpy (p_name pr) (p_name (procs s p)) 16\<rparr>) s)] (
           kbind (kgets (\<lambda>s. p_pid (procs s np))) (\<lambda>pid. kthen [
             release (ProcLock np),
             acquire WaitLock,
             set_proc np (p_parent_update (\<lambda>_. Some p)),
             release WaitLock,
             acquire (ProcLock np),
             set_proc np (p_state_update (\<lambda>_. RUNNABLE)),
             release (ProcLock np)] (kreturn pid)))))))"

definition exit_files :: "nat \<Rightarrow> (unit, 'a) fileop" where
  "exit_files p = kforeach [0..<NOFILE] (\<lambda>fd. kbind (kgets (\<lambda>s. p_ofile (procs s p) fd)) (\<lambda>f. case f of
       None \<Rightarrow> kreturn ()
     | Some f \<Rightarrow> kdo [
         fileclose f,
         set_proc p (p_ofile_update (\<lambda>o'. o'(fd := None)))]))"

definition exit :: "int \<Rightarrow> ('r, 'a) fileop" where
  "exit status = kbind curproc (\<lambda>p. kthen [
     panic_if (\<lambda>s. initproc s = Some p) ''init exiting'',
     exit_files p,
     begin_op,
     kbind (kgets (\<lambda>s. p_cwd (procs s p))) (\<lambda>cwd. deref cwd iput),
     end_op,
     set_proc p (p_cwd_update (\<lambda>_. None)),
     acquire WaitLock,
     reparent p,
     kbind (kgets (\<lambda>s. p_parent (procs s p))) (\<lambda>pp. wakeup (case pp of None \<Rightarrow> NoChan | Some q \<Rightarrow> ProcChan q)),
     acquire (ProcLock p),
     set_proc p (p_xstate_update (\<lambda>_. status)),
     set_proc p (p_state_update (\<lambda>_. ZOMBIE)),
     release WaitLock] sched)"

end
