(* ===== verification/Exec.thy ===== *)
theory Exec
  imports Procfs
begin

text \<open>
  \<^verbatim>\<open>kernel/exec.c\<close>. The local \<^verbatim>\<open>struct elfhdr\<close> lies at offset 0 of \<open>kobj\<close> and the local
  \<^verbatim>\<open>struct proghdr\<close> at offset 64. The arguments are the addresses of the pages that hold the
  strings, without the terminating null pointer.
\<close>

abbreviation (input) ELF_MAGIC :: uint where "ELF_MAGIC \<equiv> 0x464C457F"

definition get64 :: "bytes \<Rightarrow> nat \<Rightarrow> uint64" where
  "get64 b i = le_word (get_bytes b i 8)"

record elfhdr =
  e_magic :: uint
  e_entry :: uint64
  e_phoff :: uint64
  e_phnum :: ushort

record proghdr =
  ph_type :: uint
  ph_flags :: uint
  ph_off :: uint64
  ph_vaddr :: uint64
  ph_filesz :: uint64
  ph_memsz :: uint64

definition elf_decode :: "bytes \<Rightarrow> elfhdr" where
  "elf_decode d = \<lparr>e_magic = get32 d 0, e_entry = get64 d 24, e_phoff = get64 d 32, e_phnum = get16 d 56\<rparr>"

definition ph_decode :: "bytes \<Rightarrow> nat \<Rightarrow> proghdr" where
  "ph_decode d k = \<lparr>ph_type = get32 d k, ph_flags = get32 d (k + 4), ph_off = get64 d (k + 8), ph_vaddr = get64 d (k + 16),
     ph_filesz = get64 d (k + 32), ph_memsz = get64 d (k + 40)\<rparr>"

definition flags2perm :: "uint \<Rightarrow> uint64" where
  "flags2perm flags = (if bit flags 0 then PTE_X else 0) OR (if bit flags 1 then PTE_W else 0)"

definition loadseg :: "uint64 \<Rightarrow> uint64 \<Rightarrow> nat \<Rightarrow> uint \<Rightarrow> uint \<Rightarrow> (int, 'a) fileop" where
  "loadseg pagetable va ip offset sz = kfor (map (\<lambda>k. k * 4096) [0..<(unat sz + 4095) div 4096]) (\<lambda>i.
     kbind (walkaddr pagetable (va + of_nat i)) (\<lambda>pa. kthen [
       panic_if (\<lambda>_. pa = 0) ''loadseg: address should exist''] (
     let n = min (unat sz - i) 4096 in
     kbind (readi ip (RamPtr pa) (offset + of_nat i) (of_nat n)) (\<lambda>r.
     kreturn (if r \<noteq> int n then Some (-1) else None)))))
     (kreturn 0)"

text \<open>The label \<^verbatim>\<open>bad\<close>; \<open>ip\<close> is \<open>None\<close> once the file has been closed.\<close>

definition exec_bad :: "uint64 \<Rightarrow> uint64 \<Rightarrow> nat option \<Rightarrow> (int, 'a) fileop" where
  "exec_bad pagetable sz ip = kthen [
     if pagetable \<noteq> 0 then proc_freepagetable pagetable sz else kreturn (),
     case ip of None \<Rightarrow> kreturn () | Some ip \<Rightarrow> kdo [iunlockput ip, end_op]] (kreturn (-1))"

text \<open>
  The loop over the \<open>k\<close> program headers that are left, the next one at \<open>off\<close>; it returns the size so
  far and whether all went well.
\<close>

primrec exec_load :: "uint64 \<Rightarrow> nat \<Rightarrow> nat \<Rightarrow> uint \<Rightarrow> uint64 \<Rightarrow> (uint64 \<times> bool, 'a) fileop" where
  "exec_load pagetable ip 0 off sz = kreturn (sz, True)"
| "exec_load pagetable ip (Suc k) off sz =
     kbind (readi ip (ObjPtr 64) off 56) (\<lambda>r.
     if r \<noteq> 56 then kreturn (sz, False)
     else kbind (kgets (\<lambda>s. ph_decode (kobj s) 64)) (\<lambda>ph.
       if ph_type ph \<noteq> 1 then exec_load pagetable ip k (off + 56) sz
       else if ph_memsz ph < ph_filesz ph then kreturn (sz, False)
       else if ph_vaddr ph + ph_memsz ph < ph_vaddr ph then kreturn (sz, False)
       else if ph_vaddr ph mod PGSIZE \<noteq> 0 then kreturn (sz, False)
       else kbind (uvmalloc pagetable sz (ph_vaddr ph + ph_memsz ph) (flags2perm (ph_flags ph))) (\<lambda>sz1.
         if sz1 = 0 then kreturn (sz, False)
         else kbind (loadseg pagetable (ph_vaddr ph) ip (ucast (ph_off ph)) (ucast (ph_filesz ph))) (\<lambda>r.
           if r < 0 then kreturn (sz1, False)
           else exec_load pagetable ip k (off + 56) sz1))))"

definition ram_str :: "uint64 \<Rightarrow> 'a kmem_st_scheme \<Rightarrow> bytes" where
  "ram_str a s = (\<lambda>i. mem s (a + of_nat i))"

text \<open>Pushing the argument strings: the stack pointer and the pointers to the strings, or \<open>None\<close>.\<close>

primrec exec_args :: "uint64 \<Rightarrow> uint64 \<Rightarrow> uint64 list \<Rightarrow> uint64 \<Rightarrow> uint64 list \<Rightarrow>
    ((uint64 \<times> uint64 list) option, 'a) fileop" where
  "exec_args pagetable stackbase [] sp ustack = kreturn (Some (sp, ustack))"
| "exec_args pagetable stackbase (a # argv) sp ustack =
     (if length ustack \<ge> MAXARG then kreturn None
      else kbind (kgets (ram_str a)) (\<lambda>str. deref (strlen str) (\<lambda>n.
        let sp = sp - of_nat (n + 1); sp = sp - sp mod 16 in
        if sp < stackbase then kreturn None
        else kbind (copyout pagetable sp str (of_nat (n + 1))) (\<lambda>r.
          if r < 0 then kreturn None
          else exec_args pagetable stackbase argv sp (ustack @ [sp])))))"

definition ustack_bytes :: "uint64 list \<Rightarrow> bytes" where
  "ustack_bytes ps = bytes_of (concat (map (le_bytes 8) ps))"

text \<open>The program's name, what follows the last slash of the path.\<close>

definition path_last :: "uchar list \<Rightarrow> uchar list" where
  "path_last path = rev (takeWhile (\<lambda>c. c \<noteq> SLASH) (rev path))"

definition exec_commit :: "nat \<Rightarrow> uchar list \<Rightarrow> uint64 \<Rightarrow> uint64 \<Rightarrow> uint64 \<Rightarrow> uint64 \<Rightarrow> uint64 \<Rightarrow> (unit, 'a) fileop" where
  "exec_commit p path pagetable sz oldsz entry sp = kdo [
     set_tf p TF_A1 sp,
     set_proc p (\<lambda>pr. pr\<lparr>p_name := safestrcpy (p_name pr) (bytes_of (path_last path)) 16\<rparr>),
     kbind (kgets (\<lambda>s. p_pagetable (procs s p))) (\<lambda>oldpagetable. kdo [
       set_proc p (p_pagetable_update (\<lambda>_. pagetable)),
       set_proc p (p_sz_update (\<lambda>_. sz)),
       set_tf p TF_EPC entry,
       set_tf p TF_SP sp,
       proc_freepagetable oldpagetable oldsz])]"

text \<open>The part of \<^verbatim>\<open>exec\<close> after the file has been closed.\<close>

definition exec_stack :: "nat \<Rightarrow> uchar list \<Rightarrow> uint64 list \<Rightarrow> uint64 \<Rightarrow> uint64 \<Rightarrow> uint64 \<Rightarrow> (int, 'a) fileop" where
  "exec_stack p path argv entry pagetable sz =
     kbind (kgets (\<lambda>s. p_sz (procs s p))) (\<lambda>oldsz.
     let sz = PGROUNDUP sz in
     kbind (uvmalloc pagetable sz (sz + 2 * PGSIZE) PTE_W) (\<lambda>sz1.
     if sz1 = 0 then exec_bad pagetable sz None
     else let sz = sz1; stackbase = sz - PGSIZE in kthen [uvmclear pagetable (sz - 2 * PGSIZE)] (
       kbind (exec_args pagetable stackbase argv sz []) (\<lambda>x. case x of
         None \<Rightarrow> exec_bad pagetable sz None
       | Some (sp, ustack) \<Rightarrow>
           let argc = length ustack; sp = sp - of_nat ((argc + 1) * 8); sp = sp - sp mod 16 in
           if sp < stackbase then exec_bad pagetable sz None
           else kbind (copyout pagetable sp (ustack_bytes (ustack @ [0])) (of_nat ((argc + 1) * 8))) (\<lambda>r.
             if r < 0 then exec_bad pagetable sz None
             else kthen [exec_commit p path pagetable sz oldsz entry sp] (kreturn (int argc)))))))"

definition exec :: "uchar list \<Rightarrow> uint64 list \<Rightarrow> (int, 'a) fileop" where
  "exec path argv = kbind curproc (\<lambda>p. kthen [begin_op] (
     kbind (namei path) (\<lambda>ip. case ip of
       None \<Rightarrow> kthen [end_op] (kreturn (-1))
     | Some i \<Rightarrow> kthen [ilock ip] (
         kbind (readi i (ObjPtr 0) 0 64) (\<lambda>r.
         if r \<noteq> 64 then exec_bad 0 0 ip
         else kbind (kgets (\<lambda>s. elf_decode (kobj s))) (\<lambda>elf.
           if e_magic elf \<noteq> ELF_MAGIC then exec_bad 0 0 ip
           else kbind (proc_pagetable p) (\<lambda>pagetable.
             if pagetable = 0 then exec_bad 0 0 ip
             else kbind (exec_load pagetable i (unat (e_phnum elf)) (ucast (e_phoff elf)) 0) (\<lambda>(sz, ok).
               if \<not> ok then exec_bad pagetable sz ip
               else kthen [iunlockput i, end_op] (
                 exec_stack p path argv (e_entry elf) pagetable sz)))))))))"

end
