(* ===== verification/Sysfile.thy ===== *)
theory Sysfile
  imports Exec
begin

text \<open>
  System call arguments, \<^verbatim>\<open>kernel/syscall.c\<close>, and the file-system calls, \<^verbatim>\<open>kernel/sysfile.c\<close>.
  A call returns the value it puts in \<^verbatim>\<open>a0\<close>, as an integer.
\<close>

section \<open>Arguments\<close>

definition fetchaddr :: "uint64 \<Rightarrow> (int \<times> uint64, 'a) procop" where
  "fetchaddr addr = kbind curproc (\<lambda>p. kbind (kgets (\<lambda>s. procs s p)) (\<lambda>pr.
     if addr \<ge> p_sz pr \<or> addr + 8 > p_sz pr then kreturn (-1, 0)
     else kbind (copyin (p_pagetable pr) (\<lambda>_. 0) addr 8) (\<lambda>(r, d).
       kreturn (if r \<noteq> 0 then -1 else 0, get64 d 0))))"

definition fetchstr :: "uint64 \<Rightarrow> bytes \<Rightarrow> uint64 \<Rightarrow> (int \<times> bytes, 'a) procop" where
  "fetchstr addr buf mx = kbind curproc (\<lambda>p. kbind (kgets (\<lambda>s. p_pagetable (procs s p))) (\<lambda>pt.
     kbind (copyinstr pt buf addr mx) (\<lambda>(r, buf).
     if r < 0 then kreturn (-1, buf)
     else deref (strlen buf) (\<lambda>n. kreturn (int n, buf)))))"

definition argraw :: "nat \<Rightarrow> (uint64, 'a) procop" where
  "argraw n = kbind curproc (\<lambda>p.
     if n \<le> 5 then kgets (get_tf p (TF_A0 + of_nat (8 * n))) else kpanic ''argraw'')"

definition argint :: "nat \<Rightarrow> (uint, 'a) procop" where
  "argint n = kbind (argraw n) (\<lambda>x. kreturn (ucast x))"

definition argaddr :: "nat \<Rightarrow> (uint64, 'a) procop" where
  "argaddr n = argraw n"

definition argstr :: "nat \<Rightarrow> bytes \<Rightarrow> uint64 \<Rightarrow> (int \<times> bytes, 'a) procop" where
  "argstr n buf mx = kbind (argaddr n) (\<lambda>addr. fetchstr addr buf mx)"

text \<open>An argument that is a path: \<open>None\<close> when \<^verbatim>\<open>argstr\<close> fails.\<close>

definition argpath :: "nat \<Rightarrow> (uchar list option, 'a) procop" where
  "argpath n = kbind (argstr n (\<lambda>_. 0) (of_nat MAXPATH)) (\<lambda>(r, buf).
     kreturn (if r < 0 then None else Some (map buf [0..<nat r])))"

definition argfd :: "nat \<Rightarrow> ((nat \<times> nat) option, 'a) fileop" where
  "argfd n = kbind (argint n) (\<lambda>fd.
     if sint fd < 0 \<or> sint fd \<ge> int NOFILE then kreturn None
     else kbind curproc (\<lambda>p. kbind (kgets (\<lambda>s. p_ofile (procs s p) (unat fd))) (\<lambda>f.
       kreturn (map_option (\<lambda>f. (unat fd, f)) f))))"

definition fdalloc :: "nat \<Rightarrow> (int, 'a) fileop" where
  "fdalloc f = kbind curproc (\<lambda>p. kfor [0..<NOFILE] (\<lambda>fd.
       kif (\<lambda>s. p_ofile (procs s p) fd = None)
         (kthen [set_proc p (p_ofile_update (\<lambda>o'. o'(fd := Some f)))] (kreturn (Some (int fd))))
         (kreturn None))
     (kreturn (-1)))"

definition clear_fd :: "nat \<Rightarrow> (unit, 'a) fileop" where
  "clear_fd fd = kbind curproc (\<lambda>p. set_proc p (p_ofile_update (\<lambda>o'. o'(fd := None))))"

section \<open>Calls on open files\<close>

definition sys_dup :: "(int, 'a) fileop" where
  "sys_dup = kbind (argfd 0) (\<lambda>x. case x of
       None \<Rightarrow> kreturn (-1)
     | Some (_, f) \<Rightarrow> kbind (fdalloc f) (\<lambda>fd.
         if fd < 0 then kreturn (-1) else kbind (filedup f) (\<lambda>_. kreturn fd)))"

definition sys_read :: "(int, 'a) fileop" where
  "sys_read = kbind (argaddr 1) (\<lambda>p. kbind (argint 2) (\<lambda>n. kbind (argfd 0) (\<lambda>x. case x of
       None \<Rightarrow> kreturn (-1)
     | Some (_, f) \<Rightarrow> fileread f p (sint n))))"

definition sys_write :: "(int, 'a) fileop" where
  "sys_write = kbind (argaddr 1) (\<lambda>p. kbind (argint 2) (\<lambda>n. kbind (argfd 0) (\<lambda>x. case x of
       None \<Rightarrow> kreturn (-1)
     | Some (_, f) \<Rightarrow> filewrite f p (sint n))))"

definition sys_close :: "(int, 'a) fileop" where
  "sys_close = kbind (argfd 0) (\<lambda>x. case x of
       None \<Rightarrow> kreturn (-1)
     | Some (fd, f) \<Rightarrow> kthen [clear_fd fd, fileclose f] (kreturn 0))"

definition sys_fstat :: "(int, 'a) fileop" where
  "sys_fstat = kbind (argaddr 1) (\<lambda>st. kbind (argfd 0) (\<lambda>x. case x of
       None \<Rightarrow> kreturn (-1)
     | Some (_, f) \<Rightarrow> filestat f st))"

section \<open>Links\<close>

definition link_bad :: "nat \<Rightarrow> (int, 'a) fileop" where
  "link_bad ip = kthen [
     ilock (Some ip),
     set_inode ip (i_nlink_update (\<lambda>n. n - 1)),
     iupdate ip,
     iunlockput ip,
     end_op] (kreturn (-1))"

definition sys_link :: "(int, 'a) fileop" where
  "sys_link = kbind (argpath 0) (\<lambda>old. case old of None \<Rightarrow> kreturn (-1) | Some old \<Rightarrow>
     kbind (argpath 1) (\<lambda>new. case new of None \<Rightarrow> kreturn (-1) | Some new \<Rightarrow>
     kthen [begin_op] (kbind (namei old) (\<lambda>ip. case ip of
       None \<Rightarrow> kthen [end_op] (kreturn (-1))
     | Some ip \<Rightarrow> kthen [ilock (Some ip)] (
         kif (\<lambda>s. i_type (itable s ip) = T_DIR)
           (kthen [iunlockput ip, end_op] (kreturn (-1)))
           (kthen [
              set_inode ip (i_nlink_update (\<lambda>n. n + 1)),
              iupdate ip,
              iunlock (Some ip)] (
            kbind (nameiparent new (\<lambda>_. 0)) (\<lambda>(dp, name). case dp of
                None \<Rightarrow> link_bad ip
              | Some dp \<Rightarrow> kthen [ilock (Some dp)] (
                  kbind (kgets (\<lambda>s. (i_dev (itable s dp) \<noteq> i_dev (itable s ip), i_inum (itable s ip)))) (\<lambda>(other, inum).
                  kbind (if other then kreturn (-1) else dirlink dp name inum) (\<lambda>r.
                  if r < 0 then kthen [iunlockput dp] (link_bad ip)
                  else kthen [iunlockput dp, iput ip, end_op] (kreturn 0))))))))))))"

definition isdirempty :: "nat \<Rightarrow> (bool, 'a) fileop" where
  "isdirempty dp = kbind (kgets (\<lambda>s. drop 2 (dirent_offs (i_size (itable s dp))))) (\<lambda>offs.
     kfor offs (\<lambda>off.
       kbind (readi dp (ObjPtr 0) (of_nat off) 16) (\<lambda>r. kthen [panic_if (\<lambda>_. r \<noteq> 16) ''isdirempty: readi''] (
       kbind (kgets kobj) (\<lambda>de. kreturn (if de_inum de \<noteq> 0 then Some False else None)))))
     (kreturn True))"

definition unlink_bad :: "nat \<Rightarrow> (int, 'a) fileop" where
  "unlink_bad dp = kthen [iunlockput dp, end_op] (kreturn (-1))"

definition unlink_entry :: "nat \<Rightarrow> nat \<Rightarrow> uint \<Rightarrow> (int, 'a) fileop" where
  "unlink_entry dp ip off = kthen [kmodify (\<lambda>s. s\<lparr>kobj := put_bytes (kobj s) 0 (replicate 16 0)\<rparr>)] (
     kbind (writei dp (ObjPtr 0) off 16) (\<lambda>r. kthen [
       panic_if (\<lambda>_. r \<noteq> 16) ''unlink: writei'',
       kwhen (\<lambda>s. i_type (itable s ip) = T_DIR) (kdo [
         set_inode dp (i_nlink_update (\<lambda>n. n - 1)),
         iupdate dp]),
       iunlockput dp,
       set_inode ip (i_nlink_update (\<lambda>n. n - 1)),
       iupdate ip,
       iunlockput ip,
       end_op] (kreturn 0)))"

definition sys_unlink :: "(int, 'a) fileop" where
  "sys_unlink = kbind (argpath 0) (\<lambda>path. case path of None \<Rightarrow> kreturn (-1) | Some path \<Rightarrow>
     kthen [begin_op] (kbind (nameiparent path (\<lambda>_. 0)) (\<lambda>(dp, name). case dp of
       None \<Rightarrow> kthen [end_op] (kreturn (-1))
     | Some dp \<Rightarrow> kthen [ilock (Some dp)] (
         if namecmp name (bytes_of (cstr ''.'')) = 0 \<or> namecmp name (bytes_of (cstr ''..'')) = 0 then unlink_bad dp
         else kbind (dirlookup dp name) (\<lambda>x. case x of
             None \<Rightarrow> unlink_bad dp
           | Some (ip, off) \<Rightarrow> kthen [
               ilock (Some ip),
               panic_if (\<lambda>s. sint (i_nlink (itable s ip)) < 1) ''unlink: nlink < 1''] (
               kbind (kgets (\<lambda>s. i_type (itable s ip) = T_DIR)) (\<lambda>dir.
               kbind (if dir then isdirempty ip else kreturn True) (\<lambda>e.
               if \<not> e then kthen [iunlockput ip] (unlink_bad dp)
               else unlink_entry dp ip off)))))))) "

section \<open>Creating and opening\<close>

definition create_fail :: "nat \<Rightarrow> nat \<Rightarrow> (nat option, 'a) fileop" where
  "create_fail ip dp = kthen [
     set_inode ip (i_nlink_update (\<lambda>_. 0)),
     iupdate ip,
     iunlockput ip,
     iunlockput dp] (kreturn None)"

text \<open>The entries \<^verbatim>\<open>.\<close> and \<^verbatim>\<open>..\<close> of a new directory.\<close>

definition create_dots :: "nat \<Rightarrow> nat \<Rightarrow> (int, 'a) fileop" where
  "create_dots ip dp = kbind (kgets (\<lambda>s. i_inum (itable s ip))) (\<lambda>inum.
     kbind (dirlink ip (bytes_of (cstr ''.'')) inum) (\<lambda>r.
     if r < 0 then kreturn r
     else kbind (kgets (\<lambda>s. i_inum (itable s dp))) (dirlink ip (bytes_of (cstr ''..'')))))"

definition create :: "uchar list \<Rightarrow> ushort \<Rightarrow> ushort \<Rightarrow> ushort \<Rightarrow> (nat option, 'a) fileop" where
  "create path type major minor = kbind (nameiparent path (\<lambda>_. 0)) (\<lambda>(dp, name). case dp of
       None \<Rightarrow> kreturn None
     | Some dp \<Rightarrow> kthen [ilock (Some dp)] (kbind (dirlookup dp name) (\<lambda>x. case x of
         Some (ip, _) \<Rightarrow> kthen [iunlockput dp, ilock (Some ip)] (
           kif (\<lambda>s. type = T_FILE \<and> (i_type (itable s ip) = T_FILE \<or> i_type (itable s ip) = T_DEVICE))
             (kreturn (Some ip))
             (kthen [iunlockput ip] (kreturn None)))
       | None \<Rightarrow> kbind (kgets (\<lambda>s. i_dev (itable s dp))) (\<lambda>dev. kbind (ialloc dev type) (\<lambda>ip. case ip of
           None \<Rightarrow> kthen [iunlockput dp] (kreturn None)
         | Some ip \<Rightarrow> kthen [
             ilock (Some ip),
             set_inode ip (\<lambda>i. i\<lparr>i_major := major, i_minor := minor, i_nlink := 1\<rparr>),
             iupdate ip] (
             kbind (if type = T_DIR then create_dots ip dp else kreturn 0) (\<lambda>r.
             if r < 0 then create_fail ip dp
             else kbind (kgets (\<lambda>s. i_inum (itable s ip))) (\<lambda>inum. kbind (dirlink dp name inum) (\<lambda>r.
               if r < 0 then create_fail ip dp
               else kthen [
                 if type = T_DIR then kdo [
                   set_inode dp (i_nlink_update (\<lambda>n. n + 1)),
                   iupdate dp]
                 else kreturn (),
                 iunlockput dp] (kreturn (Some ip)))))))))))"

definition O_WRONLY :: "uint \<Rightarrow> bool" where "O_WRONLY m = bit m 0"
definition O_RDWR :: "uint \<Rightarrow> bool" where "O_RDWR m = bit m 1"
definition O_CREATE :: "uint \<Rightarrow> bool" where "O_CREATE m = bit m 9"
definition O_TRUNC :: "uint \<Rightarrow> bool" where "O_TRUNC m = bit m 10"

text \<open>The inode \<^verbatim>\<open>sys_open\<close> opens, locked, or \<open>None\<close> after the failure has been cleaned up.\<close>

definition open_inode :: "uchar list \<Rightarrow> uint \<Rightarrow> (nat option, 'a) fileop" where
  "open_inode path omode =
     (if O_CREATE omode then kbind (create path T_FILE 0 0) (\<lambda>ip. case ip of
          None \<Rightarrow> kthen [end_op] (kreturn None)
        | Some ip \<Rightarrow> kreturn (Some ip))
      else kbind (namei path) (\<lambda>ip. case ip of
          None \<Rightarrow> kthen [end_op] (kreturn None)
        | Some ip \<Rightarrow> kthen [ilock (Some ip)] (
            kif (\<lambda>s. i_type (itable s ip) = T_DIR \<and> omode \<noteq> 0)
              (kthen [iunlockput ip, end_op] (kreturn None))
              (kreturn (Some ip)))))"

definition open_fill :: "nat \<Rightarrow> nat \<Rightarrow> uint \<Rightarrow> (unit, 'a) fileop" where
  "open_fill f ip omode = kdo [
     kbind (get_inode ip) (\<lambda>i.
       if i_type i = T_DEVICE then set_file f (\<lambda>fl. fl\<lparr>f_type := FD_DEVICE, f_major := i_major i\<rparr>)
       else set_file f (\<lambda>fl. fl\<lparr>f_type := FD_INODE, f_off := 0\<rparr>)),
     set_file f (\<lambda>fl. fl\<lparr>f_ip := Some ip, f_readable := (\<not> O_WRONLY omode),
       f_writable := (O_WRONLY omode \<or> O_RDWR omode)\<rparr>),
     kwhen (\<lambda>s. O_TRUNC omode \<and> i_type (itable s ip) = T_FILE) (itrunc ip),
     iunlock (Some ip),
     end_op]"

definition sys_open :: "(int, 'a) fileop" where
  "sys_open = kbind (argint 1) (\<lambda>omode. kbind (argpath 0) (\<lambda>path. case path of None \<Rightarrow> kreturn (-1) | Some path \<Rightarrow>
     kthen [begin_op] (kbind (open_inode path omode) (\<lambda>ip. case ip of None \<Rightarrow> kreturn (-1) | Some ip \<Rightarrow>
     let fail = kthen [iunlockput ip, end_op] (kreturn (-1)) in
     kif (\<lambda>s. i_type (itable s ip) = T_DEVICE \<and>
         (sint (i_major (itable s ip)) < 0 \<or> sint (i_major (itable s ip)) \<ge> int NDEV)) fail
     (kbind filealloc (\<lambda>f. case f of
        None \<Rightarrow> fail
      | Some f \<Rightarrow> kbind (fdalloc f) (\<lambda>fd.
          if fd < 0 then kthen [fileclose f] fail
          else kthen [open_fill f ip omode] (kreturn fd))))))))"

definition sys_mkdir :: "(int, 'a) fileop" where
  "sys_mkdir = kthen [begin_op] (kbind (argpath 0) (\<lambda>path.
     kbind (case path of None \<Rightarrow> kreturn None | Some path \<Rightarrow> create path T_DIR 0 0) (\<lambda>ip. case ip of
       None \<Rightarrow> kthen [end_op] (kreturn (-1))
     | Some ip \<Rightarrow> kthen [iunlockput ip, end_op] (kreturn 0))))"

definition sys_mknod :: "(int, 'a) fileop" where
  "sys_mknod = kthen [begin_op] (kbind (argint 1) (\<lambda>major. kbind (argint 2) (\<lambda>minor. kbind (argpath 0) (\<lambda>path.
     kbind (case path of None \<Rightarrow> kreturn None | Some path \<Rightarrow> create path T_DEVICE (ucast major) (ucast minor)) (\<lambda>ip. case ip of
       None \<Rightarrow> kthen [end_op] (kreturn (-1))
     | Some ip \<Rightarrow> kthen [iunlockput ip, end_op] (kreturn 0))))))"

definition sys_chdir :: "(int, 'a) fileop" where
  "sys_chdir = kbind curproc (\<lambda>p. kthen [begin_op] (kbind (argpath 0) (\<lambda>path.
     kbind (case path of None \<Rightarrow> kreturn None | Some path \<Rightarrow> namei path) (\<lambda>ip. case ip of
       None \<Rightarrow> kthen [end_op] (kreturn (-1))
     | Some ip \<Rightarrow> kthen [ilock (Some ip)] (
         kif (\<lambda>s. i_type (itable s ip) \<noteq> T_DIR)
           (kthen [iunlockput ip, end_op] (kreturn (-1)))
           (kthen [
              iunlock (Some ip),
              kbind (kgets (\<lambda>s. p_cwd (procs s p))) (\<lambda>cwd. deref cwd iput),
              end_op,
              set_proc p (p_cwd_update (\<lambda>_. Some ip))] (kreturn 0)))))))"

section \<open>exec and pipe\<close>

definition free_pages :: "uint64 list \<Rightarrow> (unit, 'a) fileop" where
  "free_pages argv = kforeach argv kfree"

text \<open>The loop that fetches the arguments, with \<open>k\<close> entries of \<open>argv\<close> left; the pages so far.\<close>

primrec fetch_args :: "nat \<Rightarrow> uint64 \<Rightarrow> uint64 list \<Rightarrow> (uint64 list \<times> bool, 'a) fileop" where
  "fetch_args 0 uargv argv = kreturn (argv, False)"
| "fetch_args (Suc k) uargv argv = kbind (fetchaddr (uargv + 8 * of_nat (length argv))) (\<lambda>(r, uarg).
     if r < 0 then kreturn (argv, False)
     else if uarg = 0 then kreturn (argv, True)
     else kbind kalloc (\<lambda>pg.
       if pg = 0 then kreturn (argv, False)
       else kbind (kgets (ram_str pg)) (\<lambda>buf. kbind (fetchstr uarg buf PGSIZE) (\<lambda>(r, buf).
         kthen [store_bytes pg buf 4096] (
         if r < 0 then kreturn (argv @ [pg], False)
         else fetch_args k uargv (argv @ [pg]))))))"

definition sys_exec :: "(int, 'a) fileop" where
  "sys_exec = kbind (argaddr 1) (\<lambda>uargv. kbind (argpath 0) (\<lambda>path. case path of None \<Rightarrow> kreturn (-1) | Some path \<Rightarrow>
     kbind (fetch_args MAXARG uargv []) (\<lambda>(argv, ok).
     if ok then kbind (exec path argv) (\<lambda>ret. kthen [free_pages argv] (kreturn ret))
     else kthen [free_pages argv] (kreturn (-1)))))"

definition close_both :: "nat \<Rightarrow> nat \<Rightarrow> (int, 'a) fileop" where
  "close_both rf wf1 = kthen [fileclose rf, fileclose wf1] (kreturn (-1))"

definition sys_pipe :: "(int, 'a) fileop" where
  "sys_pipe = kbind curproc (\<lambda>p. kbind (argaddr 0) (\<lambda>fdarray. kbind pipealloc (\<lambda>(r, f0, f1).
     if r < 0 then kreturn (-1)
     else deref f0 (\<lambda>rf. deref f1 (\<lambda>wf1. kbind (fdalloc rf) (\<lambda>fd0.
       if fd0 < 0 then close_both rf wf1
       else kbind (fdalloc wf1) (\<lambda>fd1.
         if fd1 < 0 then kthen [clear_fd (nat fd0)] (close_both rf wf1)
         else kbind (kgets (\<lambda>s. p_pagetable (procs s p))) (\<lambda>pt.
           kbind (copyout pt fdarray (bytes_of (le_bytes 4 (of_int fd0 :: uint))) 4) (\<lambda>r.
           kbind (if r < 0 then kreturn r
             else copyout pt (fdarray + 4) (bytes_of (le_bytes 4 (of_int fd1 :: uint))) 4) (\<lambda>r.
           if r < 0 then kthen [clear_fd (nat fd0), clear_fd (nat fd1)] (close_both rf wf1)
           else kreturn 0)))))))))) "

end
