(* ===== verification/Virtio.thy ===== *)
theory Virtio
  imports File
begin

text \<open>
  The driver of the virtio disk, \<^verbatim>\<open>kernel/virtio_disk.c\<close>, with its descriptors and rings. A
  descriptor's address is one of the objects the driver lets the device use. The device's
  registers are the values it answers with and the sequence of values written.
  \<^verbatim>\<open>virtio_disk_rw\<close> is split where it sleeps. The buffer cache uses the transfer as one
  step, \<open>virtio_disk_rw\<close>.
\<close>

section \<open>State\<close>

abbreviation (input) NUM :: nat where "NUM \<equiv> 8"
abbreviation (input) VRING_DESC_F_NEXT :: ushort where "VRING_DESC_F_NEXT \<equiv> 1"
abbreviation (input) VRING_DESC_F_WRITE :: ushort where "VRING_DESC_F_WRITE \<equiv> 2"

datatype dptr = DNull | DOp nat | DData nat | DStatus nat

record virtq_desc =
  d_addr :: dptr
  d_len :: uint
  d_flags :: ushort
  d_next :: ushort

record virtio_blk_req =
  req_type :: uint
  req_reserved :: uint
  req_sector :: uint64

record vdisk =
  vd_desc :: "nat \<Rightarrow> virtq_desc"
  av_idx :: ushort
  av_ring :: "nat \<Rightarrow> ushort"
  us_idx :: ushort
  us_ring :: "nat \<Rightarrow> uint"
  vd_free :: "nat \<Rightarrow> bool"
  used_idx :: ushort
  info_b :: "nat \<Rightarrow> nat option"
  info_status :: "nat \<Rightarrow> uchar"
  vd_ops :: "nat \<Rightarrow> virtio_blk_req"
  vd_pages :: "uint64 \<times> uint64 \<times> uint64"

record virtio_st = file_st +
  vd :: vdisk
  mmio_in :: "nat \<Rightarrow> uint"
  mmio_out :: "(nat \<times> uint) list"

type_synonym ('r, 'a) virtop = "('r, 'a virtio_st_scheme) kmonad"

definition set_vd :: "(vdisk \<Rightarrow> vdisk) \<Rightarrow> (unit, 'a) virtop" where
  "set_vd f = kmodify (\<lambda>s. s\<lparr>vd := f (vd s)\<rparr>)"

definition upd_desc :: "nat \<Rightarrow> (virtq_desc \<Rightarrow> virtq_desc) \<Rightarrow> vdisk \<Rightarrow> vdisk" where
  "upd_desc i f d = d\<lparr>vd_desc := (vd_desc d)(i := f (vd_desc d i))\<rparr>"

definition set_desc :: "nat \<Rightarrow> (virtq_desc \<Rightarrow> virtq_desc) \<Rightarrow> (unit, 'a) virtop" where
  "set_desc i f = set_vd (upd_desc i f)"

section \<open>Initialisation\<close>

definition mmio_write :: "nat \<Rightarrow> uint \<Rightarrow> (unit, 'a) virtop" where
  "mmio_write r v = kmodify (\<lambda>s. s\<lparr>mmio_out := mmio_out s @ [(r, v)]\<rparr>)"

definition disk_features :: "uint \<Rightarrow> uint" where
  "disk_features f = foldl (\<lambda>f n. f AND NOT (push_bit n 1)) f [5, 7, 11, 12, 27, 29, 28]"

definition virtio_zero_page :: "uint64 \<Rightarrow> (unit, 'a) virtop" where
  "virtio_zero_page p = kmodify (\<lambda>s. s\<lparr>mem := memset (mem s) p 0 4096\<rparr>)"

definition virtio_queue_init :: "(unit, 'a) virtop" where
  "virtio_queue_init = kbind kalloc (\<lambda>d. kbind kalloc (\<lambda>a. kbind kalloc (\<lambda>u. kdo [
     set_vd (\<lambda>v. v\<lparr>vd_pages := (d, a, u)\<rparr>),
     panic_if (\<lambda>_. d = 0 \<or> a = 0 \<or> u = 0) ''virtio disk kalloc'',
     virtio_zero_page d,
     virtio_zero_page a,
     virtio_zero_page u,
     set_vd (\<lambda>v. v\<lparr>vd_desc := (\<lambda>_. \<lparr>d_addr = DNull, d_len = 0, d_flags = 0, d_next = 0\<rparr>),
       av_idx := 0, av_ring := (\<lambda>_. 0), us_idx := 0, us_ring := (\<lambda>_. 0)\<rparr>),
     mmio_write 0x038 (of_nat NUM),
     mmio_write 0x080 (ucast d),
     mmio_write 0x084 (ucast (drop_bit 32 d)),
     mmio_write 0x090 (ucast a),
     mmio_write 0x094 (ucast (drop_bit 32 a)),
     mmio_write 0x0a0 (ucast u),
     mmio_write 0x0a4 (ucast (drop_bit 32 u)),
     mmio_write 0x044 1,
     kforeach [0..<NUM] (\<lambda>i. set_vd (\<lambda>v. v\<lparr>vd_free := (vd_free v)(i := True)\<rparr>))])))"

definition virtio_disk_init :: "(unit, 'a) virtop" where
  "virtio_disk_init = kdo [
     initlock VdiskLock ''virtio_disk'',
     panic_if (\<lambda>s. mmio_in s 0x000 \<noteq> 0x74726976 \<or> mmio_in s 0x004 \<noteq> 2 \<or> mmio_in s 0x008 \<noteq> 2 \<or>
       mmio_in s 0x00c \<noteq> 0x554d4551) ''could not find virtio disk'',
     mmio_write 0x070 0,
     mmio_write 0x070 1,
     mmio_write 0x070 3,
     kbind (kgets (\<lambda>s. mmio_in s 0x010)) (\<lambda>f. mmio_write 0x020 (disk_features f)),
     mmio_write 0x070 11,
     kbind (kgets (\<lambda>s. mmio_in s 0x070)) (\<lambda>status. kdo [
       panic_if (\<lambda>_. \<not> bit status 3) ''virtio disk FEATURES_OK unset'',
       mmio_write 0x030 0,
       panic_if (\<lambda>s. mmio_in s 0x044 \<noteq> 0) ''virtio disk should not be ready'',
       panic_if (\<lambda>s. mmio_in s 0x034 = 0) ''virtio disk has no queue 0'',
       panic_if (\<lambda>s. mmio_in s 0x034 < of_nat NUM) ''virtio disk max queue too short'',
       virtio_queue_init,
       mmio_write 0x070 (status OR 4)])]"

section \<open>Descriptors\<close>

definition alloc_desc :: "(int, 'a) virtop" where
  "alloc_desc = kfor [0..<NUM] (\<lambda>i.
     kif (\<lambda>s. vd_free (vd s) i)
       (kthen [set_vd (\<lambda>v. v\<lparr>vd_free := (vd_free v)(i := False)\<rparr>)] (kreturn (Some (int i))))
       (kreturn None))
     (kreturn (-1))"

definition free_desc :: "nat \<Rightarrow> (unit, 'a) virtop" where
  "free_desc i = kdo [
     panic_if (\<lambda>_. i \<ge> NUM) ''free_desc 1'',
     panic_if (\<lambda>s. vd_free (vd s) i) ''free_desc 2'',
     set_desc i (\<lambda>_. \<lparr>d_addr = DNull, d_len = 0, d_flags = 0, d_next = 0\<rparr>),
     set_vd (\<lambda>v. v\<lparr>vd_free := (vd_free v)(i := True)\<rparr>),
     wakeup DiskFreeChan]"

text \<open>
  A chain has at most \<open>NUM\<close> descriptors: freeing one a second time panics, so \<open>NUM + 1\<close> rounds are
  enough.
\<close>

primrec free_chain_loop :: "nat \<Rightarrow> nat \<Rightarrow> (unit, 'a) virtop" where
  "free_chain_loop 0 i = kreturn ()"
| "free_chain_loop (Suc n) i = kbind (kgets (\<lambda>s. vd_desc (vd s) i)) (\<lambda>d. kdo [
     free_desc i,
     if d_flags d AND VRING_DESC_F_NEXT \<noteq> 0 then free_chain_loop n (unat (d_next d)) else kreturn ()])"

definition free_chain :: "nat \<Rightarrow> (unit, 'a) virtop" where
  "free_chain i = free_chain_loop (NUM + 1) i"

text \<open>Three descriptors, or none; the ones already taken are given back.\<close>

primrec alloc_descs :: "nat \<Rightarrow> nat list \<Rightarrow> (nat list option, 'a) virtop" where
  "alloc_descs 0 idx = kreturn (Some idx)"
| "alloc_descs (Suc n) idx = kbind alloc_desc (\<lambda>i.
     if i < 0 then kthen [kforeach idx free_desc] (kreturn None)
     else alloc_descs n (idx @ [nat i]))"

definition alloc3_desc :: "(nat list option, 'a) virtop" where
  "alloc3_desc = alloc_descs 3 []"

section \<open>Requests\<close>

definition rw_format :: "nat \<Rightarrow> bool \<Rightarrow> nat \<Rightarrow> nat \<Rightarrow> nat \<Rightarrow> (unit, 'a) virtop" where
  "rw_format b write i0 i1 i2 = kbind (kgets (\<lambda>s. ucast (b_blockno (bufs s b) * 2))) (\<lambda>sector. kdo [
     set_vd (\<lambda>v. v\<lparr>vd_ops := (vd_ops v)(i0 := \<lparr>req_type = (if write then 1 else 0), req_reserved = 0, req_sector = sector\<rparr>)\<rparr>),
     set_desc i0 (\<lambda>_. \<lparr>d_addr = DOp i0, d_len = 16, d_flags = VRING_DESC_F_NEXT, d_next = of_nat i1\<rparr>),
     set_desc i1 (\<lambda>_. \<lparr>d_addr = DData b, d_len = 1024,
       d_flags = (if write then 0 else VRING_DESC_F_WRITE) OR VRING_DESC_F_NEXT, d_next = of_nat i2\<rparr>),
     set_vd (\<lambda>v. v\<lparr>info_status := (info_status v)(i0 := 0xff)\<rparr>),
     set_desc i2 (\<lambda>_. \<lparr>d_addr = DStatus i0, d_len = 1, d_flags = VRING_DESC_F_WRITE, d_next = 0\<rparr>),
     set_buf b (b_disk_update (\<lambda>_. True)),
     set_vd (\<lambda>v. v\<lparr>info_b := (info_b v)(i0 := Some b)\<rparr>),
     set_vd (\<lambda>v. v\<lparr>av_ring := (av_ring v)(unat (av_idx v) mod NUM := of_nat i0)\<rparr>),
     set_vd (av_idx_update (\<lambda>n. n + 1)),
     mmio_write 0x050 0])"

text \<open>The wait for the device, and what follows it.\<close>

definition rw_wait :: "nat \<Rightarrow> nat \<Rightarrow> (unit, 'a) virtop" where
  "rw_wait b i0 = kif (\<lambda>s. b_disk (bufs s b)) (sleep (BufChan b) VdiskLock) (kdo [
     set_vd (\<lambda>v. v\<lparr>info_b := (info_b v)(i0 := None)\<rparr>),
     free_chain i0,
     release VdiskLock])"

definition rw_round :: "nat \<Rightarrow> bool \<Rightarrow> (unit, 'a) virtop" where
  "rw_round b write = kbind alloc3_desc (\<lambda>idx. case idx of
       Some [i0, i1, i2] \<Rightarrow> kdo [rw_format b write i0 i1 i2, rw_wait b i0]
     | _ \<Rightarrow> sleep DiskFreeChan VdiskLock)"

definition vdisk_rw :: "nat \<Rightarrow> bool \<Rightarrow> (unit, 'a) virtop" where
  "vdisk_rw b write = kdo [acquire VdiskLock, rw_round b write]"

definition vdisk_rw_retry :: "bool \<Rightarrow> nat \<Rightarrow> bool \<Rightarrow> (unit, 'a) virtop" where
  "vdisk_rw_retry old b write = kdo [sleep_return old VdiskLock, rw_round b write]"

definition vdisk_rw_return :: "bool \<Rightarrow> nat \<Rightarrow> nat \<Rightarrow> (unit, 'a) virtop" where
  "vdisk_rw_return old b i0 = kdo [sleep_return old VdiskLock, rw_wait b i0]"

section \<open>The interrupt\<close>

text \<open>One round per entry the device has put in its ring.\<close>

primrec intr_loop :: "nat \<Rightarrow> (unit, 'a) virtop" where
  "intr_loop 0 = kreturn ()"
| "intr_loop (Suc n) = kif (\<lambda>s. used_idx (vd s) = us_idx (vd s)) (kreturn ())
     (kbind (kgets (\<lambda>s. unat (us_ring (vd s) (unat (used_idx (vd s)) mod NUM)))) (\<lambda>id. kdo [
        panic_if (\<lambda>s. info_status (vd s) id \<noteq> 0) ''virtio_disk_intr status'',
        kbind (kgets (\<lambda>s. info_b (vd s) id)) (\<lambda>b. deref b (\<lambda>b. kdo [
          set_buf b (b_disk_update (\<lambda>_. False)),
          wakeup (BufChan b)])),
        set_vd (used_idx_update (\<lambda>n. n + 1)),
        intr_loop n]))"

definition virtio_disk_intr :: "(unit, 'a) virtop" where
  "virtio_disk_intr = kdo [
     acquire VdiskLock,
     kbind (kgets (\<lambda>s. mmio_in s 0x060)) (\<lambda>st. mmio_write 0x064 (st AND 3)),
     kbind (kgets (\<lambda>s. unat (us_idx (vd s) - used_idx (vd s)))) intr_loop,
     release VdiskLock]"

lemma virtio_proj [simp]:
  "vd (acq lk s) = vd s"
  "vd (rel lk s) = vd s"
  "vd (lockcycle s) = vd s"
  "mmio_in (acq lk s) = mmio_in s"
  "mmio_in (rel lk s) = mmio_in s"
  "mmio_in (lockcycle s) = mmio_in s"
  "mmio_out (acq lk s) = mmio_out s"
  "mmio_out (rel lk s) = mmio_out s"
  "mmio_out (lockcycle s) = mmio_out s"
  by (simp_all add: lock_defs Let_def)

lemma virtio_lock [simp]:
  "lock_ok lk (vd_update f0 s) = lock_ok lk s"
  "holding lk (vd_update f0 s) = holding lk s"
  "irq_ok (vd_update f0 s) = irq_ok s"
  "irq_held (vd_update f0 s) = irq_held s"
  "intr_get (vd_update f0 s) = intr_get s"
  "cpuid (vd_update f0 s) = cpuid s"
  "mycpu (vd_update f0 s) = mycpu s"
  "lock_ok lk (mmio_in_update f1 s) = lock_ok lk s"
  "holding lk (mmio_in_update f1 s) = holding lk s"
  "irq_ok (mmio_in_update f1 s) = irq_ok s"
  "irq_held (mmio_in_update f1 s) = irq_held s"
  "intr_get (mmio_in_update f1 s) = intr_get s"
  "cpuid (mmio_in_update f1 s) = cpuid s"
  "mycpu (mmio_in_update f1 s) = mycpu s"
  "lock_ok lk (mmio_out_update f2 s) = lock_ok lk s"
  "holding lk (mmio_out_update f2 s) = holding lk s"
  "irq_ok (mmio_out_update f2 s) = irq_ok s"
  "irq_held (mmio_out_update f2 s) = irq_held s"
  "intr_get (mmio_out_update f2 s) = intr_get s"
  "cpuid (mmio_out_update f2 s) = cpuid s"
  "mycpu (mmio_out_update f2 s) = mycpu s"
  by (simp_all add: lock_defs)

lemma virtio_comm [simp]:
  "acq lk (vd_update f0 s) = vd_update f0 (acq lk s)"
  "rel lk (vd_update f0 s) = vd_update f0 (rel lk s)"
  "lockcycle (vd_update f0 s) = vd_update f0 (lockcycle s)"
  "acq lk (mmio_in_update f1 s) = mmio_in_update f1 (acq lk s)"
  "rel lk (mmio_in_update f1 s) = mmio_in_update f1 (rel lk s)"
  "lockcycle (mmio_in_update f1 s) = mmio_in_update f1 (lockcycle s)"
  "acq lk (mmio_out_update f2 s) = mmio_out_update f2 (acq lk s)"
  "rel lk (mmio_out_update f2 s) = mmio_out_update f2 (rel lk s)"
  "lockcycle (mmio_out_update f2 s) = mmio_out_update f2 (lockcycle s)"
  by (simp_all add: lock_defs Let_def)

end
