(* ===== verification/Syscall.thy ===== *)
theory Syscall
  imports Sysfile Virtio
begin

text \<open>
  The process calls, \<^verbatim>\<open>kernel/sysproc.c\<close>, and the dispatch of system calls,
  \<^verbatim>\<open>kernel/syscall.c\<close>. The state gains the clock.
\<close>

record clock_st = virtio_st +
  ticks :: uint

type_synonym ('r, 'a) sysop = "('r, 'a clock_st_scheme) kmonad"

definition sys_exit :: "('r, 'a) sysop" where
  "sys_exit = kbind (argint 0) (\<lambda>n. exit (sint n))"

definition sys_getpid :: "(int, 'a) sysop" where
  "sys_getpid = kbind curproc (\<lambda>p. kgets (\<lambda>s. p_pid (procs s p)))"

definition sys_fork :: "(int, 'a) sysop" where
  "sys_fork = fork"

definition sys_wait :: "(int, 'a) sysop" where
  "sys_wait = kbind (argaddr 0) wait"

definition sys_sbrk :: "(int, 'a) sysop" where
  "sys_sbrk = kbind (argint 0) (\<lambda>n. kbind curproc (\<lambda>p. kbind (kgets (\<lambda>s. p_sz (procs s p))) (\<lambda>addr.
     kbind (growproc n) (\<lambda>r. kreturn (if r < 0 then -1 else uint addr)))))"

text \<open>One round of the loop in \<^verbatim>\<open>sys_sleep\<close>; the comparison is of unsigned numbers.\<close>

definition sys_sleep_round :: "uint \<Rightarrow> uint \<Rightarrow> (int, 'a) sysop" where
  "sys_sleep_round n ticks0 = kif (\<lambda>s. ticks s - ticks0 < n)
     (kbind curproc (\<lambda>p. kbind (killed p) (\<lambda>k.
       if k then kthen [release TicksLock] (kreturn (-1))
       else sleep TicksChan TicksLock)))
     (kthen [release TicksLock] (kreturn 0))"

definition sys_sleep :: "(int, 'a) sysop" where
  "sys_sleep = kbind (argint 0) (\<lambda>n. kthen [acquire TicksLock] (kbind (kgets ticks) (sys_sleep_round n)))"

definition sys_sleep_return :: "bool \<Rightarrow> uint \<Rightarrow> uint \<Rightarrow> (int, 'a) sysop" where
  "sys_sleep_return old n ticks0 = kthen [sleep_return old TicksLock] (sys_sleep_round n ticks0)"

definition sys_kill :: "(int, 'a) sysop" where
  "sys_kill = kbind (argint 0) (\<lambda>pid. kill (sint pid))"

definition sys_uptime :: "(int, 'a) sysop" where
  "sys_uptime = kthen [acquire TicksLock] (kbind (kgets ticks) (\<lambda>x.
     kthen [release TicksLock] (kreturn (uint x))))"

section \<open>Dispatch\<close>

definition syscalls :: "(int, 'a) sysop list" where
  "syscalls = [sys_fork, sys_exit, sys_wait, sys_pipe, sys_read, sys_kill, sys_exec, sys_fstat, sys_chdir,
     sys_dup, sys_getpid, sys_sbrk, sys_sleep, sys_uptime, sys_open, sys_write, sys_mknod, sys_unlink,
     sys_link, sys_mkdir, sys_close]"

definition TF_A7 :: uint64 where "TF_A7 = 168"

definition syscall :: "(unit, 'a) sysop" where
  "syscall = kbind curproc (\<lambda>p. kbind (kgets (\<lambda>s. ucast (get_tf p TF_A7 s) :: uint)) (\<lambda>num.
     if 0 < sint num \<and> sint num < int (length (syscalls :: (int, 'a) sysop list)) + 1 then
       kbind (syscalls ! (unat num - 1)) (\<lambda>r. set_tf p TF_A0 (of_int r))
     else kbind (kgets (\<lambda>s. procs s p)) (\<lambda>pr. kdo [
       printf ''%d %s: unknown sys call %d\<newline>'' [PInt (of_int (p_pid pr)), PStr (Some (name_text (p_name pr))), PInt num],
       set_tf p TF_A0 (-1)])))"

lemma clock_proj [simp]:
  "ticks (acq lk s) = ticks s"
  "ticks (rel lk s) = ticks s"
  "ticks (lockcycle s) = ticks s"
  by (simp_all add: lock_defs Let_def)

lemma clock_lock [simp]:
  "lock_ok lk (ticks_update f0 s) = lock_ok lk s"
  "holding lk (ticks_update f0 s) = holding lk s"
  "irq_ok (ticks_update f0 s) = irq_ok s"
  "irq_held (ticks_update f0 s) = irq_held s"
  "intr_get (ticks_update f0 s) = intr_get s"
  "cpuid (ticks_update f0 s) = cpuid s"
  "mycpu (ticks_update f0 s) = mycpu s"
  by (simp_all add: lock_defs)

lemma clock_comm [simp]:
  "acq lk (ticks_update f0 s) = ticks_update f0 (acq lk s)"
  "rel lk (ticks_update f0 s) = ticks_update f0 (rel lk s)"
  "lockcycle (ticks_update f0 s) = ticks_update f0 (lockcycle s)"
  by (simp_all add: lock_defs Let_def)

end
