(* ===== verification/Trap.thy ===== *)
theory Trap
  imports Syscall
begin

text \<open>
  Traps, \<^verbatim>\<open>kernel/trap.c\<close>, the interrupt controller, \<^verbatim>\<open>kernel/plic.c\<close>, \<^verbatim>\<open>forkret\<close> of
  \<^verbatim>\<open>kernel/proc.c\<close> and the boot of a hart, \<^verbatim>\<open>kernel/main.c\<close>. The controller is the
  interrupt each hart would claim and the sequence of values written to its registers. A handler
  that gives up the CPU goes on in its \<open>_resume\<close> operation. The assembly around them
  (\<^verbatim>\<open>trampoline.S\<close>, \<^verbatim>\<open>kernelvec.S\<close>, \<^verbatim>\<open>swtch.S\<close>) is in the theory \<open>Lowlevel\<close>.
\<close>

record trap_st = clock_st +
  plic_pending :: "nat \<Rightarrow> uint"
  plic_out :: "(uint64 \<times> uint) list"
  forkret_first :: bool
  started :: bool

type_synonym ('r, 'a) trapop = "('r, 'a trap_st_scheme) kmonad"

section \<open>Registers\<close>

abbreviation (input) SSTATUS_SPP :: uint64 where "SSTATUS_SPP \<equiv> 0x100"
abbreviation (input) SSTATUS_SPIE :: uint64 where "SSTATUS_SPIE \<equiv> 0x20"

definition w_stvec :: "uint64 \<Rightarrow> (unit, 'a kst_scheme) kmonad" where
  "w_stvec x = kmodify (\<lambda>s. s\<lparr>hart := (hart s)\<lparr>csr_stvec := x\<rparr>\<rparr>)"

definition w_sepc :: "uint64 \<Rightarrow> (unit, 'a kst_scheme) kmonad" where
  "w_sepc x = kmodify (\<lambda>s. s\<lparr>hart := (hart s)\<lparr>csr_sepc := x\<rparr>\<rparr>)"

definition w_sip :: "uint64 \<Rightarrow> (unit, 'a kst_scheme) kmonad" where
  "w_sip x = kmodify (\<lambda>s. s\<lparr>hart := (hart s)\<lparr>csr_sip := x\<rparr>\<rparr>)"

definition r_sepc :: "'a kst_scheme \<Rightarrow> uint64" where "r_sepc s = csr_sepc (hart s)"
definition r_scause :: "'a kst_scheme \<Rightarrow> uint64" where "r_scause s = csr_scause (hart s)"
definition r_stval :: "'a kst_scheme \<Rightarrow> uint64" where "r_stval s = csr_stval (hart s)"
definition r_sip :: "'a kst_scheme \<Rightarrow> uint64" where "r_sip s = csr_sip (hart s)"
definition r_satp :: "'a kst_scheme \<Rightarrow> uint64" where "r_satp s = csr_satp (hart s)"
definition r_tp :: "'a kst_scheme \<Rightarrow> uint64" where "r_tp s = reg_tp (hart s)"

section \<open>The interrupt controller\<close>

definition PLIC_SENABLE :: "nat \<Rightarrow> uint64" where "PLIC_SENABLE h = PLIC + 0x2080 + of_nat h * 0x100"
definition PLIC_SPRIORITY :: "nat \<Rightarrow> uint64" where "PLIC_SPRIORITY h = PLIC + 0x201000 + of_nat h * 0x2000"
definition PLIC_SCLAIM :: "nat \<Rightarrow> uint64" where "PLIC_SCLAIM h = PLIC + 0x201004 + of_nat h * 0x2000"

definition plic_write :: "uint64 \<Rightarrow> uint \<Rightarrow> (unit, 'a) trapop" where
  "plic_write a v = kmodify (\<lambda>s. s\<lparr>plic_out := plic_out s @ [(a, v)]\<rparr>)"

definition plicinit :: "(unit, 'a) trapop" where
  "plicinit = kdo [
     plic_write (PLIC + of_nat (UART0_IRQ * 4)) 1,
     plic_write (PLIC + of_nat (VIRTIO0_IRQ * 4)) 1]"

definition plicinithart :: "(unit, 'a) trapop" where
  "plicinithart = kbind (kgets cpuid) (\<lambda>h. kdo [
     plic_write (PLIC_SENABLE h) (push_bit UART0_IRQ 1 OR push_bit VIRTIO0_IRQ 1),
     plic_write (PLIC_SPRIORITY h) 0])"

definition plic_claim :: "(uint, 'a) trapop" where
  "plic_claim = kgets (\<lambda>s. plic_pending s (cpuid s))"

definition plic_complete :: "uint \<Rightarrow> (unit, 'a) trapop" where
  "plic_complete irq = kbind (kgets cpuid) (\<lambda>h. plic_write (PLIC_SCLAIM h) irq)"

section \<open>Device interrupts\<close>

definition trapinit :: "(unit, 'a) trapop" where
  "trapinit = initlock TicksLock ''time''"

definition trapinithart :: "(unit, 'a) trapop" where
  "trapinithart = kbind (kgets (\<lambda>s. sym_kernelvec (syms s))) w_stvec"

definition clockintr :: "(unit, 'a) trapop" where
  "clockintr = kdo [
     acquire TicksLock,
     kmodify (\<lambda>s. s\<lparr>ticks := ticks s + 1\<rparr>),
     wakeup TicksChan,
     release TicksLock]"

definition devintr :: "(nat, 'a) trapop" where
  "devintr = kbind (kgets r_scause) (\<lambda>scause.
     if bit scause 63 \<and> scause AND 0xff = 9 then
       kbind plic_claim (\<lambda>irq. kthen [
         if irq = of_nat UART0_IRQ then uartintr
         else if irq = of_nat VIRTIO0_IRQ then virtio_disk_intr
         else if irq \<noteq> 0 then printf ''unexpected interrupt irq=%d\<newline>'' [PInt irq]
         else kreturn (),
         if irq \<noteq> 0 then plic_complete irq else kreturn ()] (kreturn 1))
     else if scause = 0x8000000000000001 then kthen [
       kwhen (\<lambda>s. cpuid s = 0) clockintr,
       kbind (kgets r_sip) (\<lambda>x. w_sip (x AND NOT 2))] (kreturn 2)
     else kreturn 0)"

section \<open>Returning to user space\<close>

definition usertrapret :: "(uint64, 'a) trapop" where
  "usertrapret = kbind curproc (\<lambda>p. kbind (kgets syms) (\<lambda>sy. kthen [
     kmodify intr_off,
     w_stvec (TRAMPOLINE + (sym_uservec sy - sym_trampoline sy)),
     kbind (kgets r_satp) (set_tf p 0),
     kbind (kgets (\<lambda>s. p_kstack (procs s p) + PGSIZE)) (set_tf p 8),
     set_tf p 16 (sym_usertrap sy),
     kbind (kgets r_tp) (set_tf p 32),
     kbind (kgets r_sstatus) (\<lambda>x. kmodify (w_sstatus ((x AND NOT SSTATUS_SPP) OR SSTATUS_SPIE))),
     kbind (kgets (get_tf p TF_EPC)) w_sepc]
     (kbind (kgets (\<lambda>s. p_pagetable (procs s p))) (\<lambda>pt. kreturn (MAKE_SATP pt)))))"

definition forkret :: "(uint64, 'a) trapop" where
  "forkret = kbind curproc (\<lambda>p. kthen [
     release (ProcLock p),
     kwhen forkret_first (kdo [
       kmodify (\<lambda>s. s\<lparr>forkret_first := False\<rparr>),
       fsinit ROOTDEV])] usertrapret)"

section \<open>Traps from user space\<close>

definition trap_report :: "nat \<Rightarrow> (unit, 'a) trapop" where
  "trap_report p = kdo [
     kbind (kgets (\<lambda>s. (r_scause s, p_pid (procs s p)))) (\<lambda>(c, pid).
       printf ''usertrap(): unexpected scause %p pid=%d\<newline>'' [PPtr c, PInt (of_int pid)]),
     kbind (kgets (\<lambda>s. (r_sepc s, r_stval s))) (\<lambda>(e, v).
       printf ''            sepc=%p stval=%p\<newline>'' [PPtr e, PPtr v]),
     setkilled p]"

definition exit_if_killed :: "nat \<Rightarrow> (unit, 'a) trapop" where
  "exit_if_killed p = kbind (killed p) (\<lambda>k. if k then exit (-1) else kreturn ())"

definition usertrap_handle :: "nat \<Rightarrow> (nat, 'a) trapop" where
  "usertrap_handle p = kbind (kgets r_scause) (\<lambda>c.
     if c = 8 then kthen [
       exit_if_killed p,
       kbind (kgets (get_tf p TF_EPC)) (\<lambda>pc. set_tf p TF_EPC (pc + 4)),
       kmodify intr_on,
       syscall] (kreturn 0)
     else kbind devintr (\<lambda>d.
       if d \<noteq> 0 then kreturn d else kthen [trap_report p] (kreturn 0)))"

definition usertrap :: "(uint64, 'a) trapop" where
  "usertrap = kthen [
     panic_if (\<lambda>s. r_sstatus s AND SSTATUS_SPP \<noteq> 0) ''usertrap: not from user mode'',
     kbind (kgets (\<lambda>s. sym_kernelvec (syms s))) w_stvec] (
     kbind curproc (\<lambda>p. kthen [kbind (kgets r_sepc) (set_tf p TF_EPC)] (
     kbind (usertrap_handle p) (\<lambda>d. kthen [exit_if_killed p] (
     if d = 2 then yield else usertrapret)))))"

definition usertrap_resume :: "bool \<Rightarrow> (uint64, 'a) trapop" where
  "usertrap_resume old = kthen [yield_return old] usertrapret"

section \<open>Traps from the kernel\<close>

definition kerneltrap_restore :: "uint64 \<Rightarrow> uint64 \<Rightarrow> (unit, 'a) trapop" where
  "kerneltrap_restore sepc sstatus = kdo [w_sepc sepc, kmodify (w_sstatus sstatus)]"

definition kerneltrap :: "(unit, 'a) trapop" where
  "kerneltrap = kbind (kgets (\<lambda>s. (r_sepc s, r_sstatus s, r_scause s))) (\<lambda>(sepc, sstatus, scause). kthen [
     panic_if (\<lambda>_. sstatus AND SSTATUS_SPP = 0) ''kerneltrap: not from supervisor mode'',
     panic_if intr_get ''kerneltrap: interrupts enabled''] (
     kbind devintr (\<lambda>d. kthen [
       if d = 0 then kdo [
         printf ''scause %p\<newline>'' [PPtr scause],
         kbind (kgets (\<lambda>s. (r_sepc s, r_stval s))) (\<lambda>(e, v). printf ''sepc=%p stval=%p\<newline>'' [PPtr e, PPtr v]),
         kpanic ''kerneltrap'']
       else kreturn ()] (
     kbind myproc (\<lambda>p.
     kif (\<lambda>s. d = 2 \<and> (case p of None \<Rightarrow> False | Some i \<Rightarrow> p_state (procs s i) = RUNNING))
       yield
       (kerneltrap_restore sepc sstatus))))))"

definition kerneltrap_resume :: "bool \<Rightarrow> uint64 \<Rightarrow> uint64 \<Rightarrow> (unit, 'a) trapop" where
  "kerneltrap_resume old sepc sstatus = kdo [yield_return old, kerneltrap_restore sepc sstatus]"

section \<open>Boot\<close>

text \<open>\<^verbatim>\<open>main\<close> up to \<^verbatim>\<open>scheduler\<close>; a hart that waits for \<open>started\<close> spins.\<close>

definition main_boot :: "(unit, 'a) trapop" where
  "main_boot = kdo [
     consoleinit,
     printfinit,
     printf ''\<newline>'' [],
     printf ''xv6 kernel is booting\<newline>'' [],
     printf ''\<newline>'' [],
     kinit,
     kvminit,
     kvminithart,
     procinit,
     trapinit,
     trapinithart,
     plicinit,
     plicinithart,
     binit,
     iinit,
     fileinit,
     virtio_disk_init,
     userinit,
     kmodify (\<lambda>s. s\<lparr>started := True\<rparr>)]"

definition main :: "(unit, 'a) trapop" where
  "main = kif (\<lambda>s. cpuid s = 0) main_boot
     (kif (\<lambda>s. \<not> started s) (kspin PrLock) (kdo [
       kbind (kgets cpuid) (\<lambda>h. printf ''hart %d starting\<newline>'' [PInt (of_nat h)]),
       kvminithart,
       trapinithart,
       plicinithart]))"

lemma trap_proj [simp]:
  "plic_pending (acq lk s) = plic_pending s"
  "plic_pending (rel lk s) = plic_pending s"
  "plic_pending (lockcycle s) = plic_pending s"
  "plic_out (acq lk s) = plic_out s"
  "plic_out (rel lk s) = plic_out s"
  "plic_out (lockcycle s) = plic_out s"
  "forkret_first (acq lk s) = forkret_first s"
  "forkret_first (rel lk s) = forkret_first s"
  "forkret_first (lockcycle s) = forkret_first s"
  "started (acq lk s) = started s"
  "started (rel lk s) = started s"
  "started (lockcycle s) = started s"
  by (simp_all add: lock_defs Let_def)

lemma trap_lock [simp]:
  "lock_ok lk (plic_pending_update f0 s) = lock_ok lk s"
  "holding lk (plic_pending_update f0 s) = holding lk s"
  "irq_ok (plic_pending_update f0 s) = irq_ok s"
  "irq_held (plic_pending_update f0 s) = irq_held s"
  "intr_get (plic_pending_update f0 s) = intr_get s"
  "cpuid (plic_pending_update f0 s) = cpuid s"
  "mycpu (plic_pending_update f0 s) = mycpu s"
  "lock_ok lk (plic_out_update f1 s) = lock_ok lk s"
  "holding lk (plic_out_update f1 s) = holding lk s"
  "irq_ok (plic_out_update f1 s) = irq_ok s"
  "irq_held (plic_out_update f1 s) = irq_held s"
  "intr_get (plic_out_update f1 s) = intr_get s"
  "cpuid (plic_out_update f1 s) = cpuid s"
  "mycpu (plic_out_update f1 s) = mycpu s"
  "lock_ok lk (forkret_first_update f2 s) = lock_ok lk s"
  "holding lk (forkret_first_update f2 s) = holding lk s"
  "irq_ok (forkret_first_update f2 s) = irq_ok s"
  "irq_held (forkret_first_update f2 s) = irq_held s"
  "intr_get (forkret_first_update f2 s) = intr_get s"
  "cpuid (forkret_first_update f2 s) = cpuid s"
  "mycpu (forkret_first_update f2 s) = mycpu s"
  "lock_ok lk (started_update f3 s) = lock_ok lk s"
  "holding lk (started_update f3 s) = holding lk s"
  "irq_ok (started_update f3 s) = irq_ok s"
  "irq_held (started_update f3 s) = irq_held s"
  "intr_get (started_update f3 s) = intr_get s"
  "cpuid (started_update f3 s) = cpuid s"
  "mycpu (started_update f3 s) = mycpu s"
  by (simp_all add: lock_defs)

lemma trap_comm [simp]:
  "acq lk (plic_pending_update f0 s) = plic_pending_update f0 (acq lk s)"
  "rel lk (plic_pending_update f0 s) = plic_pending_update f0 (rel lk s)"
  "lockcycle (plic_pending_update f0 s) = plic_pending_update f0 (lockcycle s)"
  "acq lk (plic_out_update f1 s) = plic_out_update f1 (acq lk s)"
  "rel lk (plic_out_update f1 s) = plic_out_update f1 (rel lk s)"
  "lockcycle (plic_out_update f1 s) = plic_out_update f1 (lockcycle s)"
  "acq lk (forkret_first_update f2 s) = forkret_first_update f2 (acq lk s)"
  "rel lk (forkret_first_update f2 s) = forkret_first_update f2 (rel lk s)"
  "lockcycle (forkret_first_update f2 s) = forkret_first_update f2 (lockcycle s)"
  "acq lk (started_update f3 s) = started_update f3 (acq lk s)"
  "rel lk (started_update f3 s) = started_update f3 (rel lk s)"
  "lockcycle (started_update f3 s) = started_update f3 (lockcycle s)"
  by (simp_all add: lock_defs Let_def)

end
