(* ===== verification/Fs_Pure.thy ===== *)
theory Fs_Pure
  imports Fs
begin

text \<open>
  Properties of the parts of the file system that do not touch the disk: path elements, the layout
  of inodes in blocks, the bits of the free map, and the pieces a transfer is cut into.
\<close>

section \<open>Path elements\<close>

text \<open>The elements of a path: the maximal runs without slashes.\<close>

function path_elems :: "uchar list \<Rightarrow> uchar list list" where
  "path_elems [] = []"
| "path_elems (c # cs) = (if c = SLASH then path_elems cs
     else (c # takeWhile (\<lambda>c. c \<noteq> SLASH) cs) # path_elems (dropWhile (\<lambda>c. c \<noteq> SLASH) cs))"
  by pat_completeness auto

termination path_elems
  by (relation "measure length") (simp_all add: le_imp_less_Suc length_dropWhile_le)

lemma path_elems_dropWhile [simp]: "path_elems (dropWhile (\<lambda>c. c = SLASH) p) = path_elems p"
  by (induction p) auto

lemma path_elems_Nil: "path_elems p = [] \<longleftrightarrow> dropWhile (\<lambda>c. c = SLASH) p = []"
  by (induction p) auto

lemma get_put_bytes_prefix: "n \<le> length xs \<Longrightarrow> get_bytes (put_bytes b 0 xs) 0 n = take n xs"
  by (auto simp: get_bytes_def put_bytes_def intro!: nth_equalityI)

definition elem_name :: "uchar list \<Rightarrow> bytes \<Rightarrow> bool" where
  "elem_name c name \<longleftrightarrow> get_bytes name 0 (min DIRSIZ (length c)) = take DIRSIZ c \<and> (length c < DIRSIZ \<longrightarrow> name (length c) = 0)"

lemma skipelem_name:
  "elem_name s (if length s \<ge> DIRSIZ then put_bytes name 0 (take DIRSIZ s) else (put_bytes name 0 s)(length s := 0))"
proof (cases "length s \<ge> DIRSIZ")
  case False
  then have "get_bytes ((put_bytes name 0 s)(length s := 0)) 0 (length s) = get_bytes (put_bytes name 0 s) 0 (length s)"
    by (auto simp: get_bytes_def)
  with False get_put_bytes_prefix [of "length s" s name] show ?thesis by (simp add: elem_name_def min_def)
qed (simp add: elem_name_def get_put_bytes_prefix min_def)

text \<open>
  C33: \<open>skipelem\<close> takes the elements off a path one by one. It returns null exactly for a path with no
  element; otherwise it puts the first element, cut to \<open>DIRSIZ\<close> bytes and terminated when shorter,
  in \<open>name\<close>, and what it returns has the remaining elements, and is empty exactly when there are none.
\<close>

theorem skipelem_splits_path:
  "case path_elems path of
     [] \<Rightarrow> skipelem path name = None
   | c # cs \<Rightarrow> (\<exists>rest name'. skipelem path name = Some (rest, name') \<and> elem_name c name' \<and>
       path_elems rest = cs \<and> (rest = [] \<longleftrightarrow> cs = []))"
proof (cases "dropWhile (\<lambda>c. c = SLASH) path")
  case Nil
  then show ?thesis by (simp add: path_elems_Nil [THEN iffD2] skipelem_def)
next
  case (Cons x xs)
  then have x: "x \<noteq> SLASH" using hd_dropWhile [of "\<lambda>c. c = SLASH" path] by simp
  let ?s = "x # takeWhile (\<lambda>c. c \<noteq> SLASH) xs"
  let ?d = "dropWhile (\<lambda>c. c \<noteq> SLASH) xs"
  let ?r = "dropWhile (\<lambda>c. c = SLASH) ?d"
  have e: "path_elems path = ?s # path_elems ?d"
    using path_elems_dropWhile [of path] Cons x by simp
  moreover have "skipelem path name = Some (?r, if length ?s \<ge> DIRSIZ then put_bytes name 0 (take DIRSIZ ?s)
      else (put_bytes name 0 ?s)(length ?s := 0))"
    using Cons x by (simp add: skipelem_def Let_def)
  moreover have "?r = [] \<longleftrightarrow> path_elems ?d = []" by (simp add: path_elems_Nil)
  ultimately show ?thesis using skipelem_name [of ?s name] path_elems_dropWhile [of ?d] by (simp del: path_elems_dropWhile)
qed

section \<open>Inodes in blocks\<close>

lemma put_addrs:
  fixes a :: "nat \<Rightarrow> uint"
  shows "j < n \<Longrightarrow> get32 (foldl (\<lambda>d j. put32 d (k + 12 + 4 * j) (a j)) d [0..<n]) (k + 12 + 4 * j) = a j"
    and "i + 4 \<le> k + 12 \<or> k + 12 + 4 * n \<le> i \<Longrightarrow> get32 (foldl (\<lambda>d j. put32 d (k + 12 + 4 * j) (a j)) d [0..<n]) i = get32 d i"
    and "i + 2 \<le> k + 12 \<or> k + 12 + 4 * n \<le> i \<Longrightarrow> get16 (foldl (\<lambda>d j. put32 d (k + 12 + 4 * j) (a j)) d [0..<n]) i = get16 d i"
proof -
  show "j < n \<Longrightarrow> get32 (foldl (\<lambda>d j. put32 d (k + 12 + 4 * j) (a j)) d [0..<n]) (k + 12 + 4 * j) = a j"
  proof (induction n)
    case (Suc n)
    then show ?case by (cases "j = n") auto
  qed simp
qed (induction n; auto)+

lemma dinode_off_apart: "i mod IPB \<noteq> j mod IPB \<Longrightarrow> dinode_off i + 64 \<le> dinode_off j \<or> dinode_off j + 64 \<le> dinode_off i"
proof -
  assume "i mod IPB \<noteq> j mod IPB"
  then have "unat (i mod IPB) \<noteq> unat (j mod IPB)" by (simp add: word_unat_eq_iff)
  then show ?thesis unfolding dinode_off_def by linarith
qed

lemma dinode_get_put:
  "dinode_get (dinode_put ip k d) k x =
     x\<lparr>i_type := i_type ip, i_major := i_major ip, i_minor := i_minor ip, i_nlink := i_nlink ip, i_size := i_size ip,
       i_addrs := (\<lambda>j. if j \<le> NDIRECT then i_addrs ip j else i_addrs x j)\<rparr>"
  unfolding dinode_get_def dinode_put_def
  by (simp add: put_addrs fun_eq_iff del: upt_Suc foldl_append cong: if_cong)

lemma dinode_get_put_other:
  assumes "i mod IPB \<noteq> j mod IPB"
  shows "dinode_get (dinode_put ip (dinode_off i) d) (dinode_off j) x = dinode_get d (dinode_off j) x"
  using dinode_off_apart [OF assms] unfolding dinode_get_def dinode_put_def
  by (auto simp: put_addrs fun_eq_iff simp del: upt_Suc foldl_append cong: if_cong)

text \<open>
  C34: What \<open>iupdate\<close> writes to an inode's place in its block is what \<open>ilock\<close> reads back from there, in
  every field; and the other inodes of the block keep their contents.
\<close>

theorem dinode_round_trip:
  "dinode_get (dinode_put ip (dinode_off i) d) (dinode_off i) x =
     x\<lparr>i_type := i_type ip, i_major := i_major ip, i_minor := i_minor ip, i_nlink := i_nlink ip, i_size := i_size ip,
       i_addrs := (\<lambda>j. if j \<le> NDIRECT then i_addrs ip j else i_addrs x j)\<rparr> \<and>
   (i mod IPB \<noteq> j mod IPB \<longrightarrow>
     dinode_get (dinode_put ip (dinode_off i) d) (dinode_off j) x = dinode_get d (dinode_off j) x)"
  using dinode_get_put dinode_get_put_other by blast

definition inode0 :: inode where
  "inode0 = \<lparr>i_dev = 0, i_inum = 0, i_ref = 0, i_valid = False, i_type = 0, i_major = 0, i_minor = 0, i_nlink = 0,
     i_size = 0, i_addrs = (\<lambda>_. 0)\<rparr>"

theorem dinode_round_trip_witness:
  "(1 :: uint) mod IPB \<noteq> 2 mod IPB \<and>
   i_size (dinode_get (dinode_put (dinode_get (\<lambda>_. 0) 0 inode0\<lparr>i_size := 5\<rparr>) (dinode_off 1) (\<lambda>_. 0)) (dinode_off 1) inode0) = 5 \<and>
   i_size (dinode_get (dinode_put (dinode_get (\<lambda>_. 0) 0 inode0\<lparr>i_size := 5\<rparr>) (dinode_off 1) (\<lambda>_. 0)) (dinode_off 2) inode0) = 0"
proof -
  have ne: "(1 :: uint) mod IPB \<noteq> 2 mod IPB" by simp
  let ?ip = "dinode_get (\<lambda>_. 0) 0 inode0\<lparr>i_size := 5\<rparr>"
  from dinode_round_trip [of ?ip 1 "\<lambda>_. 0" inode0 2] ne
  have "dinode_get (dinode_put ?ip (dinode_off 1) (\<lambda>_. 0)) (dinode_off 2) inode0 = dinode_get (\<lambda>_. 0) (dinode_off 2) inode0" by blast
  moreover have "i_size (dinode_get (\<lambda>_. 0) (dinode_off 2) inode0) = 0" by (simp add: dinode_get_def)
  ultimately show ?thesis
    using ne dinode_round_trip [of ?ip 1 "\<lambda>_. 0" inode0 2] by simp
qed

end
