(* ===== verification/Printf_Text.thy ===== *)
theory Printf_Text
  imports Printf Log_Atomic
begin

text \<open>
  What the kernel's formatted output prints. Characters go to the UART one by one; the number
  printers print the digits of the number.
\<close>

section \<open>Characters\<close>

definition can_print :: "'a uart_st_scheme \<Rightarrow> bool" where
  "can_print s \<longleftrightarrow> irq_ok s \<and> \<not> panicked s \<and> \<not> baud_latch (uart0 s)"

definition sent_more :: "uchar list \<Rightarrow> 'a uart_st_scheme \<Rightarrow> 'a uart_st_scheme" where
  "sent_more cs s = s\<lparr>uart0 := u_sent_update (\<lambda>b. b @ cs) (uart0 s)\<rparr>"

lemma pop_push_uart: "irq_ok s \<Longrightarrow> pop_st (uart0_update f (push_st s)) = uart0_update f (lockcycle s)"
proof -
  assume s: "irq_ok s"
  have "pop_st (uart0_update f t) = uart0_update f (pop_st t)" for t :: "'a uart_st_scheme"
    by (simp add: lock_defs Let_def)
  with s show ?thesis by simp
qed

lemma wp_uartputc_sync: "can_print s \<Longrightarrow> wp (uartputc_sync c) Q s = Q () (lockcycle (sent_more [c] s))"
proof -
  assume s: "can_print s"
  have p: "panicked (push_st s) = panicked s" "uart0 (push_st s) = uart0 s" by (simp_all add: lock_defs Let_def)
  have w: "write_reg THR c (uart0 s) = u_sent_update (\<lambda>b. b @ [c]) (uart0 s)"
    using s by (simp add: write_reg_def can_print_def)
  have h: "irq_held (uart0_update f (push_st s))" for f using s push_st_facts(1) [of s] by (simp add: can_print_def)
  show ?thesis
    using s h pop_push_uart [of s] w
    by (simp add: can_print_def uartputc_sync_def wp_simps WriteReg_def set_uart_def p sent_more_def wp_pop_off)
qed

lemma can_print_more [simp]: "can_print (lockcycle (sent_more cs s)) = can_print s"
  by (simp add: can_print_def sent_more_def baud_latch_def)

lemma sent_more_more: "sent_more ds (lockcycle (sent_more cs s)) = lockcycle (sent_more (cs @ ds) s)"
  by (simp add: sent_more_def o_def)

text \<open>A byte is never the code of a backspace.\<close>

lemma putchar_sync: "putchar c = uartputc_sync c"
proof -
  have "unat c < 2 ^ LENGTH(8)" by (rule unsigned_less)
  then show ?thesis by (simp add: putchar_def consputc_def)
qed

lemma wp_put_text:
  assumes "can_print s"
  shows "wp (kforeach cs putchar) (\<lambda>_ t. lockcycle t = lockcycle (sent_more cs s) \<and> uart0 t = uart0 (sent_more cs s) \<and> can_print t) s"
proof (rule wp_kforeach_inv [where I = "\<lambda>ys t. lockcycle t = lockcycle (sent_more ys s) \<and> uart0 t = uart0 (sent_more ys s) \<and> can_print t"])
  show "lockcycle s = lockcycle (sent_more [] s) \<and> uart0 s = uart0 (sent_more [] s) \<and> can_print s"
    using assms by (simp add: sent_more_def)
  fix ys c zs t assume t: "lockcycle t = lockcycle (sent_more ys s) \<and> uart0 t = uart0 (sent_more ys s) \<and> can_print t"
  have "lockcycle (sent_more [c] t) = sent_more [c] (lockcycle t)" by (simp add: sent_more_def)
  also have "\<dots> = lockcycle (sent_more (ys @ [c]) s)" using t by (simp add: sent_more_more)
  finally show "wp (putchar c) (\<lambda>_ t. lockcycle t = lockcycle (sent_more (ys @ [c]) s) \<and>
      uart0 t = uart0 (sent_more (ys @ [c]) s) \<and> can_print t) t"
    using t assms can_print_more [of "[c]" t] by (simp add: putchar_sync wp_uartputc_sync sent_more_def o_def del: can_print_more)
qed simp

section \<open>Numbers\<close>

definition digits_val :: "nat \<Rightarrow> nat list \<Rightarrow> nat" where
  "digits_val base ds = foldl (\<lambda>n d. n * base + d) 0 ds"

lemma digits_val_snoc [simp]: "digits_val b (ds @ [d]) = digits_val b ds * b + d" "digits_val b [] = 0"
  by (simp_all add: digits_val_def)

text \<open>The digits of a number, most significant first, without leading zeros.\<close>

definition numeral_of :: "nat \<Rightarrow> nat \<Rightarrow> nat list \<Rightarrow> bool" where
  "numeral_of base n ds \<longleftrightarrow> digits_val base ds = n \<and> (\<forall>d \<in> set ds. d < base) \<and> ds \<noteq> [] \<and> (hd ds = 0 \<longrightarrow> length ds = 1)"

lemma numeral_of_snoc:
  assumes "numeral_of base n ds" "0 < n" "d < base"
  shows "numeral_of base (n * base + d) (ds @ [d])"
proof -
  have "hd ds \<noteq> 0"
  proof
    assume "hd ds = 0"
    then have "ds = [0]" using assms(1) by (cases ds) (auto simp: numeral_of_def)
    then show False using assms(1,2) by (simp add: numeral_of_def digits_val_def)
  qed
  then show ?thesis using assms by (auto simp: numeral_of_def)
qed

lemma int_digits_numeral:
  assumes "1 < unat base"
  shows "\<exists>ds. int_digits base x = rev (map (\<lambda>d. digits ! d) ds) \<and> numeral_of (unat base) (unat x) ds"
  using assms
proof (induction base x rule: int_digits.induct)
  case (1 base x)
  let ?d = "unat (x mod base)"
  have d: "?d = unat x mod unat base" "?d < unat base" using 1(2) by (auto simp: unat_mod)
  show ?case
  proof (cases "x div base = 0")
    case True
    then have z: "unat x div unat base = 0" by (simp flip: unat_div)
    have "unat x = ?d" using d(1) z 1(2) by (simp add: div_eq_0_iff)
    then have "numeral_of (unat base) (unat x) [?d]" using d by (simp add: numeral_of_def digits_val_def)
    moreover have "int_digits base x = [digits ! ?d]" using True by (subst int_digits.simps) simp
    ultimately show ?thesis by (intro exI [of _ "[?d]"]) simp
  next
    case False
    have b: "1 < base" using 1(2) by (simp add: word_less_nat_alt)
    from False b 1 obtain ds where ds: "int_digits base (x div base) = rev (map (\<lambda>d. digits ! d) ds)"
      "numeral_of (unat base) (unat (x div base)) ds" by blast
    have "0 < unat (x div base)" using False by (simp add: unat_gt_0)
    from numeral_of_snoc [OF ds(2) this d(2)]
    have "numeral_of (unat base) (unat x) (ds @ [?d])" by (simp add: unat_div d(1))
    moreover have "int_digits base x = rev (map (\<lambda>d. digits ! d) (ds @ [?d]))"
      using False b ds(1) by (subst int_digits.simps) simp
    ultimately show ?thesis by blast
  qed
qed

lemma abs_text: "nat \<bar>if sign then sint xx else uint (xx :: uint)\<bar> = unat (if sign \<and> sint xx < 0 then - xx else xx)"
proof -
  have "uint xx < 2 ^ LENGTH(32)" by (rule unsigned_less)
  then have b: "0 \<le> uint xx" "uint xx < 2 ^ 32" by simp_all
  then have tb: "take_bit 32 (uint xx) = uint xx" by (simp add: take_bit_int_eq_self)
  have sg: "sint xx = uint xx - 2 ^ 32 * of_bool (bit (uint xx) 31)"
    using tb by (simp add: sint_uint signed_take_bit_eq_take_bit_minus)
  have bi: "bit (uint xx) 31 \<longleftrightarrow> sint xx < 0" using sg b by (cases "bit (uint xx) 31") simp_all
  have ng: "uint (- xx) = (- uint xx) mod 2 ^ 32" by (simp add: uint_word_ariths)
  have un: "unat w = nat (uint w)" for w :: uint by simp
  show ?thesis
  proof (cases "sint xx < 0")
    case True
    then have "bit (uint xx) 31" using bi by blast
    then have s: "sint xx = uint xx - 2 ^ 32" using sg by simp
    have "uint xx \<noteq> 0" using True bi by (cases "uint xx = 0") simp_all
    then have "uint (- xx) = 2 ^ 32 - uint xx" using ng b by (simp add: zmod_zminus1_eq_if)
    then have "\<bar>sint xx\<bar> = uint (- xx)" using s True by linarith
    then show ?thesis using True b un [of "- xx"] un [of xx] by (cases sign) (simp_all only: if_True if_False simp_thms abs_of_nonneg)
  next
    case False
    then have "\<not> bit (uint xx) 31" using bi by blast
    then have "sint xx = uint xx" using sg by simp
    then show ?thesis using False b un [of xx] by (simp only: if_False simp_thms if_cancel abs_of_nonneg)
  qed
qed

text \<open>
  C35: \<open>printint\<close> sends the number in positional notation: the sign of a negative number when signs are
  asked for, then the digits of its absolute value in the base, most significant first and with no
  leading zero.
\<close>

theorem printint_prints_number:
  assumes "can_print s" "base = 10 \<or> base = 16"
  shows "\<exists>ds. numeral_of (unat base) (nat \<bar>if sign then sint xx else uint xx\<bar>) ds \<and>
    wp (printint xx base sign) (\<lambda>_ t. u_sent (uart0 t) = u_sent (uart0 s) @
      (if sign \<and> sint xx < 0 then [45] else []) @ map (\<lambda>d. digits ! d) ds) s"
proof -
  let ?neg = "sign \<and> sint xx < 0"
  let ?x = "if ?neg then - xx else xx"
  have "1 < unat base" using assms(2) by (elim disjE) simp_all
  from int_digits_numeral [OF this, of ?x] obtain ds
    where ds: "int_digits base ?x = rev (map (\<lambda>d. digits ! d) ds)" "numeral_of (unat base) (unat ?x) ds" by blast
  have "int_text xx base sign = (if ?neg then [45] else []) @ map (\<lambda>d. digits ! d) ds"
    using ds(1) by (simp add: int_text_def Let_def)
  then have "wp (printint xx base sign) (\<lambda>_ t. u_sent (uart0 t) = u_sent (uart0 s) @
      (if ?neg then [45] else []) @ map (\<lambda>d. digits ! d) ds) s"
    unfolding printint_def by (intro wp_mono [OF wp_put_text [OF assms(1)]]) (simp add: sent_more_def)
  moreover have "numeral_of (unat base) (nat \<bar>if sign then sint xx else uint xx\<bar>) ds"
    using ds(2) by (simp only: abs_text)
  ultimately show ?thesis by blast
qed

definition uart_init0 :: uart where
  "uart_init0 = \<lparr>u_regs = (\<lambda>_. 3), u_sent = [], u_recv = [], u_idle = (\<lambda>_. True), uart_tx_buf = (\<lambda>_. 0),
     uart_tx_w = 0, uart_tx_r = 0\<rparr>"

definition ust0 :: uart_st where
  "ust0 = log_st.extend (lst (\<lambda>_. buf0) log0) (uart_st.fields uart_init0 False)"

lemma ust0_sel [simp]: "uart0 ust0 = uart_init0" "\<not> panicked ust0" "calm 1 ust0"
proof -
  show "uart0 ust0 = uart_init0" "\<not> panicked ust0" by (simp_all add: ust0_def log_st.defs uart_st.defs)
  show "calm 1 ust0"
    using lst_calm [of "\<lambda>_. buf0" log0] by (simp add: ust0_def log_st.defs uart_st.defs calm_def lock_defs)
qed

theorem printint_prints_number_witness:
  "can_print ust0 \<and> (\<exists>ds. numeral_of 10 42 ds \<and>
     wp (printint (- 42) 10 True) (\<lambda>_ t. u_sent (uart0 t) = 45 # map (\<lambda>d. digits ! d) ds) ust0)"
proof -
  have c: "can_print ust0"
    using calmD(2) [OF ust0_sel(3)] by (simp add: can_print_def uart_init0_def baud_latch_def bit_numeral_rec)
  have s: "sint (- 42 :: uint) = - 42" by simp
  have "u_sent (uart0 ust0) = []" by (simp add: uart_init0_def)
  with printint_prints_number [OF c, of 10 True "- 42"] c s show ?thesis by simp
qed

end
