(* ===== verification/Sample.thy ===== *)
theory Sample
  imports Trap Fs_Pure Printf_Text Vm_User
begin

text \<open>
  A running system to evaluate the contracts on: one hart runs process 1 with interrupts on,
  no lock is held, the buffer cache, the log, the tables and the device queues are empty.
\<close>

definition file0 :: kfile where
  "file0 = \<lparr>f_type = FD_NONE, f_ref = 0, f_readable = False, f_writable = False, f_pipe = 0, f_ip = None, f_off = 0,
     f_major = 0\<rparr>"

definition pipe0 :: pipe where
  "pipe0 = \<lparr>pi_data = (\<lambda>_. 0), pi_nread = 0, pi_nwrite = 0, pi_readopen = True, pi_writeopen = True\<rparr>"

definition vdisk0 :: vdisk where
  "vdisk0 = \<lparr>vd_desc = (\<lambda>_. \<lparr>d_addr = DNull, d_len = 0, d_flags = 0, d_next = 0\<rparr>), av_idx = 0, av_ring = (\<lambda>_. 0),
     us_idx = 0, us_ring = (\<lambda>_. 0), vd_free = (\<lambda>_. True), used_idx = 0, info_b = (\<lambda>_. None),
     info_status = (\<lambda>_. 0), vd_ops = (\<lambda>_. \<lparr>req_type = 0, req_reserved = 0, req_sector = 0\<rparr>), vd_pages = (0, 0, 0)\<rparr>"

definition sb0 :: superblock where
  "sb0 = \<lparr>sb_magic = FSMAGIC, sb_size = 1000, sb_nblocks = 954, sb_ninodes = 200, sb_nlog = 30, sb_logstart = 2,
     sb_inodestart = 32, sb_bmapstart = 45\<rparr>"

definition sys0 :: trap_st where
  "sys0 = \<lparr>hart = hart pst0, cpus = (cpus pst0)(0 := (cpus pst0 0)\<lparr>intena := True\<rparr>), locks = locks pst0, mem = mem pst0,
     freelist = freelist pst0, syms = syms pst0, kernel_pagetable = 0, procs = procs pst0, initproc = Some 1,
     nextpid = 3, sleeplocks = sleeplocks pst0, kobj = kobj pst0, bufs = link_bufs (\<lambda>_. buf0), disk = (\<lambda>_ _. 0),
     dwrites = [], klog = log0, uart0 = uart_init0, panicked = False, pr_locking = True,
     cons = \<lparr>cons_buf = (\<lambda>_. 0), cons_r = 0, cons_w = 0, cons_e = 0\<rparr>, devsw = (\<lambda>_. \<lparr>d_read = None, d_write = None\<rparr>),
     sb = sb0, itable = (\<lambda>_. inode0), pipes = (\<lambda>_. pipe0), ftable = (\<lambda>_. file0), vd = vdisk0, mmio_in = (\<lambda>_. 0),
     mmio_out = [], ticks = 0, plic_pending = (\<lambda>_. 0), plic_out = [], forkret_first = False, started = True\<rparr>"

lemma sys0_sel [simp]: "procs sys0 = procs pst0" "klog sys0 = log0" "uart0 sys0 = uart_init0" "\<not> panicked sys0"
  "itable sys0 = (\<lambda>_. inode0)" "pipes sys0 = (\<lambda>_. pipe0)" "ftable sys0 = (\<lambda>_. file0)" "vd sys0 = vdisk0"
  "ticks sys0 = 0" "sb sys0 = sb0" "kobj sys0 = kobj pst0" "bufs sys0 = link_bufs (\<lambda>_. buf0)"
  by (simp_all add: sys0_def)

lemma sys0_calm: "calm 1 sys0"
proof -
  have "lock_ok lk sys0" for lk by (simp add: sys0_def pst0_def boot_hart_def bit_SIE lock_defs)
  then show ?thesis
    by (simp add: calm_def lock_defs proc_null_def) (simp add: sys0_def pst0_def boot_hart_def bit_SIE lock_defs)
qed

text \<open>With an address space of one page, at \<open>0x1000\<close>.\<close>

lemma ex_usys:
  "\<exists>s :: trap_st. calm 1 s \<and> us_inv (syms s) (mem s) root0 \<and> p_pagetable (procs s 1) = root0 \<and> \<not> p_killed (procs s 1) \<and>
     (\<forall>v. upage (mem s) root0 v = (if PGROUNDDOWN v = 0x1000 then Some 0x87FFC000 else None)) \<and>
     pipes s = (\<lambda>_. pipe0) \<and> ftable s = (\<lambda>_. file0) \<and> itable s = (\<lambda>_. inode0) \<and>
     bufs s = link_bufs (\<lambda>_. buf0) \<and> (\<forall>lk. \<not> sl_locked (sleeplocks s lk))"
proof -
  obtain u :: kmem_st where u: "us_inv (syms u) (mem u) root0"
    "\<forall>v. upage (mem u) root0 v = (if PGROUNDDOWN v = 0x1000 then Some 0x87FFC000 else None)"
    using ex_uspace by blast
  let ?s = "sys0\<lparr>mem := mem u, syms := syms u, procs := (procs sys0)(1 := (procs sys0 1)\<lparr>p_pagetable := root0\<rparr>)\<rparr>"
  have "calm 1 ?s" using sys0_calm by (simp add: calm_def lock_defs proc_null_def)
  moreover have "\<not> p_killed (procs ?s 1)" by (simp add: pst0_def proc_null_def)
  moreover have "\<not> sl_locked (sleeplocks ?s lk)" for lk by (simp add: sys0_def pst0_def)
  ultimately show ?thesis using u by (intro exI [of _ ?s]) simp
qed

end
