(* ===== verification/Pipe_Fifo.thy ===== *)
theory Pipe_Fifo
  imports Ring Sample
begin

text \<open>
  A pipe is a queue of at most \<open>PIPESIZE\<close> bytes: the ring in its page implements the queue, a write
  appends the writer's bytes to it and a read takes bytes off its front into the reader's memory.
\<close>

interpretation pq: ring_buffer PIPESIZE pi_data pi_nread pi_nwrite pipe_put "pi_nread_update (\<lambda>r. r + 1)"
  by unfold_locales (simp_all add: pipe_put_def)

lemma pipe_put_open [simp]:
  "pi_readopen (pipe_put c q) = pi_readopen q" "pi_writeopen (pipe_put c q) = pi_writeopen q"
  by (simp_all add: pipe_put_def)

lemma pipe_full_queue: "length (pq.queue q) \<le> PIPESIZE \<Longrightarrow> pipe_full q \<longleftrightarrow> length (pq.queue q) = PIPESIZE"
  using pq.full_iff [of q] by (simp add: pipe_full_def pq.fits_def)

lemma pipe_empty_queue: "pipe_empty q \<longleftrightarrow> pq.queue q = []"
  using pq.empty_iff [of q] by (simp add: pipe_empty_def)

lemma pipe_head_queue: "pq.queue q \<noteq> [] \<Longrightarrow> pq.queue q = pipe_head q # pq.queue (pi_nread_update (\<lambda>r. r + 1) q)"
  unfolding pipe_head_def by (rule pq.queue_take)

section \<open>States of a process that holds a pipe's lock\<close>

lemma calm_pipes [simp]: "calm p (pipes_update f s) = calm p s"
  by (simp add: calm_def)

lemma calm_wake: "calm p s \<Longrightarrow> calm p (s\<lparr>procs := wake_upto NPROC (Some p) c (procs s)\<rparr>)"
  by (auto simp: calm_def wake_upto_def wakes_def)

lemma wakeup_crit:
  assumes "calm p s" "\<And>q. lk \<noteq> ProcLock q"
  shows "wakeup c (acq lk s) = Ret () (acq lk (s\<lparr>procs := wake_upto NPROC (Some p) c (procs s)\<rparr>))"
proof -
  note f = crit_facts [OF assms(1), of lk]
  have "wakeup_ready (acq lk s)" using f assms(2) calmD [OF assms(1)] by (simp add: wakeup_ready_def)
  with f show ?thesis by (simp add: wakeup_eq)
qed


lemma killed_crit:
  assumes "calm p s" "lk \<noteq> ProcLock q"
  shows "killed q (acq lk s) = Ret (p_killed (procs s q)) (acq lk s)"
proof -
  note f = crit_facts [OF assms(1), of lk]
  have "lock_ok (ProcLock q) (acq lk s)" using f(7) [of "ProcLock q"] assms(2) by simp
  then have "acquire (ProcLock q) (acq lk s) = Ret () (acq (ProcLock q) (acq lk s))"
    "release (ProcLock q) (acq (ProcLock q) (acq lk s)) = Ret () (acq lk s)"
    using f(3,8) by (simp_all add: acquire_eq release_eq)
  then show ?thesis by (simp add: killed_def run_defs)
qed

definition ubytes :: "ram \<Rightarrow> uint64 \<Rightarrow> uint64 \<Rightarrow> nat \<Rightarrow> uchar list" where
  "ubytes m root va n = map (\<lambda>i. the (uread m root (va + of_nat i))) [0..<n]"

lemma length_ubytes [simp]: "length (ubytes m root va n) = n"
  by (simp add: ubytes_def)

lemma nth_ubytes [simp]: "i < n \<Longrightarrow> ubytes m root va n ! i = the (uread m root (va + of_nat i))"
  by (simp add: ubytes_def)

lemma copyin_byte:
  assumes "us_inv (syms s) (mem s) root" "upage (mem s) root va \<noteq> None"
  shows "\<exists>d. copyin root dst va 1 s = Ret (0, d) s \<and> d 0 = the (uread (mem s) root va)"
proof -
  have "urange (mem s) root va (unat 1)" using assms(2) by (simp add: urange_def)
  with copyin_loop_spec [OF assms(1), of dst 0 va 1] show ?thesis by (auto simp: copyin_def got_def)
qed

section \<open>Writing\<close>

lemma pipewrite_step:
  assumes c: "calm p s" and u: "us_inv (syms s) (mem s) (p_pagetable (procs s p))" and k: "\<not> p_killed (procs s p)"
    and q: "pi_readopen (pipes s pi)" "length (pq.queue (pipes s pi)) < PIPESIZE"
    and a: "upage (mem s) (p_pagetable (procs s p)) (addr + of_nat i) \<noteq> None" and i: "i = n - Suc k'"
  shows "pipewrite_loop pi p addr n (Suc k') (acq (PipeLock pi) s) = pipewrite_loop pi p addr n k'
    (acq (PipeLock pi) (s\<lparr>pipes := (pipes s)(pi := pipe_put (the (uread (mem s) (p_pagetable (procs s p)) (addr + of_nat i))) (pipes s pi))\<rparr>))"
proof -
  let ?a = "acq (PipeLock pi) s" and ?root = "p_pagetable (procs s p)"
  have "us_inv (syms ?a) (mem ?a) ?root" "upage (mem ?a) ?root (addr + of_nat i) \<noteq> None" using u a by simp_all
  from copyin_byte [OF this, of "\<lambda>_. 0"] obtain d where
    d: "copyin ?root (\<lambda>_. 0) (addr + of_nat i) 1 ?a = Ret (0, d) ?a" "d 0 = the (uread (mem s) ?root (addr + of_nat i))" by auto
  have nf: "\<not> pipe_full (pipes s pi)" using pipe_full_queue [of "pipes s pi"] q by simp
  show ?thesis
    unfolding pipewrite_loop.simps i [symmetric]
    using k q nf d killed_crit [OF c, of "PipeLock pi" p] by (simp add: run_defs set_pipe_def kif_def)
qed

text \<open>As long as there is room, the loop moves bytes from the writer's memory to the end of the queue.\<close>

lemma pipewrite_steps:
  assumes "calm p s" "us_inv (syms s) (mem s) root" "p_pagetable (procs s p) = root" "\<not> p_killed (procs s p)"
    "pi_readopen (pipes s pi)" "urange (mem s) root addr (i + j)" "i + j \<le> n" "length (pq.queue (pipes s pi)) + j \<le> PIPESIZE"
  shows "\<exists>q. pipewrite_loop pi p addr n (n - i) (acq (PipeLock pi) s) =
      pipewrite_loop pi p addr n (n - (i + j)) (acq (PipeLock pi) (s\<lparr>pipes := (pipes s)(pi := q)\<rparr>)) \<and>
    pq.queue q = pq.queue (pipes s pi) @ map (\<lambda>l. the (uread (mem s) root (addr + of_nat l))) [i..<i + j] \<and>
    pi_readopen q = pi_readopen (pipes s pi) \<and> pi_writeopen q = pi_writeopen (pipes s pi)"
  using assms
proof (induction j arbitrary: s i)
  case 0
  have "s\<lparr>pipes := (pipes s)(pi := pipes s pi)\<rparr> = s" by simp
  then show ?case by (intro exI [of _ "pipes s pi"]) simp
next
  case (Suc j)
  let ?b = "\<lambda>l. the (uread (mem s) root (addr + of_nat l))"
  let ?q = "pipe_put (?b i) (pipes s pi)"
  let ?s = "s\<lparr>pipes := (pipes s)(pi := ?q)\<rparr>"
  have len: "length (pq.queue (pipes s pi)) < PIPESIZE" using Suc.prems(8) by simp
  have q: "pq.queue ?q = pq.queue (pipes s pi) @ [?b i]" using pq.queue_put [OF len] .
  have u: "upage (mem s) root (addr + of_nat i) \<noteq> None" using Suc.prems(6) by (auto simp: urange_def)
  define k where "k = n - Suc i"
  have k: "n - i = Suc k" "i = n - Suc k" using Suc.prems(7) by (simp_all add: k_def)
  have 1: "pipewrite_loop pi p addr n (Suc k) (acq (PipeLock pi) s) = pipewrite_loop pi p addr n k (acq (PipeLock pi) ?s)"
    using pipewrite_step [OF Suc.prems(1) _ Suc.prems(4,5) len _ k(2)] Suc.prems(2,3) u by simp
  have "\<exists>q'. pipewrite_loop pi p addr n (n - Suc i) (acq (PipeLock pi) ?s) =
      pipewrite_loop pi p addr n (n - (Suc i + j)) (acq (PipeLock pi) (?s\<lparr>pipes := (pipes ?s)(pi := q')\<rparr>)) \<and>
    pq.queue q' = pq.queue (pipes ?s pi) @ map (\<lambda>l. the (uread (mem ?s) root (addr + of_nat l))) [Suc i..<Suc i + j] \<and>
    pi_readopen q' = pi_readopen (pipes ?s pi) \<and> pi_writeopen q' = pi_writeopen (pipes ?s pi)"
    by (rule Suc.IH) (use Suc.prems q in \<open>simp_all del: of_nat_Suc\<close>)
  then obtain q' where 2: "pipewrite_loop pi p addr n k (acq (PipeLock pi) ?s) =
      pipewrite_loop pi p addr n (n - (i + Suc j)) (acq (PipeLock pi) (s\<lparr>pipes := (pipes s)(pi := q')\<rparr>))"
    "pq.queue q' = pq.queue ?q @ map ?b [Suc i..<Suc i + j]"
    "pi_readopen q' = pi_readopen (pipes s pi)" "pi_writeopen q' = pi_writeopen (pipes s pi)"
    by (auto simp: k_def)
  have "[i..<i + Suc j] = i # [Suc i..<Suc i + j]" by (simp add: upt_conv_Cons)
  with 1 2 q show ?case unfolding k(1) by (intro exI [of _ q']) (simp add: fun_upd_def del: pipewrite_loop.simps upt_Suc)
qed

lemma pipewrite_end_eq:
  assumes "calm p s"
  shows "pipewrite_end pi i (acq (PipeLock pi) s) =
    Ret i (s\<lparr>procs := wake_upto NPROC (Some p) (PipeReadChan pi) (procs s)\<rparr>)"
  using wakeup_crit [OF assms, of "PipeLock pi"] release_calm [OF calm_wake [OF assms], of "PipeLock pi"]
  by (simp add: pipewrite_end_def run_defs)

lemma pipewrite_waits:
  assumes c: "calm p s" and k: "\<not> p_killed (procs s p)" and q: "pi_readopen (pipes s pi)" "pipe_full (pipes s pi)"
  shows "\<exists>t. pipewrite_loop pi p addr n (Suc k') (acq (PipeLock pi) s) = Sleep (PipeWriteChan pi) t \<and>
    pipes t = pipes s \<and> \<not> locked (locks t (PipeLock pi)) \<and> p_state (procs t p) = SLEEPING \<and>
    p_chan (procs t p) = PipeWriteChan pi"
proof -
  let ?s = "s\<lparr>procs := wake_upto NPROC (Some p) (PipeReadChan pi) (procs s)\<rparr>"
  have r: "sleep_ready p (PipeLock pi) (acq (PipeLock pi) ?s)"
    using crit_facts [OF calm_wake [OF c], of "PipeLock pi"] by (simp add: sleep_ready_def)
  have "sleep (PipeWriteChan pi) (PipeLock pi) (acq (PipeLock pi) ?s) = (Sleep (PipeWriteChan pi)
      ((rel (PipeLock pi) (acq (ProcLock p) (acq (PipeLock pi) ?s)))\<lparr>procs := asleep p (PipeWriteChan pi) (procs ?s)\<rparr>) :: (int, _) outcome)"
    using sleep_eq [OF r] by simp
  then show ?thesis
    using k q wakeup_crit [OF c, of "PipeLock pi" "PipeReadChan pi"] killed_crit [OF c, of "PipeLock pi" p]
    by (simp add: run_defs kif_def asleep_def rel_unlocks)
qed

text \<open>
  C13: A write to a pipe whose read end is open appends the writer's bytes to the pipe's queue, as
  many as there is room for. When that is all of them, it wakes the readers and returns the number
  of bytes. Otherwise the writer goes to sleep without the lock, with the queue full.
\<close>

theorem pipewrite_appends:
  assumes c: "calm p s" and u: "us_inv (syms s) (mem s) root" "p_pagetable (procs s p) = root"
    and k: "\<not> p_killed (procs s p)" and r: "pi_readopen (pipes s pi)" and f: "pq.fits (pipes s pi)"
    and a: "urange (mem s) root addr n" "n < 2 ^ 31"
  shows "\<exists>q. pi_readopen q = pi_readopen (pipes s pi) \<and> pi_writeopen q = pi_writeopen (pipes s pi) \<and>
    (if length (pq.queue (pipes s pi)) + n \<le> PIPESIZE
     then pipewrite pi addr (int n) s = Ret (int n) (s\<lparr>pipes := (pipes s)(pi := q),
         procs := wake_upto NPROC (Some p) (PipeReadChan pi) (procs s)\<rparr>) \<and>
       pq.queue q = pq.queue (pipes s pi) @ ubytes (mem s) root addr n
     else (\<exists>t. pipewrite pi addr (int n) s = Sleep (PipeWriteChan pi) t \<and> pipes t = (pipes s)(pi := q) \<and>
         \<not> locked (locks t (PipeLock pi)) \<and> p_state (procs t p) = SLEEPING) \<and>
       pq.queue q = pq.queue (pipes s pi) @ ubytes (mem s) root addr (PIPESIZE - length (pq.queue (pipes s pi))) \<and>
       length (pq.queue q) = PIPESIZE)"
proof -
  let ?Q = "pq.queue (pipes s pi)"
  let ?j = "min n (PIPESIZE - length ?Q)"
  have f': "length ?Q \<le> PIPESIZE" using f by (simp add: pq.fits_def)
  have j: "urange (mem s) root addr (0 + ?j)" "0 + ?j \<le> n" "length ?Q + ?j \<le> PIPESIZE"
    using a(1) f' by (auto simp: urange_def)
  from pipewrite_steps [OF c u k r j] obtain q where
    q: "pipewrite_loop pi p addr n n (acq (PipeLock pi) s) =
      pipewrite_loop pi p addr n (n - ?j) (acq (PipeLock pi) (s\<lparr>pipes := (pipes s)(pi := q)\<rparr>))"
    "pq.queue q = ?Q @ ubytes (mem s) root addr ?j" "pi_readopen q = pi_readopen (pipes s pi)" "pi_writeopen q = pi_writeopen (pipes s pi)"
    by (auto simp: ubytes_def)
  let ?s = "s\<lparr>pipes := (pipes s)(pi := q)\<rparr>"
  have c': "calm p ?s" using c by simp
  have w: "pipewrite pi addr (int n) s = pipewrite_loop pi p addr n (n - ?j) (acq (PipeLock pi) ?s)"
    using q(1) by (simp add: pipewrite_def run_defs curproc_calm [OF c] acquire_calm [OF c])
  show ?thesis
  proof (cases "length ?Q + n \<le> PIPESIZE")
    case True
    then have "n - ?j = 0" "?j = n" by simp_all
    with True q w show ?thesis using pipewrite_end_eq [OF c', of pi "int n"] by (intro exI [of _ q]) simp
  next
    case False
    then have j': "?j = PIPESIZE - length ?Q" by simp
    obtain k' where k': "n - ?j = Suc k'" using False f' by (cases "n - ?j") auto
    have len: "length (pq.queue q) = PIPESIZE" using q(2) j' f' by simp
    then have full: "pipe_full (pipes ?s pi)" using pipe_full_queue [of q] by simp
    have "\<not> p_killed (procs ?s p)" "pi_readopen (pipes ?s pi)" using k r q(3) by simp_all
    from pipewrite_waits [OF c' this full, of addr n k'] False q(2-4) len j' w k' show ?thesis
      by (intro exI [of _ q]) auto
  qed
qed

section \<open>Reading\<close>

text \<open>The state after the loop of \<^verbatim>\<open>piperead\<close> has moved \<open>i\<close> bytes from the pipe to the reader's memory.\<close>

definition drained :: "uint64 \<Rightarrow> uint64 \<Rightarrow> uint64 \<Rightarrow> 'a pipe_st_scheme \<Rightarrow> nat \<Rightarrow> 'a pipe_st_scheme \<Rightarrow> bool" where
  "drained pi root addr s i t \<longleftrightarrow> (\<exists>q m. t = s\<lparr>mem := m, pipes := (pipes s)(pi := q)\<rparr> \<and>
     pq.queue q = drop i (pq.queue (pipes s pi)) \<and>
     pi_readopen q = pi_readopen (pipes s pi) \<and> pi_writeopen q = pi_writeopen (pipes s pi) \<and>
     us_inv (syms s) m root \<and> (\<forall>v. upage m root v = upage (mem s) root v) \<and>
     wrote (mem s) root addr (\<lambda>j. pq.queue (pipes s pi) ! j) i m)"

lemma drained_0: "us_inv (syms s) (mem s) root \<Longrightarrow> drained pi root addr s 0 s"
  unfolding drained_def by (rule exI [of _ "pipes s pi"], rule exI [of _ "mem s"]) (simp add: wrote_def)

lemma wrote_Suc:
  assumes "wrote m root va src i m1" "wrote m1 root (va + of_nat i) (\<lambda>_. src i) 1 m2" "i < 2 ^ 64 - 1"
  shows "wrote m root va src (Suc i) m2"
proof -
  have e: "unat (v - (va + of_nat i)) < 1 \<longleftrightarrow> unat (v - va) = i" for v
  proof -
    have "unat (v - (va + of_nat i)) < 1 \<longleftrightarrow> v - va = of_nat i" by (auto simp: unat_eq_0 algebra_simps)
    then show ?thesis using assms(3) by (auto simp: unat_of_nat)
  qed
  show ?thesis using assms(1,2) unfolding wrote_def e by (auto simp: less_Suc_eq)
qed

lemma drain_step:
  assumes d: "drained pi root addr s i t" and r: "p_pagetable (procs s p) = root"
    and i: "i < length (pq.queue (pipes s pi))" "i < 2 ^ 31" and a: "upage (mem s) root (addr + of_nat i) \<noteq> None"
  shows "wp (kif (\<lambda>s. pipe_empty (pipes s pi)) (kreturn (Some (int i)))
       (kbind (kgets (\<lambda>s. pipe_head (pipes s pi))) (\<lambda>ch.
        kthen [set_pipe pi (pi_nread_update (\<lambda>r. r + 1))] (
        kbind (kgets (\<lambda>s. p_pagetable (procs s p))) (\<lambda>pt.
        kbind (copyout pt (addr + of_nat i) (\<lambda>_. ch) 1) (\<lambda>r.
        kreturn (if r = -1 then Some (int i) else None)))))))
     (\<lambda>r u. r = None \<and> (\<exists>w. u = acq (PipeLock pi) w \<and> drained pi root addr s (Suc i) w)) (acq (PipeLock pi) t)"
proof -
  let ?Q = "pq.queue (pipes s pi)"
  obtain q m where t: "t = s\<lparr>mem := m, pipes := (pipes s)(pi := q)\<rparr>" and q: "pq.queue q = drop i ?Q"
      "pi_readopen q = pi_readopen (pipes s pi)" "pi_writeopen q = pi_writeopen (pipes s pi)"
    and m: "us_inv (syms s) m root" "\<forall>v. upage m root v = upage (mem s) root v" "wrote (mem s) root addr (\<lambda>j. ?Q ! j) i m"
    using d unfolding drained_def by blast
  have ne: "pq.queue q \<noteq> []" using q(1) i by simp
  let ?q = "pi_nread_update (\<lambda>r. r + 1) q"
  have "pipe_head q # pq.queue ?q = ?Q ! i # drop (Suc i) ?Q"
    using pipe_head_queue [OF ne] q(1) i(1) by (simp add: Cons_nth_drop_Suc)
  then have h: "pipe_head q = ?Q ! i" "pq.queue ?q = drop (Suc i) ?Q" by simp_all
  let ?w = "acq (PipeLock pi) (s\<lparr>mem := m, pipes := (pipes s)(pi := ?q)\<rparr>)"
  have "us_inv (syms ?w) (mem ?w) root" "urange (mem ?w) root (addr + of_nat i) (unat (1::uint64))"
    using m a by (simp_all add: urange_def)
  with copyout_spec [of ?w root "addr + of_nat i" "\<lambda>_. ?Q ! i" 1] obtain m' where
    m': "copyout root (addr + of_nat i) (\<lambda>_. ?Q ! i) 1 ?w = Ret 0 (?w\<lparr>mem := m'\<rparr>)" "us_inv (syms s) m' root"
      "\<forall>v. upage m' root v = upage m root v" "wrote m root (addr + of_nat i) (\<lambda>_. ?Q ! i) 1 m'" by auto
  have w: "wrote (mem s) root addr (\<lambda>j. ?Q ! j) (Suc i) m'" using wrote_Suc [OF m(3) m'(4)] i(2) by simp
  have d': "drained pi root addr s (Suc i) (s\<lparr>mem := m', pipes := (pipes s)(pi := ?q)\<rparr>)"
    unfolding drained_def using h(2) q(2,3) m'(2,3) m(2) w
    by (intro exI [of _ ?q] exI [of _ m']) simp
  show ?thesis
    using ne m'(1) h(1) r d' 
    by (simp add: t wp_iff_Ret run_defs pipe_empty_queue set_pipe_def)
      (rule exI [of _ "s\<lparr>mem := m', pipes := (pipes s)(pi := ?q)\<rparr>"], simp)
qed

lemma drained_calm: "drained pi root addr s i t \<Longrightarrow> calm p s \<Longrightarrow> calm p t \<and> procs t = procs s \<and>
    pq.queue (pipes t pi) = drop i (pq.queue (pipes s pi))"
  by (auto simp: drained_def)

lemma piperead_copy_eq:
  assumes c: "calm p s" and u: "us_inv (syms s) (mem s) root" "p_pagetable (procs s p) = root"
    and k: "k = min n (length (pq.queue (pipes s pi)))" and a: "urange (mem s) root addr k" "n < 2 ^ 31"
  shows "\<exists>t. drained pi root addr s k t \<and> piperead_copy pi p addr n (acq (PipeLock pi) s) =
    Ret (int k) (t\<lparr>procs := wake_upto NPROC (Some p) (PipeWriteChan pi) (procs t)\<rparr>)"
proof -
  let ?Q = "pq.queue (pipes s pi)"
  let ?P = "\<lambda>r t. \<exists>w. t = acq (PipeLock pi) w \<and> r = int k \<and> drained pi root addr s k w"
  have "wp (piperead_copy pi p addr n) (\<lambda>r t. r = int k \<and> (\<exists>w. drained pi root addr s k w \<and>
      t = w\<lparr>procs := wake_upto NPROC (Some p) (PipeWriteChan pi) (procs w)\<rparr>)) (acq (PipeLock pi) s)"
    unfolding piperead_copy_def wp_kbind
  proof (rule wp_mono [where Q = ?P])
    show "wp (kfor [0..<n] (\<lambda>i. kif (\<lambda>s. pipe_empty (pipes s pi)) (kreturn (Some (int i)))
       (kbind (kgets (\<lambda>s. pipe_head (pipes s pi))) (\<lambda>ch.
        kthen [set_pipe pi (pi_nread_update (\<lambda>r. r + 1))] (
        kbind (kgets (\<lambda>s. p_pagetable (procs s p))) (\<lambda>pt.
        kbind (copyout pt (addr + of_nat i) (\<lambda>_. ch) 1) (\<lambda>r.
        kreturn (if r = -1 then Some (int i) else None)))))))
       (kreturn (int n))) ?P (acq (PipeLock pi) s)"
    proof (rule wp_kfor_inv [where I = "\<lambda>ys t. length ys \<le> k \<and> (\<exists>w. t = acq (PipeLock pi) w \<and> drained pi root addr s (length ys) w)"], goal_cases)
      case 1 show ?case using drained_0 [OF u(1)] by auto
    next
      case (2 ys i zs t)
      then obtain w where w: "t = acq (PipeLock pi) w" "drained pi root addr s (length ys) w" "length ys \<le> k" by blast
      have i: "i = length ys" "i < n" using upt_split [OF 2(1)] by auto
      show ?case
      proof (cases "i < length ?Q")
        case True
        have "upage (mem s) root (addr + of_nat i) \<noteq> None" using a(1) True i k by (auto simp: urange_def)
        from drain_step [OF w(2) [folded i(1)] u(2) True _ this] show ?thesis
          unfolding w(1) by (rule wp_mono) (use i a(2) True k in \<open>auto split: option.splits\<close>)
      next
        case False
        then have "i = k" "pipe_empty (pipes w pi)"
          using i w(2,3) k drained_calm [OF w(2) c] by (auto simp: pipe_empty_queue)
        then show ?thesis using w i by (simp add: wp_simps) blast
      qed
    next
      case (3 t) then show ?case using k by (auto simp: wp_simps)
    qed
  next
    fix r t assume "?P r t"
    then obtain w where w: "t = acq (PipeLock pi) w" "r = int k" "drained pi root addr s k w" by blast
    then have c': "calm p w" using drained_calm [OF w(3) c] by simp
    show "wp (kthen [wakeup (PipeWriteChan pi), release (PipeLock pi)] (kreturn r)) (\<lambda>r t. r = int k \<and>
        (\<exists>w. drained pi root addr s k w \<and> t = w\<lparr>procs := wake_upto NPROC (Some p) (PipeWriteChan pi) (procs w)\<rparr>)) t"
      using w wakeup_crit [OF c', of "PipeLock pi" "PipeWriteChan pi"] release_calm [OF calm_wake [OF c'], of "PipeLock pi"]
      by (simp add: wp_iff_Ret run_defs) blast
  qed
  then show ?thesis by (auto simp: wp_iff_Ret)
qed

text \<open>
  C14: A read from a pipe that holds bytes, or that has no writer left, takes bytes off the front of
  the pipe's queue, at most \<open>n\<close> of them, and returns how many. They appear in order at the reader's
  address and no other accessible byte of its memory changes; the writers are woken. A read from an
  empty pipe with a writer puts the reader to sleep without the lock and takes nothing.
\<close>

theorem piperead_takes:
  assumes c: "calm p s" and u: "us_inv (syms s) (mem s) root" "p_pagetable (procs s p) = root"
    and kl: "\<not> p_killed (procs s p)"
    and a: "urange (mem s) root addr (min n (length (pq.queue (pipes s pi))))" "n < 2 ^ 31"
  shows "if pq.queue (pipes s pi) = [] \<and> pi_writeopen (pipes s pi)
    then \<exists>t. piperead pi addr (int n) s = Sleep (PipeReadChan pi) t \<and> pipes t = pipes s \<and> mem t = mem s \<and>
      \<not> locked (locks t (PipeLock pi)) \<and> p_state (procs t p) = SLEEPING
    else \<exists>q m k. k = min n (length (pq.queue (pipes s pi))) \<and>
      piperead pi addr (int n) s = Ret (int k) (s\<lparr>mem := m, pipes := (pipes s)(pi := q),
        procs := wake_upto NPROC (Some p) (PipeWriteChan pi) (procs s)\<rparr>) \<and>
      pq.queue q = drop k (pq.queue (pipes s pi)) \<and> us_inv (syms s) m root \<and>
      wrote (mem s) root addr (\<lambda>j. pq.queue (pipes s pi) ! j) k m"
proof -
  let ?a = "acq (PipeLock pi) s"
  have *: "piperead pi addr (int n) s = piperead_round pi p addr (int n) ?a"
    by (simp add: piperead_def run_defs curproc_calm [OF c] acquire_calm [OF c])
  show ?thesis
  proof (cases "pq.queue (pipes s pi) = [] \<and> pi_writeopen (pipes s pi)")
    case True
    have r: "sleep_ready p (PipeLock pi) ?a" using crit_facts [OF c, of "PipeLock pi"] by (simp add: sleep_ready_def)
    have "sleep (PipeReadChan pi) (PipeLock pi) ?a = (Sleep (PipeReadChan pi)
        ((rel (PipeLock pi) (acq (ProcLock p) ?a))\<lparr>procs := asleep p (PipeReadChan pi) (procs s)\<rparr>) :: (int, _) outcome)"
      using sleep_eq [OF r] by simp
    with True kl show ?thesis
      unfolding * using killed_crit [OF c, of "PipeLock pi" p]
      by (simp add: piperead_round_def run_defs pipe_empty_queue asleep_def rel_unlocks)
  next
    case False
    then have f: "piperead_round pi p addr (int n) ?a = piperead_copy pi p addr n ?a"
      by (auto simp: piperead_round_def kif_def pipe_empty_queue)
    from piperead_copy_eq [OF c u refl a] obtain t where
      "drained pi root addr s (min n (length (pq.queue (pipes s pi)))) t"
      "piperead pi addr (int n) s = Ret (int (min n (length (pq.queue (pipes s pi)))))
        (t\<lparr>procs := wake_upto NPROC (Some p) (PipeWriteChan pi) (procs t)\<rparr>)"
      unfolding * f by blast
    moreover from this obtain q m where t: "t = s\<lparr>mem := m, pipes := (pipes s)(pi := q)\<rparr>"
      "pq.queue q = drop (min n (length (pq.queue (pipes s pi)))) (pq.queue (pipes s pi))" "us_inv (syms s) m root"
      "wrote (mem s) root addr (\<lambda>j. pq.queue (pipes s pi) ! j) (min n (length (pq.queue (pipes s pi)))) m"
      unfolding drained_def by blast
    ultimately have "\<exists>q m k. k = min n (length (pq.queue (pipes s pi))) \<and>
      piperead pi addr (int n) s = Ret (int k) (s\<lparr>mem := m, pipes := (pipes s)(pi := q),
        procs := wake_upto NPROC (Some p) (PipeWriteChan pi) (procs s)\<rparr>) \<and>
      pq.queue q = drop k (pq.queue (pipes s pi)) \<and> us_inv (syms s) m root \<and>
      wrote (mem s) root addr (\<lambda>j. pq.queue (pipes s pi) ! j) k m"
      by (intro exI [of _ q] exI [of _ m]) simp
    with False show ?thesis by auto
  qed
qed

lemma pipe0_queue [simp]: "pq.queue pipe0 = []" "pi_readopen pipe0" "pi_writeopen pipe0"
  by (simp_all add: pq.queue_def ring_queue_def pipe0_def)

lemma urange_sample:
  assumes "\<forall>v. upage m root0 v = (if PGROUNDDOWN v = 0x1000 then Some 0x87FFC000 else None)"
  shows "urange m root0 0x1FFE 2"
  unfolding urange_def
proof (intro allI impI)
  fix i :: nat assume "i < 2"
  then have "i = 0 \<or> i = 1" by auto
  then show "upage m root0 (0x1FFE + of_nat i) \<noteq> None" by (auto simp: assms PGROUNDDOWN_def)
qed

theorem pipewrite_appends_witness:
  "\<exists>s :: trap_st. calm 1 s \<and> pi_readopen (pipes s 7) \<and> urange (mem s) root0 0x1FFE 2 \<and>
     (\<exists>t. pipewrite 7 0x1FFE 2 s = Ret 2 t \<and> pq.queue (pipes t 7) = ubytes (mem s) root0 0x1FFE 2)"
proof -
  obtain s :: trap_st where s: "calm 1 s" "us_inv (syms s) (mem s) root0" "p_pagetable (procs s 1) = root0"
    "\<not> p_killed (procs s 1)" "\<forall>v. upage (mem s) root0 v = (if PGROUNDDOWN v = 0x1000 then Some 0x87FFC000 else None)"
    "pipes s = (\<lambda>_. pipe0)" using ex_usys by blast
  have ur: "urange (mem s) root0 0x1FFE 2" using urange_sample [OF s(5)] .
  have "\<exists>t. pipewrite 7 0x1FFE 2 s = Ret 2 t \<and> pq.queue (pipes t 7) = ubytes (mem s) root0 0x1FFE 2"
    using pipewrite_appends [OF s(1-4), of 7 "0x1FFE" 2] s(6) ur by (auto simp: pq.fits_def)
  with s(1,6) ur show ?thesis by (intro exI [of _ s]) simp
qed

theorem piperead_takes_witness:
  "\<exists>s :: trap_st. calm 1 s \<and> pq.queue (pipes s 7) = [65, 66] \<and> urange (mem s) root0 0x1FFE 2 \<and>
     (\<exists>t. piperead 7 0x1FFE 100 s = Ret 2 t \<and> pq.queue (pipes t 7) = [] \<and>
        uread (mem t) root0 0x1FFF = Some 66)"
proof -
  obtain s0 :: trap_st where s: "calm 1 s0" "us_inv (syms s0) (mem s0) root0" "p_pagetable (procs s0 1) = root0"
    "\<not> p_killed (procs s0 1)" "\<forall>v. upage (mem s0) root0 v = (if PGROUNDDOWN v = 0x1000 then Some 0x87FFC000 else None)"
    "pipes s0 = (\<lambda>_. pipe0)" using ex_usys by blast
  let ?q = "pipe_put 66 (pipe_put 65 pipe0)"
  let ?s = "s0\<lparr>pipes := (\<lambda>_. ?q)\<rparr>"
  have "pq.queue (pipe_put 65 pipe0) = [65]" by (subst pq.queue_put) simp_all
  then have q: "pq.queue ?q = [65, 66]" by (subst pq.queue_put) simp_all
  have ur: "urange (mem s0) root0 0x1FFE 2" using urange_sample [OF s(5)] .
  moreover have "urange (mem s0) root0 0x1FFE (Suc (Suc 0))" using ur by (simp add: numeral_2_eq_2)
  ultimately have "\<exists>t. piperead 7 0x1FFE 100 ?s = Ret 2 t \<and> pq.queue (pipes t 7) = [] \<and> uread (mem t) root0 0x1FFF = Some 66"
    using piperead_takes [of 1 ?s root0 "0x1FFE" 100 7] s(1-4) q by (auto simp: wrote_def)
  with s(1) ur q show ?thesis by (intro exI [of _ ?s]) simp
qed

end
