(* ===== verification/Uart_Output.thy ===== *)
theory Uart_Output
  imports Pipe_Fifo
begin

text \<open>
  The bytes given to the UART driver reach the line, in order: the transmit buffer is a ring like a pipe's,
  \<open>uartputc\<close> adds to it, and every interrupt at which the device is ready takes at least one byte off.
\<close>

section \<open>The transmit buffer\<close>



definition uart_head :: "uart \<Rightarrow> uchar" where
  "uart_head u = uart_tx_buf u (unat (uart_tx_r u) mod UART_TX_BUF_SIZE)"

text \<open>The device after the driver sent the byte at the front.\<close>

definition send_head :: "uart \<Rightarrow> uart" where
  "send_head u = u\<lparr>uart_tx_r := uart_tx_r u + 1, u_sent := u_sent u @ [uart_head u]\<rparr>"

lemma send_head_sel [simp]:
  "u_sent (send_head u) = u_sent u @ [uart_head u]" "u_idle (send_head u) = u_idle u" "u_regs (send_head u) = u_regs u"
  "u_recv (send_head u) = u_recv u" "baud_latch (send_head u) = baud_latch u"
  by (simp_all add: send_head_def baud_latch_def)



section \<open>Inside the critical section\<close>

lemma calm_uart [simp]: "calm p (uart0_update f s) = calm p s"
  by (simp add: calm_def)

definition woken :: "nat \<Rightarrow> 'a uart_st_scheme \<Rightarrow> 'a uart_st_scheme" where
  "woken p s = s\<lparr>procs := wake_upto NPROC (Some p) UartTxChan (procs s)\<rparr>"

lemma woken_facts [simp]: "uart0 (woken p s) = uart0 s" "panicked (woken p s) = panicked s" "calm p s \<Longrightarrow> calm p (woken p s)"
  "woken p (woken p s) = woken p s" "woken p (s\<lparr>uart0 := u\<rparr>) = (woken p s)\<lparr>uart0 := u\<rparr>"
  by (simp_all add: woken_def calm_wake) (simp_all add: wake_upto_def wakes_def fun_eq_iff)






section \<open>Runs of the driver\<close>















end
