(* ===== verification/Machine.thy ===== *)
theory Machine
  imports Vm_User
begin

text \<open>
  The code that runs below C: \<^verbatim>\<open>kernel/entry.S\<close>, \<^verbatim>\<open>kernel/start.c\<close>, \<^verbatim>\<open>kernel/swtch.S\<close>,
  \<^verbatim>\<open>kernel/kernelvec.S\<close> and \<^verbatim>\<open>kernel/trampoline.S\<close>, on a hart with its registers, its control and
  status registers, its privilege mode and the physical memory, devices included. Loads and stores go through the
  page table that \<^verbatim>\<open>satp\<close> selects; an access that faults ends the run. The program counter is that at
  the entry and after the last instruction of a sequence. The hart's own behaviour is that of the RISC-V
  privileged architecture, as far as these files use it.
\<close>

section \<open>The hart\<close>

datatype reg = RA | SP | GP | TP | T0 | T1 | T2 | S0 | S1 | A0 | A1 | A2 | A3 | A4 | A5 | A6 | A7
  | S2 | S3 | S4 | S5 | S6 | S7 | S8 | S9 | S10 | S11 | T3 | T4 | T5 | T6

datatype csr = Mhartid | Mstatus | Mepc | Medeleg | Mideleg | Mie | Mip | Mtvec | Mscratch | Mcause | Pmpcfg0 | Pmpaddr0
  | Mcounteren | Time | Sstatus | Sie | Sip | Stvec | Sepc | Scause | Stval | Satp | Sscratch

datatype priv = User | Supervisor | Machine

record mach =
  m_x :: "reg \<Rightarrow> uint64"
  m_csr :: "csr \<Rightarrow> uint64"
  m_priv :: priv
  m_pc :: uint64
  m_ram :: ram

text \<open>
  \<^verbatim>\<open>sstatus\<close>, \<^verbatim>\<open>sie\<close> and \<^verbatim>\<open>sip\<close> are views of the machine's registers: the bits of
  \<^verbatim>\<open>mstatus\<close> that supervisor mode may see, and the interrupts that are delegated to it. Only the
  supervisor's interrupts can be delegated, and of those only the software interrupt can be raised by a write.
\<close>

definition SSTATUS_MASK :: uint64 where "SSTATUS_MASK = 0x80000003000DE762"
definition S_INTS :: uint64 where "S_INTS = 0x222"

fun csr_read :: "csr \<Rightarrow> mach \<Rightarrow> uint64" where
  "csr_read Sstatus m = m_csr m Mstatus AND SSTATUS_MASK"
| "csr_read Sie m = m_csr m Mie AND m_csr m Mideleg"
| "csr_read Sip m = m_csr m Mip AND m_csr m Mideleg"
| "csr_read c m = m_csr m c"

definition csr_set :: "csr \<Rightarrow> uint64 \<Rightarrow> mach \<Rightarrow> mach" where
  "csr_set c v m = m\<lparr>m_csr := (m_csr m)(c := v)\<rparr>"

definition merge :: "uint64 \<Rightarrow> uint64 \<Rightarrow> uint64 \<Rightarrow> uint64" where
  "merge k v old = (old AND NOT k) OR (v AND k)"

fun csr_write :: "csr \<Rightarrow> uint64 \<Rightarrow> mach \<Rightarrow> mach" where
  "csr_write Sstatus v m = csr_set Mstatus (merge SSTATUS_MASK v (m_csr m Mstatus)) m"
| "csr_write Sie v m = csr_set Mie (merge (m_csr m Mideleg) v (m_csr m Mie)) m"
| "csr_write Sip v m = csr_set Mip (merge (m_csr m Mideleg AND 2) v (m_csr m Mip)) m"
| "csr_write Mideleg v m = csr_set Mideleg (v AND S_INTS) m"
| "csr_write Mhartid v m = m"
| "csr_write Time v m = m"
| "csr_write c v m = csr_set c v m"

section \<open>Address translation\<close>

text \<open>
  Outside machine mode an address goes through the Sv39 table of \<^verbatim>\<open>satp\<close>, unless that is 0. Supervisor mode
  uses no page of a user unless the \<^verbatim>\<open>SUM\<close> bit says so, and a user no other page. The kernel makes no leaf
  above the last level.
\<close>

definition satp_root :: "uint64 \<Rightarrow> uint64" where
  "satp_root v = push_bit 12 (take_bit 44 v)"

definition translate :: "mach \<Rightarrow> uint64 \<Rightarrow> uint64 \<Rightarrow> uint64 option" where
  "translate m want va =
     (if m_priv m = Machine \<or> drop_bit 60 (m_csr m Satp) = 0 then Some va
      else if drop_bit 60 (m_csr m Satp) = 8 \<and> (drop_bit 38 va = 0 \<or> drop_bit 38 va = mask 26) then
        let e = leaf (m_ram m) (satp_root (m_csr m Satp)) va in
        if e AND PTE_V \<noteq> 0 \<and> e AND want = want \<and>
          (if m_priv m = User then e AND PTE_U \<noteq> 0 else e AND PTE_U = 0 \<or> bit (m_csr m Mstatus) 18)
        then Some (PTE2PA e + va mod PGSIZE) else None
      else None)"

section \<open>Instructions\<close>

datatype instr =
    Sd reg uint64 reg | Ld reg uint64 reg | Li reg uint64
  | Addi reg reg uint64 | Add reg reg reg | Mul reg reg reg
  | Csrr reg csr | Csrw csr reg | Csrrw reg csr reg
  | Sfence | Jr reg | Call uint64 uint64 | Mret | Sret

definition set_x :: "reg \<Rightarrow> uint64 \<Rightarrow> mach \<Rightarrow> mach" where
  "set_x r v m = m\<lparr>m_x := (m_x m)(r := v)\<rparr>"

definition access :: "mach \<Rightarrow> uint64 \<Rightarrow> uint64 \<Rightarrow> uint64 option" where
  "access m want va = (if va mod 8 = 0 then translate m want va else None)"

text \<open>The bits \<^verbatim>\<open>MPP\<close> of \<^verbatim>\<open>mstatus\<close>, and a bit of a register set or cleared.\<close>

definition priv_code :: "priv \<Rightarrow> uint64" where
  "priv_code p = (case p of User \<Rightarrow> 0 | Supervisor \<Rightarrow> 1 | Machine \<Rightarrow> 3)"

definition code_priv :: "uint64 \<Rightarrow> priv" where
  "code_priv v = (if v = 0 then User else if v = 1 then Supervisor else Machine)"

definition put_bit :: "nat \<Rightarrow> bool \<Rightarrow> uint64 \<Rightarrow> uint64" where
  "put_bit n b v = (if b then set_bit n v else unset_bit n v)"

definition put_mpp :: "uint64 \<Rightarrow> uint64 \<Rightarrow> uint64" where
  "put_mpp p v = merge 0x1800 (push_bit 11 p) v"

definition get_mpp :: "uint64 \<Rightarrow> uint64" where
  "get_mpp v = take_bit 2 (drop_bit 11 v)"

definition do_mret :: "mach \<Rightarrow> mach" where
  "do_mret m = (let st = m_csr m Mstatus in
     (csr_set Mstatus (put_mpp 0 (put_bit 7 True (put_bit 3 (bit st 7) st))) m)
       \<lparr>m_priv := code_priv (get_mpp st), m_pc := m_csr m Mepc\<rparr>)"

definition do_sret :: "mach \<Rightarrow> mach" where
  "do_sret m = (let st = m_csr m Mstatus in
     (csr_set Mstatus (put_bit 8 False (put_bit 5 True (put_bit 1 (bit st 5) st))) m)
       \<lparr>m_priv := (if bit st 8 then Supervisor else User), m_pc := m_csr m Sepc\<rparr>)"

fun exec_instr :: "instr \<Rightarrow> mach \<Rightarrow> mach option" where
  "exec_instr (Sd r off b) m = (case access m PTE_W (m_x m b + off) of None \<Rightarrow> None
     | Some a \<Rightarrow> Some (m\<lparr>m_ram := store64 (m_ram m) a (m_x m r)\<rparr>))"
| "exec_instr (Ld r off b) m = (case access m PTE_R (m_x m b + off) of None \<Rightarrow> None
     | Some a \<Rightarrow> Some (set_x r (load64 (m_ram m) a) m))"
| "exec_instr (Li r v) m = Some (set_x r v m)"
| "exec_instr (Addi r q v) m = Some (set_x r (m_x m q + v) m)"
| "exec_instr (Add r p q) m = Some (set_x r (m_x m p + m_x m q) m)"
| "exec_instr (Mul r p q) m = Some (set_x r (m_x m p * m_x m q) m)"
| "exec_instr (Csrr r c) m = Some (set_x r (csr_read c m) m)"
| "exec_instr (Csrw c r) m = Some (csr_write c (m_x m r) m)"
| "exec_instr (Csrrw r c q) m = Some (set_x r (csr_read c m) (csr_write c (m_x m q) m))"
| "exec_instr Sfence m = Some m"
| "exec_instr (Jr r) m = Some (m\<lparr>m_pc := m_x m r\<rparr>)"
| "exec_instr (Call a back) m = Some ((set_x RA back m)\<lparr>m_pc := a\<rparr>)"
| "exec_instr Mret m = Some (do_mret m)"
| "exec_instr Sret m = Some (do_sret m)"

primrec run_code :: "instr list \<Rightarrow> mach \<Rightarrow> mach option" where
  "run_code [] m = Some m"
| "run_code (i # is) m = (case exec_instr i m of None \<Rightarrow> None | Some m' \<Rightarrow> run_code is m')"

lemma run_code_append: "run_code (is @ js) m = (case run_code is m of None \<Rightarrow> None | Some m' \<Rightarrow> run_code js m')"
  by (induction "is" arbitrary: m) (auto split: option.splits)

end
