(* ===== verification/Lowlevel.thy ===== *)
theory Lowlevel
  imports Machine
begin

text \<open>
  The assembly code and \<^verbatim>\<open>start.c\<close>, as they stand in the source. The addresses that the linker chooses are
  the fields of \<open>boot_syms\<close>.
\<close>

record boot_syms =
  sym_stack0 :: uint64
  sym_start :: uint64
  sym_spin :: uint64
  sym_main :: uint64
  sym_timervec :: uint64
  sym_timer_scratch :: uint64

section \<open>entry.S\<close>

definition entry :: "boot_syms \<Rightarrow> instr list" where
  "entry sy = [
     Li SP (sym_stack0 sy), Li A0 (1024 * 4), Csrr A1 Mhartid, Addi A1 A1 1, Mul A0 A0 A1, Add SP SP A0,
     Call (sym_start sy) (sym_spin sy)]"

section \<open>Access to the registers (riscv.h)\<close>

definition r_mhartid :: "mach \<Rightarrow> uint64" where "r_mhartid m = csr_read Mhartid m"
definition r_mstatus :: "mach \<Rightarrow> uint64" where "r_mstatus m = csr_read Mstatus m"
definition r_sie :: "mach \<Rightarrow> uint64" where "r_sie m = csr_read Sie m"
definition r_mie :: "mach \<Rightarrow> uint64" where "r_mie m = csr_read Mie m"
definition r_medeleg :: "mach \<Rightarrow> uint64" where "r_medeleg m = csr_read Medeleg m"
definition r_mideleg :: "mach \<Rightarrow> uint64" where "r_mideleg m = csr_read Mideleg m"
definition r_stvec :: "mach \<Rightarrow> uint64" where "r_stvec m = csr_read Stvec m"
definition r_mcounteren :: "mach \<Rightarrow> uint64" where "r_mcounteren m = csr_read Mcounteren m"
definition r_time :: "mach \<Rightarrow> uint64" where "r_time m = csr_read Time m"
definition w_mstatus :: "uint64 \<Rightarrow> mach \<Rightarrow> mach" where "w_mstatus v m = csr_write Mstatus v m"
definition w_mepc :: "uint64 \<Rightarrow> mach \<Rightarrow> mach" where "w_mepc v m = csr_write Mepc v m"
definition w_sie :: "uint64 \<Rightarrow> mach \<Rightarrow> mach" where "w_sie v m = csr_write Sie v m"
definition w_mie :: "uint64 \<Rightarrow> mach \<Rightarrow> mach" where "w_mie v m = csr_write Mie v m"
definition w_medeleg :: "uint64 \<Rightarrow> mach \<Rightarrow> mach" where "w_medeleg v m = csr_write Medeleg v m"
definition w_mideleg :: "uint64 \<Rightarrow> mach \<Rightarrow> mach" where "w_mideleg v m = csr_write Mideleg v m"
definition w_mtvec :: "uint64 \<Rightarrow> mach \<Rightarrow> mach" where "w_mtvec v m = csr_write Mtvec v m"
definition w_pmpcfg0 :: "uint64 \<Rightarrow> mach \<Rightarrow> mach" where "w_pmpcfg0 v m = csr_write Pmpcfg0 v m"
definition w_pmpaddr0 :: "uint64 \<Rightarrow> mach \<Rightarrow> mach" where "w_pmpaddr0 v m = csr_write Pmpaddr0 v m"
definition w_mscratch :: "uint64 \<Rightarrow> mach \<Rightarrow> mach" where "w_mscratch v m = csr_write Mscratch v m"
definition w_mcounteren :: "uint64 \<Rightarrow> mach \<Rightarrow> mach" where "w_mcounteren v m = csr_write Mcounteren v m"
definition mach_w_satp :: "uint64 \<Rightarrow> mach \<Rightarrow> mach" where "mach_w_satp v m = csr_write Satp v m"
definition r_sp :: "mach \<Rightarrow> uint64" where "r_sp m = m_x m SP"
definition r_ra :: "mach \<Rightarrow> uint64" where "r_ra m = m_x m RA"
definition w_tp :: "uint64 \<Rightarrow> mach \<Rightarrow> mach" where "w_tp v m = set_x TP v m"

abbreviation (input) MSTATUS_MPP_MASK :: uint64 where "MSTATUS_MPP_MASK \<equiv> 0x1800"
abbreviation (input) MSTATUS_MPP_S :: uint64 where "MSTATUS_MPP_S \<equiv> 0x800"
abbreviation (input) MSTATUS_MIE :: uint64 where "MSTATUS_MIE \<equiv> 8"
abbreviation (input) SIE_SEIE :: uint64 where "SIE_SEIE \<equiv> 0x200"
abbreviation (input) SIE_STIE :: uint64 where "SIE_STIE \<equiv> 0x20"
abbreviation (input) SIE_SSIE :: uint64 where "SIE_SSIE \<equiv> 2"
abbreviation (input) MIE_MTIE :: uint64 where "MIE_MTIE \<equiv> 0x80"

section \<open>start.c\<close>

definition CLINT_MTIMECMP :: "uint64 \<Rightarrow> uint64" where
  "CLINT_MTIMECMP hartid = CLINT + 0x4000 + 8 * hartid"

definition CLINT_MTIME :: uint64 where
  "CLINT_MTIME = CLINT + 0xBFF8"

text \<open>\<^verbatim>\<open>int id = r_mhartid()\<close>, and where it is used as an address or a register's value.\<close>

definition hart_id :: "mach \<Rightarrow> uint64" where
  "hart_id m = scast (ucast (r_mhartid m) :: uint)"

abbreviation (input) interval :: uint64 where "interval \<equiv> 1000000"

definition poke :: "uint64 \<Rightarrow> uint64 \<Rightarrow> mach \<Rightarrow> mach" where
  "poke a v m = m\<lparr>m_ram := store64 (m_ram m) a v\<rparr>"

definition timer_scratch :: "boot_syms \<Rightarrow> uint64 \<Rightarrow> uint64" where
  "timer_scratch sy h = sym_timer_scratch sy + 40 * h"

definition timerinit :: "boot_syms \<Rightarrow> mach \<Rightarrow> mach" where
  "timerinit sy m0 = (let id = hart_id m0;
       m = poke (CLINT_MTIMECMP id) (load64 (m_ram m0) CLINT_MTIME + interval) m0;
       scratch = timer_scratch sy id;
       m = poke (scratch + 24) (CLINT_MTIMECMP id) m;
       m = poke (scratch + 32) interval m;
       m = w_mscratch scratch m;
       m = w_mtvec (sym_timervec sy) m;
       m = w_mstatus (r_mstatus m OR MSTATUS_MIE) m
     in w_mie (r_mie m OR MIE_MTIE) m)"

definition start :: "boot_syms \<Rightarrow> mach \<Rightarrow> mach" where
  "start sy m = (let x = r_mstatus m;
       x = x AND NOT MSTATUS_MPP_MASK;
       x = x OR MSTATUS_MPP_S;
       m = w_mstatus x m;
       m = w_mepc (sym_main sy) m;
       m = mach_w_satp 0 m;
       m = w_medeleg 0xffff m;
       m = w_mideleg 0xffff m;
       m = w_sie (r_sie m OR SIE_SEIE OR SIE_STIE OR SIE_SSIE) m;
       m = w_pmpaddr0 0x3fffffffffffff m;
       m = w_pmpcfg0 0xf m;
       m = timerinit sy m;
       id = hart_id m;
       m = w_tp id m
     in do_mret m)"

section \<open>swtch.S\<close>

definition swtch :: "instr list" where
  "swtch = [
     Sd RA 0 A0, Sd SP 8 A0, Sd S0 16 A0, Sd S1 24 A0, Sd S2 32 A0, Sd S3 40 A0, Sd S4 48 A0, Sd S5 56 A0,
     Sd S6 64 A0, Sd S7 72 A0, Sd S8 80 A0, Sd S9 88 A0, Sd S10 96 A0, Sd S11 104 A0, Ld RA 0 A1, Ld SP 8 A1,
     Ld S0 16 A1, Ld S1 24 A1, Ld S2 32 A1, Ld S3 40 A1, Ld S4 48 A1, Ld S5 56 A1, Ld S6 64 A1, Ld S7 72 A1,
     Ld S8 80 A1, Ld S9 88 A1, Ld S10 96 A1, Ld S11 104 A1, Jr RA]"

section \<open>kernelvec.S\<close>

text \<open>The code before and after the call of \<^verbatim>\<open>kerneltrap\<close>, and the handler of the machine's timer.\<close>

definition kernelvec_save :: "instr list" where
  "kernelvec_save = [
     Addi SP SP (- 256), Sd RA 0 SP, Sd SP 8 SP, Sd GP 16 SP, Sd TP 24 SP, Sd T0 32 SP, Sd T1 40 SP,
     Sd T2 48 SP, Sd S0 56 SP, Sd S1 64 SP, Sd A0 72 SP, Sd A1 80 SP, Sd A2 88 SP, Sd A3 96 SP, Sd A4 104 SP,
     Sd A5 112 SP, Sd A6 120 SP, Sd A7 128 SP, Sd S2 136 SP, Sd S3 144 SP, Sd S4 152 SP, Sd S5 160 SP,
     Sd S6 168 SP, Sd S7 176 SP, Sd S8 184 SP, Sd S9 192 SP, Sd S10 200 SP, Sd S11 208 SP, Sd T3 216 SP,
     Sd T4 224 SP, Sd T5 232 SP, Sd T6 240 SP]"

definition kernelvec_restore :: "instr list" where
  "kernelvec_restore = [
     Ld RA 0 SP, Ld SP 8 SP, Ld GP 16 SP, Ld T0 32 SP, Ld T1 40 SP, Ld T2 48 SP, Ld S0 56 SP, Ld S1 64 SP,
     Ld A0 72 SP, Ld A1 80 SP, Ld A2 88 SP, Ld A3 96 SP, Ld A4 104 SP, Ld A5 112 SP, Ld A6 120 SP,
     Ld A7 128 SP, Ld S2 136 SP, Ld S3 144 SP, Ld S4 152 SP, Ld S5 160 SP, Ld S6 168 SP, Ld S7 176 SP,
     Ld S8 184 SP, Ld S9 192 SP, Ld S10 200 SP, Ld S11 208 SP, Ld T3 216 SP, Ld T4 224 SP, Ld T5 232 SP,
     Ld T6 240 SP, Addi SP SP 256, Sret]"

definition timervec :: "instr list" where
  "timervec = [
     Csrrw A0 Mscratch A0, Sd A1 0 A0, Sd A2 8 A0, Sd A3 16 A0, Ld A1 24 A0, Ld A2 32 A0, Ld A3 0 A1,
     Add A3 A3 A2, Sd A3 0 A1, Li A1 2, Csrw Sip A1, Ld A3 16 A0, Ld A2 8 A0, Ld A1 0 A0,
     Csrrw A0 Mscratch A0, Mret]"

section \<open>trampoline.S\<close>

definition uservec :: "instr list" where
  "uservec = [
     Csrw Sscratch A0, Li A0 TRAPFRAME, Sd RA 40 A0, Sd SP 48 A0, Sd GP 56 A0, Sd TP 64 A0, Sd T0 72 A0,
     Sd T1 80 A0, Sd T2 88 A0, Sd S0 96 A0, Sd S1 104 A0, Sd A1 120 A0, Sd A2 128 A0, Sd A3 136 A0,
     Sd A4 144 A0, Sd A5 152 A0, Sd A6 160 A0, Sd A7 168 A0, Sd S2 176 A0, Sd S3 184 A0, Sd S4 192 A0,
     Sd S5 200 A0, Sd S6 208 A0, Sd S7 216 A0, Sd S8 224 A0, Sd S9 232 A0, Sd S10 240 A0, Sd S11 248 A0,
     Sd T3 256 A0, Sd T4 264 A0, Sd T5 272 A0, Sd T6 280 A0, Csrr T0 Sscratch, Sd T0 112 A0, Ld SP 8 A0,
     Ld TP 32 A0, Ld T0 16 A0, Ld T1 0 A0, Sfence, Csrw Satp T1, Sfence, Jr T0]"

definition userret :: "instr list" where
  "userret = [
     Sfence, Csrw Satp A0, Sfence, Li A0 TRAPFRAME, Ld RA 40 A0, Ld SP 48 A0, Ld GP 56 A0, Ld TP 64 A0,
     Ld T0 72 A0, Ld T1 80 A0, Ld T2 88 A0, Ld S0 96 A0, Ld S1 104 A0, Ld A1 120 A0, Ld A2 128 A0,
     Ld A3 136 A0, Ld A4 144 A0, Ld A5 152 A0, Ld A6 160 A0, Ld A7 168 A0, Ld S2 176 A0, Ld S3 184 A0,
     Ld S4 192 A0, Ld S5 200 A0, Ld S6 208 A0, Ld S7 216 A0, Ld S8 224 A0, Ld S9 232 A0, Ld S10 240 A0,
     Ld S11 248 A0, Ld T3 256 A0, Ld T4 264 A0, Ld T5 272 A0, Ld T6 280 A0, Ld A0 112 A0, Sret]"

end
