(* ===== verification/Switch.thy ===== *)
theory Switch
  imports Lowlevel
begin

text \<open>
  What the assembly code does: \<open>uservec\<close> and \<open>userret\<close> carry a user's registers through the trap frame,
  \<open>swtch\<close> exchanges contexts, \<open>kernelvec\<close> is invisible to the code it interrupts, and the machine's timer goes on
  for ever after \<open>start\<close> has set it up.
\<close>

section \<open>Windows of memory\<close>

text \<open>
  The \<open>n\<close> bytes at the virtual address \<open>va\<close> are those at the physical address \<open>pa\<close>, can be read and written, and
  stay so while only memory in \<open>W\<close> changes.
\<close>

definition window :: "mach \<Rightarrow> uint64 set \<Rightarrow> uint64 \<Rightarrow> uint64 \<Rightarrow> nat \<Rightarrow> bool" where
  "window m W va pa n \<longleftrightarrow> va mod 8 = 0 \<and> (\<forall>x ram off want. (\<forall>a. a \<notin> W \<longrightarrow> ram a = m_ram m a) \<longrightarrow> unat off < n \<longrightarrow> want \<in> {PTE_R, PTE_W} \<longrightarrow>
     translate (m\<lparr>m_x := x, m_ram := ram\<rparr>) want (va + off) = Some (pa + off))"

definition span :: "uint64 \<Rightarrow> nat \<Rightarrow> uint64 set" where
  "span a n = {b. unat (b - a) < n}"

lemma mod8_iff: "a mod 8 = 0 \<longleftrightarrow> 8 dvd unat a" for a :: uint64
  by (simp add: word_unat_eq_iff unat_mod dvd_eq_mod_eq_0)

lemma mod8_add: "a mod 8 = 0 \<Longrightarrow> b mod 8 = 0 \<Longrightarrow> (a + b) mod 8 = 0" for a b :: uint64
  unfolding mod8_iff by (simp add: unat_word_ariths dvd_mod)

lemma unat_add_le: "unat (a + b) \<le> unat a + unat b" for a b :: uint64
  by (simp add: unat_word_ariths)

lemma window_access:
  assumes w: "window m W va pa n" and "\<forall>a. a \<notin> W \<longrightarrow> ram a = m_ram m a" "unat off < n" "off mod 8 = 0" "want \<in> {PTE_R, PTE_W}"
  shows "access (m\<lparr>m_x := x, m_ram := ram\<rparr>) want (va + off) = Some (pa + off)"
proof -
  have "va mod 8 = 0" using w by (simp add: window_def)
  then have "(va + off) mod 8 = 0" using assms(4) by (rule mod8_add)
  then show ?thesis using w assms(2,3,5) unfolding access_def window_def by auto
qed

lemma translate_cong:
  assumes "m_csr s Satp = m_csr m Satp" "m_csr s Mstatus = m_csr m Mstatus" "m_priv s = m_priv m" "m_ram s = m_ram m"
  shows "translate s = translate m"
  unfolding translate_def assms ..

lemma window_access_at:
  assumes w: "window m W va pa n" and s: "m_csr s Satp = m_csr m Satp" "m_csr s Mstatus = m_csr m Mstatus" "m_priv s = m_priv m"
      "\<forall>a. a \<notin> W \<longrightarrow> m_ram s a = m_ram m a"
    and "unat off < n" "off mod 8 = 0" "want \<in> {PTE_R, PTE_W}"
  shows "access s want (va + off) = Some (pa + off)"
proof -
  have "translate s = translate (m\<lparr>m_x := m_x s, m_ram := m_ram s\<rparr>)" by (rule translate_cong) (simp_all add: s(1-3))
  then have "access s want (va + off) = access (m\<lparr>m_x := m_x s, m_ram := m_ram s\<rparr>) want (va + off)" by (simp add: access_def)
  then show ?thesis using window_access [OF w s(4) assms(6-8), of "m_x s"] by simp
qed

lemma window_cong:
  assumes w: "window m W va pa n" and s: "m_csr s Satp = m_csr m Satp" "m_csr s Mstatus = m_csr m Mstatus" "m_priv s = m_priv m"
      "\<forall>a. a \<notin> W \<longrightarrow> m_ram s a = m_ram m a"
  shows "window s W va pa n"
proof -
  have "translate (s\<lparr>m_x := x, m_ram := ram\<rparr>) = translate (m\<lparr>m_x := x, m_ram := ram\<rparr>)" for x ram
    by (rule translate_cong) (simp_all add: s)
  then show ?thesis using w s(4) unfolding window_def by simp
qed

lemma window_upd:
  assumes "window m W va pa n" "\<forall>a. a \<notin> W \<longrightarrow> ram a = m_ram m a"
  shows "window (m\<lparr>m_x := x, m_ram := ram\<rparr>) W va pa n"
  using assms unfolding window_def by simp

lemma load64_store64_apart:
  fixes off :: uint64
  assumes "off mod 8 = 0" "off' mod 8 = 0" "off \<noteq> off'"
  shows "load64 (store64 m (a + off) v) (a + off') = load64 m (a + off')"
proof (rule load64_cong)
  fix k :: nat assume k: "k < 8"
  let ?d = "off' - off"
  have "8 dvd unat ?d"
  proof (cases "off \<le> off'")
    case True then show ?thesis using assms(1,2) by (simp add: mod8_iff unat_sub dvd_diff_nat)
  next
    case False
    then have "unat ?d = 2 ^ 64 - (unat off - unat off')" 
      by (simp add: unat_sub_if' word_le_nat_alt)
    then show ?thesis using assms(1,2) by (simp add: mod8_iff dvd_diff_nat)
  qed
  then obtain q where q: "unat ?d = 8 * q" by (elim dvdE)
  have "unat ?d \<noteq> 0" using assms(3) by (simp add: unat_eq_0)
  then have q': "q \<noteq> 0" using q by simp
  have "q < 2 ^ 61" using q unsigned_less [of ?d, where ?'a = nat] by simp
  then have "8 * q + k < 2 ^ 64" using k by simp
  then have "unat (?d + of_nat k) = 8 * q + k" using q k by (simp add: unat_word_ariths unat_of_nat)
  then have "\<not> unat (a + off' + of_nat k - (a + off)) < 8" using q' by (simp add: algebra_simps)
  then show "store64 m (a + off) v (a + off' + of_nat k) = m (a + off' + of_nat k)" by (simp add: store64_apply)
qed

section \<open>Saving and restoring registers\<close>

definition saves :: "(reg \<times> uint64) list \<Rightarrow> reg \<Rightarrow> instr list" where
  "saves ts b = map (\<lambda>(r, off). Sd r off b) ts"

definition restores :: "(reg \<times> uint64) list \<Rightarrow> reg \<Rightarrow> instr list" where
  "restores ts b = map (\<lambda>(r, off). Ld r off b) ts"

definition fits_in :: "nat \<Rightarrow> (reg \<times> uint64) list \<Rightarrow> bool" where
  "fits_in n ts \<longleftrightarrow> list_all (\<lambda>(r, off). off mod 8 = 0 \<and> unat off + 8 \<le> n) ts \<and> distinct (map snd ts) \<and> distinct (map fst ts)"

lemma store64_out:
  assumes "unat off + 8 \<le> n" "a \<notin> span pa n"
  shows "store64 ram (pa + off) v a = ram a"
proof -
  have "\<not> unat (a - (pa + off)) < 8"
  proof
    assume u: "unat (a - (pa + off)) < 8"
    have "unat (a - pa) \<le> unat (a - (pa + off)) + unat off" using unat_add_le [of "a - (pa + off)" off] by simp
    then show False using u assms by (simp add: span_def)
  qed
  then show ?thesis by (simp add: store64_apply)
qed

lemma run_saves:
  assumes "window m W va pa n" "m_x m b = va" "fits_in n ts" "span pa n \<subseteq> W" "n < 2 ^ 63"
  shows "\<exists>ram. run_code (saves ts b) m = Some (m\<lparr>m_ram := ram\<rparr>) \<and> (\<forall>(r, off) \<in> set ts. load64 ram (pa + off) = m_x m r) \<and>
    (\<forall>off. off mod 8 = 0 \<and> off \<notin> snd ` set ts \<longrightarrow> load64 ram (pa + off) = load64 (m_ram m) (pa + off)) \<and>
    (\<forall>a. a \<notin> span pa n \<longrightarrow> ram a = m_ram m a)"
  using assms
proof (induction ts arbitrary: m)
  case Nil
  have "m = m\<lparr>m_ram := m_ram m\<rparr>" by simp
  then show ?case by (intro exI [of _ "m_ram m"]) (simp add: saves_def)
next
  case (Cons e ts)
  obtain r off where e: "e = (r, off)" by force
  have off: "off mod 8 = 0" "unat off + 8 \<le> n" "fits_in n ts" "off \<notin> snd ` set ts" using Cons.prems(3) by (auto simp: fits_in_def e)
  let ?ram = "store64 (m_ram m) (pa + off) (m_x m r)"
  have out: "?ram a = m_ram m a" if "a \<notin> span pa n" for a using off(2) that by (rule store64_out)
  have acc: "access (m\<lparr>m_x := m_x m, m_ram := m_ram m\<rparr>) PTE_W (va + off) = Some (pa + off)"
    by (rule window_access [OF Cons.prems(1)]) (use off in auto)
  have "window (m\<lparr>m_x := m_x m, m_ram := ?ram\<rparr>) W va pa n"
    using Cons.prems(4) out by (intro window_upd [OF Cons.prems(1)]) auto
  then have w: "window (m\<lparr>m_ram := ?ram\<rparr>) W va pa n" by simp
  from Cons.IH [OF w _ off(3) Cons.prems(4,5)] Cons.prems(2) obtain ram where
    ram: "run_code (saves ts b) (m\<lparr>m_ram := ?ram\<rparr>) = Some (m\<lparr>m_ram := ram\<rparr>)"
    "\<forall>(r, off) \<in> set ts. load64 ram (pa + off) = m_x m r"
    "\<forall>off. off mod 8 = 0 \<and> off \<notin> snd ` set ts \<longrightarrow> load64 ram (pa + off) = load64 ?ram (pa + off)"
    "\<forall>a. a \<notin> span pa n \<longrightarrow> ram a = ?ram a" by auto
  have "run_code (saves (e # ts) b) m = Some (m\<lparr>m_ram := ram\<rparr>)"
    using ram(1) acc Cons.prems(2) by (simp add: saves_def e)
  moreover have "load64 ram (pa + off) = m_x m r" using ram(3) off(1,4) by simp
  moreover have "load64 ram (pa + o') = load64 (m_ram m) (pa + o')" if "o' mod 8 = 0" "o' \<notin> snd ` set (e # ts)" for o'
    using ram(3) that load64_store64_apart [OF off(1) that(1)] by (auto simp: e)
  ultimately show ?case using ram(2,4) out by (intro exI [of _ ram]) (auto simp: e)
qed

definition loaded :: "(reg \<times> uint64) list \<Rightarrow> ram \<Rightarrow> uint64 \<Rightarrow> (reg \<Rightarrow> uint64) \<Rightarrow> reg \<Rightarrow> uint64" where
  "loaded ts ram pa x r = (case map_of ts r of None \<Rightarrow> x r | Some off \<Rightarrow> load64 ram (pa + off))"

lemma run_restores:
  assumes "window m W va pa n" "m_x m b = va" "fits_in n ts" "\<And>off. (b, off) \<in> set ts \<Longrightarrow> load64 (m_ram m) (pa + off) = va"
  shows "run_code (restores ts b) m = Some (m\<lparr>m_x := loaded ts (m_ram m) pa (m_x m)\<rparr>)"
  using assms
proof (induction ts arbitrary: m)
  case Nil
  have "loaded [] (m_ram m) pa (m_x m) = m_x m" by (simp add: loaded_def fun_eq_iff)
  then show ?case by (simp add: restores_def)
next
  case (Cons e ts)
  obtain r off where e: "e = (r, off)" by force
  have off: "off mod 8 = 0" "unat off + 8 \<le> n" "fits_in n ts" "r \<notin> fst ` set ts" using Cons.prems(3) by (auto simp: fits_in_def e)
  have acc: "access (m\<lparr>m_x := m_x m, m_ram := m_ram m\<rparr>) PTE_R (va + off) = Some (pa + off)"
    by (rule window_access [OF Cons.prems(1)]) (use off in auto)
  let ?v = "load64 (m_ram m) (pa + off)"
  let ?m = "set_x r ?v m"
  have m: "?m = m\<lparr>m_x := (m_x m)(r := ?v), m_ram := m_ram m\<rparr>" by (simp add: set_x_def)
  have w: "window ?m W va pa n" unfolding m by (rule window_upd [OF Cons.prems(1)]) simp
  have b: "m_x ?m b = va" using Cons.prems(2,4) by (auto simp: set_x_def e)
  have nr: "map_of ts r = None" using off(4) by (simp add: map_of_eq_None_iff)
  have "run_code (restores (e # ts) b) m = run_code (restores ts b) ?m"
    using acc Cons.prems(2) by (simp add: restores_def e)
  also have "\<dots> = Some (?m\<lparr>m_x := loaded ts (m_ram ?m) pa (m_x ?m)\<rparr>)"
    by (rule Cons.IH [OF w b off(3)]) (use Cons.prems(4) in \<open>auto simp: set_x_def e\<close>)
  also have "loaded ts (m_ram ?m) pa (m_x ?m) = loaded (e # ts) (m_ram m) pa (m_x m)"
    using nr by (auto simp: set_x_def loaded_def e fun_eq_iff split: option.splits)
  finally show ?case by (simp add: set_x_def)
qed

lemma loaded_eq:
  assumes "\<And>r off. (r, off) \<in> set ts \<Longrightarrow> load64 ram (pa + off) = f r"
  shows "loaded ts ram pa x r = (if r \<in> fst ` set ts then f r else x r)"
proof (cases "map_of ts r")
  case None
  then have "r \<notin> fst ` set ts" by (simp add: map_of_eq_None_iff)
  with None show ?thesis by (simp add: loaded_def)
next
  case (Some off)
  then have "(r, off) \<in> set ts" by (rule map_of_SomeD)
  then show ?thesis using Some assms by (force simp: loaded_def)
qed

section \<open>Context switches\<close>

definition s_regs :: "reg list" where
  "s_regs = [S0, S1, S2, S3, S4, S5, S6, S7, S8, S9, S10, S11]"

text \<open>\<^verbatim>\<open>struct context\<close> in memory, and as the registers hold it.\<close>

definition ctx_at :: "ram \<Rightarrow> uint64 \<Rightarrow> kcontext" where
  "ctx_at ram a = \<lparr>ctx_ra = load64 ram a, ctx_sp = load64 ram (a + 8),
     ctx_s = (\<lambda>i. if i < 12 then load64 ram (a + (16 + 8 * of_nat i)) else 0)\<rparr>"

definition ctx_of :: "mach \<Rightarrow> kcontext" where
  "ctx_of m = \<lparr>ctx_ra = m_x m RA, ctx_sp = m_x m SP, ctx_s = (\<lambda>i. if i < 12 then m_x m (s_regs ! i) else 0)\<rparr>"

definition ctx_table :: "(reg \<times> uint64) list" where
  "ctx_table = (RA, 0) # (SP, 8) # map (\<lambda>i. (s_regs ! i, 16 + 8 * of_nat i)) [0..<12]"

lemma upt_12: "[0..<12] = [0, 1, 2, 3, 4, 5, 6, 7, 8, 9, 10, 11 :: nat]"
  by (simp add: upt_rec)

lemma ctx_table_eq: "ctx_table = [(RA, 0), (SP, 8), (S0, 16), (S1, 24), (S2, 32), (S3, 40), (S4, 48), (S5, 56), (S6, 64), (S7, 72),
   (S8, 80), (S9, 88), (S10, 96), (S11, 104)]"
  by (simp add: ctx_table_def upt_12 s_regs_def)

lemma swtch_eq: "swtch = saves ctx_table A0 @ restores ctx_table A1 @ [Jr RA]"
  by (simp add: swtch_def ctx_table_eq saves_def restores_def)

lemma ctx_fits: "fits_in 112 ctx_table"
  by (simp add: ctx_table_eq fits_in_def)


lemma ctx_eqI:
  assumes "\<forall>(r, off) \<in> set ctx_table. load64 ram (a + off) = m_x m r"
  shows "ctx_at ram a = ctx_of m"
proof -
  have "\<forall>i < 12. load64 ram (a + (16 + 8 * of_nat i)) = m_x m (s_regs ! i)"
    using assms by (simp add: ctx_table_def)
  then show ?thesis using assms by (auto simp: ctx_at_def ctx_of_def ctx_table_eq fun_eq_iff)
qed

lemma load64_span:
  assumes "\<forall>a \<in> span b n. ram a = ram' a" "unat off + 8 \<le> n"
  shows "load64 ram (b + off) = load64 ram' (b + off)"
proof (rule load64_cong)
  fix k :: nat assume "k < 8"
  then have "unat (of_nat k :: uint64) = k" by (simp add: unat_of_nat)
  then have "unat (off + of_nat k) < n" using unat_add_le [of off "of_nat k"] assms(2) \<open>k < 8\<close> by linarith
  then show "ram (b + off + of_nat k) = ram' (b + off + of_nat k)" using assms(1) by (simp add: span_def algebra_simps)
qed

lemma ctx_at_span:
  assumes "\<forall>a \<in> span b 112. ram a = ram' a"
  shows "ctx_at ram b = ctx_at ram' b"
proof -
  have "load64 ram (b + (16 + 8 * of_nat i)) = load64 ram' (b + (16 + 8 * of_nat i))" if "i < 12" for i
  proof (rule load64_span [OF assms])
    have "unat (16 + 8 * of_nat i :: uint64) = 16 + 8 * i" using that by (simp add: unat_word_ariths unat_of_nat)
    then show "unat (16 + 8 * of_nat i :: uint64) + 8 \<le> 112" using that by simp
  qed
  then show ?thesis using load64_span [OF assms, of 0] load64_span [OF assms, of 8] by (simp add: ctx_at_def fun_eq_iff)
qed

text \<open>A call \<^verbatim>\<open>swtch(old, new)\<close> in the kernel, to which both contexts are mapped.\<close>

definition swtch_call :: "mach \<Rightarrow> uint64 \<Rightarrow> uint64 \<Rightarrow> bool" where
  "swtch_call m old new \<longleftrightarrow> m_x m A0 = old \<and> m_x m A1 = new \<and> window m (span old 112) old old 112 \<and>
     window m (span old 112) new new 112 \<and> span old 112 \<inter> span new 112 = {}"

lemma swtch_run:
  assumes "swtch_call m old new"
  shows "\<exists>m'. run_code swtch m = Some m' \<and> ctx_at (m_ram m') old = ctx_of m \<and> ctx_of m' = ctx_at (m_ram m) new \<and>
    m_pc m' = ctx_ra (ctx_at (m_ram m) new) \<and> (\<forall>r. r \<notin> fst ` set ctx_table \<longrightarrow> m_x m' r = m_x m r) \<and>
    (\<forall>a. a \<notin> span old 112 \<longrightarrow> m_ram m' a = m_ram m a) \<and> m_csr m' = m_csr m \<and> m_priv m' = m_priv m"
proof -
  note c = assms [unfolded swtch_call_def]
  have w: "window m (span old 112) old old 112" "m_x m A0 = old" using c by auto
  from run_saves [OF w ctx_fits] obtain ram where
    ram: "run_code (saves ctx_table A0) m = Some (m\<lparr>m_ram := ram\<rparr>)" "\<forall>(r, off) \<in> set ctx_table. load64 ram (old + off) = m_x m r"
      "\<forall>a. a \<notin> span old 112 \<longrightarrow> ram a = m_ram m a" by auto
  let ?m = "m\<lparr>m_ram := ram\<rparr>"
  let ?x = "loaded ctx_table ram new (m_x m)"
  have "window (m\<lparr>m_x := m_x m, m_ram := ram\<rparr>) (span old 112) new new 112" using c ram(3) by (intro window_upd) auto
  then have w': "window ?m (span old 112) new new 112" by simp
  have no_base: "(A1, off) \<notin> set ctx_table" for off by (simp add: ctx_table_eq)
  have r: "run_code (restores ctx_table A1) ?m = Some (?m\<lparr>m_x := ?x\<rparr>)"
    using run_restores [OF w' _ ctx_fits, of A1] c no_base by simp
  let ?m' = "m\<lparr>m_x := ?x, m_pc := ?x RA, m_ram := ram\<rparr>"
  have run: "run_code swtch m = Some ?m'" using ram(1) r by (simp add: swtch_eq run_code_append)
  have "\<forall>a \<in> span new 112. ram a = m_ram m a" using c ram(3) by blast
  then have new: "ctx_at ram new = ctx_at (m_ram m) new" by (rule ctx_at_span)
  have "ctx_of ?m' = ctx_at ram new" by (rule ctx_eqI [symmetric]) (simp add: ctx_table_eq loaded_def)
  moreover have "?x RA = ctx_ra (ctx_at ram new)" by (simp add: ctx_at_def ctx_table_eq loaded_def)
  moreover have "?x r = m_x m r" if "r \<notin> fst ` set ctx_table" for r using that by (simp add: loaded_def map_of_eq_None_iff [THEN iffD2])
  ultimately show ?thesis using run ctx_eqI [OF ram(2)] ram(3) new by (intro exI [of _ ?m']) simp
qed

text \<open>
  C11: A context switch is undone by the switch back. \<open>swtch(old, new)\<close> stores the caller's return address, stack
  pointer and callee-saved registers in \<open>old\<close>, takes those of \<open>new\<close> and goes on where \<open>new\<close> was left, changing
  nothing else. When any later state of a hart, which still has that \<open>old\<close> in memory, switches to \<open>old\<close>, its
  registers are the first caller's again and it returns to that caller; the place of the second caller is stored in turn.
\<close>

theorem swtch_switches_back:
  assumes "swtch_call m old new"
  shows "\<exists>m1. run_code swtch m = Some m1 \<and> ctx_of m1 = ctx_at (m_ram m) new \<and> m_pc m1 = ctx_ra (ctx_at (m_ram m) new) \<and>
    (\<forall>r. r \<notin> set (RA # SP # s_regs) \<longrightarrow> m_x m1 r = m_x m r) \<and> (\<forall>a. a \<notin> span old 112 \<longrightarrow> m_ram m1 a = m_ram m a) \<and>
    m_csr m1 = m_csr m \<and> m_priv m1 = m_priv m \<and>
    (\<forall>n other. swtch_call n other old \<and> (\<forall>a \<in> span old 112. m_ram n a = m_ram m1 a) \<longrightarrow>
      (\<exists>n'. run_code swtch n = Some n' \<and> ctx_of n' = ctx_of m \<and> m_pc n' = m_x m RA \<and> ctx_at (m_ram n') other = ctx_of n))"
proof -
  have regs: "fst ` set ctx_table = set (RA # SP # s_regs)" by (auto simp: ctx_table_eq s_regs_def)
  from swtch_run [OF assms] obtain m1 where
    m1: "run_code swtch m = Some m1" "ctx_at (m_ram m1) old = ctx_of m" "ctx_of m1 = ctx_at (m_ram m) new"
      "m_pc m1 = ctx_ra (ctx_at (m_ram m) new)" "\<forall>r. r \<notin> fst ` set ctx_table \<longrightarrow> m_x m1 r = m_x m r"
      "\<forall>a. a \<notin> span old 112 \<longrightarrow> m_ram m1 a = m_ram m a" "m_csr m1 = m_csr m" "m_priv m1 = m_priv m" by blast
  have second: "\<exists>n'. run_code swtch n = Some n' \<and> ctx_of n' = ctx_of m \<and> m_pc n' = m_x m RA \<and> ctx_at (m_ram n') other = ctx_of n"
    if n: "swtch_call n other old" "\<forall>a \<in> span old 112. m_ram n a = m_ram m1 a" for n other
  proof -
    have "ctx_at (m_ram n) old = ctx_of m" using ctx_at_span [OF n(2)] m1(2) by simp
    moreover have "ctx_ra (ctx_of m) = m_x m RA" by (simp add: ctx_of_def)
    ultimately show ?thesis using swtch_run [OF n(1)] by auto
  qed
  show ?thesis using m1 second unfolding regs by (intro exI [of _ m1]) blast
qed

text \<open>Without a page table every address is its own.\<close>

lemma window_bare: "m_csr m Satp = 0 \<Longrightarrow> va mod 8 = 0 \<Longrightarrow> window m W va va n"
  by (simp add: window_def translate_def)

definition mach0 :: mach where
  "mach0 = \<lparr>m_x = (\<lambda>r. case r of A0 \<Rightarrow> 0x80010000 | A1 \<Rightarrow> 0x80020000 | SP \<Rightarrow> 0x80008000 | RA \<Rightarrow> 0x80000400 | S3 \<Rightarrow> 33 | _ \<Rightarrow> 1),
     m_csr = (\<lambda>_. 0), m_priv = Supervisor, m_pc = 0x80000000, m_ram = (\<lambda>_. 0)\<rparr>"

lemma span_apart:
  assumes "unat a + n \<le> unat b" "unat b + n \<le> 2 ^ 64"
  shows "span a n \<inter> span b n = {}"
proof -
  have False if "unat (x - a) < n" "unat (x - b) < n" for x
  proof -
    have "unat x = unat (a + (x - a))" "unat x = unat (b + (x - b))" by simp_all
    then have "unat x = unat a + unat (x - a)" "unat x = unat b + unat (x - b)" using assms that by (simp_all only: unat_word_ariths) simp_all
    then show False using assms that by linarith
  qed
  then show ?thesis by (auto simp: span_def)
qed

theorem swtch_switches_back_witness:
  "\<exists>m1 n'. run_code swtch mach0 = Some m1 \<and> m_pc m1 = 0 \<and>
     run_code swtch (m1\<lparr>m_x := (m_x m1)(A0 := 0x80030000, A1 := 0x80010000)\<rparr>) = Some n' \<and>
     m_pc n' = 0x80000400 \<and> ctx_of n' = ctx_of mach0 \<and> m_x mach0 S3 = 33"
proof -
  have "swtch_call mach0 0x80010000 0x80020000"
    unfolding swtch_call_def by (intro conjI window_bare span_apart) (simp_all add: mach0_def)
  from swtch_switches_back [OF this] obtain m1 where
    m1: "run_code swtch mach0 = Some m1" "m_pc m1 = ctx_ra (ctx_at (m_ram mach0) 0x80020000)" "m_csr m1 = m_csr mach0"
      "\<forall>n other. swtch_call n other 0x80010000 \<and> (\<forall>a \<in> span 0x80010000 112. m_ram n a = m_ram m1 a) \<longrightarrow>
      (\<exists>n'. run_code swtch n = Some n' \<and> ctx_of n' = ctx_of mach0 \<and> m_pc n' = m_x mach0 RA \<and> ctx_at (m_ram n') other = ctx_of n)"
    by blast
  have "ram_get (\<lambda>_. 0) a 8 = replicate 8 0" for a by (simp add: ram_get_def map_replicate_const)
  then have "load64 (\<lambda>_. 0) a = 0" for a by (simp add: load64_def eval_nat_numeral)
  then have pc: "m_pc m1 = 0" using m1(2) by (simp add: ctx_at_def mach0_def)
  let ?n = "m1\<lparr>m_x := (m_x m1)(A0 := 0x80030000, A1 := 0x80010000)\<rparr>"
  have "span 0x80010000 112 \<inter> span 0x80030000 112 = {}" by (rule span_apart) simp_all
  then have "swtch_call ?n 0x80030000 0x80010000"
    unfolding swtch_call_def using m1(3) by (intro conjI window_bare) (auto simp: mach0_def)
  from m1(4) [rule_format, of ?n, OF conjI, OF this] obtain n' where
    "run_code swtch ?n = Some n'" "ctx_of n' = ctx_of mach0" "m_pc n' = m_x mach0 RA" by auto
  then show ?thesis using m1(1) pc by (intro exI [of _ m1] exI [of _ n']) (simp add: mach0_def)
qed

section \<open>Traps in the kernel\<close>

definition kv_table :: "(reg \<times> uint64) list" where
  "kv_table = [(RA, 0), (SP, 8), (GP, 16), (TP, 24), (T0, 32), (T1, 40), (T2, 48), (S0, 56), (S1, 64), (A0, 72), (A1, 80), (A2, 88),
     (A3, 96), (A4, 104), (A5, 112), (A6, 120), (A7, 128), (S2, 136), (S3, 144), (S4, 152), (S5, 160), (S6, 168), (S7, 176),
     (S8, 184), (S9, 192), (S10, 200), (S11, 208), (T3, 216), (T4, 224), (T5, 232), (T6, 240)]"

lemma kernelvec_save_eq: "kernelvec_save = Addi SP SP (- 256) # saves kv_table SP"
  by (simp add: kernelvec_save_def kv_table_def saves_def)

lemma kernelvec_restore_eq:
  "kernelvec_restore = restores (filter (\<lambda>(r, off). r \<noteq> TP) kv_table) SP @ [Addi SP SP 256, Sret]"
  by (simp add: kernelvec_restore_def kv_table_def restores_def)

lemma kv_fits: "fits_in 256 kv_table" "fits_in 256 (filter (\<lambda>(r, off). r \<noteq> TP) kv_table)"
  by (simp_all add: kv_table_def fits_in_def)

text \<open>
  C40: A trap in the kernel is invisible to the code it interrupts, but for the hart it goes on on. \<open>kernelvec\<close> saves
  below the stack pointer; after any call of \<^verbatim>\<open>kerneltrap\<close> that gives the stack back as it was, every register
  except \<^verbatim>\<open>tp\<close>, which is that of the hart the handler returned on, has its old value, and the hart
  continues at \<^verbatim>\<open>sepc\<close> in the mode that \<^verbatim>\<open>sstatus\<close> tells.
\<close>

theorem kernelvec_transparent:
  assumes w: "window m (span pa 256) (m_x m SP - 256) pa 256"
  shows "\<exists>m1. run_code kernelvec_save m = Some m1 \<and> m_x m1 SP = m_x m SP - 256 \<and> m_csr m1 = m_csr m \<and> m_priv m1 = m_priv m \<and>
    (\<forall>a. a \<notin> span pa 256 \<longrightarrow> m_ram m1 a = m_ram m a) \<and>
    (\<forall>m2. m_x m2 SP = m_x m1 SP \<and> (\<forall>a \<in> span pa 256. m_ram m2 a = m_ram m1 a) \<and> window m2 {} (m_x m1 SP) pa 256 \<longrightarrow>
      (\<exists>m3. run_code kernelvec_restore m2 = Some m3 \<and> m_x m3 = (m_x m)(TP := m_x m2 TP) \<and> m_ram m3 = m_ram m2 \<and>
         m_pc m3 = m_csr m2 Sepc \<and> m_priv m3 = (if bit (m_csr m2 Mstatus) 8 then Supervisor else User)))"
proof -
  let ?sp = "m_x m SP - 256"
  let ?m = "set_x SP ?sp m"
  have "window (m\<lparr>m_x := (m_x m)(SP := ?sp), m_ram := m_ram m\<rparr>) (span pa 256) ?sp pa 256" by (rule window_upd [OF w]) simp
  then have w1: "window ?m (span pa 256) ?sp pa 256" by (simp add: set_x_def)
  from run_saves [OF w1 _ kv_fits(1), of SP] obtain ram where
    ram: "run_code (saves kv_table SP) ?m = Some (?m\<lparr>m_ram := ram\<rparr>)"
      "\<forall>(r, off) \<in> set kv_table. load64 ram (pa + off) = m_x ?m r" "\<forall>a. a \<notin> span pa 256 \<longrightarrow> ram a = m_ram ?m a"
    by (auto simp: set_x_def)
  let ?m1 = "?m\<lparr>m_ram := ram\<rparr>"
  have 1: "run_code kernelvec_save m = Some ?m1" using ram(1) by (simp add: kernelvec_save_eq)
  have 2: "\<exists>m3. run_code kernelvec_restore m2 = Some m3 \<and> m_x m3 = (m_x m)(TP := m_x m2 TP) \<and> m_ram m3 = m_ram m2 \<and>
         m_pc m3 = m_csr m2 Sepc \<and> m_priv m3 = (if bit (m_csr m2 Mstatus) 8 then Supervisor else User)"
    if m2: "m_x m2 SP = ?sp" "\<forall>a \<in> span pa 256. m_ram m2 a = ram a" "window m2 {} ?sp pa 256" for m2
  proof -
    have ld: "load64 (m_ram m2) (pa + off) = m_x ?m r" if "(r, off) \<in> set kv_table" for r off
    proof -
      have "unat off + 8 \<le> 256" using that kv_fits(1) by (auto simp: fits_in_def list_all_iff)
      from load64_span [OF m2(2) this] show ?thesis using ram(2) that by auto
    qed
    let ?ts = "filter (\<lambda>(r, off). r \<noteq> TP) kv_table"
    let ?x = "loaded ?ts (m_ram m2) pa (m_x m2)"
    have r: "run_code (restores ?ts SP) m2 = Some (m2\<lparr>m_x := ?x\<rparr>)"
      by (rule run_restores [OF m2(3) m2(1) kv_fits(2)]) (use ld in \<open>auto simp: set_x_def\<close>)
    have "fst ` set ?ts = - {TP}" using reg.exhaust by (auto simp: kv_table_def)
    then have x: "?x r = (if r = TP then m_x m2 TP else m_x ?m r)" for r
      using loaded_eq [of ?ts "m_ram m2" pa "m_x ?m" "m_x m2" r] ld by auto
    have "?x(SP := ?x SP + 256) = (m_x m)(TP := m_x m2 TP)" by (rule ext) (simp add: x set_x_def)
    then show ?thesis using r by (simp add: kernelvec_restore_eq run_code_append do_sret_def Let_def set_x_def csr_set_def)
  qed
  show ?thesis using 1 2 ram(3) by (intro exI [of _ ?m1]) (simp add: set_x_def)
qed

theorem kernelvec_transparent_witness:
  "\<exists>m1 m3. run_code kernelvec_save mach0 = Some m1 \<and> m_x m1 SP = 0x80007F00 \<and>
     run_code kernelvec_restore (m1\<lparr>m_x := (\<lambda>r. if r = SP then 0x80007F00 else 5)\<rparr>) = Some m3 \<and> m_x m3 = (m_x mach0)(TP := 5)"
proof -
  have w: "window m W 0x80007F00 0x80007F00 n" if "m_csr m = (\<lambda>_. 0)" for m W n by (rule window_bare) (simp_all add: that)
  have "window mach0 (span 0x80007F00 256) (m_x mach0 SP - 256) 0x80007F00 256" using w [of mach0] by (simp add: mach0_def)
  from kernelvec_transparent [OF this] obtain m1 where
    m1: "run_code kernelvec_save mach0 = Some m1" "m_x m1 SP = m_x mach0 SP - 256" "m_csr m1 = m_csr mach0"
      "\<forall>m2. m_x m2 SP = m_x m1 SP \<and> (\<forall>a \<in> span 0x80007F00 256. m_ram m2 a = m_ram m1 a) \<and> window m2 {} (m_x m1 SP) 0x80007F00 256 \<longrightarrow>
      (\<exists>m3. run_code kernelvec_restore m2 = Some m3 \<and> m_x m3 = (m_x mach0)(TP := m_x m2 TP) \<and> m_ram m3 = m_ram m2 \<and>
         m_pc m3 = m_csr m2 Sepc \<and> m_priv m3 = (if bit (m_csr m2 Mstatus) 8 then Supervisor else User))" by blast
  have sp: "m_x m1 SP = 0x80007F00" using m1(2) by (simp add: mach0_def)
  let ?m2 = "m1\<lparr>m_x := (\<lambda>r. if r = SP then 0x80007F00 else 5)\<rparr>"
  have "window ?m2 {} (m_x m1 SP) 0x80007F00 256" using w [of ?m2] m1(3) sp by (simp add: mach0_def)
  with m1(4) [rule_format, of ?m2] sp show ?thesis using m1(1) by auto
qed

section \<open>Traps from user space\<close>

text \<open>\<^verbatim>\<open>struct trapframe\<close>: its fields in order, eight bytes each.\<close>

datatype tf_field = Kernel_satp | Kernel_sp | Kernel_trap | Epc | Kernel_hartid | Reg reg

definition trapframe :: "tf_field list" where
  "trapframe = [Kernel_satp, Kernel_sp, Kernel_trap, Epc, Kernel_hartid, Reg RA, Reg SP, Reg GP, Reg TP, Reg T0, Reg T1, Reg T2,
     Reg S0, Reg S1, Reg A0, Reg A1, Reg A2, Reg A3, Reg A4, Reg A5, Reg A6, Reg A7, Reg S2, Reg S3, Reg S4, Reg S5, Reg S6,
     Reg S7, Reg S8, Reg S9, Reg S10, Reg S11, Reg T3, Reg T4, Reg T5, Reg T6]"

definition tf_off :: "tf_field \<Rightarrow> uint64" where
  "tf_off f = 8 * of_nat (length (takeWhile (\<lambda>g. g \<noteq> f) trapframe))"

definition tf_get :: "ram \<Rightarrow> uint64 \<Rightarrow> tf_field \<Rightarrow> uint64" where
  "tf_get ram tf f = load64 ram (tf + tf_off f)"

definition uv_table :: "(reg \<times> uint64) list" where
  "uv_table = map (\<lambda>r. (r, tf_off (Reg r))) [RA, SP, GP, TP, T0, T1, T2, S0, S1, A1, A2, A3, A4, A5, A6, A7, S2, S3, S4, S5, S6,
     S7, S8, S9, S10, S11, T3, T4, T5, T6]"

lemma uv_table_eq: "uv_table = [(RA, 40), (SP, 48), (GP, 56), (TP, 64), (T0, 72), (T1, 80), (T2, 88), (S0, 96), (S1, 104), (A1, 120),
   (A2, 128), (A3, 136), (A4, 144), (A5, 152), (A6, 160), (A7, 168), (S2, 176), (S3, 184), (S4, 192), (S5, 200), (S6, 208), (S7, 216),
   (S8, 224), (S9, 232), (S10, 240), (S11, 248), (T3, 256), (T4, 264), (T5, 272), (T6, 280)]"
  by (simp add: uv_table_def tf_off_def trapframe_def)

lemma tf_off_eqs: "tf_off Kernel_satp = 0" "tf_off Kernel_sp = 8" "tf_off Kernel_trap = 16" "tf_off Epc = 24" "tf_off Kernel_hartid = 32" "tf_off (Reg A0) = 112"
  by (simp_all add: tf_off_def trapframe_def)

definition uservec_tail :: "instr list" where
  "uservec_tail = [Csrr T0 Sscratch, Sd T0 112 A0, Ld SP 8 A0, Ld TP 32 A0, Ld T0 16 A0, Ld T1 0 A0, Sfence, Csrw Satp T1, Sfence, Jr T0]"

lemma uservec_eq: "uservec = [Csrw Sscratch A0, Li A0 TRAPFRAME] @ saves uv_table A0 @ uservec_tail"
  by (simp add: uservec_def uv_table_eq saves_def uservec_tail_def)

lemma userret_eq: "userret = [Sfence, Csrw Satp A0, Sfence, Li A0 TRAPFRAME] @ restores uv_table A0 @ [Ld A0 112 A0, Sret]"
  by (simp add: userret_def uv_table_eq restores_def)

lemma uv_mem: "r \<noteq> A0 \<Longrightarrow> (r, tf_off (Reg r)) \<in> set uv_table"
  by (cases r) (simp_all add: uv_table_def)

lemma uv_off: "(r, off) \<in> set uv_table \<Longrightarrow> off = tf_off (Reg r)"
  unfolding uv_table_def set_map by blast

lemma uv_fits: "fits_in 4096 uv_table"
  by (simp add: uv_table_eq fits_in_def)

text \<open>The page table \<open>root\<close> maps the page \<open>tf\<close> at \<^verbatim>\<open>TRAPFRAME\<close>, as \<^verbatim>\<open>proc_pagetable\<close> does.\<close>

definition tf_mapped :: "symtab \<Rightarrow> ram \<Rightarrow> uint64 \<Rightarrow> uint64 \<Rightarrow> bool" where
  "tf_mapped sy ram root tf \<longleftrightarrow> pt_wf sy ram root \<and> leaf ram root TRAPFRAME = PA2PTE tf OR (PTE_R OR PTE_W) OR PTE_V \<and>
     page_aligned tf \<and> \<not> is_tbl ram root tf"

lemma satp_root_MAKE_SATP:
  assumes "page_aligned root" "root < PHYSTOP"
  shows "satp_root (MAKE_SATP root) = root" "drop_bit 60 (MAKE_SATP root) = 8"
proof -
  have lo: "\<not> bit root n" if "n < 12" for n
    using assms(1) that by (metis bit_take_bit_iff page_aligned_iff bit_0_eq bot_apply bot_bool_def)
  have "root < MAXVA" using assms(2) by (simp add: word_less_nat_alt)
  then have hi: "\<not> bit root n" if "38 \<le> n" for n using that by (rule bits_above_va)
  have e: "bit (8 :: uint64) n \<longleftrightarrow> n = 3" for n using bit_exp_iff [of 3 n, where 'a = "64 word"] by auto
  show "satp_root (MAKE_SATP root) = root"
  proof (rule bit_word_eqI)
    fix n assume "n < LENGTH(64)"
    show "bit (satp_root (MAKE_SATP root)) n = bit root n"
      using lo [of n] hi [of n] \<open>n < LENGTH(64)\<close> by (cases "n < 12"; cases "38 \<le> n") (auto simp: satp_root_def MAKE_SATP_def bit_simps e)
  qed
  show "drop_bit 60 (MAKE_SATP root) = 8"
    unfolding MAKE_SATP_def by (rule bit_word_eqI) (use lo hi in \<open>auto simp: bit_simps e\<close>)
qed

lemma pte_rw: "(PA2PTE p OR 7) AND PTE_R = PTE_R" "(PA2PTE p OR 7) AND PTE_W = PTE_W" "(PA2PTE p OR 7) AND PTE_U = 0"
proof -
  have b: "bit (2 :: uint64) n \<longleftrightarrow> n = 1" "bit (4 :: uint64) n \<longleftrightarrow> n = 2" "bit (16 :: uint64) n \<longleftrightarrow> n = 4" for n
    using bit_exp_iff [of 1 n, where 'a = "64 word"] bit_exp_iff [of 2 n, where 'a = "64 word"] bit_exp_iff [of 4 n, where 'a = "64 word"] by auto
  have "(7 :: uint64) = mask 3" by (simp add: mask_eq_exp_minus_1)
  then have c: "bit (7 :: uint64) n \<longleftrightarrow> n < 3" for n by (simp only: bit_mask_iff) auto
  have d: "\<not> bit (PA2PTE p) n" if "n < 10" for n using that by (simp add: PA2PTE_def bit_simps)
  show "(PA2PTE p OR 7) AND PTE_R = PTE_R" "(PA2PTE p OR 7) AND PTE_W = PTE_W" "(PA2PTE p OR 7) AND PTE_U = 0"
    by (rule bit_word_eqI; simp only: bit_and_iff bit_or_iff bit_0_eq bot_apply bot_bool_def b c; use d in auto)+
qed

lemma trapframe_window:
  assumes p: "m_priv m = Supervisor" "m_csr m Satp = MAKE_SATP root" and t: "tf_mapped sy (m_ram m) root tf"
  shows "window m (span tf 4096) TRAPFRAME tf 4096"
  unfolding window_def
proof (intro conjI allI impI)
  fix x ram and off want :: uint64
  assume ram: "\<forall>a. a \<notin> span tf 4096 \<longrightarrow> ram a = m_ram m a" and off: "unat off < 4096" and want: "want \<in> {PTE_R, PTE_W}"
  note t' = t [unfolded tf_mapped_def]
  have r: "page_ok sy root" using t' is_tblI [of "m_ram m" root 0 0 root] pt_wf_page by auto
  have o: "off < PGSIZE" using off by (simp add: word_less_nat_alt)
  have al: "page_aligned TRAPFRAME" by (simp add: page_aligned_def)
  note pg = PGROUNDDOWN_add [OF al o]
  have va: "TRAPFRAME + off < MAXVA" "TRAPFRAME < MAXVA" using MAXVA_page [of "TRAPFRAME + off"] pg(1) by simp_all
  have same: "ram a = m_ram m a" if "is_tbl (m_ram m) root p" "in_page p a" for p a
  proof -
    have "p \<noteq> tf" using that(1) t' by auto
    then have "\<not> in_page tf a" using that(2) by (auto simp: in_page_def)
    then have "a \<notin> span tf 4096" using in_page_offset [of tf a] t' by (auto simp: span_def)
    then show ?thesis using ram by blast
  qed
  have "leaf ram root (TRAPFRAME + off) = leaf (m_ram m) root (TRAPFRAME + off)"
    using t' va(1) same by (intro leaf_frame) auto
  also have "\<dots> = leaf (m_ram m) root TRAPFRAME" using pg(1) PGROUNDDOWN_aligned [OF al] by (intro leaf_page va) simp
  finally have l: "leaf ram root (TRAPFRAME + off) = PA2PTE tf OR (PTE_R OR PTE_W) OR PTE_V" using t' by simp
  have e: "PTE2PA (PA2PTE tf OR 6 OR PTE_V) = tf" "(PA2PTE tf OR 6 OR PTE_V) AND PTE_V \<noteq> 0" using pte_make [of tf 6] t' by simp_all
  have f: "(PA2PTE tf OR 6 OR PTE_V) AND want = want" "(PA2PTE tf OR 6 OR PTE_V) AND PTE_U = 0"
    using want by (auto simp: pte_rw)
  have d: "drop_bit 38 (TRAPFRAME + off) = 0" by (rule bit_word_eqI) (use bits_above_va [OF va(1)] in \<open>simp add: bit_simps\<close>)
  have md: "(TRAPFRAME + off) mod PGSIZE = off" using pg(2) by (simp add: mod_PGSIZE)
  show "translate (m\<lparr>m_x := x, m_ram := ram\<rparr>) want (TRAPFRAME + off) = Some (tf + off)"
    using satp_root_MAKE_SATP [of root] r p l e f d md by (simp add: translate_def page_ok_def)
qed simp

text \<open>The hart takes a trap from user mode.\<close>

definition take_trap :: "uint64 \<Rightarrow> mach \<Rightarrow> mach" where
  "take_trap cause m = (let st = m_csr m Mstatus in
     m\<lparr>m_csr := (m_csr m)(Sepc := m_pc m, Scause := cause,
         Mstatus := put_bit 8 (m_priv m = Supervisor) (put_bit 5 (bit st 1) (put_bit 1 False st))),
       m_priv := Supervisor, m_pc := m_csr m Stvec\<rparr>)"

definition kernel_fields :: "tf_field set" where
  "kernel_fields = {Kernel_satp, Kernel_sp, Kernel_trap, Epc, Kernel_hartid}"

lemma uservec_run:
  assumes w: "window m (span tf 4096) TRAPFRAME tf 4096"
  shows "\<exists>m1. run_code uservec m = Some m1 \<and> (\<forall>r. tf_get (m_ram m1) tf (Reg r) = m_x m r) \<and>
    (\<forall>f \<in> kernel_fields. tf_get (m_ram m1) tf f = tf_get (m_ram m) tf f) \<and>
    m_x m1 SP = tf_get (m_ram m) tf Kernel_sp \<and> m_x m1 TP = tf_get (m_ram m) tf Kernel_hartid \<and>
    m_pc m1 = tf_get (m_ram m) tf Kernel_trap \<and> m_csr m1 = (m_csr m)(Sscratch := m_x m A0, Satp := tf_get (m_ram m) tf Kernel_satp) \<and>
    m_priv m1 = m_priv m \<and> (\<forall>a. a \<notin> span tf 4096 \<longrightarrow> m_ram m1 a = m_ram m a)"
proof -
  let ?m = "m\<lparr>m_csr := (m_csr m)(Sscratch := m_x m A0), m_x := (m_x m)(A0 := TRAPFRAME)\<rparr>"
  have w1: "window ?m (span tf 4096) TRAPFRAME tf 4096" by (rule window_cong [OF w]) simp_all
  from run_saves [OF w1 _ uv_fits, of A0] obtain ram where
    ram: "run_code (saves uv_table A0) ?m = Some (?m\<lparr>m_ram := ram\<rparr>)" "\<forall>(r, off) \<in> set uv_table. load64 ram (tf + off) = m_x ?m r"
      "\<forall>off. off mod 8 = 0 \<and> off \<notin> snd ` set uv_table \<longrightarrow> load64 ram (tf + off) = load64 (m_ram m) (tf + off)"
      "\<forall>a. a \<notin> span tf 4096 \<longrightarrow> ram a = m_ram m a" by auto
  let ?ram = "store64 ram (tf + 112) (m_x m A0)"
  have out: "\<forall>a. a \<notin> span tf 4096 \<longrightarrow> ?ram a = m_ram m a" using ram(4) store64_out [of 112 4096] by simp
  have a0: "112 \<notin> snd ` set uv_table" by (simp add: uv_table_eq)
  have fld: "load64 ?ram (tf + off) = load64 (m_ram m) (tf + off)" if "off \<in> {0, 8, 16, 24, 32}" for off
  proof -
    have "off mod 8 = 0" "off \<notin> snd ` set uv_table" "112 \<noteq> off" using that by (auto simp: uv_table_eq)
    then show ?thesis using ram(3) load64_store64_apart [of 112 off ram tf "m_x m A0"] by simp
  qed
  have acc: "access s want (0x3fffffe000 + off) = Some (tf + off)" if "m_csr s Satp = m_csr m Satp" "m_csr s Mstatus = m_csr m Mstatus" "m_priv s = m_priv m"
      "\<forall>a. a \<notin> span tf 4096 \<longrightarrow> m_ram s a = m_ram m a" "unat off < 4096" "off mod 8 = 0" "want \<in> {PTE_R, PTE_W}" for s want off
    using window_access_at [OF w that] .
  note acc = acc [of _ 8, simplified] acc [of _ 32, simplified] acc [of _ 16, simplified] acc [of _ 112, simplified] acc [of _ 0, simplified]
  have regs: "tf_get ?ram tf (Reg r) = m_x m r" for r
  proof (cases "r = A0")
    case True then show ?thesis by (simp add: tf_get_def tf_off_eqs)
  next
    case False
    note r = uv_mem [OF False]
    have "tf_off (Reg r) mod 8 = 0" using r uv_fits by (auto simp: fits_in_def list_all_iff)
    moreover have "112 \<noteq> tf_off (Reg r)" using r a0 by force
    ultimately have "tf_get ?ram tf (Reg r) = load64 ram (tf + tf_off (Reg r))" by (simp add: tf_get_def load64_store64_apart)
    also have "\<dots> = m_x ?m r" using r ram(2) by auto
    finally show ?thesis using False by simp
  qed
  have "\<exists>m1. run_code uservec_tail
      (?m\<lparr>m_ram := ram\<rparr>) = Some m1 \<and> m_ram m1 = ?ram \<and> m_x m1 SP = load64 (m_ram m) (tf + 8) \<and> m_x m1 TP = load64 (m_ram m) (tf + 32) \<and>
      m_pc m1 = load64 (m_ram m) (tf + 16) \<and> m_csr m1 = (m_csr m)(Sscratch := m_x m A0, Satp := load64 (m_ram m) tf) \<and> m_priv m1 = m_priv m"
    by (simp add: uservec_tail_def set_x_def acc out ram(4) csr_set_def fld fld [of 0, simplified])
  then obtain m1 where m1: "run_code uservec_tail (?m\<lparr>m_ram := ram\<rparr>) = Some m1" "m_ram m1 = ?ram" "m_x m1 SP = load64 (m_ram m) (tf + 8)"
      "m_x m1 TP = load64 (m_ram m) (tf + 32)" "m_pc m1 = load64 (m_ram m) (tf + 16)"
      "m_csr m1 = (m_csr m)(Sscratch := m_x m A0, Satp := load64 (m_ram m) tf)" "m_priv m1 = m_priv m"
    by blast
  have "run_code uservec m = Some m1" using ram(1) m1(1) by (simp add: uservec_eq run_code_append set_x_def csr_set_def)
  moreover note m1(2-)
  moreover have "tf_get ?ram tf f = tf_get (m_ram m) tf f" if "f \<in> kernel_fields" for f
    using that fld [of "tf_off f"] by (auto simp: kernel_fields_def tf_get_def tf_off_eqs)
  ultimately show ?thesis using regs out by (intro exI [of _ m1]) (simp add: tf_get_def tf_off_eqs)
qed

lemma userret_run:
  assumes "m_priv m = Supervisor" "m_x m A0 = MAKE_SATP root" "tf_mapped sy (m_ram m) root tf"
  shows "\<exists>m1. run_code userret m = Some m1 \<and> (\<forall>r. m_x m1 r = tf_get (m_ram m) tf (Reg r)) \<and> m_ram m1 = m_ram m \<and>
    m_csr m1 Satp = MAKE_SATP root \<and> m_pc m1 = m_csr m Sepc \<and> m_priv m1 = (if bit (m_csr m Mstatus) 8 then Supervisor else User)"
proof -
  let ?m = "m\<lparr>m_csr := (m_csr m)(Satp := MAKE_SATP root), m_x := (m_x m)(A0 := TRAPFRAME)\<rparr>"
  have w: "window ?m (span tf 4096) TRAPFRAME tf 4096" by (rule trapframe_window) (use assms in simp_all)
  let ?x = "loaded uv_table (m_ram m) tf ((m_x m)(A0 := TRAPFRAME))"
  have no: "(A0, off) \<notin> set uv_table" for off by (simp add: uv_table_eq)
  have r: "run_code (restores uv_table A0) ?m = Some (?m\<lparr>m_x := ?x\<rparr>)"
    using run_restores [OF w _ uv_fits, of A0] no by simp
  have x: "?x r = (if r = A0 then TRAPFRAME else tf_get (m_ram m) tf (Reg r))" for r
  proof -
    have "load64 (m_ram m) (tf + off) = tf_get (m_ram m) tf (Reg r')" if "(r', off) \<in> set uv_table" for r' off
      using uv_off [OF that] by (simp add: tf_get_def)
    note l = loaded_eq [of uv_table "m_ram m" tf "\<lambda>r. tf_get (m_ram m) tf (Reg r)", OF this]
    have "A0 \<notin> fst ` set uv_table" using no by auto
    moreover have "r \<noteq> A0 \<Longrightarrow> r \<in> fst ` set uv_table" by (rule rev_image_eqI [OF uv_mem]) simp_all
    ultimately have "r \<in> fst ` set uv_table \<longleftrightarrow> r \<noteq> A0" by blast
    then show ?thesis using l [of "(m_x m)(A0 := TRAPFRAME)" r] by simp
  qed
  have "access (?m\<lparr>m_x := ?x\<rparr>) PTE_R (TRAPFRAME + 112) = Some (tf + 112)" by (rule window_access_at [OF w]) simp_all
  then have "run_code userret m = Some (do_sret (set_x A0 (load64 (m_ram m) (tf + 112)) (?m\<lparr>m_x := ?x\<rparr>)))"
    using r x [of A0] assms(2) by (simp add: userret_eq run_code_append set_x_def csr_set_def)
  moreover have "load64 (m_ram m) (tf + 112) = tf_get (m_ram m) tf (Reg A0)" by (simp add: tf_get_def tf_off_eqs)
  ultimately show ?thesis by (simp add: do_sret_def Let_def set_x_def csr_set_def x)
qed

text \<open>
  C9: A trap is invisible to the user program, as far as the registers go. When the hart traps from user mode with the
  process's page table, \<open>uservec\<close> puts every register in its field of the trap frame and enters the
  kernel at \<^verbatim>\<open>kernel_trap\<close> on the stack, the hart and the page table that the trap frame names; it
  touches no memory outside the trap frame and leaves the kernel's fields alone. From any later state, with any page
  table that maps the same trap frame, \<open>userret\<close> loads every register from its field; if the kernel has not
  changed those and returns to the same program counter, the hart is in user mode with all registers as they were.
\<close>

theorem trap_keeps_user_registers:
  assumes u: "m_priv m = User" "m_csr m Satp = MAKE_SATP root" "tf_mapped sy (m_ram m) root tf"
  shows "\<exists>m1. run_code uservec (take_trap cause m) = Some m1 \<and> (\<forall>r. tf_get (m_ram m1) tf (Reg r) = m_x m r) \<and>
    (\<forall>f \<in> kernel_fields. tf_get (m_ram m1) tf f = tf_get (m_ram m) tf f) \<and> m_priv m1 = Supervisor \<and>
    m_x m1 SP = tf_get (m_ram m) tf Kernel_sp \<and> m_x m1 TP = tf_get (m_ram m) tf Kernel_hartid \<and>
    m_pc m1 = tf_get (m_ram m) tf Kernel_trap \<and> m_csr m1 Satp = tf_get (m_ram m) tf Kernel_satp \<and> m_csr m1 Sepc = m_pc m \<and>
    (\<forall>a. a \<notin> span tf 4096 \<longrightarrow> m_ram m1 a = m_ram m a) \<and>
    (\<forall>m2 root2 sy2. m_priv m2 = Supervisor \<and> m_x m2 A0 = MAKE_SATP root2 \<and> tf_mapped sy2 (m_ram m2) root2 tf \<longrightarrow>
      (\<exists>m3. run_code userret m2 = Some m3 \<and> (\<forall>r. m_x m3 r = tf_get (m_ram m2) tf (Reg r)) \<and> m_ram m3 = m_ram m2 \<and>
        m_csr m3 Satp = MAKE_SATP root2 \<and>
        ((\<forall>r. tf_get (m_ram m2) tf (Reg r) = tf_get (m_ram m1) tf (Reg r)) \<and> m_csr m2 Sepc = m_pc m \<and> \<not> bit (m_csr m2 Mstatus) 8 \<longrightarrow>
          m_x m3 = m_x m \<and> m_pc m3 = m_pc m \<and> m_priv m3 = User)))"
proof -
  let ?m = "take_trap cause m"
  have s: "m_priv ?m = Supervisor" "m_csr ?m Satp = m_csr m Satp" "m_ram ?m = m_ram m" "m_x ?m = m_x m" "m_csr ?m Sepc = m_pc m"
    by (simp_all add: take_trap_def Let_def)
  have "window ?m (span tf 4096) TRAPFRAME tf 4096" by (rule trapframe_window) (use s u in simp_all)
  from uservec_run [OF this] obtain m1 where m1: "run_code uservec ?m = Some m1" "\<forall>r. tf_get (m_ram m1) tf (Reg r) = m_x m r"
    "\<forall>f \<in> kernel_fields. tf_get (m_ram m1) tf f = tf_get (m_ram m) tf f" "m_x m1 SP = tf_get (m_ram m) tf Kernel_sp"
    "m_x m1 TP = tf_get (m_ram m) tf Kernel_hartid" "m_pc m1 = tf_get (m_ram m) tf Kernel_trap"
    "m_csr m1 = (m_csr ?m)(Sscratch := m_x m A0, Satp := tf_get (m_ram m) tf Kernel_satp)" "m_priv m1 = Supervisor"
    "\<forall>a. a \<notin> span tf 4096 \<longrightarrow> m_ram m1 a = m_ram m a" unfolding s by blast
  have ret: "\<forall>m2 root2 sy2. m_priv m2 = Supervisor \<and> m_x m2 A0 = MAKE_SATP root2 \<and> tf_mapped sy2 (m_ram m2) root2 tf \<longrightarrow>
      (\<exists>m3. run_code userret m2 = Some m3 \<and> (\<forall>r. m_x m3 r = tf_get (m_ram m2) tf (Reg r)) \<and> m_ram m3 = m_ram m2 \<and>
        m_csr m3 Satp = MAKE_SATP root2 \<and>
        ((\<forall>r. tf_get (m_ram m2) tf (Reg r) = tf_get (m_ram m1) tf (Reg r)) \<and> m_csr m2 Sepc = m_pc m \<and> \<not> bit (m_csr m2 Mstatus) 8 \<longrightarrow>
          m_x m3 = m_x m \<and> m_pc m3 = m_pc m \<and> m_priv m3 = User))"
  proof (intro allI impI, elim conjE)
    fix m2 :: mach and root2 sy2 assume "m_priv m2 = Supervisor" "m_x m2 A0 = MAKE_SATP root2" "tf_mapped sy2 (m_ram m2) root2 tf"
    from userret_run [OF this] m1(2) show "\<exists>m3. run_code userret m2 = Some m3 \<and> (\<forall>r. m_x m3 r = tf_get (m_ram m2) tf (Reg r)) \<and>
        m_ram m3 = m_ram m2 \<and> m_csr m3 Satp = MAKE_SATP root2 \<and>
        ((\<forall>r. tf_get (m_ram m2) tf (Reg r) = tf_get (m_ram m1) tf (Reg r)) \<and> m_csr m2 Sepc = m_pc m \<and> \<not> bit (m_csr m2 Mstatus) 8 \<longrightarrow>
          m_x m3 = m_x m \<and> m_pc m3 = m_pc m \<and> m_priv m3 = User)"
      by (auto simp: fun_eq_iff)
  qed
  have "m_csr m1 Sepc = m_pc m" "m_csr m1 Satp = tf_get (m_ram m) tf Kernel_satp" using m1(7) s(5) by simp_all
  with m1 ret show ?thesis by (intro exI [of _ m1] conjI)
qed

lemma ex_trapframe: "\<exists>s :: kmem_st. tf_mapped (syms s) (mem s) root0 0x87FFC000"
proof -
  let ?va = "TRAPFRAME" and ?pa = "0x87FFC000 :: uint64" and ?perm = "6 :: uint64"
  have al: "page_aligned ?va" "page_aligned ?pa" by (simp_all add: page_aligned_def)
  have "wp (mappages root0 ?va (of_nat (Suc 0) * PGSIZE) ?pa ?perm) (\<lambda>r t. \<exists>zs.
      vm_upd root0 vm0 [0x87FFE000, 0x87FFD000] t zs (map_leaf (leaf (mem vm0) root0) ?va ?pa ?perm (Suc 0))) vm0"
    by (rule wp_mono [OF mappages_spec [OF vm0_facts(1) al(1)]]) (auto simp: vm0_facts)
  then obtain t zs where up: "vm_upd root0 vm0 [0x87FFE000, 0x87FFD000] t zs (map_leaf (leaf (mem vm0) root0) ?va ?pa ?perm (Suc 0))"
    by (auto simp: wp_iff_Ret)
  have "pt_wf (syms t) (mem t) root0" using up by (auto simp: vm_upd_def vm_inv_def)
  moreover have "leaf (mem t) root0 ?va = PA2PTE ?pa OR (PTE_R OR PTE_W) OR PTE_V"
    using up by (simp add: vm_upd_def map_leaf_Suc [OF al(1)] PGROUNDDOWN_aligned [OF al(1)])
  moreover have "is_tbl (mem t) root0 ?pa \<Longrightarrow> ?pa = root0 \<or> ?pa \<in> set [0x87FFE000, 0x87FFD000]"
    using up unfolding vm_upd_def vm0_facts(3) by blast
  then have "\<not> is_tbl (mem t) root0 ?pa" by (auto simp: root0_def)
  ultimately show ?thesis using al(2) unfolding tf_mapped_def by blast
qed

theorem trap_keeps_user_registers_witness:
  "\<exists>sy m m1. m_priv m = User \<and> m_csr m Satp = MAKE_SATP root0 \<and> tf_mapped sy (m_ram m) root0 0x87FFC000 \<and> m_x m S3 = 33 \<and>
     run_code uservec (take_trap 8 m) = Some m1 \<and> tf_get (m_ram m1) 0x87FFC000 (Reg S3) = 33 \<and> m_csr m1 Sepc = m_pc m"
proof -
  obtain s :: kmem_st where s: "tf_mapped (syms s) (mem s) root0 0x87FFC000" using ex_trapframe by blast
  let ?m = "mach0\<lparr>m_priv := User, m_csr := (\<lambda>_. 0)(Satp := MAKE_SATP root0), m_ram := mem s\<rparr>"
  have "m_priv ?m = User" "m_csr ?m Satp = MAKE_SATP root0" "tf_mapped (syms s) (m_ram ?m) root0 0x87FFC000" "m_x ?m S3 = 33"
    using s by (simp_all add: mach0_def)
  with trap_keeps_user_registers [OF this(1-3), of 8] show ?thesis by metis
qed

end
