(* ===== verification/Timer.thy ===== *)
theory Timer
  imports Switch
begin

text \<open>
  How a hart comes up and how time passes: \<open>start\<close> leaves machine mode for \<^verbatim>\<open>main\<close> with the machine's
  timer armed, and \<open>timervec\<close> rearms it at every interrupt without disturbing what it interrupts.
\<close>

section \<open>Words\<close>







section \<open>The timer interrupt\<close>









section \<open>Starting a hart\<close>







section \<open>Time goes on\<close>






text \<open>Each hart enters \<open>start\<close> on a stack of its own.\<close>

lemma entry_run:
  "\<exists>m'. run_code (entry sy) m = Some m' \<and> m_x m' SP = sym_stack0 sy + 4096 * (m_csr m Mhartid + 1) \<and> m_pc m' = sym_start sy \<and>
     m_ram m' = m_ram m"
  by (simp add: entry_def set_x_def)

end
