(* ===== verification/Txn.thy ===== *)
theory Txn
  imports Sample Bio_Contract
begin

text \<open>
  The rules for a file system operation inside a transaction. \<open>tx p s0 k H L V\<close> describes the states
  such an operation goes through from \<open>s0\<close>: the blocks it holds and their buffers are \<open>H\<close>, the blocks
  recorded in the log are \<open>L\<close>, the latest contents of every block are \<open>V\<close>, and \<open>k\<close> more
  blocks can be had before the log or the cache is full. There is a rule for \<open>bread\<close>, for
  reading and for changing a buffer, for \<open>log_write\<close> and for \<open>brelse\<close>.
\<close>

text \<open>The weakest preconditions of sequences, as functions of the state.\<close>

lemma wp_etas:
  "wp (kbind m f) Q = wp m (\<lambda>a. wp (f a) Q)" "wp (kdo []) P = P ()" "wp (kdo (m' # ms)) P = wp m' (\<lambda>_. wp (kdo ms) P)"
  "wp (kthen ms m) R = wp (kdo ms) (\<lambda>_. wp m R)" "wp (kreturn a) R = R a"
  by (simp_all add: fun_eq_iff wp_simps)

section \<open>States inside a transaction\<close>

text \<open>
  A block with contents \<open>d\<close> on the disk and \<open>v\<close> at last, its entry in the cache, whether it is recorded
  in the log, and the buffer through which the operation holds it.
\<close>

definition ent_ok :: "bytes \<Rightarrow> bent option \<Rightarrow> bool \<Rightarrow> nat option \<Rightarrow> bytes \<Rightarrow> bool" where
  "ent_ok d x l h v \<longleftrightarrow> (case x of
       None \<Rightarrow> \<not> l \<and> h = None \<and> v = d
     | Some e \<Rightarrow> e_held e = (h \<noteq> None) \<and> (\<forall>i. h = Some i \<longrightarrow> e_idx e = i) \<and>
         e_cnt e = (if l then 1 else 0) + (if h = None then 0 else 1) \<and> 0 < e_cnt e \<and> e_data e = v)"

lemma ent_ok_simps [simp]:
  "ent_ok d None l h v \<longleftrightarrow> \<not> l \<and> h = None \<and> v = d"
  "ent_ok d x l (Some i) v \<longleftrightarrow> x = Some \<lparr>e_idx = i, e_cnt = (if l then 2 else 1), e_data = v, e_held = True\<rparr>"
  "ent_ok d x False None v \<longleftrightarrow> x = None \<and> v = d"
  "ent_ok d (Some e) True None v \<longleftrightarrow> \<not> e_held e \<and> e_cnt e = 1 \<and> e_data e = v"
  by (auto simp: ent_ok_def split: option.splits)

definition tx :: "nat \<Rightarrow> 'a log_st_scheme \<Rightarrow> nat \<Rightarrow> (uint \<Rightarrow> nat option) \<Rightarrow> uint set \<Rightarrow> (uint \<Rightarrow> bytes) \<Rightarrow> 'a log_st_scheme \<Rightarrow> bool" where
  "tx p s0 k H L V s \<longleftrightarrow> bio_inv p s \<and> log_frame s0 s \<and> disk s = disk s0 \<and> dwrites s = dwrites s0 \<and>
     klog s = (klog s0)\<lparr>lh_n := lh_n (klog s), lh_block := lh_block (klog s)\<rparr> \<and> 0 \<le> lh_n (klog s) \<and>
     distinct (homes (klog s)) \<and> set (homes (klog s)) = L \<and> finite (dom H) \<and> card (L \<union> dom H) + k < LOGSIZE - 1 \<and>
     (\<forall>b. ent_ok (disk s0 b) (ents s b) (b \<in> L) (H b) (V b))"

lemma txD:
  assumes "tx p s0 k H L V s"
  shows "bio_inv p s" "log_frame s0 s" "disk s = disk s0" "dwrites s = dwrites s0" "calm p s"
    "set (homes (klog s)) = L" "card (L \<union> dom H) + k < LOGSIZE - 1" "finite L" "finite (dom H)"
    "0 \<le> lh_n (klog s)" "distinct (homes (klog s))"
    "ent_ok (disk s0 b) (ents s b) (b \<in> L) (H b) (V b)"
  using assms by (auto simp: tx_def bio_inv_def)

lemma tx_log_fields:
  assumes "tx p s0 k H L V s"
  shows "l_outstanding (klog s) = l_outstanding (klog s0)" "l_size (klog s) = l_size (klog s0)"
proof -
  have "klog s = (klog s0)\<lparr>lh_n := lh_n (klog s), lh_block := lh_block (klog s)\<rparr>" using assms by (simp add: tx_def)
  from arg_cong [OF this, of l_outstanding] arg_cong [OF this, of l_size]
  show "l_outstanding (klog s) = l_outstanding (klog s0)" "l_size (klog s) = l_size (klog s0)" by simp_all
qed

lemma tx_view: "tx p s0 k H L V s \<Longrightarrow> view s = V"
proof
  fix b assume t: "tx p s0 k H L V s"
  show "view s b = V b" using txD(12) [OF t, of b] txD(3) [OF t]
    by (cases "H b"; cases "b \<in> L"; cases "ents s b") (auto simp: view_def)
qed

lemma tx_dom:
  assumes "tx p s0 k H L V s"
  shows "dom (ents s) = L \<union> dom H"
proof -
  have "ents s b \<noteq> None \<longleftrightarrow> b \<in> L \<or> H b \<noteq> None" for b
    using txD(12) [OF assms, of b] by (cases "H b"; cases "b \<in> L"; cases "ents s b") auto
  then show ?thesis by (auto simp: dom_def)
qed

lemma tx_clean: "tx p s0 k H L V s \<Longrightarrow> H b = None \<Longrightarrow> b \<notin> L \<Longrightarrow> V b = disk s0 b"
  using txD(12) [of p s0 k H L V s b] by simp

lemma tx_intro:
  assumes "tx p s0 k H L V s" "bio_inv p t" "log_frame s t" "disk t = disk s" "dwrites t = dwrites s"
    "klog t = (klog s)\<lparr>lh_n := lh_n (klog t), lh_block := lh_block (klog t)\<rparr>" "0 \<le> lh_n (klog t)"
    "distinct (homes (klog t))" "set (homes (klog t)) = L'" "finite (dom H')" "card (L' \<union> dom H') + k' < LOGSIZE - 1"
    "\<And>b. ent_ok (disk s0 b) (ents t b) (b \<in> L') (H' b) (V' b)"
  shows "tx p s0 k' H' L' V' t"
proof -
  have "klog s = (klog s0)\<lparr>lh_n := lh_n (klog s), lh_block := lh_block (klog s)\<rparr>" using assms(1) by (simp add: tx_def)
  then have "klog t = (klog s0)\<lparr>lh_n := lh_n (klog t), lh_block := lh_block (klog t)\<rparr>"
    using assms(6) by (metis (no_types, lifting) logst.fold_congs(6) logst.fold_congs(7) logst.surjective logst.update_convs(6) logst.update_convs(7))
  then show ?thesis
    using assms log_frame_trans [of s0 s t] txD(3,4) [OF assms(1)] txD(2) [OF assms(1)] by (simp add: tx_def)
qed

section \<open>The rules\<close>

lemma tx_read:
  assumes t: "tx p s0 k H L V s" and b: "H b = None" "b \<in> L \<or> 0 < k"
    and f: "\<And>i t. tx p s0 (if b \<in> L then k else k - 1) (H(b \<mapsto> i)) L V t \<Longrightarrow> wp (f i) Q t"
  shows "wp (kbind (bread ROOTDEV b) f) Q s"
  unfolding wp_kbind
proof (rule wp_mono [OF bc.rd_law [OF txD(1) [OF t]]])
  have c: "card (dom (ents s)) < NBUF" using tx_dom [OF t] txD(7) [OF t] by simp
  have eb: "ent_ok (disk s0 b) (ents s b) (b \<in> L) None (V b)" using txD(12) [OF t, of b] b(1) by simp
  then show "can_get (ents s) b" using c by (cases "b \<in> L"; cases "ents s b") (auto simp: can_get_def)
  fix i u
  assume u: "bio_inv p u \<and> bio_frame s u \<and> disk u = disk s \<and> dwrites u = dwrites s \<and> idx_of i (ents s b) \<and>
    ents u = (ents s)(b \<mapsto> got_block (ents s) (disk s) b i)"
  have fr: "log_frame s u" "klog u = klog s" using bio_log_frame [of s u] u by auto
  have new: "got_block (ents s) (disk s) b i = \<lparr>e_idx = i, e_cnt = (if b \<in> L then 2 else 1), e_data = V b, e_held = True\<rparr>"
    using eb txD(3) [OF t] by (cases "b \<in> L"; cases "ents s b") (auto simp: got_block_def)
  have fin: "finite (L \<union> dom H)" using txD(8,9) [OF t] by simp
  have "L \<union> dom (H(b \<mapsto> i)) = insert b (L \<union> dom H)" by auto
  then have card: "card (L \<union> dom (H(b \<mapsto> i))) + (if b \<in> L then k else k - 1) < LOGSIZE - 1"
    using txD(7) [OF t] fin b by (auto simp: card_insert_if)
  have ok: "ent_ok (disk s0 c) (ents u c) (c \<in> L) ((H(b \<mapsto> i)) c) (V c)" for c
    using txD(12) [OF t, of c] u new by (cases "c = b") simp_all
  show "wp (f i) Q u"
    by (rule f, rule tx_intro [OF t _ _ _ _ _ _ _ _ _ card ok]) (use u fr txD(6,9,10,11) [OF t] in auto)
qed

lemma tx_get:
  assumes t: "tx p s0 k H L V s" and b: "H b = Some i" and q: "Q (g (V b)) s"
  shows "wp (buf_get i g) Q s"
proof -
  have "ents s b = Some \<lparr>e_idx = i, e_cnt = (if b \<in> L then 2 else 1), e_data = V b, e_held = True\<rparr>"
    using txD(12) [OF t, of b] b by simp
  from bc.getd_law [OF txD(1) [OF t] this] q show ?thesis by (simp add: buf_get_def wp_simps)
qed

lemma tx_put:
  assumes t: "tx p s0 k H L V s" and b: "H b = Some i"
    and q: "\<And>t. tx p s0 k H L (V(b := f (V b))) t \<Longrightarrow> Q () t"
  shows "wp (buf_put i f) Q s"
proof -
  let ?e = "\<lparr>e_idx = i, e_cnt = (if b \<in> L then 2 else 1), e_data = V b, e_held = True\<rparr>"
  have e: "ents s b = Some ?e" using txD(12) [OF t, of b] b by simp
  have "wp (set_buf (e_idx ?e) (b_data_update f)) (\<lambda>_. Q ()) s"
  proof (rule wp_mono [OF bc.setd_law [OF txD(1) [OF t] e]])
    fix r u assume u: "bio_inv p u \<and> bio_frame s u \<and> disk u = disk s \<and> dwrites u = dwrites s \<and>
      ents u = (ents s)(b \<mapsto> ?e\<lparr>e_data := f (e_data ?e)\<rparr>)"
    have fr: "log_frame s u" "klog u = klog s" using bio_log_frame [of s u] u by auto
    have ok: "ent_ok (disk s0 c) (ents u c) (c \<in> L) (H c) ((V(b := f (V b))) c)" for c
      using txD(12) [OF t, of c] u b by (cases "c = b") simp_all
    show "Q () u" by (rule q, rule tx_intro [OF t _ _ _ _ _ _ _ _ _ txD(7) [OF t] ok]) (use u fr txD(6,9,10,11) [OF t] in auto)
  qed simp
  then show ?thesis by (simp add: buf_put_def wp_simps)
qed

text \<open>The transaction is open, and the log as long as \<^verbatim>\<open>mkfs\<close> makes it.\<close>

definition logging :: "'a log_st_scheme \<Rightarrow> bool" where
  "logging s \<longleftrightarrow> 1 \<le> l_outstanding (klog s) \<and> int LOGSIZE \<le> l_size (klog s)"

lemma tx_log:
  assumes t: "tx p s0 k H L V s" and b: "H b = Some i" and l: "logging s0"
    and q: "\<And>t. tx p s0 k H (insert b L) V t \<Longrightarrow> Q () t"
  shows "wp (log_write i) Q s"
proof -
  let ?e = "\<lparr>e_idx = i, e_cnt = (if b \<in> L then 2 else 1), e_data = V b, e_held = True\<rparr>"
  have e: "ents s b = Some ?e" using txD(12) [OF t, of b] b by simp
  have n: "0 \<le> lh_n (klog s)" "nat (lh_n (klog s)) = card L"
    using txD(6,10,11) [OF t] distinct_card [of "homes (klog s)"] by (auto simp: homes_def)
  have "card L \<le> card (L \<union> dom H)" using txD(8,9) [OF t] by (intro card_mono) auto
  then have "lh_n (klog s) < 29" using txD(7) [OF t] n by linarith
  then have r: "log_room (klog s)" using tx_log_fields [OF t] l by (auto simp: log_room_def logging_def)
  have "wp (log_write (e_idx ?e)) (\<lambda>_. Q ()) s"
  proof (rule wp_mono [OF log_write_spec [OF txD(1) [OF t] e _ n(1) r]])
    fix r u assume u: "bio_inv p u \<and> disk u = disk s \<and> dwrites u = dwrites s \<and>
      klog u = log_add b (klog s) \<and> log_frame s u \<and>
      ents u = (if b \<in> set (homes (klog s)) then ents s else (ents s)(b \<mapsto> ?e\<lparr>e_cnt := Suc (e_cnt ?e)\<rparr>))"
    have lg: "klog u = (klog s)\<lparr>lh_n := lh_n (klog u), lh_block := lh_block (klog u)\<rparr>" "0 \<le> lh_n (klog u)"
      using u n by (auto simp: log_add_def)
    have h: "distinct (homes (klog u))" "set (homes (klog u)) = insert b L"
      using u n txD(6,11) [OF t] by (auto simp: homes_log_add)
    have "insert b L \<union> dom H = L \<union> dom H" using b by auto
    then have c: "card (insert b L \<union> dom H) + k < LOGSIZE - 1" using txD(7) [OF t] by simp
    have ok: "ent_ok (disk s0 c) (ents u c) (c \<in> insert b L) (H c) (V c)" for c
      using txD(12) [OF t, of c] u b txD(6) [OF t] e by (cases "c = b") (auto simp: insert_absorb)
    show "Q () u" by (rule q, rule tx_intro [OF t _ _ _ _ lg h _ c ok]) (use u txD(9) [OF t] in auto)
  qed (use l tx_log_fields [OF t] in \<open>auto simp: logging_def\<close>)
  then show ?thesis by simp
qed

lemma tx_rel:
  assumes t: "tx p s0 k H L V s" and b: "H b = Some i" "b \<in> L \<or> V b = disk s0 b"
    and q: "\<And>t. tx p s0 (if b \<in> L then k else k + 1) (H(b := None)) L V t \<Longrightarrow> Q () t"
  shows "wp (brelse i) Q s"
proof -
  let ?e = "\<lparr>e_idx = i, e_cnt = (if b \<in> L then 2 else 1), e_data = V b, e_held = True\<rparr>"
  have e: "ents s b = Some ?e" using txD(12) [OF t, of b] b by simp
  have "wp (brelse (e_idx ?e)) (\<lambda>_. Q ()) s"
  proof (rule wp_mono [OF bc.rl_law [OF txD(1) [OF t] e]])
    show "e_cnt ?e = 1 \<Longrightarrow> e_data ?e = disk s b" using b txD(3) [OF t] by (auto split: if_splits)
    fix r u assume u: "bio_inv p u \<and> bio_frame s u \<and> disk u = disk s \<and> dwrites u = dwrites s \<and>
      ents u = (ents s)(b := let_go ?e)"
    have fr: "log_frame s u" "klog u = klog s" using bio_log_frame [of s u] u by auto
    have "dom H = insert b (dom H - {b})" using b by auto
    then have "L \<union> dom H = insert b (L \<union> dom (H(b := None)))" by auto
    then have card: "card (L \<union> dom (H(b := None))) + (if b \<in> L then k else k + 1) < LOGSIZE - 1"
      using txD(7,8,9) [OF t] by (auto simp: card_insert_if insert_absorb)
    have ok: "ent_ok (disk s0 c) (ents u c) (c \<in> L) ((H(b := None)) c) (V c)" for c
      using txD(12) [OF t, of c] u b by (cases "c = b") (auto simp: let_go_def)
    show "Q () u" by (rule q, rule tx_intro [OF t _ _ _ _ _ _ _ _ _ card ok]) (use u fr txD(6,9,10,11) [OF t] in auto)
  qed simp
  then show ?thesis by simp
qed

section \<open>Patterns of the file system\<close>

text \<open>Change a block: read it, change the buffer, record it in the log, let it go.\<close>

lemma tx_change:
  assumes t: "tx p s0 k H L V s" and b: "H b = None" "b \<in> L \<or> 0 < k" and l: "logging s0"
    and q: "\<And>t. tx p s0 (if b \<in> L then k else k - 1) H (insert b L) (V(b := f (V b))) t \<Longrightarrow> Q () t"
  shows "wp (kbind (bread ROOTDEV b) (\<lambda>bp. kdo [buf_put bp f, log_write bp, brelse bp])) Q s"
proof (rule tx_read [OF t b])
  fix i u assume u: "tx p s0 (if b \<in> L then k else k - 1) (H(b \<mapsto> i)) L V u"
  have H: "(H(b \<mapsto> i))(b := None) = H" using b by (auto simp: fun_eq_iff)
  show "wp (kdo [buf_put i f, log_write i, brelse i]) Q u"
    unfolding kdo.simps wp_kbind wp_kreturn
  proof (rule tx_put [OF u, of b])
    fix v assume v: "tx p s0 (if b \<in> L then k else k - 1) (H(b \<mapsto> i)) L (V(b := f (V b))) v"
    show "wp (log_write i) (\<lambda>_. wp (brelse i) (\<lambda>_. Q ())) v"
    proof (rule tx_log [OF v _ l, of b])
      fix w assume w: "tx p s0 (if b \<in> L then k else k - 1) (H(b \<mapsto> i)) (insert b L) (V(b := f (V b))) w"
      show "wp (brelse i) (\<lambda>_. Q ()) w"
        by (rule tx_rel [OF w, of b]) (use q H in \<open>auto split: if_splits\<close>)
    qed simp
  qed simp
qed

text \<open>Look at a block, and let it go unchanged.\<close>

lemma tx_look:
  assumes t: "tx p s0 k H L V s" and b: "H b = None" "b \<in> L \<or> 0 < k"
    and f: "\<And>i t. tx p s0 (if b \<in> L then k else k - 1) (H(b \<mapsto> i)) L V t \<Longrightarrow> wp (f i) (\<lambda>r u. P r \<and>
      tx p s0 (if b \<in> L then k else k - 1) (H(b \<mapsto> i)) L V u) t"
    and q: "\<And>r t. P r \<Longrightarrow> tx p s0 k H L V t \<Longrightarrow> Q r t"
  shows "wp (kbind (bread ROOTDEV b) (\<lambda>bp. kbind (f bp) (\<lambda>r. kthen [brelse bp] (kreturn r)))) Q s"
proof (rule tx_read [OF t b])
  fix i u assume u: "tx p s0 (if b \<in> L then k else k - 1) (H(b \<mapsto> i)) L V u"
  have H: "(H(b \<mapsto> i))(b := None) = H" using b by (auto simp: fun_eq_iff)
  have c: "b \<in> L \<or> V b = disk s0 b" using tx_clean [OF t b(1)] by blast
  show "wp (kbind (f i) (\<lambda>r. kthen [brelse i] (kreturn r))) Q u"
    unfolding wp_kbind
  proof (rule wp_mono [OF f [OF u]])
    fix r v assume v: "P r \<and> tx p s0 (if b \<in> L then k else k - 1) (H(b \<mapsto> i)) L V v"
    then have v': "tx p s0 (if b \<in> L then k else k - 1) (H(b \<mapsto> i)) L V v" by simp
    have "wp (brelse i) (\<lambda>_. Q r) v"
      by (rule tx_rel [OF v' _ c]) (use v b H q in \<open>auto split: if_splits\<close>)
    then show "wp (kthen [brelse i] (kreturn r)) Q v" by (simp add: wp_simps)
  qed
qed

lemma tx_weaken: "tx p s0 k H L V s \<Longrightarrow> k' \<le> k \<Longrightarrow> tx p s0 k' H L V s"
  by (simp add: tx_def)

lemma log_frame_fields:
  assumes "log_frame s t"
  shows "procs t = procs s" "kobj t = kobj s" "mem t = mem s" "syms t = syms s"
proof -
  have e: "t = s\<lparr>sleeplocks := sleeplocks t, bufs := bufs t, disk := disk t, dwrites := dwrites t, klog := klog t\<rparr>"
    using assms by (simp add: log_frame_def)
  show "procs t = procs s" "kobj t = kobj s" "mem t = mem s" "syms t = syms s"
    using arg_cong [OF e, of procs] arg_cong [OF e, of kobj] arg_cong [OF e, of mem] arg_cong [OF e, of syms] by simp_all
qed

lemma tx_fs:
  fixes s :: "'a fs_st_scheme"
  assumes "tx p s0 k H L V s"
  shows "sb s = sb s0" "itable s = itable s0"
proof -
  have e: "s = s0\<lparr>sleeplocks := sleeplocks s, bufs := bufs s, disk := disk s, dwrites := dwrites s, klog := klog s\<rparr>"
    using txD(2) [OF assms] by (simp add: log_frame_def)
  show "sb s = sb s0" "itable s = itable s0"
    using arg_cong [OF e, of sb] arg_cong [OF e, of itable] by simp_all
qed

section \<open>The state outside the cache and the log\<close>

lemma bio_inv_mem [simp]: "bio_inv p (mem_update f s) = bio_inv p s" "ents (mem_update f s) = ents s"
  and bio_inv_kobj [simp]: "bio_inv p (kobj_update g s) = bio_inv p s" "ents (kobj_update g s) = ents s"
proof -
  have "bufno (mem_update f s) = bufno s" "bufno (kobj_update g s) = bufno s" by (simp_all add: fun_eq_iff bufno_def)
  then show "ents (mem_update f s) = ents s" "ents (kobj_update g s) = ents s"
    by (auto simp: ents_def ent_of_def fun_eq_iff split: option.split)
qed (simp_all add: bio_inv_def lru_ok_def buf_ok_def calm_def)

lemma tx_mem:
  assumes "tx p s0 k H L V s"
  shows "tx p (s0\<lparr>mem := m\<rparr>) k H L V (s\<lparr>mem := m\<rparr>)"
proof -
  have e: "s = s0\<lparr>sleeplocks := sleeplocks s, bufs := bufs s, disk := disk s, dwrites := dwrites s, klog := klog s\<rparr>"
    using txD(2) [OF assms] by (simp add: log_frame_def)
  have "s\<lparr>mem := m\<rparr> = s0\<lparr>mem := m, sleeplocks := sleeplocks s, bufs := bufs s, disk := disk s, dwrites := dwrites s, klog := klog s\<rparr>"
    by (rule trans [OF arg_cong [OF e, of "mem_update (\<lambda>_. m)"]]) simp
  then have "log_frame (s0\<lparr>mem := m\<rparr>) (s\<lparr>mem := m\<rparr>)"
    using txD(2) [OF assms] by (simp add: log_frame_def)
  with assms show ?thesis by (simp add: tx_def)
qed

lemma tx_kobj:
  assumes "tx p s0 k H L V s"
  shows "tx p (s0\<lparr>kobj := m\<rparr>) k H L V (s\<lparr>kobj := m\<rparr>)"
proof -
  have e: "s = s0\<lparr>sleeplocks := sleeplocks s, bufs := bufs s, disk := disk s, dwrites := dwrites s, klog := klog s\<rparr>"
    using txD(2) [OF assms] by (simp add: log_frame_def)
  have "s\<lparr>kobj := m\<rparr> = s0\<lparr>kobj := m, sleeplocks := sleeplocks s, bufs := bufs s, disk := disk s, dwrites := dwrites s, klog := klog s\<rparr>"
    by (rule trans [OF arg_cong [OF e, of "kobj_update (\<lambda>_. m)"]]) simp
  then have "log_frame (s0\<lparr>kobj := m\<rparr>) (s\<lparr>kobj := m\<rparr>)"
    using txD(2) [OF assms] by (simp add: log_frame_def)
  with assms show ?thesis by (simp add: tx_def)
qed

section \<open>Between operations\<close>

text \<open>A state in which no block is held; \<open>k\<close> more blocks fit in the log.\<close>

definition fs_ready :: "nat \<Rightarrow> nat \<Rightarrow> 'a log_st_scheme \<Rightarrow> bool" where
  "fs_ready p k s \<longleftrightarrow> tx p s k Map.empty (set (homes (klog s))) (view s) s"

lemma fs_ready_tx: "fs_ready p k s \<Longrightarrow> tx p s k Map.empty (set (homes (klog s))) (view s) s"
  by (simp add: fs_ready_def)

lemma tx_rebase: "tx p s0 k H L V s \<Longrightarrow> tx p s k H L V s"
  by (simp add: tx_def)

lemma tx_ready: "tx p s0 k Map.empty L V s \<Longrightarrow> fs_ready p k s \<and> view s = V \<and> set (homes (klog s)) = L \<and> disk s = disk s0"
  using tx_view [of p s0 k Map.empty L V s] tx_rebase [of p s0 k Map.empty L V s] txD(3,6) [of p s0 k Map.empty L V s]
  by (simp add: fs_ready_def)

lemma fs_ready_less: "fs_ready p k s \<Longrightarrow> k' \<le> k \<Longrightarrow> fs_ready p k' s"
  unfolding fs_ready_def by (rule tx_weaken)

section \<open>A system with a file system\<close>

definition log_open :: logst where
  "log_open = log0\<lparr>l_outstanding := 1\<rparr>"

lemma fresh_cache:
  assumes "calm p s" "bufs s = link_bufs (\<lambda>_. buf0)" "\<forall>lk. \<not> sl_locked (sleeplocks s lk)"
  shows "bio_inv p s" "ents s = Map.empty"
proof -
  have "ring (bnx s) (bpv s) (rev [0..<NBUF])" using assms(2) by (simp add: ring_def upt_rec)
  then have "lru_ok s" unfolding lru_ok_def by (intro exI [of _ "rev [0..<NBUF]"]) auto
  then show "bio_inv p s" using assms by (simp add: bio_inv_def buf_ok_def caches_def buf0_def)
  have "bufno s b = None" for b using assms(2) by (auto simp: bufno_def find_None_iff caches_def buf0_def)
  then show "ents s = Map.empty" by (simp add: ents_def fun_eq_iff)
qed

lemma fresh_ready:
  assumes "calm p s" "bufs s = link_bufs (\<lambda>_. buf0)" "\<forall>lk. \<not> sl_locked (sleeplocks s lk)" "klog s = log_open"
  shows "fs_ready p 28 s" "view s = disk s" "logging s"
proof -
  note f = fresh_cache [OF assms(1-3)]
  then show "view s = disk s" by (simp add: fun_eq_iff view_def)
  then show "fs_ready p 28 s" using f assms(4)
    by (simp add: fs_ready_def tx_def log_open_def log0_def homes_def)
  show "logging s" using assms(4) by (simp add: logging_def log_open_def log0_def)
qed

lemma ex_fsys:
  "\<exists>s :: trap_st. fs_ready 1 28 s \<and> logging s \<and> view s = D \<and> disk s = D \<and> us_inv (syms s) (mem s) root0 \<and>
     p_pagetable (procs s 1) = root0 \<and>
     (\<forall>v. upage (mem s) root0 v = (if PGROUNDDOWN v = 0x1000 then Some 0x87FFC000 else None)) \<and>
     itable s = I \<and> sb s = S \<and> set (homes (klog s)) = {}"
proof -
  obtain u :: trap_st where u: "calm 1 u" "us_inv (syms u) (mem u) root0" "p_pagetable (procs u 1) = root0"
    "\<forall>v. upage (mem u) root0 v = (if PGROUNDDOWN v = 0x1000 then Some 0x87FFC000 else None)"
    "bufs u = link_bufs (\<lambda>_. buf0)" "\<forall>lk. \<not> sl_locked (sleeplocks u lk)" using ex_usys by blast
  let ?s = "u\<lparr>disk := D, klog := log_open, itable := I, sb := S\<rparr>"
  have c: "calm 1 ?s" using u(1) by (simp add: calm_def lock_defs)
  show ?thesis using u fresh_ready [of 1 ?s, OF c]
    by (intro exI [of _ ?s]) (simp add: log_open_def log0_def homes_def)
qed

lemma tx_bread:
  assumes t: "tx p s0 k H L V s" and b: "H b = None" "b \<in> L \<or> 0 < k"
  obtains i t where "bread ROOTDEV b s = Ret i t" "tx p s0 (if b \<in> L then k else k - 1) (H(b \<mapsto> i)) L V t"
proof -
  have "wp (kbind (bread ROOTDEV b) kreturn) (\<lambda>i. tx p s0 (if b \<in> L then k else k - 1) (H(b \<mapsto> i)) L V) s"
    by (rule tx_read [OF t b]) (simp add: wp_kreturn)
  then have "wp (bread ROOTDEV b) (\<lambda>i. tx p s0 (if b \<in> L then k else k - 1) (H(b \<mapsto> i)) L V) s"
    by (simp add: wp_simps)
  with that show ?thesis by (auto simp: wp_iff_Ret)
qed

end
