(* ===== verification/Balloc.thy ===== *)
theory Balloc
  imports Txn
begin

text \<open>
  The block allocator inside a transaction: \<open>balloc\<close> takes the first free block, zeroes it and marks it,
  \<open>bfree\<close> clears its mark. The states are those of \<open>Txn\<close>.
\<close>

section \<open>The free map\<close>

text \<open>Block \<open>n\<close> is free in the map that begins where the super block says.\<close>

definition blk_free :: "superblock \<Rightarrow> (uint \<Rightarrow> bytes) \<Rightarrow> nat \<Rightarrow> bool" where
  "blk_free sp V n = bit_free (n mod BPB) (V (BBLOCK (of_nat n) sp))"

lemma BBLOCK_nat: "n < 4294967296 \<Longrightarrow> BBLOCK (of_nat n) sp = of_nat (n div BPB) + sb_bmapstart sp"
proof -
  assume n: "n < 4294967296"
  then have "(of_nat n :: uint) div of_nat BPB = of_nat (n div BPB)"
    by (simp add: word_arith_nat_div unat_of_nat take_bit_nat_eq_self)
  then show ?thesis by (simp add: BBLOCK_def)
qed

lemma BBLOCK_start: "n < 4294967296 \<Longrightarrow> BBLOCK (of_nat (n div BPB * BPB)) sp = BBLOCK (of_nat n) sp"
  using BBLOCK_nat [of n sp] BBLOCK_nat [of "n div BPB * BPB" sp] div_times_less_eq_dividend [of n BPB] by simp

definition zeroed :: "bytes \<Rightarrow> bytes" where
  "zeroed d = (\<lambda>i. if i < BSIZE then 0 else d i)"


section \<open>balloc\<close>

lemma bzero_tx:
  assumes "tx p s0 k H L V s" "H b = None" "b \<in> L \<or> 0 < k" "logging s0"
    and "\<And>t. tx p s0 (if b \<in> L then k else k - 1) H (insert b L) (V(b := zeroed (V b))) t \<Longrightarrow> Q () t"
  shows "wp (bzero ROOTDEV b) Q s"
  unfolding bzero_def using assms by (intro tx_change [OF assms(1)]) (auto simp: zeroed_def [abs_def])

lemma balloc_scan_full:
  assumes t: "tx p s0 k (H(B \<mapsto> bp)) L V s" and H: "H B = None" "B \<in> L \<or> V B = disk s0 B"
    and used: "\<forall>bi < min BPB (sz - b). \<not> bit_free bi (V B)"
    and q: "\<And>t. tx p s0 (if B \<in> L then k else k + 1) H L V t \<Longrightarrow> Q None t"
  shows "wp (balloc_scan dev sz b bp) Q s"
  unfolding balloc_scan_def
proof (rule wp_kfor_inv [where I = "\<lambda>_. tx p s0 k (H(B \<mapsto> bp)) L V"])
  show "tx p s0 k (H(B \<mapsto> bp)) L V s" by (rule t)
next
  fix ys bi zs u
  assume i: "[0..<min BPB (sz - b)] = ys @ bi # zs" and u: "tx p s0 k (H(B \<mapsto> bp)) L V u"
  have "bi \<in> set [0..<min BPB (sz - b)]" unfolding i by simp
  then have "\<not> bit_free bi (V B)" using used by simp
  then show "wp (kbind (buf_get bp (bit_free bi)) (\<lambda>fr.
     if fr then kthen [buf_put bp (bit_set bi), log_write bp, brelse bp, bzero dev (of_nat (b + bi))]
         (kreturn (Some (Some (of_nat (b + bi)))))
     else kreturn None)) (\<lambda>r u. case r of None \<Rightarrow> tx p s0 k (H(B \<mapsto> bp)) L V u | Some v \<Rightarrow> Q v u) u"
    unfolding wp_kbind by (intro tx_get [OF u, of B]) (use u in \<open>simp_all add: wp_simps\<close>)
next
  fix u assume u: "tx p s0 k (H(B \<mapsto> bp)) L V u"
  have "(H(B \<mapsto> bp))(B := None) = H" using H by (auto simp: fun_eq_iff)
  then have "wp (brelse bp) (\<lambda>_. Q None) u"
    by (intro tx_rel [OF u _ H(2)]) (use q in \<open>auto split: if_splits\<close>)
  then show "wp (kthen [brelse bp] (kreturn None)) Q u" by (simp add: wp_simps)
qed

lemma balloc_scan_takes:
  assumes t: "tx p s0 k (H(B \<mapsto> bp)) L V s" and H: "H B = None" and l: "logging s0"
    and n: "bi < min BPB (sz - b)" "bit_free bi (V B)" "\<forall>c < bi. \<not> bit_free c (V B)"
    and x: "x = of_nat (b + bi)" "x \<noteq> B" "H x = None" "x \<in> L \<or> 0 < k"
    and q: "\<And>t. tx p s0 (if x \<in> L then k else k - 1) H (insert x (insert B L)) (V(B := bit_set bi (V B), x := zeroed (V x))) t \<Longrightarrow>
      Q (Some x) t"
  shows "wp (balloc_scan ROOTDEV sz b bp) Q s"
  unfolding balloc_scan_def
proof (rule wp_kfor_first [where I = "tx p s0 k (H(B \<mapsto> bp)) L V" and x = bi and ys = "[0..<bi]"])
  show "[0..<min BPB (sz - b)] = [0..<bi] @ bi # [Suc bi..<min BPB (sz - b)]"
    using n(1) upt_add_eq_append [of 0 bi "min BPB (sz - b) - bi"] by (simp add: upt_conv_Cons)
  show "tx p s0 k (H(B \<mapsto> bp)) L V s" by (rule t)
next
  fix c u assume "c \<in> set [0..<bi]" and u: "tx p s0 k (H(B \<mapsto> bp)) L V u"
  then have "\<not> bit_free c (V B)" using n by simp
  then show "wp (kbind (buf_get bp (bit_free c)) (\<lambda>fr.
     if fr then kthen [buf_put bp (bit_set c), log_write bp, brelse bp, bzero ROOTDEV (of_nat (b + c))]
         (kreturn (Some (Some (of_nat (b + c)))))
     else kreturn None)) (\<lambda>r u. r = None \<and> tx p s0 k (H(B \<mapsto> bp)) L V u) u"
    unfolding wp_kbind by (intro tx_get [OF u, of B]) (use u in \<open>simp_all add: wp_simps\<close>)
next
  fix u assume u: "tx p s0 k (H(B \<mapsto> bp)) L V u"
  let ?V = "V(B := bit_set bi (V B))"
  have H': "(H(B \<mapsto> bp))(B := None) = H" using H by (auto simp: fun_eq_iff)
  have "wp (buf_put bp (bit_set bi)) (\<lambda>_. wp (log_write bp) (\<lambda>_. wp (brelse bp) (\<lambda>_. wp (bzero ROOTDEV x) (\<lambda>_. Q (Some x))))) u"
  proof (rule tx_put [OF u, of B])
    fix v assume v: "tx p s0 k (H(B \<mapsto> bp)) L ?V v"
    show "wp (log_write bp) (\<lambda>_. wp (brelse bp) (\<lambda>_. wp (bzero ROOTDEV x) (\<lambda>_. Q (Some x)))) v"
    proof (rule tx_log [OF v _ l, of B])
      fix w assume w: "tx p s0 k (H(B \<mapsto> bp)) (insert B L) ?V w"
      show "wp (brelse bp) (\<lambda>_. wp (bzero ROOTDEV x) (\<lambda>_. Q (Some x))) w"
      proof (rule tx_rel [OF w, of B])
        fix y assume "tx p s0 (if B \<in> insert B L then k else k + 1) ((H(B \<mapsto> bp))(B := None)) (insert B L) ?V y"
        then have "tx p s0 k H (insert B L) ?V y" using H' by simp
        then show "wp (bzero ROOTDEV x) (\<lambda>_. Q (Some x)) y"
          by (rule bzero_tx) (use x l q in \<open>auto split: if_splits\<close>)
      qed simp_all
    qed simp
  qed simp
  then show "wp (kbind (buf_get bp (bit_free bi)) (\<lambda>fr.
     if fr then kthen [buf_put bp (bit_set bi), log_write bp, brelse bp, bzero ROOTDEV (of_nat (b + bi))]
         (kreturn (Some (Some (of_nat (b + bi)))))
     else kreturn None)) (\<lambda>r u. \<exists>v. r = Some v \<and> Q v u) u"
    unfolding wp_kbind by (intro tx_get [OF u, of B]) (use n x in \<open>simp_all add: wp_etas del: kdo.simps\<close>)
qed

lemma bitmap_starts_split:
  assumes "n < sz"
  shows "bitmap_starts sz = map (\<lambda>k. k * BPB) [0..<n div BPB] @ (n div BPB * BPB) #
    map (\<lambda>k. k * BPB) [Suc (n div BPB)..<(sz + (BPB - 1)) div BPB]"
proof -
  have "n div BPB < (sz + (BPB - 1)) div BPB" using assms by (simp add: less_eq_div_iff_mult_less_eq Suc_le_eq [symmetric])
  then have "[0..<(sz + (BPB - 1)) div BPB] = [0..<n div BPB] @ n div BPB # [Suc (n div BPB)..<(sz + (BPB - 1)) div BPB]"
    using upt_add_eq_append [of 0 "n div BPB" "(sz + (BPB - 1)) div BPB - n div BPB"] by (simp add: upt_conv_Cons)
  then show ?thesis by (simp add: bitmap_starts_def)
qed

text \<open>The blocks of the free map that say of the blocks up to \<open>n\<close> whether they are free.\<close>

definition map_blocks :: "superblock \<Rightarrow> nat \<Rightarrow> uint set" where
  "map_blocks sp n = (\<lambda>c. BBLOCK (of_nat c) sp) ` {..n}"

lemma balloc_tx:
  fixes s :: "'a fs_st_scheme"
  assumes t: "tx p s0 k H L V s" and l: "logging s0"
    and n: "n < unat (sb_size (sb s0))" "blk_free (sb s0) V n" "\<forall>c < n. \<not> blk_free (sb s0) V c"
    and x: "x = of_nat n" "B = BBLOCK x (sb s0)" "x \<noteq> B" "H x = None" "\<forall>b \<in> map_blocks (sb s0) n. H b = None"
    and k: "\<forall>b \<in> map_blocks (sb s0) n. b \<in> L \<or> 0 < k" "x \<in> L \<or> 0 < (if B \<in> L then k else k - 1)"
    and q: "\<And>t. tx p s0 (if x \<in> L then if B \<in> L then k else k - 1 else (if B \<in> L then k else k - 1) - 1) H
      (insert x (insert B L)) (V(B := bit_set (n mod BPB) (V B), x := zeroed (V x))) t \<Longrightarrow> Q x t"
  shows "wp (balloc ROOTDEV) Q s"
proof -
  let ?sp = "sb s0" let ?sz = "unat (sb_size ?sp)"
  let ?body = "\<lambda>b. kbind (bread ROOTDEV (BBLOCK (of_nat b) ?sp)) (\<lambda>bp. balloc_scan ROOTDEV ?sz b bp)"
  have sz: "?sz < 4294967296" by (rule unat_less_32)
  have nb: "n = n div BPB * BPB + n mod BPB" "n mod BPB < BPB" by simp_all
  have "wp (kfor (bitmap_starts ?sz) ?body (kthen [printf ''balloc: out of blocks\<newline>'' []] (kreturn 0))) Q s"
  proof (rule wp_kfor_first [OF bitmap_starts_split [OF n(1)], where I = "tx p s0 k H L V"])
    show "tx p s0 k H L V s" by (rule t)
  next
    fix b u assume b: "b \<in> set (map (\<lambda>k. k * BPB) [0..<n div BPB])" and u: "tx p s0 k H L V u"
    then obtain j where j: "b = j * BPB" "j < n div BPB" by auto
    let ?B = "BBLOCK (of_nat b) ?sp"
    have lt: "b + bi < n" if "bi < BPB" for bi
    proof -
      have "b + bi < Suc j * BPB" using j that by simp
      also have "\<dots> \<le> n div BPB * BPB" using j by (intro mult_le_mono) auto
      finally show ?thesis using div_times_less_eq_dividend [of n BPB] by linarith
    qed
    have "?B \<in> map_blocks ?sp n" using lt [of 0] by (auto simp: map_blocks_def)
    then have HB: "H ?B = None" "?B \<in> L \<or> 0 < k" using x(5) k(1) by auto
    have full: "\<not> bit_free bi (V ?B)" if "bi < BPB" for bi
    proof -
      have "(b + bi) mod BPB = bi" "(b + bi) div BPB = j" using that j by auto
      moreover have "BBLOCK (of_nat (b + bi)) ?sp = ?B"
        using BBLOCK_nat [of "b + bi" ?sp] BBLOCK_nat [of b ?sp] lt [OF that] n(1) sz j that by simp
      ultimately show ?thesis using n(3) lt [OF that] by (auto simp: blk_free_def)
    qed
    show "wp (?body b) (\<lambda>r u. r = None \<and> tx p s0 k H L V u) u"
    proof (rule tx_read [OF u HB])
      fix i w assume w: "tx p s0 (if ?B \<in> L then k else k - 1) (H(?B \<mapsto> i)) L V w"
      show "wp (balloc_scan ROOTDEV ?sz b i) (\<lambda>r u. r = None \<and> tx p s0 k H L V u) w"
        by (rule balloc_scan_full [OF w HB(1)]) (use tx_clean [OF u HB(1)] full HB(2) in \<open>auto split: if_splits\<close>)
    qed
  next
    fix u assume u: "tx p s0 k H L V u"
    have B: "BBLOCK (of_nat (n div BPB * BPB)) ?sp = B" using BBLOCK_start [of n ?sp] n sz x by simp
    have HB: "H B = None" "B \<in> L \<or> 0 < k" using x k(1) by (auto simp: map_blocks_def)
    have free: "bit_free (n mod BPB) (V B)" using n(2) x by (simp add: blk_free_def)
    have used: "\<not> bit_free c (V B)" if "c < n mod BPB" for c
    proof -
      let ?c = "n div BPB * BPB + c"
      have c: "?c < n" using that nb by linarith
      have "?c mod BPB = c" "?c div BPB = n div BPB" using that nb(2) by auto
      moreover from this have "BBLOCK (of_nat ?c) ?sp = B"
        using BBLOCK_nat [of ?c ?sp] BBLOCK_nat [of n ?sp] c n(1) sz x by simp
      ultimately show ?thesis using n(3) c by (auto simp: blk_free_def)
    qed
    show "wp (?body (n div BPB * BPB)) (\<lambda>r u. \<exists>v. r = Some v \<and> Q v u) u"
      unfolding B
    proof (rule tx_read [OF u HB])
      fix i w assume w: "tx p s0 (if B \<in> L then k else k - 1) (H(B \<mapsto> i)) L V w"
      show "wp (balloc_scan ROOTDEV ?sz (n div BPB * BPB) i) (\<lambda>r u. \<exists>v. r = Some v \<and> Q v u) w"
      proof (rule balloc_scan_takes [OF w HB(1) l _ free])
        show "n mod BPB < min BPB (?sz - n div BPB * BPB)" using n(1) nb by linarith
        show "\<forall>c < n mod BPB. \<not> bit_free c (V B)" using used by simp
        show "x = of_nat (n div BPB * BPB + n mod BPB)" using x(1) nb(1) by simp
        show "x \<in> L \<or> 0 < (if B \<in> L then k else k - 1)" by (rule k(2))
        show "\<exists>v. Some x = Some v \<and> Q v y"
          if "tx p s0 (if x \<in> L then if B \<in> L then k else k - 1 else (if B \<in> L then k else k - 1) - 1) H (insert x (insert B L))
             (V(B := bit_set (n mod BPB) (V B), x := zeroed (V x))) y" for y
          using q [OF that] by simp
      qed (use x in simp_all)
    qed
  qed
  then show ?thesis using tx_fs [OF t] by (simp add: balloc_def wp_simps)
qed

section \<open>bfree\<close>

lemma bfree_tx:
  fixes s :: "'a fs_st_scheme"
  assumes t: "tx p s0 k H L V s" and l: "logging s0"
    and B: "B = BBLOCK b (sb s0)" "H B = None" "B \<in> L \<or> 0 < k" and u: "\<not> bit_free (unat b mod BPB) (V B)"
    and q: "\<And>t. tx p s0 (if B \<in> L then k else k - 1) H (insert B L) (V(B := bit_clear (unat b mod BPB) (V B))) t \<Longrightarrow> Q () t"
  shows "wp (bfree ROOTDEV b) Q s"
proof -
  let ?bi = "unat b mod BPB"
  have H: "(H(B \<mapsto> i))(B := None) = H" for i using B by (auto simp: fun_eq_iff)
  have "wp (kbind (bread ROOTDEV B) (\<lambda>bp. kdo [
       kbind (buf_get bp (bit_free ?bi)) (\<lambda>fr. panic_if (\<lambda>_. fr) ''freeing free block''),
       buf_put bp (bit_clear ?bi), log_write bp, brelse bp])) Q s"
  proof (rule tx_read [OF t B(2,3)])
    fix i w assume w: "tx p s0 (if B \<in> L then k else k - 1) (H(B \<mapsto> i)) L V w"
    have "wp (buf_put i (bit_clear ?bi)) (\<lambda>_. wp (log_write i) (\<lambda>_. wp (brelse i) (\<lambda>_. Q ()))) w"
    proof (rule tx_put [OF w, of B])
      fix v assume v: "tx p s0 (if B \<in> L then k else k - 1) (H(B \<mapsto> i)) L (V(B := bit_clear ?bi (V B))) v"
      show "wp (log_write i) (\<lambda>_. wp (brelse i) (\<lambda>_. Q ())) v"
      proof (rule tx_log [OF v _ l, of B])
        fix z assume z: "tx p s0 (if B \<in> L then k else k - 1) (H(B \<mapsto> i)) (insert B L) (V(B := bit_clear ?bi (V B))) z"
        show "wp (brelse i) (\<lambda>_. Q ()) z"
          by (rule tx_rel [OF z, of B]) (use q H in \<open>auto split: if_splits\<close>)
      qed simp
    qed simp
    then have "wp (kbind (buf_get i (bit_free ?bi)) (\<lambda>fr. panic_if (\<lambda>_. fr) ''freeing free block''))
      (\<lambda>_. wp (buf_put i (bit_clear ?bi)) (\<lambda>_. wp (log_write i) (\<lambda>_. wp (brelse i) (\<lambda>_. Q ())))) w"
      unfolding wp_kbind by (intro tx_get [OF w, of B]) (use u in \<open>simp_all add: wp_simps\<close>)
    then show "wp (kdo [
       kbind (buf_get i (bit_free ?bi)) (\<lambda>fr. panic_if (\<lambda>_. fr) ''freeing free block''),
       buf_put i (bit_clear ?bi), log_write i, brelse i]) Q w" by (simp add: wp_etas del: kdo.simps)
  qed
  then show ?thesis using tx_fs [OF t] B by (simp add: bfree_def wp_simps Let_def)
qed

section \<open>What the allocator promises\<close>

text \<open>
  C18: \<open>balloc\<close> takes the first free block. In a transaction with room for two more blocks, if \<open>n\<close> is the first
  block whose bit in the free map is clear, \<open>balloc\<close> returns \<open>n\<close>; the bit of \<open>n\<close> is then set, the \<open>BSIZE\<close>
  bytes of \<open>n\<close> are zero, and no other byte of any block differs from before. Both blocks are recorded in
  the log, no buffer stays held, and the disk itself is not written.
\<close>

theorem balloc_takes_first_free:
  fixes s :: "'a fs_st_scheme"
  assumes r: "fs_ready p k s" "logging s" "2 \<le> k"
    and n: "n < unat (sb_size (sb s))" "blk_free (sb s) (view s) n" "\<forall>c < n. \<not> blk_free (sb s) (view s) c"
    and data: "of_nat n \<noteq> BBLOCK (of_nat n) (sb s)"
    and B: "B = BBLOCK (of_nat n) (sb s)"
  shows "wp (balloc ROOTDEV) (\<lambda>r t. r = of_nat n \<and> fs_ready p (k - 2) t \<and> disk t = disk s \<and>
    view t = (view s)(B := bit_set (n mod BPB) (view s B), of_nat n := zeroed (view s (of_nat n))) \<and>
    set (homes (klog t)) = insert (of_nat n) (insert B (set (homes (klog s))))) s"
proof (rule balloc_tx [OF fs_ready_tx [OF r(1)] r(2) n refl B])
  show "of_nat n = of_nat n \<and> fs_ready p (k - 2) t \<and> disk t = disk s \<and>
    view t = (view s)(B := bit_set (n mod BPB) (view s B), of_nat n := zeroed (view s (of_nat n))) \<and>
    set (homes (klog t)) = insert (of_nat n) (insert B (set (homes (klog s))))"
    if u: "tx p s (if of_nat n \<in> set (homes (klog s)) then if B \<in> set (homes (klog s)) then k else k - 1
        else (if B \<in> set (homes (klog s)) then k else k - 1) - 1) Map.empty (insert (of_nat n) (insert B (set (homes (klog s)))))
       ((view s)(B := bit_set (n mod BPB) (view s B), of_nat n := zeroed (view s (of_nat n)))) t" for t
  proof -
    have "tx p s (k - 2) Map.empty (insert (of_nat n) (insert B (set (homes (klog s)))))
       ((view s)(B := bit_set (n mod BPB) (view s B), of_nat n := zeroed (view s (of_nat n)))) t"
      by (rule tx_weaken [OF u]) auto
    from tx_ready [OF this] show ?thesis by simp
  qed
qed (use data r(3) in \<open>auto simp: B\<close>)

theorem balloc_takes_first_free_witness:
  "\<exists>s :: trap_st. fs_ready 1 28 s \<and> logging s \<and> wp (balloc ROOTDEV) (\<lambda>r t. r = 2 \<and> view t 45 0 = 7) s"
proof -
  let ?D = "\<lambda>b i. if b = (45 :: uint) \<and> i = 0 then 3 else (0 :: uchar)"
  obtain s :: trap_st where s: "fs_ready 1 28 s" "logging s" "view s = ?D" "sb s = sb0"
    using ex_fsys [of ?D "\<lambda>_. inode0" sb0] by auto
  have B: "BBLOCK 0 sb0 = 45" "BBLOCK 1 sb0 = 45" "BBLOCK 2 sb0 = 45" by (simp_all add: BBLOCK_def sb0_def)
  have n: "2 < unat (sb_size (sb s))" "blk_free (sb s) (view s) 2" "\<forall>c < 2. \<not> blk_free (sb s) (view s) c" "of_nat 2 \<noteq> BBLOCK (of_nat 2) (sb s)"
    using B by (simp_all add: s(3,4) blk_free_def bit_free_def bit_mask_def less_2_cases_iff) (simp_all add: sb0_def)
  show ?thesis
    using s B by (intro exI [of _ s] conjI wp_mono [OF balloc_takes_first_free [OF s(1,2) _ n refl]])
      (auto simp: bit_set_def bit_mask_def zeroed_def)
qed

text \<open>
  C39: \<open>bfree\<close> gives a block back once. On a block whose bit in the free map is set, \<open>bfree\<close> clears that bit and
  changes no other byte of any block; on a block that is free already it panics. Freeing the block that
  \<open>balloc\<close> took restores the free map.
\<close>

theorem bfree_frees_once:
  fixes s :: "'a fs_st_scheme"
  assumes r: "fs_ready p k s" "logging s" "0 < k" and B: "B = BBLOCK b (sb s)" and bi: "bi = unat b mod BPB"
  shows "if bit_free bi (view s B) then panics_with (bfree ROOTDEV b) ''freeing free block'' s
    else wp (bfree ROOTDEV b) (\<lambda>_ t. fs_ready p (k - 1) t \<and> disk t = disk s \<and>
      view t = (view s)(B := bit_clear bi (view s B))) s \<and>
      (\<forall>d. bit_free bi d \<longrightarrow> bit_clear bi (bit_set bi d) = d)"
proof -
  note t = fs_ready_tx [OF r(1)]
  have "wp (bfree ROOTDEV b) (\<lambda>_ t. fs_ready p (k - 1) t \<and> disk t = disk s \<and>
      view t = (view s)(B := bit_clear bi (view s B))) s" if "\<not> bit_free bi (view s B)"
  proof (rule bfree_tx [OF t r(2) B])
    show "\<not> bit_free (unat b mod BPB) (view s B)" using that by (simp add: bi)
    fix u assume "tx p s (if B \<in> set (homes (klog s)) then k else k - 1) Map.empty (insert B (set (homes (klog s))))
      ((view s)(B := bit_clear (unat b mod BPB) (view s B))) u"
    from tx_ready [OF this] show "fs_ready p (k - 1) u \<and> disk u = disk s \<and> view u = (view s)(B := bit_clear bi (view s B))"
      using fs_ready_less [of p k u "k - 1"] by (auto simp: bi split: if_splits)
  qed (use r in auto)
  moreover have "bit_clear bi (bit_set bi d) = d" if "bit_free bi d" for d
  proof -
    have "(d (bi div 8) OR bit_mask bi) AND NOT (bit_mask bi) = d (bi div 8)"
      using that by (auto simp: bit_free_def bit_simps intro!: bit_eqI dest: bit_eq_iff [THEN iffD1])
    then show ?thesis by (simp add: bit_clear_def bit_set_def)
  qed
  moreover have "panics_with (bfree ROOTDEV b) ''freeing free block'' s" if "bit_free bi (view s B)"
  proof -
    obtain i u where u: "bread ROOTDEV B s = Ret i u" "tx p s (if B \<in> set (homes (klog s)) then k else k - 1)
        (Map.empty(B \<mapsto> i)) (set (homes (klog s))) (view s) u"
      by (rule tx_bread [OF t, of B]) (use r(3) in auto)
    have "bit_free bi (b_data (bufs u i))" using tx_get [OF u(2), of B i "\<lambda>r _. r" "bit_free bi"] that
      by (simp add: buf_get_def wp_simps)
    then show ?thesis using u(1) by (simp add: bfree_def panics_with_def run_defs B bi Let_def buf_get_def panic_if_def)
  qed
  ultimately show ?thesis by simp
qed

theorem bfree_frees_once_witness:
  "\<exists>s :: trap_st. fs_ready 1 28 s \<and> wp (bfree ROOTDEV 100) (\<lambda>_ t. view t 45 12 = 0) s \<and>
     panics_with (bfree ROOTDEV 101) ''freeing free block'' s"
proof -
  let ?D = "\<lambda>b i. if b = (45 :: uint) \<and> i = 12 then 16 else (0 :: uchar)"
  obtain s :: trap_st where s: "fs_ready 1 28 s" "logging s" "view s = ?D" "sb s = sb0"
    using ex_fsys [of ?D "\<lambda>_. inode0" sb0] by auto
  have B: "45 = BBLOCK 100 (sb s)" "45 = BBLOCK 101 (sb s)" using s(4) by (simp_all add: BBLOCK_def sb0_def)
  have "wp (bfree ROOTDEV 100) (\<lambda>_ t. view t = (view s)(45 := bit_clear 100 (view s 45))) s"
    using bfree_frees_once [OF s(1,2) _ B(1), of 100] s(3)
    by (auto simp: bit_free_def bit_mask_def elim!: wp_mono)
  then have "wp (bfree ROOTDEV 100) (\<lambda>_ t. view t 45 12 = 0) s"
    by (rule wp_mono) (simp add: s(3) bit_clear_def bit_mask_def)
  moreover have "panics_with (bfree ROOTDEV 101) ''freeing free block'' s"
    using bfree_frees_once [OF s(1,2) _ B(2), of 101] s(3) by (simp add: bit_free_def bit_mask_def)
  ultimately show ?thesis using s(1) by blast
qed

end
