(* ===== verification/File_Content.thy ===== *)
theory File_Content
  imports Balloc
begin

text \<open>
  The contents of a file, and the operations that read them. A file is the bytes of its blocks, which the
  inode names directly or through its indirect block; \<open>bmap\<close> finds a block, \<open>readi\<close> copies a
  range of the contents to a kernel object or to user memory. The states are those of \<open>Txn\<close>.
\<close>

section \<open>The contents\<close>

text \<open>The disk block of block \<open>bn\<close> of a file, 0 when there is none.\<close>

definition fblk :: "(uint \<Rightarrow> bytes) \<Rightarrow> inode \<Rightarrow> nat \<Rightarrow> uint" where
  "fblk V i bn = (if bn < NDIRECT then i_addrs i bn
     else if i_addrs i NDIRECT = 0 then 0 else get32 (V (i_addrs i NDIRECT)) (4 * (bn - NDIRECT)))"

definition fbyte :: "(uint \<Rightarrow> bytes) \<Rightarrow> inode \<Rightarrow> nat \<Rightarrow> uchar" where
  "fbyte V i j = V (fblk V i (j div BSIZE)) (j mod BSIZE)"

definition contents :: "(uint \<Rightarrow> bytes) \<Rightarrow> inode \<Rightarrow> uchar list" where
  "contents V i = map (fbyte V i) [0..<unat (i_size i)]"

section \<open>Finding a block\<close>

lemma bmap_mapped:
  fixes s :: "'a fs_st_scheme"
  assumes t: "tx p s0 k H L V s" and bn: "bn < MAXFILE" and a: "fblk V (itable s0 ip) bn \<noteq> 0"
    and dev: "i_dev (itable s0 ip) = ROOTDEV" and H: "H = Map.empty" and k: "0 < k"
    and q: "\<And>t. tx p s0 k H L V t \<Longrightarrow> Q (fblk V (itable s0 ip) bn) t"
  shows "wp (bmap ip bn) Q s"
proof (cases "bn < NDIRECT")
  case True
  then show ?thesis using a q [OF t] tx_fs [OF t] by (simp add: bmap_def fblk_def get_inode_def wp_simps)
next
  case False
  let ?i = "itable s0 ip" let ?ind = "i_addrs ?i NDIRECT"
  have ind: "?ind \<noteq> 0" "get32 (V ?ind) (4 * (bn - NDIRECT)) \<noteq> 0" "fblk V ?i bn = get32 (V ?ind) (4 * (bn - NDIRECT))"
    using a False by (auto simp: fblk_def split: if_splits)
  have "wp (kbind (bread ROOTDEV ?ind) (\<lambda>bp.
          kbind (buf_get bp (\<lambda>d. get32 d (4 * (bn - NDIRECT)))) (\<lambda>a.
          kbind (if a = 0 then
              kbind (balloc (i_dev (itable s ip))) (\<lambda>addr.
              if addr \<noteq> 0 then kthen [
                buf_put bp (\<lambda>d. put32 d (4 * (bn - NDIRECT)) addr),
                log_write bp] (kreturn addr)
              else kreturn addr)
            else kreturn a) (\<lambda>addr.
          kthen [brelse bp] (kreturn addr))))) Q s"
  proof (rule tx_read [OF t])
    fix j u assume u: "tx p s0 (if ?ind \<in> L then k else k - 1) (H(?ind \<mapsto> j)) L V u"
    have "wp (brelse j) (\<lambda>_. Q (fblk V ?i bn)) u"
    proof (rule tx_rel [OF u, of ?ind])
      show "?ind \<in> L \<or> V ?ind = disk s0 ?ind" using tx_clean [OF t] H by auto
    qed (use q H k in \<open>auto split: if_splits\<close>)
    then show "wp (kbind (buf_get j (\<lambda>d. get32 d (4 * (bn - NDIRECT)))) (\<lambda>a.
          kbind (if a = 0 then
              kbind (balloc (i_dev (itable s ip))) (\<lambda>addr.
              if addr \<noteq> 0 then kthen [
                buf_put j (\<lambda>d. put32 d (4 * (bn - NDIRECT)) addr),
                log_write j] (kreturn addr)
              else kreturn addr)
            else kreturn a) (\<lambda>addr.
          kthen [brelse j] (kreturn addr)))) Q u"
      unfolding wp_kbind by (intro tx_get [OF u, of ?ind]) (use ind in \<open>simp_all add: wp_simps\<close>)
  qed (use H k in simp_all)
  moreover have "i_dev (itable s ip) = ROOTDEV" "i_addrs (itable s ip) NDIRECT = ?ind" "bn - NDIRECT < NINDIRECT"
    using bn False dev tx_fs [OF t] by simp_all
  ultimately show ?thesis using False ind by (simp add: bmap_def get_inode_def wp_simps Let_def)
qed

section \<open>Reading a range\<close>

text \<open>
  The loop of \<open>readi\<close> for any destination: \<open>G tot\<close> is a property of the state, cache and log apart,
  once \<open>tot\<close> bytes are copied, which \<open>either_copyout\<close> keeps going.
\<close>

definition readi_chunk :: "nat \<Rightarrow> uint \<Rightarrow> kptr \<Rightarrow> nat \<times> nat \<times> nat \<Rightarrow> (int option, 'a) fsop" where
  "readi_chunk ip dev dst = (\<lambda>(tot, off, m).
     kbind (bmap ip (off div BSIZE)) (\<lambda>addr.
     if addr = 0 then kreturn (Some (sint (of_nat tot :: uint)))
     else kbind (bread dev addr) (\<lambda>bp.
       kbind (buf_get bp (\<lambda>d j. d (off mod BSIZE + j))) (\<lambda>src.
       kbind (either_copyout (kptr_add dst tot) src (of_nat m)) (\<lambda>r.
       kthen [brelse bp] (kreturn (if r = -1 then Some (-1) else None)))))))"

lemma readi_chunk_wp:
  fixes s :: "'a fs_st_scheme"
  assumes t: "tx p s1 k Map.empty L V s" and k: "0 < k"
    and i: "i_dev (itable s1 ip) = ROOTDEV" "off div BSIZE < MAXFILE" "fblk V (itable s1 ip) (off div BSIZE) \<noteq> 0"
    and copy: "\<And>k H t src. (\<forall>j < m. src j = V (fblk V (itable s1 ip) (off div BSIZE)) (off mod BSIZE + j)) \<Longrightarrow> tx p s1 k H L V t \<Longrightarrow>
      wp (either_copyout (kptr_add dst tot) src (of_nat m)) (\<lambda>r u. \<exists>s2. tx p s2 k H L V u \<and> disk s2 = disk s1 \<and> R r s2) t"
    and q: "\<And>r s2 t. R r s2 \<Longrightarrow> tx p s2 k Map.empty L V t \<Longrightarrow> Q (if r = -1 then Some (-1) else None) t"
  shows "wp (readi_chunk ip ROOTDEV dst (tot, off, m)) Q s"
proof -
  let ?a = "fblk V (itable s1 ip) (off div BSIZE)"
  have "wp (kbind (bread ROOTDEV ?a) (\<lambda>bp.
       kbind (buf_get bp (\<lambda>d j. d (off mod BSIZE + j))) (\<lambda>src.
       kbind (either_copyout (kptr_add dst tot) src (of_nat m)) (\<lambda>r.
       kthen [brelse bp] (kreturn (if r = -1 then Some (-1) else None)))))) Q u"
    if u: "tx p s1 k Map.empty L V u" for u
  proof (rule tx_read [OF u])
    fix b v assume v: "tx p s1 (if ?a \<in> L then k else k - 1) (Map.empty(?a \<mapsto> b)) L V v"
    have rel: "wp (brelse b) (\<lambda>_. Q (if r = - 1 then Some (- 1) else None)) w"
      if w: "tx p s2 (if ?a \<in> L then k else k - 1) (Map.empty(?a \<mapsto> b)) L V w" "disk s2 = disk s1" "R r s2" for w s2 r
    proof (rule tx_rel [OF w(1), of ?a])
      show "?a \<in> L \<or> V ?a = disk s2 ?a" using tx_clean [OF u, of ?a] w(2) by auto
    qed (use q [OF w(3)] k in \<open>auto split: if_splits\<close>)
    have "wp (kbind (either_copyout (kptr_add dst tot) (\<lambda>j. V ?a (off mod BSIZE + j)) (of_nat m)) (\<lambda>r.
       kthen [brelse b] (kreturn (if r = -1 then Some (-1) else None)))) Q v"
      unfolding wp_kbind
    proof (rule wp_mono [OF copy [OF _ v]])
      fix r w assume "\<exists>s2. tx p s2 (if ?a \<in> L then k else k - 1) (Map.empty(?a \<mapsto> b)) L V w \<and> disk s2 = disk s1 \<and> R r s2"
      then obtain s2 where "tx p s2 (if ?a \<in> L then k else k - 1) (Map.empty(?a \<mapsto> b)) L V w" "disk s2 = disk s1" "R r s2"
        by blast
      from rel [OF this] show "wp (kthen [brelse b] (kreturn (if r = -1 then Some (-1) else None))) Q w"
        by (simp only: wp_etas)
    qed simp
    then show "wp (kbind (buf_get b (\<lambda>d j. d (off mod BSIZE + j))) (\<lambda>src.
       kbind (either_copyout (kptr_add dst tot) src (of_nat m)) (\<lambda>r.
       kthen [brelse b] (kreturn (if r = -1 then Some (-1) else None))))) Q v"
      unfolding wp_kbind [of "buf_get b _"] by (intro tx_get [OF v, of ?a]) simp_all
  qed (use k in simp_all)
  then show ?thesis
    unfolding readi_chunk_def prod.case wp_kbind [of "bmap ip _"]
    by (intro bmap_mapped [OF t]) (use i k in simp_all)
qed

lemma in_block:
  fixes off j m :: nat
  assumes "j < m" "m \<le> BSIZE - off mod BSIZE"
  shows "(off + j) div BSIZE = off div BSIZE" "(off + j) mod BSIZE = off mod BSIZE + j"
proof -
  have lt: "off mod BSIZE + j < BSIZE" using assms by linarith
  have "off + j = off div BSIZE * BSIZE + (off mod BSIZE + j)" by simp
  with lt show "(off + j) div BSIZE = off div BSIZE" "(off + j) mod BSIZE = off mod BSIZE + j"
    by (metis add.commute div_less div_mult_self3 add.right_neutral lt mult.commute zero_neq_numeral, metis mod_less mod_mult_self3 lt)
qed

lemma readi_loop_wp:
  fixes s :: "'a fs_st_scheme" and G :: "nat \<Rightarrow> 'a fs_st_scheme \<Rightarrow> bool"
  assumes k: "0 < k" and dev: "i_dev i = ROOTDEV" and it: "\<And>tot s1. G tot s1 \<Longrightarrow> itable s1 ip = i"
    and mapped: "\<forall>j < n. fblk V i ((off0 + j) div BSIZE) \<noteq> 0" "off0 + n \<le> MAXFILE * BSIZE"
    and copy: "\<And>tot m k H t s1 src. G tot s1 \<Longrightarrow> tot + m \<le> n \<Longrightarrow> m \<le> BSIZE \<Longrightarrow> (\<forall>j < m. src j = fbyte V i (off0 + tot + j)) \<Longrightarrow>
      tx p s1 k H L V t \<Longrightarrow> wp (either_copyout (kptr_add dst tot) src (of_nat m))
        (\<lambda>r u. \<exists>s2. tx p s2 k H L V u \<and> disk s2 = disk s1 \<and> (if r = - 1 then Bad s2 else G (tot + m) s2)) t"
    and bad: "\<And>s2 t. Bad s2 \<Longrightarrow> tx p s2 k Map.empty L V t \<Longrightarrow> Q (- 1) t"
    and good: "\<And>s2 t. G n s2 \<Longrightarrow> tx p s2 k Map.empty L V t \<Longrightarrow> wp rest Q t"
  shows "tx p s1 k Map.empty L V s \<Longrightarrow> G tot s1 \<Longrightarrow> tot \<le> n \<Longrightarrow>
    wp (kfor (io_chunks tot (off0 + tot) n) (readi_chunk ip ROOTDEV dst) rest) Q s"
proof (induction "n - tot" arbitrary: tot s s1 rule: less_induct)
  case less
  show ?case
  proof (cases "tot < n")
    case False
    then show ?thesis using less.prems good by (simp add: io_chunks.simps wp_simps)
  next
    case True
    let ?off = "off0 + tot"
    define m where "m = min (n - tot) (BSIZE - ?off mod BSIZE)"
    have m: "0 < m" "tot + m \<le> n" "m \<le> BSIZE - ?off mod BSIZE" "m \<le> BSIZE" using True by (auto simp: m_def)
    have ic: "io_chunks tot ?off n = (tot, ?off, m) # io_chunks (tot + m) (off0 + (tot + m)) n"
      using True by (subst io_chunks.simps) (simp add: m_def Let_def add.assoc)
    have src: "V (fblk V i (?off div BSIZE)) (?off mod BSIZE + j) = fbyte V i (?off + j)" if "j < m" for j
      using in_block [OF that m(3)] by (simp add: fbyte_def)
    note i1 = it [OF less.prems(2)]
    show ?thesis
      unfolding ic wp_kfor_Cons
    proof (rule readi_chunk_wp [OF less.prems(1) k, where R = "\<lambda>r s2. if r = - 1 then Bad s2 else G (tot + m) s2"])
      show "i_dev (itable s1 ip) = ROOTDEV" using dev i1 by simp
      show "?off div BSIZE < MAXFILE" using mapped(2) True by (simp add: less_mult_imp_div_less)
      show "fblk V (itable s1 ip) (?off div BSIZE) \<noteq> 0" using mapped(1) True i1 by auto
      fix r s2 t assume r: "if r = - 1 then Bad s2 else G (tot + m) s2" and t: "tx p s2 k Map.empty L V t"
      show "(case if r = - 1 then Some (- 1) else None of
          None \<Rightarrow> wp (kfor (io_chunks (tot + m) (off0 + (tot + m)) n) (readi_chunk ip ROOTDEV dst) rest) Q
        | Some v \<Rightarrow> Q v) t"
      proof (cases "r = - 1")
        case True
        then show ?thesis using r bad t by simp
      next
        case False
        then show ?thesis using r less.hyps [of "tot + m" s2 t] t m True by simp
      qed
    next
      fix k H t src
      assume "\<forall>j<m. src j = V (fblk V (itable s1 ip) (?off div BSIZE)) (?off mod BSIZE + j)" and t: "tx p s1 k H L V t"
      then have "\<forall>j<m. src j = fbyte V i (?off + j)" using src i1 by simp
      from copy [OF less.prems(2) m(2,4) this t]
      show "wp (either_copyout (kptr_add dst tot) src (of_nat m))
        (\<lambda>r u. \<exists>s2. tx p s2 k H L V u \<and> disk s2 = disk s1 \<and> (if r = - 1 then Bad s2 else G (tot + m) s2)) t" .
    qed
  qed
qed

section \<open>Reading into user memory\<close>

lemma wrote_join:
  assumes "wrote m0 root va F tot m1" "wrote m1 root (va + of_nat tot) src m m2" "\<forall>j < m. src j = F (tot + j)"
    and "tot + m < 18446744073709551616"
  shows "wrote m0 root va F (tot + m) m2"
  unfolding wrote_def
proof
  fix v
  let ?d = "unat (v - va)"
  have t: "unat (of_nat tot :: uint64) = tot" using assms(4) by (simp add: unat_of_nat take_bit_nat_eq_self)
  have e: "v - (va + of_nat tot) = v - va - of_nat tot" by simp
  have d: "unat (v - (va + of_nat tot)) = (if tot \<le> ?d then ?d - tot else 18446744073709551616 - tot + ?d)"
    unfolding e unat_sub_cases [of "v - va"] t by simp
  have r1: "uread m1 root v = (if ?d < tot then Some (F ?d) else uread m0 root v)" using assms(1) by (simp add: wrote_def)
  have r2: "uread m2 root v = (if unat (v - (va + of_nat tot)) < m then Some (src (unat (v - (va + of_nat tot)))) else uread m1 root v)"
    using assms(2) by (simp add: wrote_def)
  show "uread m2 root v = (if ?d < tot + m then Some (F ?d) else uread m0 root v)"
  proof (cases "tot \<le> ?d")
    case True
    then show ?thesis using r1 r2 d assms(3) by auto
  next
    case False
    then show ?thesis using r1 r2 d assms(4) by auto
  qed
qed

definition user_got :: "'a fs_st_scheme \<Rightarrow> uint64 \<Rightarrow> uint64 \<Rightarrow> (nat \<Rightarrow> uchar) \<Rightarrow> nat \<Rightarrow> 'a fs_st_scheme \<Rightarrow> bool" where
  "user_got s root va F n t \<longleftrightarrow> t = s\<lparr>mem := mem t\<rparr> \<and> us_inv (syms s) (mem t) root \<and>
     (\<forall>v. upage (mem t) root v = upage (mem s) root v) \<and> urange (mem s) root va n \<and> wrote (mem s) root va F n (mem t)"

definition user_bad :: "'a fs_st_scheme \<Rightarrow> uint64 \<Rightarrow> uint64 \<Rightarrow> nat \<Rightarrow> 'a fs_st_scheme \<Rightarrow> bool" where
  "user_bad s root va n t \<longleftrightarrow> t = s\<lparr>mem := mem t\<rparr> \<and> us_inv (syms s) (mem t) root \<and>
     (\<forall>v. upage (mem t) root v = upage (mem s) root v) \<and> \<not> urange (mem s) root va n \<and>
     (\<forall>v. \<not> unat (v - va) < n \<longrightarrow> uread (mem t) root v = uread (mem s) root v)"

lemma urange_join: "urange m root va (n + k) \<longleftrightarrow> urange m root va n \<and> urange m root (va + of_nat n) k"
proof
  assume "urange m root va (n + k)"
  then show "urange m root va n \<and> urange m root (va + of_nat n) k"
    by (auto simp: urange_def add.assoc dest: spec [of _ "n + _"])
next
  assume r: "urange m root va n \<and> urange m root (va + of_nat n) k"
  show "urange m root va (n + k)" unfolding urange_def
  proof (intro allI impI)
    fix i assume "i < n + k"
    then show "upage m root (va + of_nat i) \<noteq> None"
      using r by (cases "i < n") (auto simp: urange_def add.assoc dest: spec [of _ "i - n"])
  qed
qed

lemma user_copy_chunk:
  fixes s :: "'a fs_st_scheme"
  assumes G: "user_got s root va F tot s1" and root: "root = p_pagetable (procs s p)"
    and n: "tot + m \<le> n" "n < 18446744073709551616" and src: "\<forall>j < m. src j = F (tot + j)" and t: "tx p s1 k H L V t"
  shows "wp (either_copyout (kptr_add (UserPtr va) tot) src (of_nat m)) (\<lambda>r u. \<exists>s2. tx p s2 k H L V u \<and> disk s2 = disk s1 \<and>
    (if r = - 1 then user_bad s root va n s2 else user_got s root va F (tot + m) s2)) t"
proof -
  have s1: "s1 = s\<lparr>mem := mem s1\<rparr>" "us_inv (syms s) (mem s1) root" "\<forall>v. upage (mem s1) root v = upage (mem s) root v"
    "urange (mem s) root va tot" "wrote (mem s) root va F tot (mem s1)"
    using G by (simp_all add: user_got_def)
  have "syms s1 = syms s" "procs s1 = procs s" using arg_cong [OF s1(1), of syms] arg_cong [OF s1(1), of procs] by simp_all
  with log_frame_fields [OF txD(2) [OF t]]
  have f: "syms t = syms s" "mem t = mem s1" "p_pagetable (procs t p) = root" using root by simp_all
  have m: "unat (of_nat m :: uint64) = m" using n by (simp add: unat_of_nat take_bit_nat_eq_self)
  obtain r m' where c: "copyout root (va + of_nat tot) src (of_nat m) t = Ret r (t\<lparr>mem := m'\<rparr>)" "us_inv (syms s) m' root"
    "\<forall>v. upage m' root v = upage (mem s1) root v"
    "if urange (mem s1) root (va + of_nat tot) m then r = 0 \<and> wrote (mem s1) root (va + of_nat tot) src m m'
     else r = - 1 \<and> (\<forall>v. \<not> unat (v - (va + of_nat tot)) < m \<longrightarrow> uread m' root v = uread (mem s1) root v)"
    using copyout_spec [of t root "va + of_nat tot" src "of_nat m", unfolded f(1,2) m, OF s1(2)] by blast
  have ur: "urange (mem s1) root (va + of_nat tot) m = urange (mem s) root (va + of_nat tot) m" using s1(3) by (simp add: urange_def)
  have s2: "s1\<lparr>mem := m'\<rparr> = s\<lparr>mem := m'\<rparr>" by (subst s1(1)) simp
  have post: "if r = - 1 then user_bad s root va n (s1\<lparr>mem := m'\<rparr>) else user_got s root va F (tot + m) (s1\<lparr>mem := m'\<rparr>)"
  proof (cases "urange (mem s) root (va + of_nat tot) m")
    case True
    then have "wrote (mem s1) root (va + of_nat tot) src m m'" "r = 0" using c(4) ur by auto
    moreover from wrote_join [OF s1(5) this(1) src] have "wrote (mem s) root va F (tot + m) m'" using n by simp
    ultimately show ?thesis using c(2,3) s1 True unfolding s2 by (simp add: user_got_def urange_join)
  next
    case False
    have out: "\<not> unat (v - (va + of_nat tot)) < m \<and> \<not> unat (v - va) < tot" if "\<not> unat (v - va) < n" for v
    proof -
      have tn: "unat (of_nat tot :: uint64) = tot" using n by (simp add: unat_of_nat take_bit_nat_eq_self)
      have e: "v - (va + of_nat tot) = v - va - of_nat tot" by simp
      show ?thesis unfolding e unat_sub_cases [of "v - va"] tn using that n by auto
    qed
    have "\<not> urange (mem s) root va n"
      using False n(1) urange_join [of "mem s" root va tot "n - tot"] urange_join [of "mem s" root "va + of_nat tot" m "n - tot - m"] by auto
    moreover have "uread m' root v = uread (mem s) root v" if "\<not> unat (v - va) < n" for v
      using out [OF that] c(4) ur False s1(5) by (simp add: wrote_def)
    ultimately show ?thesis using c s1 ur False unfolding s2 by (simp add: user_bad_def)
  qed
  have "wp (copyout root (va + of_nat tot) src (of_nat m)) (\<lambda>r u. \<exists>s2. tx p s2 k H L V u \<and> disk s2 = disk s1 \<and>
    (if r = - 1 then user_bad s root va n s2 else user_got s root va F (tot + m) s2)) t"
    unfolding wp_def c(1) using post tx_mem [OF t, of m'] by (auto intro!: exI [of _ "s1\<lparr>mem := m'\<rparr>"])
  then show ?thesis using f(3) curproc_calm [OF txD(5) [OF t]]
    by (simp add: wp_simps wp_def [of curproc])
qed

section \<open>readi\<close>

text \<open>
  An inode whose file is complete: it is on the root device, not longer than a file can be, and has a
  block for every byte.
\<close>

definition file_ok :: "(uint \<Rightarrow> bytes) \<Rightarrow> inode \<Rightarrow> bool" where
  "file_ok V i \<longleftrightarrow> i_dev i = ROOTDEV \<and> unat (i_size i) \<le> MAXFILE * BSIZE \<and>
     (\<forall>j < unat (i_size i). fblk V i (j div BSIZE) \<noteq> 0)"

lemma readi_eq:
  "readi ip dst off n s = (let i = itable s ip; n' = (if off + n > i_size i then i_size i - off else n) in
     if off > i_size i \<or> off + n < off then Ret 0 s
     else kfor (io_chunks 0 (unat off) (unat n')) (readi_chunk ip (i_dev i) dst) (kreturn (sint n')) s)"
  by (simp add: readi_def readi_chunk_def [abs_def] get_inode_def run_defs Let_def)

lemma clip_range:
  fixes off n sz :: uint
  assumes "off \<le> sz" "\<not> off + n < off"
  shows "unat (if off + n > sz then sz - off else n) = min (unat n) (unat sz - unat off)"
proof -
  have a: "unat (off + n) = unat off + unat n"
    using assms(2) unat_less_32 [of off] unat_less_32 [of n] by (auto simp: word_less_nat_alt unat_word_ariths mod_if split: if_splits)
  show ?thesis using assms(1) a by (auto simp: word_less_nat_alt word_le_nat_alt unat_sub min_def)
qed

text \<open>
  C4: \<open>readi\<close> refines the contents of a file. On an inode whose file is complete, in a state where the cache
  has room for one more block, reading \<open>n\<close> bytes at \<open>off\<close> into user memory takes from the
  contents the bytes from \<open>off\<close> on, at most \<open>n\<close> and none behind the end. If the user
  can access every page of the destination, \<open>readi\<close> returns their number and the user finds exactly
  them there and everything else as it was; otherwise it returns -1, and nothing outside the
  destination changes. No block changes, no buffer stays held, and an offset behind the end, or a range
  that wraps around, reads nothing.
\<close>

theorem readi_reads_contents:
  fixes s :: "'a fs_st_scheme" and off n :: uint
  assumes r: "fs_ready p k s" "0 < k" and ok: "file_ok (view s) (itable s ip)"
    and us: "us_inv (syms s) (mem s) root" "root = p_pagetable (procs s p)"
  defines "xs \<equiv> (if off + n < off then [] else take (unat n) (drop (unat off) (contents (view s) (itable s ip))))"
  shows "wp (readi ip (UserPtr va) off n) (\<lambda>r t. fs_ready p k t \<and> view t = view s \<and> disk t = disk s \<and>
    (\<forall>v. upage (mem t) root v = upage (mem s) root v) \<and>
    (if \<forall>j < length xs. upage (mem s) root (va + of_nat j) \<noteq> None
     then r = int (length xs) \<and> (\<forall>v. uread (mem t) root v = (if unat (v - va) < length xs then Some (xs ! unat (v - va)) else uread (mem s) root v))
     else r = - 1 \<and> (\<forall>v. \<not> unat (v - va) < length xs \<longrightarrow> uread (mem t) root v = uread (mem s) root v))) s"
proof (cases "off > i_size (itable s ip) \<or> off + n < off")
  case True
  then have "xs = []" by (auto simp: xs_def contents_def word_less_nat_alt)
  then show ?thesis using True r us by (simp add: wp_def readi_eq Let_def)
next
  case False
  let ?i = "itable s ip" let ?V = "view s"
  let ?n' = "if off + n > i_size ?i then i_size ?i - off else n"
  define N where "N = unat ?n'"
  define F where "F j = fbyte ?V ?i (unat off + j)" for j
  have N: "N = min (unat n) (unat (i_size ?i) - unat off)" using False clip_range [of off "i_size ?i" n] by (auto simp: N_def not_less)
  have off: "unat off \<le> unat (i_size ?i)" using False by (simp add: word_less_nat_alt not_less)
  have xs: "length xs = N" "\<And>j. j < N \<Longrightarrow> xs ! j = F j"
    using False N off by (auto simp: xs_def contents_def F_def)
  have small: "N \<le> MAXFILE * BSIZE" "unat off + N \<le> MAXFILE * BSIZE" using N off ok by (auto simp: file_ok_def)
  have sint: "sint ?n' = int N" using small(1) sint_unat [of ?n'] by (simp add: N_def del: if_split)
  have rest: "fs_ready p k t \<and> view t = view s \<and> disk t = disk s \<and>
    (\<forall>v. upage (mem t) root v = upage (mem s) root v)" if "tx p s2 k Map.empty (set (homes (klog s))) ?V t"
      "disk s2 = disk s" "\<forall>v. upage (mem s2) root v = upage (mem s) root v" for s2 t
    using tx_ready [OF that(1)] that log_frame_fields(3) [OF txD(2) [OF that(1)]] by simp
  let ?Q = "\<lambda>r t. fs_ready p k t \<and> view t = view s \<and> disk t = disk s \<and>
    (\<forall>v. upage (mem t) root v = upage (mem s) root v) \<and>
    (if \<forall>j < length xs. upage (mem s) root (va + of_nat j) \<noteq> None
     then r = int (length xs) \<and> (\<forall>v. uread (mem t) root v = (if unat (v - va) < length xs then Some (xs ! unat (v - va)) else uread (mem s) root v))
     else r = - 1 \<and> (\<forall>v. \<not> unat (v - va) < length xs \<longrightarrow> uread (mem t) root v = uread (mem s) root v))"
  have mem: "disk s2 = disk s \<and> mem t = mem s2" if "tx p s2 k Map.empty (set (homes (klog s))) ?V t" "s2 = s\<lparr>mem := mem s2\<rparr>" for s2 t
    using log_frame_fields(3) [OF txD(2) [OF that(1)]] arg_cong [OF that(2), of disk] by simp
  have good: "?Q (int N) t" if g: "user_got s root va F N s2" and t: "tx p s2 k Map.empty (set (homes (klog s))) ?V t" for s2 t
    using mem [OF t] rest [OF t] g xs by (auto simp: user_got_def urange_def wrote_def)
  have bad: "?Q (- 1) t" if g: "user_bad s root va N s2" and t: "tx p s2 k Map.empty (set (homes (klog s))) ?V t" for s2 t
    using mem [OF t] rest [OF t] g xs by (auto simp: user_bad_def urange_def)
  have "wp (kfor (io_chunks 0 (unat off + 0) N) (readi_chunk ip ROOTDEV (UserPtr va)) (kreturn (int N))) ?Q s"
  proof (rule readi_loop_wp [where G = "user_got s root va F" and Bad = "user_bad s root va N" and i = ?i and V = ?V and ?s1.0 = s, OF r(2)])
    show "tx p s k Map.empty (set (homes (klog s))) ?V s" using r(1) by (rule fs_ready_tx)
    show "user_got s root va F 0 s" using us by (simp add: user_got_def urange_def wrote_def)
    show "i_dev ?i = ROOTDEV" "\<forall>j < N. fblk ?V ?i ((unat off + j) div BSIZE) \<noteq> 0" using ok N off by (auto simp: file_ok_def)
    show "unat off + N \<le> MAXFILE * BSIZE" by (rule small(2))
    show "itable s1 ip = ?i" if "user_got s root va F tot s1" for tot s1
    proof -
      have "s1 = s\<lparr>mem := mem s1\<rparr>" using that by (simp add: user_got_def)
      from arg_cong [OF this, of itable] show ?thesis by simp
    qed
    show "wp (either_copyout (kptr_add (UserPtr va) tot) src (of_nat m)) (\<lambda>r u. \<exists>s2. tx p s2 k H (set (homes (klog s))) ?V u \<and> disk s2 = disk s1 \<and>
        (if r = - 1 then user_bad s root va N s2 else user_got s root va F (tot + m) s2)) t"
      if "user_got s root va F tot s1" "tot + m \<le> N" "\<forall>j < m. src j = fbyte ?V ?i (unat off + tot + j)"
        "tx p s1 k H (set (homes (klog s))) ?V t" for tot m k H t s1 src
      using that small(1) by (intro user_copy_chunk us) (auto simp: F_def add.assoc)
    show "?Q (- 1) t" if "user_bad s root va N s2" "tx p s2 k Map.empty (set (homes (klog s))) ?V t" for s2 t
      using bad [OF that] .
    show "wp (kreturn (int N)) ?Q t" if "user_got s root va F N s2" "tx p s2 k Map.empty (set (homes (klog s))) ?V t" for s2 t
      unfolding wp_kreturn using good [OF that] .
  qed simp
  moreover have "readi ip (UserPtr va) off n s = kfor (io_chunks 0 (unat off + 0) N) (readi_chunk ip ROOTDEV (UserPtr va)) (kreturn (int N)) s"
    using False ok sint by (simp add: readi_eq Let_def file_ok_def N_def del: if_split)
  ultimately show ?thesis by (simp only: wp_def)
qed

theorem readi_reads_contents_witness:
  "\<exists>s :: trap_st. fs_ready 1 28 s \<and> file_ok (view s) (itable s 0) \<and> contents (view s) (itable s 0) = [7, 8, 9] \<and>
     wp (readi 0 (UserPtr 0x1000) 1 5) (\<lambda>r t. r = 2 \<and> uread (mem t) root0 0x1000 = Some 8 \<and> uread (mem t) root0 0x1001 = Some 9) s \<and>
     wp (readi 0 (UserPtr 0x1FFF) 0 5) (\<lambda>r t. r = - 1) s"
proof -
  let ?D = "\<lambda>b i. if b = (100 :: uint) then of_nat i + 7 else (0 :: uchar)"
  let ?i = "inode0\<lparr>i_dev := 1, i_size := 3, i_addrs := (\<lambda>_. 100)\<rparr>"
  obtain s :: trap_st where s: "fs_ready 1 28 s" "view s = ?D" "itable s = (\<lambda>_. ?i)" "us_inv (syms s) (mem s) root0"
    "root0 = p_pagetable (procs s 1)" and pg: "\<forall>v. upage (mem s) root0 v = (if PGROUNDDOWN v = 0x1000 then Some 0x87FFC000 else None)"
    using ex_fsys [of ?D "\<lambda>_. ?i" sb0] by auto
  have ok: "file_ok (view s) (itable s 0)" using s by (simp add: file_ok_def fblk_def)
  have ct: "contents (view s) (itable s 0) = [7, 8, 9]" using s by (simp add: contents_def fbyte_def fblk_def upt_rec)
  have m1: "\<forall>j < 2. upage (mem s) root0 (0x1000 + of_nat j) \<noteq> None" by (simp add: pg PGROUNDDOWN_def less_2_cases_iff)
  have m2: "\<not> (\<forall>j < 3. upage (mem s) root0 (0x1FFF + of_nat j) \<noteq> None)"
    by (simp add: pg PGROUNDDOWN_def) (intro exI [of _ 1], simp)
  have "wp (readi 0 (UserPtr 0x1000) 1 5) (\<lambda>r t. r = 2 \<and> uread (mem t) root0 0x1000 = Some 8 \<and> uread (mem t) root0 0x1001 = Some 9) s"
    by (rule wp_mono [OF readi_reads_contents [OF s(1) _ ok s(4,5)]]) (use m1 in \<open>simp_all add: ct\<close>)
  moreover have "wp (readi 0 (UserPtr 0x1FFF) 0 5) (\<lambda>r t. r = - 1) s"
    by (rule wp_mono [OF readi_reads_contents [OF s(1) _ ok s(4,5)]]) (use m2 in \<open>simp_all add: ct numeral_3_eq_3 split: if_splits\<close>)
  ultimately show ?thesis using s(1) ok ct by blast
qed

end
