(* ===== verification/Alloc_Inv.thy ===== *)
theory Alloc_Inv
  imports File_Content
begin

text \<open>
  A file and the free map: the blocks a file names are distinct, are in use, and are none of the metadata
  blocks. Taking a free block for a file, directly, as its indirect block, or through that, keeps this and
  keeps the blocks the file had.
\<close>

section \<open>Blocks in use\<close>

definition in_use :: "superblock \<Rightarrow> (uint \<Rightarrow> bytes) \<Rightarrow> uint \<Rightarrow> bool" where
  "in_use sp V b \<longleftrightarrow> \<not> blk_free sp V (unat b)"

text \<open>The blocks before the data blocks: boot block, super block, log, inodes, free map.\<close>

definition meta :: "superblock \<Rightarrow> uint set" where
  "meta sp = {b. unat b \<le> unat (sb_bmapstart sp) + (unat (sb_size sp) - 1) div BPB}"

definition sb_ok :: "superblock \<Rightarrow> bool" where
  "sb_ok sp \<longleftrightarrow> unat (sb_bmapstart sp) + (unat (sb_size sp) - 1) div BPB < unat (sb_size sp)"

definition meta_used :: "superblock \<Rightarrow> (uint \<Rightarrow> bytes) \<Rightarrow> bool" where
  "meta_used sp V \<longleftrightarrow> (\<forall>b \<in> meta sp. in_use sp V b)"

lemma BBLOCK_meta:
  assumes "sb_ok sp" "n < unat (sb_size sp)"
  shows "BBLOCK (of_nat n) sp \<in> meta sp"
proof -
  have n: "n < 4294967296" using assms(2) unat_less_32 [of "sb_size sp"] by linarith
  have le: "n div BPB \<le> (unat (sb_size sp) - 1) div BPB" using assms(2) by (intro div_le_mono) simp
  have "n div BPB + unat (sb_bmapstart sp) < 4294967296" "n div BPB < 4294967296"
    using le assms unat_less_32 [of "sb_size sp"] unfolding sb_ok_def by linarith+
  then have "unat (of_nat (n div BPB) + sb_bmapstart sp) = n div BPB + unat (sb_bmapstart sp)"
    by (simp add: unat_word_ariths unat_of_nat take_bit_nat_eq_self)
  then show ?thesis using le by (simp add: BBLOCK_nat [OF n] meta_def)
qed

lemma BBLOCK_uint: "BBLOCK b sp = BBLOCK (of_nat (unat b)) sp"
  by simp

section \<open>Marking a block\<close>

text \<open>The contents after \<open>balloc\<close> took block \<open>n\<close>.\<close>

definition mark :: "superblock \<Rightarrow> (uint \<Rightarrow> bytes) \<Rightarrow> nat \<Rightarrow> uint \<Rightarrow> bytes" where
  "mark sp V n = V(BBLOCK (of_nat n) sp := bit_set (n mod BPB) (V (BBLOCK (of_nat n) sp)), of_nat n := zeroed (V (of_nat n)))"

lemma bit_free_bit: "bit_free c d \<longleftrightarrow> \<not> bit (d (c div 8)) (c mod 8)"
  by (simp add: bit_free_def bit_mask_def push_bit_of_1 and_exp_eq_0_iff_not_bit)

lemma bit_free_set: "bit_free c (bit_set n d) \<longleftrightarrow> bit_free c d \<and> c \<noteq> n"
proof (cases "c div 8 = n div 8")
  case False
  then show ?thesis by (auto simp: bit_free_bit bit_set_def)
next
  case True
  have "(c = n) = (c mod 8 = n mod 8)" using True by (metis div_mult_mod_eq)
  then show ?thesis using True by (auto simp: bit_free_bit bit_set_def bit_mask_def bit_simps)
qed

lemma mark_free:
  assumes sp: "sb_ok sp" "meta_used sp V" and n: "n < unat (sb_size sp)" "blk_free sp V n" and c: "c < unat (sb_size sp)"
  shows "blk_free sp (mark sp V n) c \<longleftrightarrow> blk_free sp V c \<and> c \<noteq> n"
proof -
  have lt: "n < 4294967296" "c < 4294967296" using n(1) c unat_less_32 [of "sb_size sp"] by linarith+
  have un: "unat (of_nat n :: uint) = n" using lt by (simp add: unat_of_nat take_bit_nat_eq_self)
  have ne: "BBLOCK (of_nat c) sp \<noteq> of_nat n" "BBLOCK (of_nat n) sp \<noteq> of_nat n"
    using BBLOCK_meta [OF sp(1) c] BBLOCK_meta [OF sp(1) n(1)] sp(2) n(2) un by (auto simp: meta_used_def in_use_def)
  show ?thesis
  proof (cases "c div BPB = n div BPB")
    case True
    have "(c = n) = (c mod BPB = n mod BPB)" using True by (metis div_mult_mod_eq)
    moreover have "BBLOCK (of_nat c) sp = BBLOCK (of_nat n) sp" using BBLOCK_nat lt True by simp
    ultimately show ?thesis using ne by (simp add: blk_free_def mark_def bit_free_set)
  next
    case False
    have "of_nat (c div BPB) \<noteq> (of_nat (n div BPB) :: uint)"
    proof
      assume "of_nat (c div BPB) = (of_nat (n div BPB) :: uint)"
      then have "unat (of_nat (c div BPB) :: uint) = unat (of_nat (n div BPB) :: uint)" by simp
      moreover have "c div BPB < 4294967296" "n div BPB < 4294967296" using lt div_le_dividend [of c BPB] div_le_dividend [of n BPB] by linarith+
      ultimately show False using False by (simp add: unat_of_nat take_bit_nat_eq_self)
    qed
    then have "BBLOCK (of_nat c) sp \<noteq> BBLOCK (of_nat n) sp" using BBLOCK_nat lt by simp
    then show ?thesis using ne False by (auto simp: blk_free_def mark_def)
  qed
qed

section \<open>A file's blocks\<close>

definition own :: "(uint \<Rightarrow> bytes) \<Rightarrow> inode \<Rightarrow> uint set" where
  "own V i = {b. b \<noteq> 0 \<and> (b = i_addrs i NDIRECT \<or> (\<exists>bn < MAXFILE. b = fblk V i bn))}"

definition alloc_inv :: "superblock \<Rightarrow> (uint \<Rightarrow> bytes) \<Rightarrow> inode \<Rightarrow> bool" where
  "alloc_inv sp V i \<longleftrightarrow> sb_ok sp \<and> meta_used sp V \<and> i_dev i = ROOTDEV \<and>
     (\<forall>b \<in> own V i. b \<notin> meta sp \<and> unat b < unat (sb_size sp) \<and> in_use sp V b) \<and>
     (\<forall>bn < MAXFILE. \<forall>cn < MAXFILE. fblk V i bn \<noteq> 0 \<longrightarrow> fblk V i bn = fblk V i cn \<longrightarrow> bn = cn) \<and>
     (\<forall>bn < MAXFILE. fblk V i bn \<noteq> 0 \<longrightarrow> fblk V i bn \<noteq> i_addrs i NDIRECT)"

text \<open>
  The file gained blocks: it keeps those it had, the new ones are zero, and every block in use keeps its
  contents, the free map and the file's indirect block apart.
\<close>

definition grown :: "superblock \<Rightarrow> (uint \<Rightarrow> bytes) \<Rightarrow> inode \<Rightarrow> (uint \<Rightarrow> bytes) \<Rightarrow> inode \<Rightarrow> bool" where
  "grown sp V i V' i' \<longleftrightarrow> i' = i\<lparr>i_addrs := i_addrs i'\<rparr> \<and>
     (\<forall>bn < MAXFILE. fblk V i bn \<noteq> 0 \<longrightarrow> fblk V' i' bn = fblk V i bn) \<and>
     (\<forall>bn < MAXFILE. fblk V i bn = 0 \<longrightarrow> fblk V' i' bn \<noteq> 0 \<longrightarrow> \<not> in_use sp V (fblk V' i' bn) \<and> (\<forall>j < BSIZE. V' (fblk V' i' bn) j = 0)) \<and>
     (i_addrs i NDIRECT \<noteq> 0 \<longrightarrow> i_addrs i' NDIRECT = i_addrs i NDIRECT) \<and>
     (i_addrs i NDIRECT = 0 \<longrightarrow> i_addrs i' NDIRECT \<noteq> 0 \<longrightarrow> \<not> in_use sp V (i_addrs i' NDIRECT)) \<and>
     (\<forall>b. unat b < unat (sb_size sp) \<longrightarrow> in_use sp V b \<longrightarrow> in_use sp V' b \<and>
        (b \<notin> meta sp \<longrightarrow> (b = 0 \<or> b \<noteq> i_addrs i NDIRECT) \<longrightarrow> V' b = V b)) \<and>
     (\<forall>b. b \<in> meta sp \<longrightarrow> (\<forall>c < unat (sb_size sp). b \<noteq> BBLOCK (of_nat c) sp) \<longrightarrow> V' b = V b)"

lemma fresh_block:
  assumes a: "alloc_inv sp V i" and n: "n < unat (sb_size sp)" "blk_free sp V n"
  shows "unat (of_nat n :: uint) = n" "of_nat n \<notin> own V i" "of_nat n \<notin> meta sp" "(of_nat n :: uint) \<noteq> 0"
    "\<And>b. in_use sp V b \<Longrightarrow> b \<noteq> of_nat n" "\<not> in_use sp V (of_nat n)"
    "\<And>c. c < unat (sb_size sp) \<Longrightarrow> BBLOCK (of_nat c) sp \<noteq> of_nat n"
    "\<And>c. c < unat (sb_size sp) \<Longrightarrow> BBLOCK (of_nat c) sp \<notin> own V i"
proof -
  have sp: "sb_ok sp" "meta_used sp V" using a by (auto simp: alloc_inv_def)
  show un: "unat (of_nat n :: uint) = n"
    using n(1) unat_less_32 [of "sb_size sp"] by (simp add: unat_of_nat take_bit_nat_eq_self)
  show nu: "\<not> in_use sp V (of_nat n)" using n(2) un by (simp add: in_use_def)
  show nm: "of_nat n \<notin> meta sp" using nu sp by (auto simp: meta_used_def)
  show "(of_nat n :: uint) \<noteq> 0" using nm by (auto simp: meta_def)
  show "of_nat n \<notin> own V i" using nu a by (auto simp: alloc_inv_def)
  show "b \<noteq> of_nat n" if "in_use sp V b" for b using that nu by auto
  show "BBLOCK (of_nat c) sp \<noteq> of_nat n" if "c < unat (sb_size sp)" for c
    using BBLOCK_meta [OF sp(1) that] nm by auto
  show "BBLOCK (of_nat c) sp \<notin> own V i" if "c < unat (sb_size sp)" for c
    using BBLOCK_meta [OF sp(1) that] a by (auto simp: alloc_inv_def)
qed

lemma mark_outside: "b \<noteq> BBLOCK (of_nat n) sp \<Longrightarrow> b \<noteq> of_nat n \<Longrightarrow> mark sp V n b = V b"
  by (simp add: mark_def)

lemma ind_own: "i_addrs i NDIRECT \<noteq> 0 \<Longrightarrow> i_addrs i NDIRECT \<in> own V i"
  by (simp add: own_def)

lemma mark_ind:
  assumes a: "alloc_inv sp V i" and n: "n < unat (sb_size sp)" "blk_free sp V n" and ind: "i_addrs i NDIRECT \<noteq> 0"
  shows "mark sp V n (i_addrs i NDIRECT) = V (i_addrs i NDIRECT)"
  using fresh_block [OF a n] fresh_block(8) [OF a n n(1)] ind_own [OF ind, of V] by (intro mark_outside) auto

lemma fblk_mark:
  assumes "alloc_inv sp V i" "n < unat (sb_size sp)" "blk_free sp V n"
  shows "fblk (mark sp V n) i bn = fblk V i bn"
  using mark_ind [OF assms] by (simp add: fblk_def)

text \<open>
  Block \<open>n\<close> is taken for the place \<open>slot\<close> of the file, or as its indirect block when \<open>slot\<close> is \<open>None\<close>.
\<close>

lemma take_keeps:
  assumes a: "alloc_inv sp V i" and n: "n < unat (sb_size sp)" "blk_free sp V n"
    and i: "i' = i\<lparr>i_addrs := i_addrs i'\<rparr>"
    and F: "\<And>cn. cn < MAXFILE \<Longrightarrow> fblk V' i' cn = (if slot = Some cn then of_nat n else fblk V i cn)"
    and D: "i_addrs i' NDIRECT = (if slot = None then of_nat n else i_addrs i NDIRECT)"
    and old: "case slot of None \<Rightarrow> i_addrs i NDIRECT = 0 | Some bn \<Rightarrow> bn < MAXFILE \<and> fblk V i bn = 0"
    and V: "\<And>b. b = 0 \<or> b \<noteq> i_addrs i NDIRECT \<Longrightarrow> V' b = mark sp V n b"
  shows "alloc_inv sp V' i'" "grown sp V i V' i'"
proof -
  let ?x = "of_nat n :: uint"
  note f = fresh_block [OF a n]
  have sp: "sb_ok sp" "meta_used sp V" "i_dev i = ROOTDEV" using a by (auto simp: alloc_inv_def)
  have m: "0 \<in> meta sp" by (simp add: meta_def)
  have ib: "BBLOCK (of_nat c) sp \<noteq> i_addrs i NDIRECT \<or> i_addrs i NDIRECT = 0" if "c < unat (sb_size sp)" for c
    using f(8) [OF that] ind_own [of i V] by metis
  have free: "blk_free sp V' c \<longleftrightarrow> blk_free sp V c \<and> c \<noteq> n" if c: "c < unat (sb_size sp)" for c
  proof -
    have "V' (BBLOCK (of_nat c) sp) = mark sp V n (BBLOCK (of_nat c) sp)" using ib [OF c] by (intro V) auto
    then show ?thesis using mark_free [OF sp(1,2) n c] by (simp add: blk_free_def)
  qed
  have use: "in_use sp V' b \<longleftrightarrow> in_use sp V b \<or> b = ?x" if "unat b < unat (sb_size sp)" for b
    using free [OF that] f(1) by (auto simp: in_use_def)
  have mlt: "unat b < unat (sb_size sp)" if "b \<in> meta sp" for b
    using that sp(1) unfolding meta_def sb_ok_def by simp
  have own': "own V' i' = insert ?x (own V i)"
    using F D old f(4) by (auto simp: own_def split: option.splits if_splits)
  have mu: "meta_used sp V'" using sp(2) use mlt by (auto simp: meta_used_def)
  have old_own: "fblk V i bn \<in> own V i" if "bn < MAXFILE" "fblk V i bn \<noteq> 0" for bn using that by (auto simp: own_def)
  show "alloc_inv sp V' i'"
    unfolding alloc_inv_def
  proof (intro conjI ballI allI impI)
    show "i_dev i' = ROOTDEV" using arg_cong [OF i, of i_dev] sp(3) by simp
    show "b \<notin> meta sp" "unat b < unat (sb_size sp)" "in_use sp V' b" if "b \<in> own V' i'" for b
      using that a n f(1,3) use unfolding own' by (auto simp: alloc_inv_def)
    show "bn = cn" if "bn < MAXFILE" "cn < MAXFILE" "fblk V' i' bn \<noteq> 0" "fblk V' i' bn = fblk V' i' cn" for bn cn
      using that F old_own [of bn] old_own [of cn] f(2,4) a by (auto simp: alloc_inv_def split: if_splits)
    show "fblk V' i' bn \<noteq> i_addrs i' NDIRECT" if "bn < MAXFILE" "fblk V' i' bn \<noteq> 0" for bn
      using that F [of bn] D old_own [of bn] ind_own [of i V] f(2,4) a by (auto simp: alloc_inv_def split: if_splits)
  qed (use sp mu in auto)
  show "grown sp V i V' i'"
    unfolding grown_def
  proof (intro conjI allI impI)
    show "i' = i\<lparr>i_addrs := i_addrs i'\<rparr>" by (rule i)
    show "fblk V' i' bn = fblk V i bn" if "bn < MAXFILE" "fblk V i bn \<noteq> 0" for bn
      using F [OF that(1)] old that by (auto split: option.splits)
    fix bn assume bn: "bn < MAXFILE" "fblk V i bn = 0" "fblk V' i' bn \<noteq> 0"
    then have x: "fblk V' i' bn = ?x" using F [of bn] by (auto split: if_splits)
    then show "\<not> in_use sp V (fblk V' i' bn)" using f(6) by simp
    have "?x = 0 \<or> ?x \<noteq> i_addrs i NDIRECT" using f(2) ind_own [of i V] by metis
    then show "V' (fblk V' i' bn) j = 0" if "j < BSIZE" for j using V [of ?x] that unfolding x by (simp add: mark_def zeroed_def)
  next
    show "i_addrs i' NDIRECT = i_addrs i NDIRECT" if "i_addrs i NDIRECT \<noteq> 0" using D old that by (auto split: option.splits)
    show "\<not> in_use sp V (i_addrs i' NDIRECT)" if "i_addrs i NDIRECT = 0" "i_addrs i' NDIRECT \<noteq> 0"
      using D that f(6) by (auto split: if_splits)
    fix b assume b: "unat b < unat (sb_size sp)" "in_use sp V b"
    then show "in_use sp V' b" using use by simp
    show "V' b = V b" if "b \<notin> meta sp" "b = 0 \<or> b \<noteq> i_addrs i NDIRECT"
    proof -
      have "b \<noteq> BBLOCK (of_nat n) sp" using BBLOCK_meta [OF sp(1) n(1)] that(1) by metis
      then show ?thesis using V [OF that(2)] mark_outside [of b n sp V] f(5) [OF b(2)] by simp
    qed
  next
    fix b assume "b \<in> meta sp" "\<forall>c < unat (sb_size sp). b \<noteq> BBLOCK (of_nat c) sp"
    moreover have "b = 0 \<or> b \<noteq> i_addrs i NDIRECT"
      using calculation(1) a ind_own [of i V] by (auto simp: alloc_inv_def)
    moreover have "b \<noteq> ?x" using calculation(1) f(3) by auto
    ultimately show "V' b = V b" using V [of b] mark_outside [of b n sp V] n(1) by simp
  qed
qed

section \<open>The three ways to take a block\<close>

lemma get32_zero: "(\<And>j. j < BSIZE \<Longrightarrow> d j = 0) \<Longrightarrow> k + 4 \<le> BSIZE \<Longrightarrow> get32 d k = 0"
  by (simp add: get32_def get_bytes_def upt_rec)

lemma take_direct:
  assumes a: "alloc_inv sp V i" and n: "n < unat (sb_size sp)" "blk_free sp V n" and bn: "bn < NDIRECT" "i_addrs i bn = 0"
  defines "V' \<equiv> mark sp V n" and "i' \<equiv> i\<lparr>i_addrs := (i_addrs i)(bn := of_nat n)\<rparr>"
  shows "alloc_inv sp V' i'" "grown sp V i V' i'" "fblk V' i' bn = of_nat n" "\<And>cn. cn \<noteq> bn \<Longrightarrow> fblk V' i' cn = fblk V i cn"
proof -
  have F: "fblk V' i' cn = (if Some bn = Some cn then of_nat n else fblk V i cn)" for cn
    using mark_ind [OF a n] bn by (auto simp: fblk_def V'_def i'_def)
  then show "fblk V' i' bn = of_nat n" "\<And>cn. cn \<noteq> bn \<Longrightarrow> fblk V' i' cn = fblk V i cn" by auto
  show "alloc_inv sp V' i'" "grown sp V i V' i'"
    by (rule take_keeps [OF a n _ F]; use bn in \<open>simp add: i'_def V'_def fblk_def\<close>)+
qed

lemma take_indirect:
  assumes a: "alloc_inv sp V i" and n: "n < unat (sb_size sp)" "blk_free sp V n" and z: "i_addrs i NDIRECT = 0"
  defines "V' \<equiv> mark sp V n" and "i' \<equiv> i\<lparr>i_addrs := (i_addrs i)(NDIRECT := of_nat n)\<rparr>"
  shows "alloc_inv sp V' i'" "grown sp V i V' i'" "\<And>bn. bn < MAXFILE \<Longrightarrow> fblk V' i' bn = fblk V i bn"
proof -
  note f = fresh_block [OF a n]
  have "get32 (V' (of_nat n)) (4 * (cn - NDIRECT)) = 0" if "cn < MAXFILE" for cn
    using that by (intro get32_zero) (auto simp: V'_def mark_def zeroed_def)
  then have F: "fblk V' i' cn = (if None = Some cn then of_nat n else fblk V i cn)" if "cn < MAXFILE" for cn
    using that z f(4) by (auto simp: fblk_def i'_def)
  then show "\<And>bn. bn < MAXFILE \<Longrightarrow> fblk V' i' bn = fblk V i bn" by simp
  show "alloc_inv sp V' i'" "grown sp V i V' i'"
    by (rule take_keeps [OF a n _ F]; use z in \<open>simp add: i'_def V'_def\<close>)+
qed

lemma take_entry:
  assumes a: "alloc_inv sp V i" and n: "n < unat (sb_size sp)" "blk_free sp V n"
    and bn: "\<not> bn < NDIRECT" "bn < MAXFILE" "fblk V i bn = 0" and ind: "i_addrs i NDIRECT = d" "d \<noteq> 0"
  defines "V' \<equiv> (mark sp V n)(d := put32 (V d) (4 * (bn - NDIRECT)) (of_nat n))"
  shows "alloc_inv sp V' i" "grown sp V i V' i" "fblk V' i bn = of_nat n" "\<And>cn. cn \<noteq> bn \<Longrightarrow> fblk V' i cn = fblk V i cn"
proof -
  have F: "fblk V' i cn = (if Some bn = Some cn then of_nat n else fblk V i cn)" for cn
  proof (cases "cn < NDIRECT \<or> cn = bn")
    case True
    then show ?thesis using bn ind by (auto simp: fblk_def V'_def)
  next
    case False
    then have "4 * (cn - NDIRECT) + 4 \<le> 4 * (bn - NDIRECT) \<or> 4 * (bn - NDIRECT) + 4 \<le> 4 * (cn - NDIRECT)"
      using bn(1) by linarith
    then show ?thesis using bn ind False by (simp add: fblk_def V'_def get_put_other)
  qed
  then show "fblk V' i bn = of_nat n" "\<And>cn. cn \<noteq> bn \<Longrightarrow> fblk V' i cn = fblk V i cn" by auto
  show "alloc_inv sp V' i" "grown sp V i V' i"
    by (rule take_keeps [OF a n _ F]; use bn ind in \<open>auto simp: V'_def\<close>)+
qed

lemma grown_refl [simp]: "grown sp V i V i"
  by (simp add: grown_def)

lemma grownD:
  assumes "grown sp V i V' i'"
  shows "i' = i\<lparr>i_addrs := i_addrs i'\<rparr>"
    "\<And>bn. bn < MAXFILE \<Longrightarrow> fblk V i bn \<noteq> 0 \<Longrightarrow> fblk V' i' bn = fblk V i bn"
    "\<And>bn. bn < MAXFILE \<Longrightarrow> fblk V i bn = 0 \<Longrightarrow> fblk V' i' bn \<noteq> 0 \<Longrightarrow> \<not> in_use sp V (fblk V' i' bn)"
    "\<And>bn j. bn < MAXFILE \<Longrightarrow> fblk V i bn = 0 \<Longrightarrow> fblk V' i' bn \<noteq> 0 \<Longrightarrow> j < BSIZE \<Longrightarrow> V' (fblk V' i' bn) j = 0"
    "i_addrs i NDIRECT \<noteq> 0 \<Longrightarrow> i_addrs i' NDIRECT = i_addrs i NDIRECT"
    "i_addrs i NDIRECT = 0 \<Longrightarrow> i_addrs i' NDIRECT \<noteq> 0 \<Longrightarrow> \<not> in_use sp V (i_addrs i' NDIRECT)"
    "\<And>b. unat b < unat (sb_size sp) \<Longrightarrow> in_use sp V b \<Longrightarrow> in_use sp V' b"
    "\<And>b. unat b < unat (sb_size sp) \<Longrightarrow> in_use sp V b \<Longrightarrow> b \<notin> meta sp \<Longrightarrow> b = 0 \<or> b \<noteq> i_addrs i NDIRECT \<Longrightarrow> V' b = V b"
    "\<And>b. b \<in> meta sp \<Longrightarrow> \<forall>c < unat (sb_size sp). b \<noteq> BBLOCK (of_nat c) sp \<Longrightarrow> V' b = V b"
  using assms by (auto simp: grown_def)

lemma alloc_invD:
  assumes "alloc_inv sp V i" "bn < MAXFILE" "fblk V i bn \<noteq> 0"
  shows "unat (fblk V i bn) < unat (sb_size sp)" "in_use sp V (fblk V i bn)" "fblk V i bn \<notin> meta sp"
    "fblk V i bn \<noteq> i_addrs i NDIRECT" "\<And>cn. cn < MAXFILE \<Longrightarrow> fblk V i cn = fblk V i bn \<Longrightarrow> cn = bn"
proof -
  have "fblk V i bn \<in> own V i" using assms by (auto simp: own_def)
  then show "unat (fblk V i bn) < unat (sb_size sp)" "in_use sp V (fblk V i bn)" "fblk V i bn \<notin> meta sp"
    using assms(1) by (auto simp: alloc_inv_def)
qed (use assms in \<open>auto simp: alloc_inv_def\<close>)

lemma grown_trans:
  assumes g: "grown sp V i V1 i1" "grown sp V1 i1 V2 i2" and a: "alloc_inv sp V1 i1" "alloc_inv sp V2 i2"
  shows "grown sp V i V2 i2"
  unfolding grown_def
proof (intro conjI allI impI)
  note g1 = grownD [OF g(1)] and g2 = grownD [OF g(2)]
  show "i2 = i\<lparr>i_addrs := i_addrs i2\<rparr>" using g1(1) g2(1)
    by (metis (no_types, lifting) inode.fold_congs(10) inode.surjective inode.update_convs(10))
  show "fblk V2 i2 bn = fblk V i bn" if "bn < MAXFILE" "fblk V i bn \<noteq> 0" for bn using g1(2) g2(2) that by simp
  fix bn assume bn: "bn < MAXFILE" "fblk V i bn = 0" "fblk V2 i2 bn \<noteq> 0"
  show "\<not> in_use sp V (fblk V2 i2 bn)"
    using g1(3,7) g2(2,3) bn alloc_invD(1) [OF a(2) bn(1,3)] by (cases "fblk V1 i1 bn = 0") metis+
  show "V2 (fblk V2 i2 bn) j = 0" if j: "j < BSIZE" for j
  proof (cases "fblk V1 i1 bn = 0")
    case True
    then show ?thesis using g2(4) bn j by simp
  next
    case False
    then have "V2 (fblk V1 i1 bn) = V1 (fblk V1 i1 bn)"
      using g2(8) alloc_invD [OF a(1) bn(1) False] by simp
    then show ?thesis using g1(4) g2(2) bn j False by simp
  qed
next
  note g1 = grownD [OF g(1)] and g2 = grownD [OF g(2)]
  show "i_addrs i2 NDIRECT = i_addrs i NDIRECT" if "i_addrs i NDIRECT \<noteq> 0" using g1(5) g2(5) that by simp
  show "\<not> in_use sp V (i_addrs i2 NDIRECT)" if "i_addrs i NDIRECT = 0" "i_addrs i2 NDIRECT \<noteq> 0"
  proof -
    have "i_addrs i2 NDIRECT \<in> own V2 i2" using that by (simp add: own_def)
    then have "unat (i_addrs i2 NDIRECT) < unat (sb_size sp)" using a(2) by (auto simp: alloc_inv_def)
    then show ?thesis using g1(6,7) g2(5,6) that by (cases "i_addrs i1 NDIRECT = 0") auto
  qed
  fix b assume b: "unat b < unat (sb_size sp)" "in_use sp V b"
  then show "in_use sp V2 b" using g1(7) g2(7) by simp
  assume m: "b \<notin> meta sp" "b = 0 \<or> b \<noteq> i_addrs i NDIRECT"
  moreover have "b = 0 \<or> b \<noteq> i_addrs i1 NDIRECT" using g1(5,6) b(2) m(2) by (cases "i_addrs i NDIRECT = 0") auto
  ultimately show "V2 b = V b" using g1(7,8) g2(8) b by simp
next
  fix b assume "b \<in> meta sp" "\<forall>c < unat (sb_size sp). b \<noteq> BBLOCK (of_nat c) sp"
  then show "V2 b = V b" using grownD(9) [OF g(1)] grownD(9) [OF g(2)] by simp
qed

end
