(* ===== verification/Write_Content.thy ===== *)
theory Write_Content
  imports Alloc_Inv
begin

text \<open>
  What a write does to the contents of a file: the loop of \<open>writei\<close>, seen as a relation between block
  contents, grows the file by the blocks it needs and replaces a range of its bytes, one block at a time.
\<close>

section \<open>A range replaced\<close>

text \<open>
  \<open>rewritten sp V0 i0 off F tot V i\<close>: from \<open>V0\<close> and \<open>i0\<close>, the file now has the bytes \<open>F 0 \<dots> F (tot - 1)\<close>
  from \<open>off\<close> on, keeps every other byte it had, and no block of another file changed.
\<close>

definition rewritten :: "superblock \<Rightarrow> (uint \<Rightarrow> bytes) \<Rightarrow> inode \<Rightarrow> nat \<Rightarrow> (nat \<Rightarrow> uchar) \<Rightarrow> nat \<Rightarrow> (uint \<Rightarrow> bytes) \<Rightarrow> inode \<Rightarrow> bool" where
  "rewritten sp V0 i0 off F tot V i \<longleftrightarrow> i = i0\<lparr>i_addrs := i_addrs i\<rparr> \<and>
     (\<forall>bn < MAXFILE. fblk V0 i0 bn \<noteq> 0 \<longrightarrow> fblk V i bn = fblk V0 i0 bn) \<and>
     (\<forall>j < tot. fblk V i ((off + j) div BSIZE) \<noteq> 0 \<and> fbyte V i (off + j) = F j) \<and>
     (\<forall>j < MAXFILE * BSIZE. fblk V0 i0 (j div BSIZE) \<noteq> 0 \<longrightarrow> \<not> (off \<le> j \<and> j < off + tot) \<longrightarrow> fbyte V i j = fbyte V0 i0 j) \<and>
     (\<forall>b \<in> own V i. b \<in> own V0 i0 \<or> \<not> in_use sp V0 b) \<and>
     (\<forall>b. unat b < unat (sb_size sp) \<longrightarrow> in_use sp V0 b \<longrightarrow> in_use sp V b \<and>
        (b \<notin> meta sp \<longrightarrow> b \<notin> own V0 i0 \<longrightarrow> V b = V0 b)) \<and>
     (\<forall>b. b \<in> meta sp \<longrightarrow> (\<forall>c < unat (sb_size sp). b \<noteq> BBLOCK (of_nat c) sp) \<longrightarrow> V b = V0 b)"

lemma rewritten_refl: "rewritten sp V i off F 0 V i"
  by (simp add: rewritten_def)

lemma rewrittenD:
  assumes "rewritten sp V0 i0 off F tot V i"
  shows "i = i0\<lparr>i_addrs := i_addrs i\<rparr>"
    "\<And>bn. bn < MAXFILE \<Longrightarrow> fblk V0 i0 bn \<noteq> 0 \<Longrightarrow> fblk V i bn = fblk V0 i0 bn"
    "\<And>j. j < tot \<Longrightarrow> fblk V i ((off + j) div BSIZE) \<noteq> 0"
    "\<And>j. j < tot \<Longrightarrow> fbyte V i (off + j) = F j"
    "\<And>j. j < MAXFILE * BSIZE \<Longrightarrow> fblk V0 i0 (j div BSIZE) \<noteq> 0 \<Longrightarrow> \<not> (off \<le> j \<and> j < off + tot) \<Longrightarrow> fbyte V i j = fbyte V0 i0 j"
    "\<And>b. b \<in> own V i \<Longrightarrow> b \<in> own V0 i0 \<or> \<not> in_use sp V0 b"
    "\<And>b. unat b < unat (sb_size sp) \<Longrightarrow> in_use sp V0 b \<Longrightarrow> in_use sp V b"
    "\<And>b. unat b < unat (sb_size sp) \<Longrightarrow> in_use sp V0 b \<Longrightarrow> b \<notin> meta sp \<Longrightarrow> b \<notin> own V0 i0 \<Longrightarrow> V b = V0 b"
    "\<And>b. b \<in> meta sp \<Longrightarrow> \<forall>c < unat (sb_size sp). b \<noteq> BBLOCK (of_nat c) sp \<Longrightarrow> V b = V0 b"
  using assms by (auto simp: rewritten_def)

section \<open>Growing keeps it\<close>

lemma fblk_own: "bn < MAXFILE \<Longrightarrow> fblk V i bn \<noteq> 0 \<Longrightarrow> fblk V i bn \<in> own V i"
  by (auto simp: own_def)

lemma inode_addrs_trans: "i1 = i\<lparr>i_addrs := a\<rparr> \<Longrightarrow> i2 = i1\<lparr>i_addrs := i_addrs i2\<rparr> \<Longrightarrow> i2 = i\<lparr>i_addrs := i_addrs i2\<rparr>"
  by (metis (no_types, lifting) inode.fold_congs(10) inode.surjective inode.update_convs(10))

lemma grown_byte:
  assumes g: "grown sp V i V' i'" and a: "alloc_inv sp V i" and j: "j div BSIZE < MAXFILE" "fblk V i (j div BSIZE) \<noteq> 0"
  shows "fblk V' i' (j div BSIZE) = fblk V i (j div BSIZE)" "fbyte V' i' j = fbyte V i j"
proof -
  note f = alloc_invD [OF a j]
  show e: "fblk V' i' (j div BSIZE) = fblk V i (j div BSIZE)" using grownD(2) [OF g j] .
  show "fbyte V' i' j = fbyte V i j" using grownD(8) [OF g f(1,2,3)] f(4) by (simp add: fbyte_def e)
qed

lemma own_size: "alloc_inv sp V i \<Longrightarrow> b \<in> own V i \<Longrightarrow> unat b < unat (sb_size sp) \<and> in_use sp V b \<and> b \<notin> meta sp"
  by (auto simp: alloc_inv_def)

lemma rewritten_grown:
  assumes w: "rewritten sp V0 i0 off F tot V i" and g: "grown sp V i V' i'" and a: "alloc_inv sp V i" "alloc_inv sp V' i'"
    and off: "off + tot \<le> MAXFILE * BSIZE"
  shows "rewritten sp V0 i0 off F tot V' i'"
  unfolding rewritten_def
proof (intro conjI allI impI ballI)
  note w = rewrittenD [OF w] and g' = grownD [OF g] and b = grown_byte [OF g a(1)]
  show "i' = i0\<lparr>i_addrs := i_addrs i'\<rparr>" by (rule inode_addrs_trans [OF w(1) g'(1)])
  show "fblk V' i' bn = fblk V0 i0 bn" if "bn < MAXFILE" "fblk V0 i0 bn \<noteq> 0" for bn using w(2) g'(2) that by simp
  show "fblk V' i' ((off + j) div BSIZE) \<noteq> 0" "fbyte V' i' (off + j) = F j" if "j < tot" for j
    using b [of "off + j"] w(3,4) [OF that] that off by (simp_all add: less_mult_imp_div_less)
  show "fbyte V' i' j = fbyte V0 i0 j" if "j < MAXFILE * BSIZE" "fblk V0 i0 (j div BSIZE) \<noteq> 0" "\<not> (off \<le> j \<and> j < off + tot)" for j
    using b [of j] w(2) [of "j div BSIZE"] w(5) [OF that] that(1,2) by (simp add: less_mult_imp_div_less)
  show "b \<in> own V0 i0 \<or> \<not> in_use sp V0 b" if "b \<in> own V' i'" for b
  proof (cases "b \<in> own V i")
    case True
    then show ?thesis using w(6) by simp
  next
    case False
    have "\<not> in_use sp V b"
      using that False g'(2,3,5,6) by (auto simp: own_def)
    then show ?thesis using w(7) own_size [OF a(2) that] by auto
  qed
  fix b assume b: "unat b < unat (sb_size sp)" "in_use sp V0 b"
  then show "in_use sp V' b" using w(7) g'(7) by simp
  assume m: "b \<notin> meta sp" "b \<notin> own V0 i0"
  have "b = 0 \<or> b \<noteq> i_addrs i NDIRECT" using w(6) [of b] m b ind_own [of i V] by auto
  then show "V' b = V0 b" using w(7,8) g'(8) b m by simp
next
  fix b assume "b \<in> meta sp" "\<forall>c < unat (sb_size sp). b \<noteq> BBLOCK (of_nat c) sp"
  then show "V' b = V0 b" using rewrittenD(9) [OF w] grownD(9) [OF g] by simp
qed

section \<open>Writing into a block\<close>

lemma put_block:
  fixes d :: bytes
  assumes a: "alloc_inv sp V i" and bn: "bn < MAXFILE" "fblk V i bn \<noteq> 0"
  defines "V' \<equiv> V(fblk V i bn := d)"
  shows "\<And>cn. fblk V' i cn = fblk V i cn" "\<And>c. c < unat (sb_size sp) \<Longrightarrow> blk_free sp V' c = blk_free sp V c"
    "own V' i = own V i" "alloc_inv sp V' i"
    "\<And>j. j div BSIZE < MAXFILE \<Longrightarrow> fbyte V' i j = (if j div BSIZE = bn then d (j mod BSIZE) else fbyte V i j)"
proof -
  note f = alloc_invD [OF a bn]
  have sp: "sb_ok sp" using a by (simp add: alloc_inv_def)
  show F: "fblk V' i cn = fblk V i cn" for cn using f(4) by (auto simp: fblk_def V'_def)
  show free: "blk_free sp V' c = blk_free sp V c" if "c < unat (sb_size sp)" for c
    using BBLOCK_meta [OF sp that] f(3) by (auto simp: blk_free_def V'_def)
  show o: "own V' i = own V i" by (simp add: own_def F)
  have use: "in_use sp V' b = in_use sp V b" if "unat b < unat (sb_size sp)" for b using free [OF that] by (simp add: in_use_def)
  have mlt: "unat b < unat (sb_size sp)" if "b \<in> meta sp" for b
    using that sp unfolding meta_def sb_ok_def by simp
  show "alloc_inv sp V' i" using a use mlt unfolding alloc_inv_def o F meta_used_def by auto
  show "fbyte V' i j = (if j div BSIZE = bn then d (j mod BSIZE) else fbyte V i j)" if "j div BSIZE < MAXFILE" for j
    unfolding fbyte_def F using f(5) [OF that] by (auto simp: V'_def)
qed

lemma rewritten_put:
  assumes w: "rewritten sp V0 i0 off F tot V i" and a: "alloc_inv sp V i"
    and bn: "bn = (off + tot) div BSIZE" "fblk V i bn \<noteq> 0"
    and m: "m \<le> BSIZE - (off + tot) mod BSIZE" "off + tot + m \<le> MAXFILE * BSIZE" "0 < m"
    and x: "\<forall>j < m. x j = F (tot + j)"
  defines "V' \<equiv> V(fblk V i bn := splice (V (fblk V i bn)) ((off + tot) mod BSIZE) m x)"
  shows "rewritten sp V0 i0 off F (tot + m) V' i"
proof -
  note w = rewrittenD [OF w]
  have lt: "bn < MAXFILE" using m bn(1) by (simp add: less_mult_imp_div_less)
  note p = put_block [OF a lt bn(2), where d = "splice (V (fblk V i bn)) ((off + tot) mod BSIZE) m x", folded V'_def]
  have byte: "fbyte V' i j = (if off + tot \<le> j \<and> j < off + tot + m then F (j - off) else fbyte V i j)" if j: "j < MAXFILE * BSIZE" for j
  proof (cases "off + tot \<le> j \<and> j < off + tot + m")
    case True
    then obtain l where l: "j = off + tot + l" "l < m" by (metis add.assoc le_Suc_ex nat_add_left_cancel_less)
    have "fbyte V' i j = splice (V (fblk V i bn)) ((off + tot) mod BSIZE) m x ((off + tot) mod BSIZE + l)"
      using in_block [OF l(2) m(1)] p(5) [of j] bn(1) lt l(1) by simp
    then show ?thesis using l x True by (simp add: splice_def)
  next
    case False
    have "j mod BSIZE < (off + tot) mod BSIZE \<or> (off + tot) mod BSIZE + m \<le> j mod BSIZE" if "j div BSIZE = bn"
    proof -
      have "j = bn * BSIZE + j mod BSIZE" "off + tot = bn * BSIZE + (off + tot) mod BSIZE"
        by (rule div_mult_mod_eq [of j BSIZE, unfolded that, symmetric], rule div_mult_mod_eq [of "off + tot" BSIZE, folded bn(1), symmetric])
      then show ?thesis using False by linarith
    qed
    then have "splice (V (fblk V i bn)) ((off + tot) mod BSIZE) m x (j mod BSIZE) = fbyte V i j" if "j div BSIZE = bn"
      using that by (auto simp: splice_def fbyte_def)
    moreover have "j div BSIZE < MAXFILE" using j by (simp add: less_mult_imp_div_less)
    ultimately show ?thesis using p(5) [of j] False by auto
  qed
  show ?thesis
    unfolding rewritten_def p(1,3)
  proof (intro conjI allI impI ballI)
    show "i = i0\<lparr>i_addrs := i_addrs i\<rparr>" by (rule w(1))
    show "fblk V i cn = fblk V0 i0 cn" if "cn < MAXFILE" "fblk V0 i0 cn \<noteq> 0" for cn using w(2) that .
    show "fblk V i ((off + j) div BSIZE) \<noteq> 0" if "j < tot + m" for j
    proof (cases "j < tot")
      case False
      then show ?thesis using in_block(1) [of "j - tot" m "off + tot"] m(1) that bn by simp
    qed (use w(3) in simp)
    show "fbyte V' i (off + j) = F j" if "j < tot + m" for j
      using byte [of "off + j"] that m w(4) [of j] by auto
    show "fbyte V' i j = fbyte V0 i0 j" if "j < MAXFILE * BSIZE" "fblk V0 i0 (j div BSIZE) \<noteq> 0" "\<not> (off \<le> j \<and> j < off + (tot + m))" for j
      using byte [OF that(1)] w(5) [OF that(1,2)] that(3) by auto
    show "b \<in> own V0 i0 \<or> \<not> in_use sp V0 b" if "b \<in> own V i" for b using w(6) [OF that] .
    fix b assume b: "unat b < unat (sb_size sp)" "in_use sp V0 b"
    then show "in_use sp V' b" using w(7) [OF b] p(2) by (simp add: in_use_def)
    show "V' b = V0 b" if "b \<notin> meta sp" "b \<notin> own V0 i0"
      using w(8) [OF b that] w(6) [OF fblk_own [OF lt bn(2)]] b that by (auto simp: V'_def)
  next
    fix b assume "b \<in> meta sp" "\<forall>c < unat (sb_size sp). b \<noteq> BBLOCK (of_nat c) sp"
    then show "V' b = V0 b" using w(9) [of b] alloc_invD(3) [OF a lt bn(2)] by (auto simp: V'_def)
  qed
qed

end
