(* ===== verification/Bmap.thy ===== *)
theory Bmap
  imports Write_Content
begin

text \<open>
  \<open>bmap\<close> of a block the file does not have yet, inside a transaction: it takes one block, or two when the
  indirect block is missing as well. How many blocks of the log that can cost is counted exactly, since
  blocks of the free map and the indirect block are recorded once however often they change.
\<close>

section \<open>What a write may still need\<close>

definition all_maps :: "superblock \<Rightarrow> uint set" where
  "all_maps sp = map_blocks sp (unat (sb_size sp) - 1)"

definition free_cnt :: "superblock \<Rightarrow> (uint \<Rightarrow> bytes) \<Rightarrow> nat" where
  "free_cnt sp V = card {n. n < unat (sb_size sp) \<and> blk_free sp V n}"

text \<open>Blocks of the log for the free map and the indirect block, those recorded in \<open>L\<close> apart.\<close>

definition need :: "superblock \<Rightarrow> inode \<Rightarrow> uint set \<Rightarrow> nat" where
  "need sp i L = card (all_maps sp - L) + (if i_addrs i NDIRECT \<noteq> 0 \<and> i_addrs i NDIRECT \<in> L then 0 else 1)"

text \<open>
  The transaction went from room for \<open>k\<close> blocks and the log \<open>L\<close> to \<open>k'\<close> and \<open>L'\<close>, and can record block
  \<open>r\<close>: it used one block, apart from what it was going to need.
\<close>

definition paid :: "superblock \<Rightarrow> inode \<Rightarrow> nat \<Rightarrow> uint set \<Rightarrow> uint \<Rightarrow> inode \<Rightarrow> nat \<Rightarrow> uint set \<Rightarrow> bool" where
  "paid sp i k L r i' k' L' \<longleftrightarrow> (r \<in> L' \<or> 0 < k') \<and>
     k + need sp i' (insert r L') \<le> need sp i L + 1 + (if r \<in> L' then k' else k' - 1)"

lemma all_maps_meta: "sb_ok sp \<Longrightarrow> all_maps sp \<subseteq> meta sp"
proof -
  assume ok: "sb_ok sp"
  then have "0 < unat (sb_size sp)" by (auto simp: sb_ok_def)
  then show ?thesis using BBLOCK_meta [OF ok] by (auto simp: all_maps_def map_blocks_def)
qed

lemma finite_maps [simp]: "finite (all_maps sp)"
  by (simp add: all_maps_def map_blocks_def)

lemma maps_insert: "b \<notin> all_maps sp \<Longrightarrow> all_maps sp - insert b L = all_maps sp - L"
  by auto

lemma maps_card: "b \<in> all_maps sp \<Longrightarrow> b \<notin> L \<Longrightarrow> card (all_maps sp - L) = Suc (card (all_maps sp - insert b L))"
proof -
  assume "b \<in> all_maps sp" "b \<notin> L"
  then have "all_maps sp - L = insert b (all_maps sp - insert b L)" "b \<notin> all_maps sp - insert b L" by auto
  then show ?thesis by (metis card_insert_disjoint finite_Diff finite_maps)
qed

lemma need_mono: "L \<subseteq> L' \<Longrightarrow> need sp i L' \<le> need sp i L"
proof -
  assume s: "L \<subseteq> L'"
  then have "card (all_maps sp - L') \<le> card (all_maps sp - L)" by (intro card_mono) auto
  then show ?thesis using s by (auto simp: need_def)
qed

lemma free_cnt_mark:
  assumes a: "alloc_inv sp V i" and n: "n < unat (sb_size sp)" "blk_free sp V n"
  shows "free_cnt sp V = Suc (free_cnt sp (mark sp V n))"
proof -
  have sp: "sb_ok sp" "meta_used sp V" using a by (auto simp: alloc_inv_def)
  have "{c. c < unat (sb_size sp) \<and> blk_free sp V c} = insert n {c. c < unat (sb_size sp) \<and> blk_free sp (mark sp V n) c}"
    "n \<notin> {c. c < unat (sb_size sp) \<and> blk_free sp (mark sp V n) c}"
    using mark_free [OF sp n] n by auto
  then show ?thesis by (simp add: free_cnt_def)
qed

lemma free_cnt_upd:
  assumes "sb_ok sp" "d \<notin> meta sp"
  shows "free_cnt sp (V(d := x)) = free_cnt sp V"
proof -
  have "blk_free sp (V(d := x)) c = blk_free sp V c" if "c < unat (sb_size sp)" for c
    using BBLOCK_meta [OF assms(1) that] assms(2) by (auto simp: blk_free_def)
  then show ?thesis unfolding free_cnt_def by (intro arg_cong [of _ _ card]) auto
qed

section \<open>Taking a block\<close>

lemma balloc_grow:
  fixes s :: "'a fs_st_scheme"
  assumes t: "tx p s0 k H L V s" and l: "logging s0" and sp: "sb s0 = sp" and a: "alloc_inv sp V i"
    and H: "dom H \<subseteq> own V i" and free: "0 < free_cnt sp V" and k: "card (all_maps sp - L) < k"
    and q: "\<And>n k' t. n < unat (sb_size sp) \<Longrightarrow> blk_free sp V n \<Longrightarrow>
      k + card (all_maps sp - insert (BBLOCK (of_nat n) sp) L) \<le> k' + 1 + card (all_maps sp - L) \<Longrightarrow>
      tx p s0 k' H (insert (of_nat n) (insert (BBLOCK (of_nat n) sp) L)) (mark sp V n) t \<Longrightarrow> Q (of_nat n) t"
  shows "wp (balloc ROOTDEV) Q s"
proof -
  let ?P = "\<lambda>n. n < unat (sb_size sp) \<and> blk_free sp V n"
  define n where "n = (LEAST n. ?P n)"
  have "\<exists>n. ?P n" using free by (auto simp: free_cnt_def card_gt_0_iff)
  from LeastI_ex [OF this] have n1: "?P n" by (simp add: n_def)
  then have n: "n < unat (sb_size sp)" "blk_free sp V n" "\<forall>c < n. \<not> blk_free sp V c"
    using not_less_Least [of _ ?P] by (auto simp: n_def [symmetric])
  let ?x = "of_nat n :: uint" let ?B = "BBLOCK ?x sp"
  note f = fresh_block [OF a n(1,2)]
  have sub: "map_blocks sp n \<subseteq> all_maps sp" using n(1) by (auto simp: all_maps_def map_blocks_def)
  have B: "?B \<in> all_maps sp" using sub by (auto simp: map_blocks_def)
  have mp: "H b = None" if "b \<in> all_maps sp" for b
    using that H a all_maps_meta [of sp] by (auto simp: alloc_inv_def)
  have pos: "b \<in> L \<or> 0 < k" for b using k by simp
  have kx: "?x \<in> L \<or> 0 < (if ?B \<in> L then k else k - 1)" using k maps_card [OF B, of L] by auto
  show ?thesis
  proof (rule balloc_tx [OF t l n [folded sp] refl, unfolded sp, OF refl])
    show "?x \<noteq> ?B" using f(7) [OF n(1)] by auto
    show "H ?x = None" using f(2) H by auto
    show "\<forall>b\<in>map_blocks sp n. H b = None" using sub mp by auto
    show "\<forall>b\<in>map_blocks sp n. b \<in> L \<or> 0 < k" using pos by auto
    show "?x \<in> L \<or> 0 < (if ?B \<in> L then k else k - 1)" by (rule kx)
    fix u assume u: "tx p s0 (if ?x \<in> L then if ?B \<in> L then k else k - 1 else (if ?B \<in> L then k else k - 1) - 1) H
      (insert ?x (insert ?B L)) (V(?B := bit_set (n mod BPB) (V ?B), ?x := zeroed (V ?x))) u"
    show "Q ?x u"
    proof (rule q [OF n(1,2) _ u [folded mark_def]])
      show "k + card (all_maps sp - insert ?B L) \<le>
        (if ?x \<in> L then if ?B \<in> L then k else k - 1 else (if ?B \<in> L then k else k - 1) - 1) + 1 + card (all_maps sp - L)"
        using maps_card [OF B, of L] k by (cases "?B \<in> L") (auto simp: insert_absorb)
    qed
  qed
qed

section \<open>The inode table\<close>

lemma bio_inv_itable [simp]:
  fixes s :: "'a fs_st_scheme"
  shows "bio_inv p (itable_update f s) = bio_inv p s" "ents (itable_update f s) = ents s"
proof -
  have "bufno (itable_update f s) = bufno s" by (simp add: fun_eq_iff bufno_def)
  then show "ents (itable_update f s) = ents s" by (auto simp: ents_def ent_of_def fun_eq_iff split: option.split)
qed (simp add: bio_inv_def lru_ok_def buf_ok_def calm_def lock_defs)

lemma tx_itable:
  fixes s :: "'a fs_st_scheme"
  assumes "tx p s0 k H L V s"
  shows "tx p (s0\<lparr>itable := I\<rparr>) k H L V (s\<lparr>itable := I\<rparr>)"
proof -
  have e: "s = s0\<lparr>sleeplocks := sleeplocks s, bufs := bufs s, disk := disk s, dwrites := dwrites s, klog := klog s\<rparr>"
    using txD(2) [OF assms] by (simp add: log_frame_def)
  have "s\<lparr>itable := I\<rparr> = s0\<lparr>itable := I, sleeplocks := sleeplocks s, bufs := bufs s, disk := disk s, dwrites := dwrites s, klog := klog s\<rparr>"
    by (rule trans [OF arg_cong [OF e, of "itable_update (\<lambda>_. I)"]]) simp
  then have "log_frame (s0\<lparr>itable := I\<rparr>) (s\<lparr>itable := I\<rparr>)"
    using txD(2) [OF assms] by (simp add: log_frame_def)
  with assms show ?thesis by (simp add: tx_def)
qed

section \<open>A block named by the indirect block\<close>

lemma paid_kept:
  assumes "need sp i L < k"
  shows "paid sp i k L r i k L"
  using assms need_mono [OF subset_insertI, of sp i r L] by (auto simp: paid_def)

text \<open>The part of \<open>bmap\<close> behind the indirect block \<open>d\<close>: what it does with a missing entry, and with any.\<close>

definition new_entry :: "nat \<Rightarrow> nat \<Rightarrow> (uint, 'a) fsop" where
  "new_entry bp o4 = kbind (balloc ROOTDEV) (\<lambda>addr.
     if addr \<noteq> 0 then kthen [buf_put bp (\<lambda>b. put32 b o4 addr), log_write bp] (kreturn addr)
     else kreturn addr)"

definition find_entry :: "nat \<Rightarrow> uint \<Rightarrow> (uint, 'a) fsop" where
  "find_entry bn d = kbind (bread ROOTDEV d) (\<lambda>bp.
     kbind (buf_get bp (\<lambda>b. get32 b (4 * (bn - NDIRECT)))) (\<lambda>x.
     kbind (if x = 0 then new_entry bp (4 * (bn - NDIRECT)) else kreturn x) (\<lambda>addr.
     kthen [brelse bp] (kreturn addr))))"

lemma new_entry_wp:
  fixes u :: "'a fs_st_scheme"
  assumes u: "tx p s0 (if d \<in> L then k else k - 1) (Map.empty(d \<mapsto> j)) L V u" and l: "logging s0" and sp: "sb s0 = sp"
    and a: "alloc_inv sp V i" and bn: "\<not> bn < NDIRECT" "bn < MAXFILE" "fblk V i bn = 0" and d: "i_addrs i NDIRECT = d" "d \<noteq> 0"
    and free: "0 < free_cnt sp V" and k: "need sp i L < k"
    and q: "\<And>k' L' V' t. tx p s0 k' Map.empty L' V' t \<Longrightarrow> alloc_inv sp V' i \<Longrightarrow> grown sp V i V' i \<Longrightarrow> fblk V' i bn \<noteq> 0 \<Longrightarrow>
      paid sp i k L (fblk V' i bn) i k' L' \<Longrightarrow> free_cnt sp V \<le> free_cnt sp V' + 1 \<Longrightarrow> Q (fblk V' i bn) t"
  shows "wp (new_entry j (4 * (bn - NDIRECT))) (\<lambda>addr. wp (brelse j) (\<lambda>_. Q addr)) u"
  unfolding new_entry_def wp_kbind
proof (rule balloc_grow [OF u l sp a _ free])
  let ?o = "4 * (bn - NDIRECT)" let ?k = "if d \<in> L then k else k - 1"
  have own: "d \<in> own V i" using d ind_own [of i V] by auto
  note dm = own_size [OF a own]
  have sp_ok: "sb_ok sp" using a by (simp add: alloc_inv_def)
  have m: "d \<notin> all_maps sp" using all_maps_meta [OF sp_ok] dm by auto
  show "dom (Map.empty(d \<mapsto> j)) \<subseteq> own V i" using own by simp
  show "card (all_maps sp - L) < ?k" using k d by (auto simp: need_def)
  fix n k' v
  let ?x = "of_nat n :: uint" let ?B = "BBLOCK ?x sp"
  let ?V = "(mark sp V n)(d := put32 (V d) ?o ?x)" let ?L = "insert d (insert ?x (insert ?B L))"
  assume n: "n < unat (sb_size sp)" "blk_free sp V n"
    and kk: "?k + card (all_maps sp - insert ?B L) \<le> k' + 1 + card (all_maps sp - L)"
    and v: "tx p s0 k' (Map.empty(d \<mapsto> j)) (insert ?x (insert ?B L)) (mark sp V n) v"
  note f = fresh_block [OF a n] and te = take_entry [OF a n bn d]
  have md: "mark sp V n d = V d" using mark_ind [OF a n] d by simp
  have ds: "all_maps sp - insert ?x ?L = all_maps sp - insert ?B L" using m f(3) all_maps_meta [OF sp_ok] by auto
  have kd: "?k + (if d \<in> L then 0 else 1) = k" using k by (auto simp: need_def)
  have pd: "paid sp i k L ?x i k' ?L" using kk kd d unfolding paid_def need_def ds by auto
  have fc: "free_cnt sp V \<le> free_cnt sp ?V + 1"
    using free_cnt_mark [OF a n] free_cnt_upd [OF sp_ok, of d "mark sp V n"] dm by simp
  have "wp (buf_put j (\<lambda>b. put32 b ?o ?x)) (\<lambda>_. wp (log_write j) (\<lambda>_. wp (brelse j) (\<lambda>_. Q ?x))) v"
  proof (rule tx_put [OF v, of d])
    fix w assume "tx p s0 k' (Map.empty(d \<mapsto> j)) (insert ?x (insert ?B L)) ((mark sp V n)(d := put32 (mark sp V n d) ?o ?x)) w"
    then have w: "tx p s0 k' (Map.empty(d \<mapsto> j)) (insert ?x (insert ?B L)) ?V w" unfolding md .
    show "wp (log_write j) (\<lambda>_. wp (brelse j) (\<lambda>_. Q ?x)) w"
    proof (rule tx_log [OF w _ l, of d])
      fix y assume y: "tx p s0 k' (Map.empty(d \<mapsto> j)) ?L ?V y"
      show "wp (brelse j) (\<lambda>_. Q ?x) y"
        by (rule tx_rel [OF y, of d]) (use q [OF _ te(1,2), unfolded te(3), OF _ f(4) pd fc] in simp_all)
    qed simp
  qed simp
  then show "wp (if ?x \<noteq> 0 then kthen [buf_put j (\<lambda>b. put32 b ?o ?x), log_write j] (kreturn ?x)
      else kreturn ?x) (\<lambda>addr. wp (brelse j) (\<lambda>_. Q addr)) v"
    using f(4) by (simp add: wp_etas del: kdo.simps)
qed

lemma find_entry_wp:
  fixes s :: "'a fs_st_scheme"
  assumes t: "tx p s0 k Map.empty L V s" and l: "logging s0" and sp: "sb s0 = sp" and a: "alloc_inv sp V i"
    and bn: "\<not> bn < NDIRECT" "bn < MAXFILE" and d: "i_addrs i NDIRECT = d" "d \<noteq> 0"
    and free: "0 < free_cnt sp V" and k: "need sp i L < k"
    and q: "\<And>k' L' V' t. tx p s0 k' Map.empty L' V' t \<Longrightarrow> alloc_inv sp V' i \<Longrightarrow> grown sp V i V' i \<Longrightarrow> fblk V' i bn \<noteq> 0 \<Longrightarrow>
      paid sp i k L (fblk V' i bn) i k' L' \<Longrightarrow> free_cnt sp V \<le> free_cnt sp V' + 1 \<Longrightarrow> Q (fblk V' i bn) t"
  shows "wp (find_entry bn d) Q s"
  unfolding find_entry_def
proof (rule tx_read [OF t])
  let ?o = "4 * (bn - NDIRECT)"
  have e: "fblk V i bn = get32 (V d) ?o" using bn d by (simp add: fblk_def)
  fix j u assume u: "tx p s0 (if d \<in> L then k else k - 1) (Map.empty(d \<mapsto> j)) L V u"
  have clean: "d \<in> L \<or> V d = disk s0 d" using tx_clean [OF t] by auto
  have "wp (if get32 (V d) ?o = 0 then new_entry j ?o else kreturn (get32 (V d) ?o)) (\<lambda>addr. wp (brelse j) (\<lambda>_. Q addr)) u"
  proof (cases "fblk V i bn = 0")
    case False
    have "wp (brelse j) (\<lambda>_. Q (fblk V i bn)) u"
      by (rule tx_rel [OF u _ clean]) (use k q [OF _ a grown_refl False paid_kept [OF k]] in \<open>auto split: if_splits\<close>)
    then show ?thesis using e False by (simp add: wp_simps)
  next
    case True
    then show ?thesis using new_entry_wp [OF u l sp a bn True d free k, of Q] q e by simp
  qed
  then show "wp (kbind (buf_get j (\<lambda>b. get32 b ?o)) (\<lambda>x. kbind (if x = 0 then new_entry j ?o else kreturn x) (\<lambda>addr.
      kthen [brelse j] (kreturn addr)))) Q u"
    unfolding wp_kbind [of "buf_get j _"] by (intro tx_get [OF u, of d]) (simp_all add: wp_etas del: kdo.simps)
qed (use k in \<open>simp_all add: need_def\<close>)

section \<open>bmap\<close>

text \<open>Taking a block for the inode itself, at place \<open>bn\<close> of its addresses.\<close>

definition new_addr :: "nat \<Rightarrow> nat \<Rightarrow> (uint, 'a) fsop" where
  "new_addr ip bn = kbind (balloc ROOTDEV) (\<lambda>addr. if addr = 0 then kreturn 0
     else kthen [set_inode ip (i_addrs_update (\<lambda>a. a(bn := addr)))] (kreturn addr))"

lemma bmap_eq:
  assumes "itable s ip = i" "i_dev i = ROOTDEV" "bn < MAXFILE"
  shows "wp (bmap ip bn) Q s \<longleftrightarrow> wp (if bn < NDIRECT then if i_addrs i bn = 0 then new_addr ip bn else kreturn (i_addrs i bn)
     else kbind (if i_addrs i NDIRECT = 0 then new_addr ip NDIRECT else kreturn (i_addrs i NDIRECT)) (\<lambda>d.
       if d = 0 then kreturn 0 else find_entry bn d)) Q s"
proof (cases "bn < NDIRECT")
  case False
  then have "bn - NDIRECT < NINDIRECT" using assms(3) by simp
  with False show ?thesis
    by (simp only: bmap_def get_inode_def wp_kbind wp_kgets Let_def if_True if_False assms(1,2) new_addr_def find_entry_def new_entry_def)
qed (simp add: bmap_def get_inode_def wp_kgets wp_kbind assms(1,2) new_addr_def)

lemma new_addr_wp:
  fixes s :: "'a fs_st_scheme"
  assumes t: "tx p s0 k Map.empty L V s" and l: "logging s0" and sp: "sb s0 = sp" and i: "itable s0 ip = i"
    and a: "alloc_inv sp V i" and free: "0 < free_cnt sp V" and k: "card (all_maps sp - L) < k"
    and q: "\<And>n k' t. n < unat (sb_size sp) \<Longrightarrow> blk_free sp V n \<Longrightarrow>
      k + card (all_maps sp - insert (BBLOCK (of_nat n) sp) L) \<le> k' + 1 + card (all_maps sp - L) \<Longrightarrow>
      tx p (s0\<lparr>itable := (itable s0)(ip := i\<lparr>i_addrs := (i_addrs i)(bn := of_nat n)\<rparr>)\<rparr>) k' Map.empty
        (insert (of_nat n) (insert (BBLOCK (of_nat n) sp) L)) (mark sp V n) t \<Longrightarrow> Q (of_nat n) t"
  shows "wp (new_addr ip bn) Q s"
  unfolding new_addr_def wp_kbind
proof (rule balloc_grow [OF t l sp a _ free k])
  fix n k' u
  let ?x = "of_nat n :: uint"
  assume n: "n < unat (sb_size sp)" "blk_free sp V n"
    and kk: "k + card (all_maps sp - insert (BBLOCK ?x sp) L) \<le> k' + 1 + card (all_maps sp - L)"
    and u: "tx p s0 k' Map.empty (insert ?x (insert (BBLOCK ?x sp) L)) (mark sp V n) u"
  have "upd_inode ip (i_addrs_update (\<lambda>a. a(bn := ?x))) u = u\<lparr>itable := (itable s0)(ip := i\<lparr>i_addrs := (i_addrs i)(bn := ?x)\<rparr>)\<rparr>"
    using tx_fs(2) [OF u] i by (cases i) (simp add: upd_inode_def)
  then have "Q ?x (upd_inode ip (i_addrs_update (\<lambda>a. a(bn := ?x))) u)" using q [OF n kk] tx_itable [OF u] by simp
  then show "wp (if ?x = 0 then kreturn 0 else kthen [set_inode ip (i_addrs_update (\<lambda>a. a(bn := ?x)))] (kreturn ?x)) Q u"
    using fresh_block(4) [OF a n] by (simp add: set_inode_def wp_simps)
qed simp

lemma fresh_maps:
  assumes a: "alloc_inv sp V i" and n: "n < unat (sb_size sp)" "blk_free sp V n"
  shows "all_maps sp - insert (of_nat n) L = all_maps sp - L"
  using fresh_block(3) [OF a n] all_maps_meta [of sp] a by (auto simp: alloc_inv_def)

text \<open>What \<open>bmap\<close> leaves behind.\<close>

definition mapped :: "superblock \<Rightarrow> nat \<Rightarrow> uint set \<Rightarrow> (uint \<Rightarrow> bytes) \<Rightarrow> inode \<Rightarrow> nat \<Rightarrow> nat \<Rightarrow> uint set \<Rightarrow> (uint \<Rightarrow> bytes) \<Rightarrow> inode \<Rightarrow> bool" where
  "mapped sp k L V i bn k' L' V' i' \<longleftrightarrow> alloc_inv sp V' i' \<and> grown sp V i V' i' \<and> fblk V' i' bn \<noteq> 0 \<and>
     paid sp i k L (fblk V' i' bn) i' k' L' \<and>
     free_cnt sp V + (if i_addrs i' NDIRECT = 0 then 1 else 0) \<le> free_cnt sp V' + 1 + (if i_addrs i NDIRECT = 0 then 1 else 0)"

lemma bmap_indirect:
  fixes s :: "'a fs_st_scheme"
  assumes t: "tx p s0 k Map.empty L V s" and l: "logging s0" and sp: "sb s0 = sp" and i: "itable s0 ip = i"
    and a: "alloc_inv sp V i" and bn: "\<not> bn < NDIRECT" "bn < MAXFILE" and z: "i_addrs i NDIRECT = 0"
    and free: "1 < free_cnt sp V" and k: "need sp i L < k"
    and q: "\<And>i' k' L' V' t. tx p (s0\<lparr>itable := (itable s0)(ip := i')\<rparr>) k' Map.empty L' V' t \<Longrightarrow> mapped sp k L V i bn k' L' V' i' \<Longrightarrow>
      Q (fblk V' i' bn) t"
  shows "wp (new_addr ip NDIRECT) (\<lambda>d. wp (if d = 0 then kreturn 0 else find_entry bn d) Q) s"
proof (rule new_addr_wp [OF t l sp i a])
  show "0 < free_cnt sp V" "card (all_maps sp - L) < k" using k free by (auto simp: need_def split: if_splits)
  fix n k' u
  let ?x = "of_nat n :: uint" let ?i = "i\<lparr>i_addrs := (i_addrs i)(NDIRECT := ?x)\<rparr>"
  let ?L = "insert ?x (insert (BBLOCK ?x sp) L)" let ?s0 = "s0\<lparr>itable := (itable s0)(ip := ?i)\<rparr>"
  assume n: "n < unat (sb_size sp)" "blk_free sp V n"
    and kk: "k + card (all_maps sp - insert (BBLOCK ?x sp) L) \<le> k' + 1 + card (all_maps sp - L)"
    and u: "tx p ?s0 k' Map.empty ?L (mark sp V n) u"
  note ti = take_indirect [OF a n z] and x0 = fresh_block(4) [OF a n] and fc = free_cnt_mark [OF a n]
  have nd: "need sp ?i ?L = card (all_maps sp - insert (BBLOCK ?x sp) L)" "need sp i L = Suc (card (all_maps sp - L))"
    using x0 z fresh_maps [OF a n] by (simp_all add: need_def)
  have l': "logging ?s0" "sb ?s0 = sp" using l sp by (simp_all add: logging_def)
  have "wp (find_entry bn ?x) Q u"
  proof (rule find_entry_wp [OF u l' ti(1) bn])
    show "i_addrs ?i NDIRECT = ?x" "?x \<noteq> 0" using x0 by simp_all
    show "0 < free_cnt sp (mark sp V n)" using fc free by simp
    show "need sp ?i ?L < k'" using kk k nd by simp
    fix k2 L2 V2 w
    assume w: "tx p ?s0 k2 Map.empty L2 V2 w" and g: "alloc_inv sp V2 ?i" "grown sp (mark sp V n) ?i V2 ?i"
      and r: "fblk V2 ?i bn \<noteq> 0" "paid sp ?i k' ?L (fblk V2 ?i bn) ?i k2 L2" and fr: "free_cnt sp (mark sp V n) \<le> free_cnt sp V2 + 1"
    have "paid sp i k L (fblk V2 ?i bn) ?i k2 L2" using r(2) nd kk by (simp add: paid_def)
    then have "mapped sp k L V i bn k2 L2 V2 ?i"
      using g(1) grown_trans [OF ti(2) g(2) ti(1) g(1)] r(1) fr fc z x0 by (simp add: mapped_def)
    then show "Q (fblk V2 ?i bn) w" by (rule q [OF w])
  qed
  then show "wp (if ?x = 0 then kreturn 0 else find_entry bn ?x) Q u" using x0 by simp
qed

lemma bmap_tx:
  fixes s :: "'a fs_st_scheme"
  assumes t: "tx p s0 k Map.empty L V s" and l: "logging s0" and sp: "sb s0 = sp" and i: "itable s0 ip = i"
    and a: "alloc_inv sp V i" and bn: "bn < MAXFILE"
    and free: "(if i_addrs i NDIRECT = 0 then 1 else 0) < free_cnt sp V" and k: "need sp i L < k"
    and q: "\<And>i' k' L' V' t. tx p (s0\<lparr>itable := (itable s0)(ip := i')\<rparr>) k' Map.empty L' V' t \<Longrightarrow> mapped sp k L V i bn k' L' V' i' \<Longrightarrow>
      Q (fblk V' i' bn) t"
  shows "wp (bmap ip bn) Q s"
proof -
  have it: "itable s ip = i" and dev: "i_dev i = ROOTDEV" using tx_fs(2) [OF t] i a by (simp_all add: alloc_inv_def)
  have same: "s0\<lparr>itable := (itable s0)(ip := i)\<rparr> = s0" using i by (simp add: fun_upd_idem)
  have kc: "0 < free_cnt sp V" "card (all_maps sp - L) < k" using k free by (auto simp: need_def split: if_splits)
  note e = bmap_eq [of s ip i bn Q, OF it dev bn]
  consider "bn < NDIRECT" "i_addrs i bn \<noteq> 0" | "bn < NDIRECT" "i_addrs i bn = 0"
    | "\<not> bn < NDIRECT" "i_addrs i NDIRECT \<noteq> 0" | "\<not> bn < NDIRECT" "i_addrs i NDIRECT = 0" by blast
  then show ?thesis
  proof cases
    case 1
    then have "fblk V i bn = i_addrs i bn" by (simp add: fblk_def)
    then have "Q (i_addrs i bn) s" using q [of i k L V s] 1 t same a paid_kept [OF k] by (simp add: mapped_def)
    then show ?thesis using 1 e by (simp add: wp_simps)
  next
    case 2
    have "wp (new_addr ip bn) Q s"
    proof (rule new_addr_wp [OF t l sp i a kc])
      fix n k' u
      let ?x = "of_nat n :: uint" let ?i = "i\<lparr>i_addrs := (i_addrs i)(bn := ?x)\<rparr>"
      assume n: "n < unat (sb_size sp)" "blk_free sp V n"
        and kk: "k + card (all_maps sp - insert (BBLOCK ?x sp) L) \<le> k' + 1 + card (all_maps sp - L)"
        and u: "tx p (s0\<lparr>itable := (itable s0)(ip := ?i)\<rparr>) k' Map.empty (insert ?x (insert (BBLOCK ?x sp) L)) (mark sp V n) u"
      note td = take_direct [OF a n 2]
      have "paid sp i k L ?x ?i k' (insert ?x (insert (BBLOCK ?x sp) L))"
        using kk 2 fresh_maps [OF a n] by (auto simp: paid_def need_def)
      then have "mapped sp k L V i bn k' (insert ?x (insert (BBLOCK ?x sp) L)) (mark sp V n) ?i"
        using td fresh_block(4) [OF a n] free_cnt_mark [OF a n] 2 by (simp add: mapped_def)
      from q [OF u this] show "Q ?x u" using td(3) by simp
    qed
    then show ?thesis using 2 e by simp
  next
    case 3
    have "wp (find_entry bn (i_addrs i NDIRECT)) Q s"
      by (rule find_entry_wp [OF t l sp a 3(1) bn refl 3(2) kc(1) k]) (use q [of i] same 3 in \<open>simp add: mapped_def\<close>)
    then show ?thesis using 3 e by (simp add: wp_simps)
  next
    case 4
    then show ?thesis using bmap_indirect [OF t l sp i a 4(1) bn 4(2) _ k, of Q] q free e by (simp add: wp_simps)
  qed
qed

end
