(* ===== verification/Writei.thy ===== *)
theory Writei
  imports Bmap
begin

text \<open>
  \<open>writei\<close> inside a transaction replaces a range of a file's contents by bytes of user memory. The blocks it
  records in the log are counted: one for every block the range touches, the free map, the indirect
  block, and the block of the inode.
\<close>

section \<open>One round\<close>

definition writei_chunk :: "nat \<Rightarrow> uint \<Rightarrow> kptr \<Rightarrow> nat \<times> nat \<times> nat \<Rightarrow> ((nat \<times> nat) option, 'a) fsop" where
  "writei_chunk ip dev src = (\<lambda>(tot, off, m).
     kbind (bmap ip (off div BSIZE)) (\<lambda>addr.
     if addr = 0 then kreturn (Some (tot, off))
     else kbind (bread dev addr) (\<lambda>bp.
       kbind (buf_get bp (\<lambda>d j. d (off mod BSIZE + j))) (\<lambda>dst.
       kbind (either_copyin dst (kptr_add src tot) (of_nat m)) (\<lambda>(r, x). kthen [
         buf_put bp (\<lambda>d. splice d (off mod BSIZE) m x),
         if r = -1 then kreturn () else log_write bp,
         brelse bp] (kreturn (if r = -1 then Some (tot, off) else None)))))))"

lemma user_copyin:
  fixes t :: "'a proc_st_scheme"
  assumes us: "us_inv (syms t) (mem t) root" "root = p_pagetable (procs t p)" and c: "calm p t"
    and r: "urange (mem t) root va n" and m: "tot + m \<le> n" "n < 18446744073709551616"
    and q: "\<And>x. \<forall>j < m. x j = the (uread (mem t) root (va + of_nat (tot + j))) \<Longrightarrow> Q (0, x) t"
  shows "wp (either_copyin dst (kptr_add (UserPtr va) tot) (of_nat m)) Q t"
proof -
  have um: "unat (of_nat m :: uint64) = m" using m by (simp add: unat_of_nat take_bit_nat_eq_self)
  have "urange (mem t) root (va + of_nat tot) m"
    using r m(1) urange_join [of "mem t" root va tot "n - tot"] urange_join [of "mem t" root "va + of_nat tot" m "n - tot - m"] by auto
  then obtain x where "copyin root dst (va + of_nat tot) (of_nat m) t = Ret (0, x) t" "got (mem t) root (va + of_nat tot) 0 m dst x"
    using copyin_loop_spec [OF us(1), of dst 0 "va + of_nat tot" "of_nat m"] um by (auto simp: copyin_def)
  then show ?thesis using q [of x] us(2) curproc_calm [OF c]
    by (simp add: wp_simps wp_def [of curproc] wp_def [of "copyin _ _ _ _"] got_def add.assoc)
qed

lemma put_chunk:
  fixes s :: "'a fs_st_scheme"
  assumes t: "tx p s1 k Map.empty L V s" and l: "logging s1" and k: "b \<in> L \<or> 0 < k"
    and us: "us_inv (syms s1) (mem s1) root" "root = p_pagetable (procs s1 p)" "urange (mem s1) root va n"
    and m: "tot + m \<le> n" "n < 18446744073709551616"
    and q: "\<And>x t. \<forall>j < m. x j = the (uread (mem s1) root (va + of_nat (tot + j))) \<Longrightarrow>
      tx p s1 (if b \<in> L then k else k - 1) Map.empty (insert b L) (V(b := splice (V b) o1 m x)) t \<Longrightarrow> Q None t"
  shows "wp (kbind (bread ROOTDEV b) (\<lambda>bp.
       kbind (buf_get bp (\<lambda>d j. d (o1 + j))) (\<lambda>dst.
       kbind (either_copyin dst (kptr_add (UserPtr va) tot) (of_nat m)) (\<lambda>(r, x). kthen [
         buf_put bp (\<lambda>d. splice d o1 m x),
         if r = -1 then kreturn () else log_write bp,
         brelse bp] (kreturn (if r = -1 then Some y else None)))))) Q s"
proof (rule tx_read [OF t _ k])
  fix j u assume u: "tx p s1 (if b \<in> L then k else k - 1) (Map.empty(b \<mapsto> j)) L V u"
  note f = log_frame_fields [OF txD(2) [OF u]]
  have "wp (either_copyin dst (kptr_add (UserPtr va) tot) (of_nat m)) (\<lambda>(r, x). wp (kthen [
         buf_put j (\<lambda>d. splice d o1 m x),
         if r = -1 then kreturn () else log_write j,
         brelse j] (kreturn (if r = -1 then Some y else None))) Q) u" for dst
  proof (rule user_copyin [where n = n and p = p])
    fix x :: bytes assume x: "\<forall>j < m. x j = the (uread (mem u) root (va + of_nat (tot + j)))"
    have "wp (buf_put j (\<lambda>d. splice d o1 m x)) (\<lambda>_. wp (log_write j) (\<lambda>_. wp (brelse j) (\<lambda>_. Q None))) u"
    proof (rule tx_put [OF u, of b])
      fix v assume v: "tx p s1 (if b \<in> L then k else k - 1) (Map.empty(b \<mapsto> j)) L (V(b := splice (V b) o1 m x)) v"
      show "wp (log_write j) (\<lambda>_. wp (brelse j) (\<lambda>_. Q None)) v"
      proof (rule tx_log [OF v _ l, of b])
        fix w assume w: "tx p s1 (if b \<in> L then k else k - 1) (Map.empty(b \<mapsto> j)) (insert b L) (V(b := splice (V b) o1 m x)) w"
        show "wp (brelse j) (\<lambda>_. Q None) w" by (rule tx_rel [OF w, of b]) (use q x f in simp_all)
      qed simp
    qed simp
    then show "(case (0 :: int, x) of (r, x) \<Rightarrow> wp (kthen [
         buf_put j (\<lambda>d. splice d o1 m x),
         if r = -1 then kreturn () else log_write j,
         brelse j] (kreturn (if r = -1 then Some y else None))) Q) u" by (simp add: wp_etas del: kdo.simps)
  qed (use us f txD(5) [OF u] m in simp_all)
  then have "wp (kbind (either_copyin dst (kptr_add (UserPtr va) tot) (of_nat m)) (\<lambda>(r, x). kthen [
         buf_put j (\<lambda>d. splice d o1 m x),
         if r = -1 then kreturn () else log_write j,
         brelse j] (kreturn (if r = -1 then Some y else None)))) Q u" for dst
    unfolding wp_kbind by (rule wp_mono) (auto split: prod.splits)
  then show "wp (kbind (buf_get j (\<lambda>d j. d (o1 + j))) (\<lambda>dst.
       kbind (either_copyin dst (kptr_add (UserPtr va) tot) (of_nat m)) (\<lambda>(r, x). kthen [
         buf_put j (\<lambda>d. splice d o1 m x),
         if r = -1 then kreturn () else log_write j,
         brelse j] (kreturn (if r = -1 then Some y else None))))) Q u"
    unfolding wp_kbind [of "buf_get j _"] by (intro tx_get [OF u, of b]) simp_all
qed simp

section \<open>The loop\<close>

text \<open>
  The state once \<open>tot\<close> bytes are written: \<open>todo\<close> is the number of rounds to come, \<open>K\<close> the number of blocks
  the log must have room for in the end.
\<close>

definition writing :: "nat \<Rightarrow> 'a fs_st_scheme \<Rightarrow> nat \<Rightarrow> superblock \<Rightarrow> nat \<Rightarrow> (nat \<Rightarrow> uchar) \<Rightarrow> nat \<Rightarrow> nat \<Rightarrow> nat \<Rightarrow>
  nat \<Rightarrow> uint set \<Rightarrow> (uint \<Rightarrow> bytes) \<Rightarrow> inode \<Rightarrow> 'a fs_st_scheme \<Rightarrow> bool" where
  "writing p s0 ip sp off F K todo tot k L V i s \<longleftrightarrow> tx p (s0\<lparr>itable := (itable s0)(ip := i)\<rparr>) k Map.empty L V s \<and> alloc_inv sp V i \<and>
     rewritten sp (view s0) (itable s0 ip) off F tot V i \<and> need sp i L + todo + K \<le> k \<and>
     todo + (if i_addrs i NDIRECT = 0 then 1 else 0) \<le> free_cnt sp V"

lemma writei_chunk_wp:
  fixes s :: "'a fs_st_scheme"
  assumes w: "writing p s0 ip sp off F K (Suc todo) tot k L V i s" and l: "logging s0" and sp: "sb s0 = sp"
    and us: "us_inv (syms s0) (mem s0) root" "root = p_pagetable (procs s0 p)" "urange (mem s0) root va n"
    and F: "\<And>j. j < n \<Longrightarrow> F j = the (uread (mem s0) root (va + of_nat j))"
    and m: "0 < m" "tot + m \<le> n" "m \<le> BSIZE - (off + tot) mod BSIZE" "off + n \<le> MAXFILE * BSIZE"
    and q: "\<And>k L V i t. writing p s0 ip sp off F K todo (tot + m) k L V i t \<Longrightarrow> Q None t"
  shows "wp (writei_chunk ip ROOTDEV (UserPtr va) (tot, off + tot, m)) Q s"
proof -
  let ?bn = "(off + tot) div BSIZE" let ?s0 = "\<lambda>i. s0\<lparr>itable := (itable s0)(ip := i)\<rparr>"
  have t: "tx p (?s0 i) k Map.empty L V s" and a: "alloc_inv sp V i" and r: "rewritten sp (view s0) (itable s0 ip) off F tot V i"
    and b: "need sp i L + Suc todo + K \<le> k" "Suc todo + (if i_addrs i NDIRECT = 0 then 1 else 0) \<le> free_cnt sp V"
    using w by (simp_all add: writing_def)
  have l': "logging (?s0 i)" for i using l by (simp add: logging_def)
  have bn: "?bn < MAXFILE" using m by (simp add: less_mult_imp_div_less)
  have small: "n < 18446744073709551616" using m(4) by simp
  let ?put = "\<lambda>addr. kbind (bread ROOTDEV addr) (\<lambda>bp.
       kbind (buf_get bp (\<lambda>d j. d ((off + tot) mod BSIZE + j))) (\<lambda>dst.
       kbind (either_copyin dst (kptr_add (UserPtr va) tot) (of_nat m)) (\<lambda>(r, x). kthen [
         buf_put bp (\<lambda>d. splice d ((off + tot) mod BSIZE) m x),
         if r = -1 then kreturn () else log_write bp,
         brelse bp] (kreturn (if r = -1 then Some (tot, off + tot) else None)))))"
  have "wp (bmap ip ?bn) (\<lambda>addr. wp (if addr = 0 then kreturn (Some (tot, off + tot)) else ?put addr) Q) s"
  proof (rule bmap_tx [OF t l' _ _ a bn])
    fix i' k' L' V' u
    assume u0: "tx p (?s0 i\<lparr>itable := (itable (?s0 i))(ip := i')\<rparr>) k' Map.empty L' V' u" and mp: "mapped sp k L V i ?bn k' L' V' i'"
    have u: "tx p (?s0 i') k' Map.empty L' V' u" using u0 by simp
    let ?b = "fblk V' i' ?bn"
    have mp': "alloc_inv sp V' i'" "grown sp V i V' i'" "?b \<noteq> 0" "paid sp i k L ?b i' k' L'"
      "free_cnt sp V + (if i_addrs i' NDIRECT = 0 then 1 else 0) \<le> free_cnt sp V' + 1 + (if i_addrs i NDIRECT = 0 then 1 else 0)"
      using mp by (simp_all add: mapped_def)
    have "off + tot \<le> MAXFILE * BSIZE" using m by linarith
    note r' = rewritten_grown [OF r mp'(2) a mp'(1) this]
    have "wp (?put ?b) Q u"
    proof (rule put_chunk [OF u l' _ _ _ _ m(2) small, where root = root])
      show "?b \<in> L' \<or> 0 < k'" using mp'(4) by (simp add: paid_def)
      fix x v assume x: "\<forall>j < m. x j = the (uread (mem (?s0 i')) root (va + of_nat (tot + j)))"
        and v: "tx p (?s0 i') (if ?b \<in> L' then k' else k' - 1) Map.empty (insert ?b L') (V'(?b := splice (V' ?b) ((off + tot) mod BSIZE) m x)) v"
      have "\<forall>j < m. x j = F (tot + j)" using x F m(2) by simp
      note w = rewritten_put [OF r' mp'(1) refl mp'(3) m(3) _ m(1) this] and a' = put_block(4) [OF mp'(1) bn mp'(3)]
      have fc: "free_cnt sp (V'(?b := d)) = free_cnt sp V'" for d
        using free_cnt_upd alloc_invD(3) [OF mp'(1) bn mp'(3)] mp'(1) by (simp add: alloc_inv_def)
      have p: "need sp i' (insert ?b L') + todo + K \<le> (if ?b \<in> L' then k' else k' - 1)"
        using mp'(4) b(1) by (auto simp: paid_def)
      have f: "todo + (if i_addrs i' NDIRECT = 0 then 1 else 0) \<le> free_cnt sp V'" using mp'(5) b(2) by linarith
      have "writing p s0 ip sp off F K todo (tot + m) (if ?b \<in> L' then k' else k' - 1) (insert ?b L')
        (V'(?b := splice (V' ?b) ((off + tot) mod BSIZE) m x)) i' v"
        unfolding writing_def fc using v w a' p f m(2,4) by simp
      then show "Q None v" by (rule q)
    qed (use us in simp_all)
    then show "wp (if ?b = 0 then kreturn (Some (tot, off + tot)) else ?put ?b) Q u" using mp'(3) by simp
  qed (use sp b in \<open>auto split: if_splits\<close>)
  then show ?thesis unfolding writei_chunk_def prod.case wp_kbind .
qed

lemma io_chunks_length: "length (io_chunks tot off n) \<le> (off mod BSIZE + (n - tot) + BSIZE - 1) div BSIZE"
proof (induction tot off n rule: io_chunks.induct)
  case (1 tot off n)
  show ?case
  proof (cases "tot < n")
    case False
    then show ?thesis by (simp add: io_chunks.simps)
  next
    case True
    define m where "m = min (n - tot) (BSIZE - off mod BSIZE)"
    have IH: "length (io_chunks (tot + m) (off + m) n) \<le> ((off + m) mod BSIZE + (n - (tot + m)) + BSIZE - 1) div BSIZE"
      by (rule 1 [OF True m_def])
    have e: "length (io_chunks tot off n) = Suc (length (io_chunks (tot + m) (off + m) n))"
      using True by (subst io_chunks.simps) (simp add: m_def Let_def)
    show ?thesis
    proof (cases "m = n - tot")
      case True
      then have "io_chunks (tot + m) (off + m) n = []" using \<open>tot < n\<close> by (simp add: io_chunks.simps)
      moreover have "BSIZE \<le> off mod BSIZE + (n - tot) + BSIZE - 1" using \<open>tot < n\<close> by simp
      then have "1 \<le> (off mod BSIZE + (n - tot) + BSIZE - 1) div BSIZE" by (simp add: Suc_le_eq div_greater_zero_iff)
      ultimately show ?thesis using e by simp
    next
      case False
      then have m: "m = BSIZE - off mod BSIZE" "m < n - tot" by (simp_all add: m_def min_def split: if_splits)
      have lt: "off mod BSIZE < BSIZE" by simp
      have "off + m = (off div BSIZE + 1) * BSIZE"
      proof -
        obtain d r where "off div BSIZE = d" "off mod BSIZE = r" by simp
        then show ?thesis unfolding m(1) using div_mult_mod_eq [of off BSIZE] lt by simp
      qed
      then have "(off + m) mod BSIZE = 0" by simp
      moreover have "off mod BSIZE + (n - tot) + BSIZE - 1 = ((n - (tot + m)) + BSIZE - 1) + BSIZE"
      proof -
        obtain r where "off mod BSIZE = r" by simp
        then show ?thesis using m lt by simp
      qed
      ultimately show ?thesis using IH e by simp
    qed
  qed
qed

lemma writei_loop_wp:
  fixes s :: "'a fs_st_scheme"
  assumes l: "logging s0" and sp: "sb s0 = sp"
    and us: "us_inv (syms s0) (mem s0) root" "root = p_pagetable (procs s0 p)" "urange (mem s0) root va n"
    and F: "\<And>j. j < n \<Longrightarrow> F j = the (uread (mem s0) root (va + of_nat j))" and n: "off + n \<le> MAXFILE * BSIZE"
    and q: "\<And>k L V i t. writing p s0 ip sp off F K 0 n k L V i t \<Longrightarrow> wp rest Q t"
  shows "writing p s0 ip sp off F K (length (io_chunks tot (off + tot) n)) tot k L V i s \<Longrightarrow> tot \<le> n \<Longrightarrow>
    wp (kfor (io_chunks tot (off + tot) n) (writei_chunk ip ROOTDEV (UserPtr va)) rest) Q s"
proof (induction "n - tot" arbitrary: tot k L V i s rule: less_induct)
  case less
  show ?case
  proof (cases "tot < n")
    case False
    then show ?thesis using less.prems q by (simp add: io_chunks.simps wp_simps)
  next
    case True
    define m where "m = min (n - tot) (BSIZE - (off + tot) mod BSIZE)"
    have m: "0 < m" "tot + m \<le> n" "m \<le> BSIZE - (off + tot) mod BSIZE" using True by (auto simp: m_def)
    have ic: "io_chunks tot (off + tot) n = (tot, off + tot, m) # io_chunks (tot + m) (off + (tot + m)) n"
      using True by (subst io_chunks.simps) (simp add: m_def Let_def add.assoc)
    from less.prems(1) have w: "writing p s0 ip sp off F K (Suc (length (io_chunks (tot + m) (off + (tot + m)) n))) tot k L V i s"
      unfolding ic by simp
    show ?thesis
      unfolding ic wp_kfor_Cons
      by (rule writei_chunk_wp [OF w l sp us F m n]) (use less.hyps m True in simp_all)
  qed
qed

section \<open>The inode\<close>

lemma iupdate_tx:
  fixes s :: "'a fs_st_scheme"
  assumes t: "tx p s1 k Map.empty L V s" and l: "logging s1" and i: "itable s1 ip = i" "i_dev i = ROOTDEV"
    and b: "b = IBLOCK (i_inum i) (sb s1)" "b \<in> L \<or> 0 < k"
    and q: "\<And>t. tx p s1 (if b \<in> L then k else k - 1) Map.empty (insert b L) (V(b := dinode_put i (dinode_off (i_inum i)) (V b))) t \<Longrightarrow> Q () t"
  shows "wp (iupdate ip) Q s"
proof -
  let ?f = "dinode_put i (dinode_off (i_inum i))"
  have "wp (kbind (bread ROOTDEV b) (\<lambda>bp. kdo [
       kbind (get_inode ip) (\<lambda>i. buf_put bp (dinode_put i (dinode_off (i_inum i)))), log_write bp, brelse bp])) Q s"
  proof (rule tx_read [OF t _ b(2)])
    fix j u assume u: "tx p s1 (if b \<in> L then k else k - 1) (Map.empty(b \<mapsto> j)) L V u"
    have "wp (buf_put j ?f) (\<lambda>_. wp (log_write j) (\<lambda>_. wp (brelse j) (\<lambda>_. Q ()))) u"
    proof (rule tx_put [OF u, of b])
      fix v assume v: "tx p s1 (if b \<in> L then k else k - 1) (Map.empty(b \<mapsto> j)) L (V(b := ?f (V b))) v"
      show "wp (log_write j) (\<lambda>_. wp (brelse j) (\<lambda>_. Q ())) v"
      proof (rule tx_log [OF v _ l, of b])
        fix w assume w: "tx p s1 (if b \<in> L then k else k - 1) (Map.empty(b \<mapsto> j)) (insert b L) (V(b := ?f (V b))) w"
        show "wp (brelse j) (\<lambda>_. Q ()) w" by (rule tx_rel [OF w, of b]) (use q in simp_all)
      qed simp
    qed simp
    then show "wp (kdo [kbind (get_inode ip) (\<lambda>i. buf_put j (dinode_put i (dinode_off (i_inum i)))), log_write j, brelse j]) Q u"
      using tx_fs(2) [OF u] i(1) by (simp add: wp_etas get_inode_def wp_kgets del: kdo.simps)
  qed simp
  then show ?thesis using tx_fs [OF t] i b(1) by (simp only: iupdate_def get_inode_def wp_kbind wp_kgets)
qed

text \<open>Changing the size, or a metadata block outside the free map, does not change which blocks the file has.\<close>

lemma resize_file [simp]:
  "fblk V (i\<lparr>i_size := z\<rparr>) = fblk V i" "own V (i\<lparr>i_size := z\<rparr>) = own V i" "alloc_inv sp V (i\<lparr>i_size := z\<rparr>) = alloc_inv sp V i"
  "fbyte V (i\<lparr>i_size := z\<rparr>) = fbyte V i"
  by (simp_all add: fun_eq_iff fblk_def own_def alloc_inv_def fbyte_def)

lemma meta_block:
  assumes a: "alloc_inv sp V i" and b: "b \<in> meta sp" "b \<notin> all_maps sp"
  shows "fblk (V(b := d)) i = fblk V i" "own (V(b := d)) i = own V i" "alloc_inv sp (V(b := d)) i"
    "\<And>j. j div BSIZE < MAXFILE \<Longrightarrow> fblk V i (j div BSIZE) \<noteq> 0 \<Longrightarrow> fbyte (V(b := d)) i j = fbyte V i j"
proof -
  have ind: "i_addrs i NDIRECT \<noteq> 0 \<Longrightarrow> i_addrs i NDIRECT \<noteq> b" using own_size [OF a ind_own] b by auto
  then show f: "fblk (V(b := d)) i = fblk V i" by (auto simp: fun_eq_iff fblk_def)
  then show o: "own (V(b := d)) i = own V i" by (simp add: own_def)
  have nb: "BBLOCK (of_nat c) sp \<noteq> b" if "c < unat (sb_size sp)" for c
    using b(2) that by (auto simp: all_maps_def map_blocks_def)
  have "in_use sp (V(b := d)) c = in_use sp V c" if "unat c < unat (sb_size sp)" for c
    using nb [OF that] by (simp add: in_use_def blk_free_def)
  moreover have "unat c < unat (sb_size sp)" if "c \<in> meta sp" for c
    using that a unfolding meta_def alloc_inv_def sb_ok_def by simp
  ultimately show "alloc_inv sp (V(b := d)) i" using a unfolding alloc_inv_def f o meta_used_def by auto
  show "fbyte (V(b := d)) i j = fbyte V i j" if "j div BSIZE < MAXFILE" "fblk V i (j div BSIZE) \<noteq> 0" for j
    using own_size [OF a fblk_own [OF that]] b(1) by (auto simp: fbyte_def f)
qed

section \<open>The contents after a write\<close>

lemma rewritten_contents:
  assumes w: "rewritten sp V0 i0 off F n V i" and ok: "file_ok V0 i0" and off: "off \<le> unat (i_size i0)" "off + n \<le> MAXFILE * BSIZE"
    and z: "unat z = max (unat (i_size i0)) (off + n)" and f: "\<And>j. j < unat z \<Longrightarrow> fbyte W (i\<lparr>i_size := z\<rparr>) j = fbyte V i j"
  shows "contents W (i\<lparr>i_size := z\<rparr>) = take off (contents V0 i0) @ map F [0..<n] @ drop (off + n) (contents V0 i0)"
proof (rule nth_equalityI)
  have len: "length (contents V0 i0) = unat (i_size i0)" by (simp add: contents_def)
  show "length (contents W (i\<lparr>i_size := z\<rparr>)) = length (take off (contents V0 i0) @ map F [0..<n] @ drop (off + n) (contents V0 i0))"
    using off z by (simp add: contents_def max_def)
  fix j assume "j < length (contents W (i\<lparr>i_size := z\<rparr>))"
  then have j: "j < unat z" by (simp add: contents_def)
  have keep: "fbyte V i j = fbyte V0 i0 j" if "j < unat (i_size i0)" "\<not> (off \<le> j \<and> j < off + n)"
    using rewrittenD(5) [OF w, of j] ok that by (auto simp: file_ok_def)
  have new: "fbyte V i j = F (j - off)" if "off \<le> j" "j < off + n" using rewrittenD(4) [OF w, of "j - off"] that by simp
  have old: "contents V0 i0 ! j = fbyte V0 i0 j" if "j < unat (i_size i0)" using that by (simp add: contents_def)
  show "contents W (i\<lparr>i_size := z\<rparr>) ! j = (take off (contents V0 i0) @ map F [0..<n] @ drop (off + n) (contents V0 i0)) ! j"
    using j f [OF j] keep new old off z len by (auto simp: contents_def nth_append max_def split: if_splits)
qed

lemma rewritten_file_ok:
  assumes w: "rewritten sp V0 i0 off F n V i" and ok: "file_ok V0 i0" and off: "off \<le> unat (i_size i0)" "off + n \<le> MAXFILE * BSIZE"
    and z: "unat z = max (unat (i_size i0)) (off + n)"
  shows "file_ok V (i\<lparr>i_size := z\<rparr>)"
  unfolding file_ok_def
proof (intro conjI allI impI)
  show "i_dev (i\<lparr>i_size := z\<rparr>) = ROOTDEV" using arg_cong [OF rewrittenD(1) [OF w], of i_dev] ok by (simp add: file_ok_def)
  show "unat (i_size (i\<lparr>i_size := z\<rparr>)) \<le> MAXFILE * BSIZE" using z ok off by (simp add: file_ok_def)
  fix j assume j: "j < unat (i_size (i\<lparr>i_size := z\<rparr>))"
  show "fblk V (i\<lparr>i_size := z\<rparr>) (j div BSIZE) \<noteq> 0"
  proof (cases "j < unat (i_size i0)")
    case True
    then have "fblk V0 i0 (j div BSIZE) \<noteq> 0" "j div BSIZE < MAXFILE" using ok by (auto simp: file_ok_def less_mult_imp_div_less)
    then show ?thesis using rewrittenD(2) [OF w] by simp
  next
    case False
    then show ?thesis using rewrittenD(3) [OF w, of "j - off"] j z off by simp
  qed
qed

lemma rewritten_other:
  assumes w: "rewritten sp V0 i0 off F n V i" and j: "file_ok V0 j" "alloc_inv sp V0 j" "own V0 j \<inter> own V0 i0 = {}"
    and b: "b \<in> meta sp"
  shows "contents (V(b := d)) j = contents V0 j"
proof -
  have same: "(V(b := d)) c = V0 c" if "c \<in> own V0 j" for c
    using own_size [OF j(2) that] rewrittenD(8) [OF w, of c] that j(3) b by auto
  have f: "fblk (V(b := d)) j bn = fblk V0 j bn" for bn
    using same [OF ind_own] by (auto simp: fblk_def)
  have "fbyte (V(b := d)) j m = fbyte V0 j m" if "m < unat (i_size j)" for m
    unfolding fbyte_def f using same [OF fblk_own] that j(1) by (simp add: file_ok_def less_mult_imp_div_less)
  then show ?thesis by (simp add: contents_def)
qed

section \<open>writei\<close>

lemma writei_eq:
  assumes "itable s ip = i"
  shows "wp (writei ip src off n) Q s \<longleftrightarrow> (if unat off > unat (i_size i) \<or> unat off + unat n > MAXFILE * BSIZE then Q (- 1) s
    else wp (kfor (io_chunks 0 (unat off) (unat n)) (writei_chunk ip (i_dev i) src) (kreturn (unat n, unat off + unat n)))
      (\<lambda>(tot, off). wp (kwhen (\<lambda>s. of_nat off > i_size (itable s ip)) (set_inode ip (i_size_update (\<lambda>_. of_nat off))))
        (\<lambda>_. wp (iupdate ip) (\<lambda>_. Q (int tot)))) s)"
proof -
  have sum: "off + n < off \<or> off + n > of_nat (MAXFILE * BSIZE) \<longleftrightarrow> unat off + unat n > MAXFILE * BSIZE"
  proof (cases "unat off + unat n < 4294967296")
    case True
    then have "unat (off + n) = unat off + unat n" by (simp add: unat_word_ariths)
    then show ?thesis by (simp add: word_less_nat_alt)
  next
    case False
    have "unat (off + n) = unat off + unat n - 4294967296"
      using False unat_less_32 [of off] unat_less_32 [of n] by (simp add: unat_word_ariths mod_if)
    then have "unat (off + n) < unat off" "unat off + unat n > MAXFILE * BSIZE" using False unat_less_32 [of n] by linarith+
    then show ?thesis by (simp add: word_less_nat_alt)
  qed
  have e: "wp (kbind (kfor (io_chunks 0 (unat off) (unat n)) (writei_chunk ip (i_dev i) src) (kreturn (unat n, unat off + unat n))) (\<lambda>(tot, off). kthen [
       kwhen (\<lambda>s. of_nat off > i_size (itable s ip)) (set_inode ip (i_size_update (\<lambda>_. of_nat off))),
       iupdate ip] (kreturn (int tot)))) Q s \<longleftrightarrow> wp (kfor (io_chunks 0 (unat off) (unat n)) (writei_chunk ip (i_dev i) src) (kreturn (unat n, unat off + unat n)))
      (\<lambda>(tot, off). wp (kwhen (\<lambda>s. of_nat off > i_size (itable s ip)) (set_inode ip (i_size_update (\<lambda>_. of_nat off))))
        (\<lambda>_. wp (iupdate ip) (\<lambda>_. Q (int tot)))) s"
    unfolding wp_kbind
    by (rule arg_cong [where f = "\<lambda>P. wp _ P s"]) (simp add: fun_eq_iff split_def wp_etas del: kdo.simps)
  have less: "unat off > unat (i_size i) \<longleftrightarrow> off > i_size i" by (simp add: word_less_nat_alt)
  show ?thesis
    unfolding writei_def get_inode_def wp_kbind [of "kgets _"] wp_kgets assms writei_loop_def writei_chunk_def [symmetric] less sum [symmetric]
    using e by (cases "off > i_size i \<or> off + n < off"; cases "off + n > of_nat (MAXFILE * BSIZE)") (simp_all only: wp_kreturn if_True if_False simp_thms)
qed

lemma writei_finish:
  fixes t :: "'a fs_st_scheme"
  assumes w: "writing p s ip sp off F K 0 n k L V i t" and l: "logging s" and sp: "sp = sb s"
    and K: "1 \<le> K" and b: "b = IBLOCK (i_inum (itable s ip)) sp" "b \<in> meta sp" "b \<notin> all_maps sp"
    and off: "off + n \<le> MAXFILE * BSIZE"
    and q: "\<And>z u. unat z = max (unat (i_size (itable s ip))) (off + n) \<Longrightarrow> rewritten sp (view s) (itable s ip) off F n V i \<Longrightarrow> alloc_inv sp V i \<Longrightarrow>
      tx p (s\<lparr>itable := (itable s)(ip := i\<lparr>i_size := z\<rparr>)\<rparr>) (K - 1) Map.empty (insert b L)
        (V(b := dinode_put (i\<lparr>i_size := z\<rparr>) (dinode_off (i_inum (itable s ip))) (view s b))) u \<Longrightarrow> Q u"
  shows "wp (kwhen (\<lambda>s. of_nat (off + n) > i_size (itable s ip)) (set_inode ip (i_size_update (\<lambda>_. of_nat (off + n)))))
    (\<lambda>_. wp (iupdate ip) (\<lambda>_. Q)) t"
proof -
  let ?s = "\<lambda>z. s\<lparr>itable := (itable s)(ip := i\<lparr>i_size := z\<rparr>)\<rparr>"
  have t: "tx p (s\<lparr>itable := (itable s)(ip := i)\<rparr>) k Map.empty L V t" and a: "alloc_inv sp V i"
    and rw: "rewritten sp (view s) (itable s ip) off F n V i" and k: "K \<le> k" using w by (simp_all add: writing_def)
  have same: "i_size i = i_size (itable s ip)" "i_inum i = i_inum (itable s ip)"
    using arg_cong [OF rewrittenD(1) [OF rw], of i_size] arg_cong [OF rewrittenD(1) [OF rw], of i_inum] by simp_all
  have "\<forall>c < unat (sb_size sp). b \<noteq> BBLOCK (of_nat c) sp" using b(3) by (auto simp: all_maps_def map_blocks_def)
  then have Vb: "V b = view s b" by (rule rewrittenD(9) [OF rw b(2)])
  have up: "wp (iupdate ip) (\<lambda>_. Q) u" if u: "tx p (?s z) k Map.empty L V u" and z: "unat z = max (unat (i_size (itable s ip))) (off + n)" for z u
  proof (rule iupdate_tx [OF u _ _ _ refl])
    fix v
    let ?b = "IBLOCK (i_inum (i\<lparr>i_size := z\<rparr>)) (sb (?s z))"
    have e: "?b = b" using same b(1) sp by simp
    assume v: "tx p (?s z) (if ?b \<in> L then k else k - 1) Map.empty (insert ?b L)
      (V(?b := dinode_put (i\<lparr>i_size := z\<rparr>) (dinode_off (i_inum (i\<lparr>i_size := z\<rparr>))) (V ?b))) v"
    then have "tx p (?s z) (if b \<in> L then k else k - 1) Map.empty (insert b L)
      (V(b := dinode_put (i\<lparr>i_size := z\<rparr>) (dinode_off (i_inum (itable s ip))) (view s b))) v" unfolding e Vb using same by simp
    then show "Q v" by (intro q [OF z rw a], elim tx_weaken) (use k in auto)
  qed (use l a k K in \<open>simp_all add: logging_def alloc_inv_def\<close>)
  have un: "unat (of_nat (off + n) :: uint) = off + n" using off by (simp add: unat_of_nat take_bit_nat_eq_self del: of_nat_add)
  have it: "itable t ip = i" using tx_fs(2) [OF t] by simp
  have set: "tx p (?s z) k Map.empty L V (t\<lparr>itable := (itable t)(ip := i\<lparr>i_size := z\<rparr>)\<rparr>)" for z
    using tx_itable [OF t, of "(itable t)(ip := i\<lparr>i_size := z\<rparr>)"] tx_fs(2) [OF t] by simp
  have id: "t\<lparr>itable := (itable t)(ip := i\<lparr>i_size := i_size i\<rparr>)\<rparr> = t" using it by (simp add: fun_upd_idem)
  show ?thesis
  proof (cases "of_nat (off + n) > i_size i")
    case True
    have e: "upd_inode ip (i_size_update (\<lambda>_. of_nat (off + n))) t = t\<lparr>itable := (itable t)(ip := i\<lparr>i_size := of_nat (off + n)\<rparr>)\<rparr>"
      using it by (simp add: upd_inode_def)
    have "wp (iupdate ip) (\<lambda>_. Q) (upd_inode ip (i_size_update (\<lambda>_. of_nat (off + n))) t)"
      unfolding e by (rule up [OF set]) (use True un same in \<open>simp add: word_less_nat_alt max_def del: of_nat_add\<close>)
    then show ?thesis using True it by (simp add: set_inode_def wp_simps del: of_nat_add)
  next
    case False
    have "wp (iupdate ip) (\<lambda>_. Q) t"
      using up [OF set [of "i_size i"]] False un same unfolding id by (simp add: word_less_nat_alt max_def del: of_nat_add)
    then show ?thesis using False it by (simp add: wp_simps del: of_nat_add)
  qed
qed

text \<open>
  C2: \<open>writei\<close> refines the contents of a file. On a file that is complete and whose blocks are its own, inside
  a transaction with room for the blocks the range touches, the free map, the indirect block and the
  inode's block, and with enough free blocks, writing \<open>n\<close> bytes of accessible user memory at \<open>off\<close> returns
  \<open>n\<close> and replaces, in the contents, the bytes from \<open>off\<close> to \<open>off + n\<close> by exactly those, growing the file
  if they end behind it. The file stays complete and its blocks its own, the inode on disk is the new one,
  the contents of every other file whose blocks are disjoint from this file's are as before, and the disk
  itself is not written. An offset behind the end, or an end behind the largest size, gives -1 and
  changes nothing.
\<close>

theorem writei_writes_contents:
  fixes s :: "'a fs_st_scheme" and off n :: uint
  assumes r: "fs_ready p k s" "logging s" and i: "i = itable s ip" and sp: "sp = sb s"
    and us: "us_inv (syms s) (mem s) root" "root = p_pagetable (procs s p)" "urange (mem s) root va (unat n)"
    and ok: "file_ok (view s) i" "alloc_inv sp (view s) i"
    and b: "b = IBLOCK (i_inum i) sp" "b \<in> meta sp" "b \<notin> all_maps sp"
    and c: "c = (unat off mod BSIZE + unat n + BSIZE - 1) div BSIZE"
    and room: "card (all_maps sp) + c + 2 \<le> k" "c + 1 \<le> free_cnt sp (view s)"
  defines "xs \<equiv> map (\<lambda>j. the (uread (mem s) root (va + of_nat j))) [0..<unat n]"
  shows "wp (writei ip (UserPtr va) off n) (\<lambda>r t.
    if unat off > unat (i_size i) \<or> unat off + unat n > MAXFILE * BSIZE then r = - 1 \<and> t = s
    else r = int (unat n) \<and> fs_ready p (k - (card (all_maps sp) + c + 2)) t \<and> disk t = disk s \<and> mem t = mem s \<and>
      contents (view t) (itable t ip) = take (unat off) (contents (view s) i) @ xs @ drop (unat off + unat n) (contents (view s) i) \<and>
      file_ok (view t) (itable t ip) \<and> alloc_inv sp (view t) (itable t ip) \<and>
      view t b = dinode_put (itable t ip) (dinode_off (i_inum i)) (view s b) \<and> itable t = (itable s)(ip := itable t ip) \<and>
      (\<forall>j. file_ok (view s) j \<longrightarrow> alloc_inv sp (view s) j \<longrightarrow> own (view s) j \<inter> own (view s) i = {} \<longrightarrow>
        contents (view t) j = contents (view s) j)) s"
  (is "wp _ ?Q s")
proof (cases "unat off > unat (i_size i) \<or> unat off + unat n > MAXFILE * BSIZE")
  case True
  then show ?thesis using writei_eq [of s ip i] i by simp
next
  case False
  define K where "K = k - (card (all_maps sp) + c + 1)"
  define F where "F j = the (uread (mem s) root (va + of_nat j))" for j
  have off: "unat off \<le> unat (i_size i)" "unat off + unat n \<le> MAXFILE * BSIZE" using False by auto
  have rest: "wp (kwhen (\<lambda>s. of_nat (unat off + unat n) > i_size (itable s ip)) (set_inode ip (i_size_update (\<lambda>_. of_nat (unat off + unat n)))))
        (\<lambda>_. wp (iupdate ip) (\<lambda>_. ?Q (int (unat n)))) t"
    if w: "writing p s ip sp (unat off) F K 0 (unat n) k' L V i' t" for k' L V i' t
  proof (rule writei_finish [OF w r(2) sp _ b(1) [unfolded i] b(2,3) off(2)])
    fix z u
    let ?i = "i'\<lparr>i_size := z\<rparr>" let ?V = "V(b := dinode_put ?i (dinode_off (i_inum (itable s ip))) (view s b))"
    assume z: "unat z = max (unat (i_size (itable s ip))) (unat off + unat n)"
      and rw: "rewritten sp (view s) (itable s ip) (unat off) F (unat n) V i'" and a: "alloc_inv sp V i'"
      and u: "tx p (s\<lparr>itable := (itable s)(ip := ?i)\<rparr>) (K - 1) Map.empty (insert b L) ?V u"
    note m = meta_block [OF a b(2,3)]
    have fok: "file_ok V ?i" by (rule rewritten_file_ok [OF rw _ _ off(2) z]) (use ok off i in auto)
    have ct: "contents ?V ?i = take (unat off) (contents (view s) i) @ map F [0..<unat n] @ drop (unat off + unat n) (contents (view s) i)"
      unfolding i
    proof (rule rewritten_contents [OF rw _ _ off(2) z])
      show "fbyte ?V ?i j = fbyte V i' j" if j: "j < unat z" for j
      proof -
        have "j < MAXFILE * BSIZE" "fblk V i' (j div BSIZE) \<noteq> 0" using fok j by (auto simp: file_ok_def)
        then show ?thesis using m(4) [of j] by (simp add: less_mult_imp_div_less)
      qed
    qed (use ok off i in auto)
    show "?Q (int (unat n)) u"
      using False tx_ready [OF u] tx_fs(2) [OF u] log_frame_fields(3) [OF txD(2) [OF u]] fok m ct
        rewritten_other [OF rw _ _ _ b(2)] i by (simp add: K_def F_def xs_def file_ok_def)
  qed (use room(1) K_def in simp)
  have "wp (kfor (io_chunks 0 (unat off + 0) (unat n)) (writei_chunk ip ROOTDEV (UserPtr va)) (kreturn (unat n, unat off + unat n)))
      (\<lambda>(tot, off). wp (kwhen (\<lambda>s. of_nat off > i_size (itable s ip)) (set_inode ip (i_size_update (\<lambda>_. of_nat off))))
        (\<lambda>_. wp (iupdate ip) (\<lambda>_. ?Q (int tot)))) s"
  proof (rule writei_loop_wp [OF r(2) sp [symmetric] us, where F = F and K = K])
    have l: "length (io_chunks 0 (unat off + 0) (unat n)) \<le> c" using io_chunks_length [of 0 "unat off" "unat n"] c by simp
    have "need sp i (set (homes (klog s))) \<le> card (all_maps sp) + 1"
      using card_mono [of "all_maps sp" "all_maps sp - set (homes (klog s))"] by (simp add: need_def)
    then have "need sp i (set (homes (klog s))) + length (io_chunks 0 (unat off + 0) (unat n)) + K \<le> k"
      using l room(1) unfolding K_def by linarith
    then show "writing p s ip sp (unat off) F K (length (io_chunks 0 (unat off + 0) (unat n))) 0 k (set (homes (klog s))) (view s) i s"
      using fs_ready_tx [OF r(1)] ok(2) room(2) l i by (simp add: writing_def rewritten_refl)
  qed (use off rest F_def in \<open>simp_all add: wp_kreturn\<close>)
  then show ?thesis using writei_eq [of s ip i] i False ok(1) by (simp add: file_ok_def)
qed

theorem writei_writes_contents_witness:
  "\<exists>s :: trap_st. fs_ready 1 28 s \<and> contents (view s) (itable s 0) = [7, 8, 9] \<and>
     wp (writei 0 (UserPtr 0x1000) 2 2) (\<lambda>r t. r = 2 \<and> contents (view t) (itable t 0) =
       [7, 8, the (uread (mem s) root0 0x1000), the (uread (mem s) root0 0x1001)]) s \<and>
     wp (writei 0 (UserPtr 0x1000) 4 2) (\<lambda>r t. r = - 1 \<and> t = s) s"
proof -
  let ?D = "\<lambda>b i. if b = (100 :: uint) then of_nat i + 7 else if b = 45 \<and> i < 13 then - 1 else (0 :: uchar)"
  let ?i = "inode0\<lparr>i_dev := 1, i_inum := 1, i_size := 3, i_addrs := (\<lambda>_. 0)(0 := 100)\<rparr>"
  obtain s :: trap_st where s: "fs_ready 1 28 s" "logging s" "view s = ?D" "itable s = (\<lambda>_. ?i)" "sb s = sb0" "us_inv (syms s) (mem s) root0"
    "root0 = p_pagetable (procs s 1)" and pg: "\<forall>v. upage (mem s) root0 v = (if PGROUNDDOWN v = 0x1000 then Some 0x87FFC000 else None)"
    using ex_fsys [of ?D "\<lambda>_. ?i" sb0] by auto
  have B: "BBLOCK b sb0 = 45" if "unat b < 8192" for b using that by (simp add: BBLOCK_def sb0_def word_arith_nat_div)
  have use: "in_use sb0 ?D b" if "unat b < 104" for b
    using that B [of b] by (auto simp: in_use_def blk_free_def bit_free_bit)
  have meta: "b \<in> meta sb0 \<longleftrightarrow> unat b \<le> 45" for b by (simp add: meta_def sb0_def)
  have F: "fblk ?D ?i bn = (if bn = 0 then 100 else 0)" for bn by (simp add: fblk_def)
  then have own: "own ?D ?i = {100}" by (auto simp: own_def)
  have a: "alloc_inv sb0 ?D ?i"
    unfolding alloc_inv_def own F using use meta by (auto simp: meta_used_def sb_ok_def sb0_def)
  have maps: "all_maps sb0 = {45}" using B by (auto simp: all_maps_def map_blocks_def sb0_def unat_of_nat)
  have "card {200, 201 :: nat} \<le> free_cnt sb0 ?D"
    unfolding free_cnt_def using B [of 200] B [of 201] by (intro card_mono) (auto simp: sb0_def blk_free_def bit_free_bit)
  then have fc: "2 \<le> free_cnt sb0 ?D" by simp
  have ok: "file_ok ?D ?i" unfolding file_ok_def F by simp
  have ct: "contents ?D ?i = [7, 8, 9]" by (simp add: contents_def fbyte_def F upt_rec)
  have ur: "urange (mem s) root0 0x1000 (unat (2 :: uint))" by (simp add: pg urange_def PGROUNDDOWN_def less_2_cases_iff)
  have ib: "IBLOCK 1 sb0 = 32" by (simp add: IBLOCK_def sb0_def)
  note w = writei_writes_contents [OF s(1,2) refl refl s(6,7) ur, unfolded s(3,4,5), OF ok a refl _ _ refl]
  have "wp (writei 0 (UserPtr 0x1000) 2 2) (\<lambda>r t. r = 2 \<and> contents (view t) (itable t 0) =
       [7, 8, the (uread (mem s) root0 0x1000), the (uread (mem s) root0 0x1001)]) s"
    by (rule wp_mono [OF w [of 2]]) (use fc ib meta maps in \<open>simp_all add: ct upt_rec\<close>)
  moreover have "wp (writei 0 (UserPtr 0x1000) 4 2) (\<lambda>r t. r = - 1 \<and> t = s) s"
    by (rule wp_mono [OF w [of 4]]) (use fc ib meta maps in \<open>simp_all add: ct\<close>)
  ultimately show ?thesis using s(1) ct s(3,4) by (intro exI [of _ s]) simp
qed

end
