(* ===== verification/Uprog.thy ===== *)
theory Uprog
  imports Prelude
begin

text \<open>
  User programs. A program is the tree of the system calls of \<^verbatim>\<open>user/user.h\<close> it makes, with a
  branch for every answer of the kernel; \<^verbatim>\<open>fork\<close> answers 0 in the child and the child's
  number in the parent. An answer is the result and the bytes the kernel stores at the pointer the
  program passed, if it passed one. A program ends by returning, by \<^verbatim>\<open>exit\<close>, or by undefined
  behaviour. Loops that go on as long as input arrives have fuel, the number of rounds.
\<close>

datatype sysreq =
    Sfork
  | Swait
  | Spipe
  | Swrite int "uchar list"
  | Sread int nat
  | Sclose int
  | Skill int
  | Sexec "uchar list" "uchar list list"
  | Sopen "uchar list" nat
  | Smknod "uchar list" int int
  | Sunlink "uchar list"
  | Sfstat int
  | Slink "uchar list" "uchar list"
  | Smkdir "uchar list"
  | Schdir "uchar list"
  | Sdup int
  | Ssleep int

type_synonym sysret = "int \<times> uchar list"

datatype 'r prog =
    Done 'r
  | Halt int
  | Crash
  | NoFuel
  | Sys sysreq "sysret \<Rightarrow> 'r prog"

primrec pbind :: "'a prog \<Rightarrow> ('a \<Rightarrow> 'b prog) \<Rightarrow> 'b prog" where
  "pbind (Done a) f = f a"
| "pbind (Halt n) f = Halt n"
| "pbind Crash f = Crash"
| "pbind NoFuel f = NoFuel"
| "pbind (Sys q k) f = Sys q (\<lambda>r. pbind (k r) f)"

definition sys :: "sysreq \<Rightarrow> int prog" where
  "sys q = Sys q (\<lambda>(n, _). Done n)"

primrec pseq :: "unit prog list \<Rightarrow> 'a prog \<Rightarrow> 'a prog" where
  "pseq [] p = p"
| "pseq (q # qs) p = pbind q (\<lambda>_. pseq qs p)"

text \<open>A system call whose result is not used.\<close>

definition sysv :: "sysreq \<Rightarrow> unit prog" where
  "sysv q = Sys q (\<lambda>_. Done ())"

primrec pforeach :: "'i list \<Rightarrow> ('i \<Rightarrow> unit prog) \<Rightarrow> unit prog" where
  "pforeach [] body = Done ()"
| "pforeach (x # xs) body = pbind (body x) (\<lambda>_. pforeach xs body)"

section \<open>Running a program\<close>

text \<open>A handler answers the system calls; \<open>prun\<close> is the way the program ends and the handler's state then.\<close>

datatype 'r pend = Returned 'r | Exited int | Crashed | Looping

primrec prun :: "('e \<Rightarrow> sysreq \<Rightarrow> sysret \<times> 'e) \<Rightarrow> 'r prog \<Rightarrow> 'e \<Rightarrow> 'r pend \<times> 'e" where
  "prun h (Done a) e = (Returned a, e)"
| "prun h (Halt n) e = (Exited n, e)"
| "prun h Crash e = (Crashed, e)"
| "prun h NoFuel e = (Looping, e)"
| "prun h (Sys q k) e = (let (r, e') = h e q in prun h (k r) e')"

lemma prun_bind: "prun h (pbind p f) e =
  (case prun h p e of (Returned a, e') \<Rightarrow> prun h (f a) e' | (Exited n, e') \<Rightarrow> (Exited n, e')
   | (Crashed, e') \<Rightarrow> (Crashed, e') | (Looping, e') \<Rightarrow> (Looping, e'))"
  by (induction p arbitrary: e) (auto simp: Let_def split: prod.splits)

lemma prun_pforeach:
  assumes "\<And>x e. x \<in> set xs \<Longrightarrow> prun h (body x) e = (Returned (), g x e)"
  shows "prun h (pforeach xs body) e = (Returned (), fold g xs e)"
  using assms by (induction xs arbitrary: e) (auto simp: prun_bind)

lemma pbind_assoc: "pbind (pbind p f) g = pbind p (\<lambda>a. pbind (f a) g)"
  by (induction p) auto

lemma pbind_Done [simp]: "pbind p Done = p"
  by (induction p) auto

text \<open>
  The environment of a filter: its input, with how many bytes each \<^verbatim>\<open>read\<close> is ready to return,
  and what it has written to each descriptor.
\<close>

record io =
  io_in :: "uchar list"
  io_reads :: nat
  io_out :: "(int \<times> uchar list) list"

definition file_io :: "(nat \<Rightarrow> nat) \<Rightarrow> io \<Rightarrow> sysreq \<Rightarrow> sysret \<times> io" where
  "file_io rd e q = (case q of
       Sread fd n \<Rightarrow> let d = take (min n (rd (io_reads e))) (io_in e) in
         ((int (length d), d), e\<lparr>io_in := drop (length d) (io_in e), io_reads := Suc (io_reads e)\<rparr>)
     | Swrite fd d \<Rightarrow> ((int (length d), []), e\<lparr>io_out := io_out e @ [(fd, d)]\<rparr>)
     | _ \<Rightarrow> ((- 1, []), e))"

section \<open>Modes and buffers\<close>

text \<open>The modes of \<^verbatim>\<open>kernel/fcntl.h\<close>.\<close>

abbreviation (input) M_RDONLY :: nat where "M_RDONLY \<equiv> 0"
abbreviation (input) M_WRONLY :: nat where "M_WRONLY \<equiv> 1"
abbreviation (input) M_RDWR :: nat where "M_RDWR \<equiv> 2"
abbreviation (input) M_CREATE :: nat where "M_CREATE \<equiv> 0x200"
abbreviation (input) M_TRUNC :: nat where "M_TRUNC \<equiv> 0x400"

text \<open>A buffer with the given characters and zeros behind them.\<close>

definition line_bytes :: "uchar list \<Rightarrow> bytes" where
  "line_bytes l i = (if i < length l then l ! i else 0)"

end
