(* ===== verification/Ulib.thy ===== *)
theory Ulib
  imports Uprog Cstring
begin

text \<open>
  The library of user programs, \<^verbatim>\<open>user/ulib.c\<close> and \<^verbatim>\<open>user/printf.c\<close>. A \<^verbatim>\<open>char *\<close> that
  is only read is the list of the characters from the pointer on, up to the terminating zero, and
  \<open>chr\<close> reads the first one. The routines on raw memory work on a memory as those of the kernel do.
\<close>

section \<open>Strings\<close>

text \<open>\<^verbatim>\<open>*p\<close>\<close>

definition chr :: "uchar list \<Rightarrow> uchar" where
  "chr p = (case p of [] \<Rightarrow> 0 | c # _ \<Rightarrow> c)"

lemma chr_simps [simp]: "chr [] = 0" "chr (c # p) = c"
  by (simp_all add: chr_def)

fun strcpy :: "bytes \<Rightarrow> nat \<Rightarrow> uchar list \<Rightarrow> bytes" where
  "strcpy s i [] = s(i := 0)"
| "strcpy s i (c # t) = (if c = 0 then s(i := 0) else strcpy (s(i := c)) (i + 1) t)"

fun strcmp :: "uchar list \<Rightarrow> uchar list \<Rightarrow> int" where
  "strcmp (c # p) (d # q) = (if c \<noteq> 0 \<and> c = d then strcmp p q else uint c - uint d)"
| "strcmp p q = uint (chr p) - uint (chr q)"

fun u_strlen :: "uchar list \<Rightarrow> nat" where
  "u_strlen [] = 0"
| "u_strlen (c # s) = (if c = 0 then 0 else Suc (u_strlen s))"

text \<open>The rest of the string from the first occurrence on.\<close>

fun strchr :: "uchar list \<Rightarrow> uchar \<Rightarrow> uchar list option" where
  "strchr [] c = None"
| "strchr (x # s) c = (if x = 0 then None else if x = c then Some (x # s) else strchr s c)"

text \<open>\<^verbatim>\<open>n\<close> is an \<^verbatim>\<open>int\<close>.\<close>

fun atoi_loop :: "uint \<Rightarrow> uchar list \<Rightarrow> uint" where
  "atoi_loop n [] = n"
| "atoi_loop n (c # s) = (if 48 \<le> c \<and> c \<le> 57 then atoi_loop (n * 10 + ucast c - 48) s else n)"

definition atoi :: "uchar list \<Rightarrow> uint" where
  "atoi s = atoi_loop 0 s"

section \<open>Memory\<close>

definition u_memset :: "ram \<Rightarrow> uint64 \<Rightarrow> uint \<Rightarrow> uint \<Rightarrow> ram" where
  "u_memset m dst c n = memset_loop (unat n) m dst (ucast c)"

definition u_memmove :: "ram \<Rightarrow> uint64 \<Rightarrow> uint64 \<Rightarrow> uint \<Rightarrow> ram" where
  "u_memmove m dst src n = (let k = nat (sint n) in
     if src > dst then copy_fwd k m dst src
     else copy_bwd k m (dst + of_int (sint n)) (src + of_int (sint n)))"

fun u_memcmp :: "bytes \<Rightarrow> bytes \<Rightarrow> nat \<Rightarrow> int" where
  "u_memcmp p1 p2 0 = 0"
| "u_memcmp p1 p2 (Suc n) = (if p1 0 \<noteq> p2 0 then uint (p1 0) - uint (p2 0) else u_memcmp (ptr_inc p1) (ptr_inc p2) n)"

definition u_memcpy :: "ram \<Rightarrow> uint64 \<Rightarrow> uint64 \<Rightarrow> uint \<Rightarrow> ram" where
  "u_memcpy m dst src n = u_memmove m dst src n"

section \<open>Input and files\<close>

text \<open>The string \<^verbatim>\<open>gets\<close> leaves in its buffer; \<open>k\<close> more characters fit before the terminator.\<close>

primrec gets_loop :: "nat \<Rightarrow> uchar list \<Rightarrow> uchar list prog" where
  "gets_loop 0 buf = Done buf"
| "gets_loop (Suc k) buf = Sys (Sread 0 1) (\<lambda>(cc, d).
     if cc < 1 then Done buf
     else let c = chr d; buf' = buf @ [c] in
       if c = 10 \<or> c = 13 then Done buf' else gets_loop k buf')"

definition gets :: "nat \<Rightarrow> uchar list prog" where
  "gets mx = gets_loop (mx - 1) []"

text \<open>The bytes \<^verbatim>\<open>fstat\<close> stores.\<close>

definition u_stat :: "uchar list \<Rightarrow> sysret prog" where
  "u_stat n = pbind (sys (Sopen n 0)) (\<lambda>fd.
     if fd < 0 then Done (- 1, [])
     else Sys (Sfstat fd) (\<lambda>r. pseq [sysv (Sclose fd)] (Done r)))"

section \<open>Formatted output\<close>

definition str :: "string \<Rightarrow> uchar list" where
  "str xs = map of_char xs"

definition u_digits :: "uchar list" where
  "u_digits = str ''0123456789ABCDEF''"

definition putc :: "int \<Rightarrow> uchar \<Rightarrow> unit prog" where
  "putc fd c = sysv (Swrite fd [c])"

text \<open>The \<^verbatim>\<open>do\<close> loop of \<^verbatim>\<open>printint\<close>. The base is 10 or 16.\<close>

function u_int_digits :: "uint \<Rightarrow> uint \<Rightarrow> uchar list" where
  "u_int_digits base x = u_digits ! unat (x mod base) #
     (if x div base \<noteq> 0 \<and> 1 < base then u_int_digits base (x div base) else [])"
  by auto

termination u_int_digits
proof (relation "measure (\<lambda>(base, x). unat x)")
  fix base x :: uint assume a: "x div base \<noteq> 0 \<and> 1 < base"
  then have "1 < unat base" "0 < unat x div unat base"
    by (auto simp: word_less_nat_alt unat_div [symmetric] unat_gt_0)
  then have "unat x div unat base < unat x" by (cases "unat x = 0") (simp_all add: div_less_dividend)
  then show "((base, x div base), base, x) \<in> measure (\<lambda>(base, x). unat x)" by (simp add: unat_div)
qed simp

declare u_int_digits.simps [simp del]

definition u_int_text :: "uint \<Rightarrow> uint \<Rightarrow> bool \<Rightarrow> uchar list" where
  "u_int_text xx base sg = (let neg = (sg \<and> sint xx < 0); x = (if neg then - xx else xx) in
     rev (u_int_digits base x @ (if neg then [45] else [])))"

definition u_printint :: "int \<Rightarrow> uint \<Rightarrow> uint \<Rightarrow> bool \<Rightarrow> unit prog" where
  "u_printint fd xx base sg = pforeach (u_int_text xx base sg) (putc fd)"

definition u_printptr :: "int \<Rightarrow> uint64 \<Rightarrow> unit prog" where
  "u_printptr fd x = pforeach ([48, 120] @ map (\<lambda>i. u_digits ! unat (drop_bit 60 (push_bit (4 * i) x))) [0..<16]) (putc fd)"

text \<open>
  The arguments of \<^verbatim>\<open>printf\<close> are typed values; one that is missing or of another type than the
  format asks for is undefined behaviour. The flag is \<^verbatim>\<open>state == '%'\<close>.
\<close>

datatype uarg = AInt uint | ALong uint64 | AStr "uchar list option"

fun vprintf :: "int \<Rightarrow> bool \<Rightarrow> uchar list \<Rightarrow> uarg list \<Rightarrow> unit prog" where
  "vprintf fd st [] args = Done ()"
| "vprintf fd st (c # fmt) args =
     (if c = 0 then Done ()
      else if \<not> st then
        (if c = 37 then vprintf fd True fmt args
         else pbind (putc fd c) (\<lambda>_. vprintf fd False fmt args))
      else if c = 100 then (case args of
          AInt x # args \<Rightarrow> pbind (u_printint fd x 10 True) (\<lambda>_. vprintf fd False fmt args) | _ \<Rightarrow> Crash)
      else if c = 108 then (case args of
          ALong x # args \<Rightarrow> pbind (u_printint fd (ucast x) 10 False) (\<lambda>_. vprintf fd False fmt args) | _ \<Rightarrow> Crash)
      else if c = 120 then (case args of
          AInt x # args \<Rightarrow> pbind (u_printint fd x 16 False) (\<lambda>_. vprintf fd False fmt args) | _ \<Rightarrow> Crash)
      else if c = 112 then (case args of
          ALong x # args \<Rightarrow> pbind (u_printptr fd x) (\<lambda>_. vprintf fd False fmt args) | _ \<Rightarrow> Crash)
      else if c = 115 then (case args of
          AStr t # args \<Rightarrow> pbind (pforeach (case t of None \<Rightarrow> str ''(null)'' | Some t \<Rightarrow> t) (putc fd))
            (\<lambda>_. vprintf fd False fmt args) | _ \<Rightarrow> Crash)
      else if c = 99 then (case args of
          AInt x # args \<Rightarrow> pbind (putc fd (ucast x)) (\<lambda>_. vprintf fd False fmt args) | _ \<Rightarrow> Crash)
      else if c = 37 then pbind (putc fd c) (\<lambda>_. vprintf fd False fmt args)
      else pseq [putc fd 37, putc fd c] (vprintf fd False fmt args))"

definition fprintf :: "int \<Rightarrow> string \<Rightarrow> uarg list \<Rightarrow> unit prog" where
  "fprintf fd fmt args = vprintf fd False (str fmt) args"

definition u_printf :: "string \<Rightarrow> uarg list \<Rightarrow> unit prog" where
  "u_printf fmt args = vprintf 1 False (str fmt) args"

section \<open>Lemmas\<close>

lemma strchr_None: "0 \<notin> set s \<Longrightarrow> strchr s c = None \<longleftrightarrow> c \<notin> set s"
  by (induction s) auto

lemma strchr_Some: "0 \<notin> set s \<Longrightarrow> c \<in> set s \<Longrightarrow> strchr s c = Some (dropWhile (\<lambda>x. x \<noteq> c) s)"
  by (induction s) auto

lemma u_strlen_eq: "0 \<notin> set s \<Longrightarrow> u_strlen s = length s"
  by (induction s) auto

lemma strcmp_0_iff: "0 \<notin> set p \<Longrightarrow> 0 \<notin> set q \<Longrightarrow> strcmp p q = 0 \<longleftrightarrow> p = q"
  by (induction p q rule: strcmp.induct) (auto simp: chr_def word_uint_eq_iff split: list.splits)

text \<open>The two copying routines of the system agree: that of user programs looks at the order of the pointers only.\<close>

lemma u_memmove_eq:
  assumes f: "fits src (unat n)" "fits dst (unat n)" and n: "0 \<le> sint n"
  shows "u_memmove m dst src n = memmove m dst src n"
proof -
  have "uint n = take_bit 32 (sint n)" using uint_sint [of n] by simp
  also have "\<dots> = sint n" using n sint_lt [of n] by (simp add: take_bit_int_eq_self_iff)
  finally have u: "sint n = int (unat n)" by simp
  have k: "nat (sint n) = unat n" "of_int (sint n) = (of_nat (unat n) :: uint64)" by (simp_all add: u)
  have "u_memmove m dst src n = ram_put m dst (ram_get m src (unat n))"
    unfolding u_memmove_def Let_def k
    using f copy_fwd_eq [of dst "unat n" src m] copy_bwd_eq [of dst "unat n" src m]
    by (auto simp: word_less_nat_alt not_less)
  then show ?thesis using f by (simp add: memmove_eq)
qed

end
