(* ===== verification/Grep.thy ===== *)
theory Grep
  imports Ulib
begin

text \<open>
  The pattern matcher and the line filter of \<^verbatim>\<open>user/grep.c\<close>. The
  matcher is proved against the language of the pattern, the filter against the lines of its
  input, however the input is cut into the results of \<^verbatim>\<open>read\<close>.
\<close>

section \<open>The matcher\<close>

function matchhere :: "uchar list \<Rightarrow> uchar list \<Rightarrow> bool"
  and matchstar :: "uchar \<Rightarrow> uchar list \<Rightarrow> uchar list \<Rightarrow> bool" where
  "matchhere re text =
     (if chr re = 0 then True
      else if chr (tl re) = 42 then matchstar (chr re) (drop 2 re) text
      else if chr re = 36 \<and> chr (tl re) = 0 then chr text = 0
      else if chr text \<noteq> 0 \<and> (chr re = 46 \<or> chr re = chr text) then matchhere (tl re) (tl text)
      else False)"
| "matchstar c re text =
     (if matchhere re text then True
      else if chr text \<noteq> 0 \<and> (chr text = c \<or> c = 46) then matchstar c re (tl text)
      else False)"
  by pat_completeness auto

termination
  by (relation "measures [\<lambda>x. case x of Inl (re, t) \<Rightarrow> length re | Inr (c, re, t) \<Rightarrow> length re,
      \<lambda>x. case x of Inl (re, t) \<Rightarrow> length t | Inr (c, re, t) \<Rightarrow> length t,
      \<lambda>x. case x of Inl _ \<Rightarrow> 0 | Inr _ \<Rightarrow> 1]")
    (auto simp: chr_def split: list.splits)

declare matchhere.simps [simp del] matchstar.simps [simp del]

text \<open>The \<^verbatim>\<open>do\<close> loop of \<^verbatim>\<open>match\<close>, which also looks at the empty string at the end.\<close>

function match_loop :: "uchar list \<Rightarrow> uchar list \<Rightarrow> bool" where
  "match_loop re text =
     (if matchhere re text then True
      else if chr text \<noteq> 0 then match_loop re (tl text)
      else False)"
  by auto

termination match_loop
  by (relation "measure (\<lambda>(re, t). length t)") (auto simp: chr_def split: list.splits)

declare match_loop.simps [simp del]

definition match :: "uchar list \<Rightarrow> uchar list \<Rightarrow> bool" where
  "match re text = (if chr re = 94 then matchhere (tl re) text else match_loop re text)"

section \<open>What a pattern means\<close>

text \<open>
  A pattern is a list of items, each one character, or any number of them; a final dollar asks for
  the end of the text.
\<close>

datatype item = One uchar | Many uchar

fun items :: "uchar list \<Rightarrow> item list \<times> bool" where
  "items [] = ([], False)"
| "items [c] = (if c = 36 then ([], True) else ([One c], False))"
| "items (c # d # re) = (if d = 42 then let (is, e) = items re in (Many c # is, e)
     else let (is, e) = items (d # re) in (One c # is, e))"

definition fits_char :: "uchar \<Rightarrow> uchar \<Rightarrow> bool" where
  "fits_char c x \<longleftrightarrow> c = 46 \<or> c = x"

inductive denotes :: "item list \<Rightarrow> uchar list \<Rightarrow> bool" where
  "denotes [] []"
| "fits_char c x \<Longrightarrow> denotes is w \<Longrightarrow> denotes (One c # is) (x # w)"
| "\<forall>x \<in> set u. fits_char c x \<Longrightarrow> denotes is w \<Longrightarrow> denotes (Many c # is) (u @ w)"

inductive_simps denotes_simps: "denotes [] w" "denotes (One c # is) w" "denotes (Many c # is) w"

text \<open>A text begins with a word of the pattern, and ends there if the pattern asks for it.\<close>

definition begins :: "item list \<times> bool \<Rightarrow> uchar list \<Rightarrow> bool" where
  "begins p text \<longleftrightarrow> (\<exists>w rest. text = w @ rest \<and> denotes (fst p) w \<and> (snd p \<longrightarrow> rest = []))"

lemma begins_Nil: "begins ([], e) text \<longleftrightarrow> (e \<longrightarrow> text = [])"
  by (auto simp: begins_def denotes_simps)

lemma beginsE:
  assumes "begins (is, e) text"
  obtains w rest where "text = w @ rest" "denotes is w" "e \<longrightarrow> rest = []"
  using assms unfolding begins_def fst_conv snd_conv by blast

lemma beginsI: "text = w @ rest \<Longrightarrow> denotes is w \<Longrightarrow> e \<longrightarrow> rest = [] \<Longrightarrow> begins (is, e) text"
  unfolding begins_def fst_conv snd_conv by blast

lemma begins_One: "begins (One c # is, e) text \<longleftrightarrow> (\<exists>x t. text = x # t \<and> fits_char c x \<and> begins (is, e) t)"
proof
  assume "begins (One c # is, e) text"
  then obtain w rest where w: "text = w @ rest" "denotes (One c # is) w" "e \<longrightarrow> rest = []" by (rule beginsE)
  then obtain x v where "w = x # v" "fits_char c x" "denotes is v" by (auto simp: denotes_simps)
  with w show "\<exists>x t. text = x # t \<and> fits_char c x \<and> begins (is, e) t" by (auto intro: beginsI)
next
  assume "\<exists>x t. text = x # t \<and> fits_char c x \<and> begins (is, e) t"
  then obtain x t where t: "text = x # t" "fits_char c x" "begins (is, e) t" by blast
  from t(3) obtain w rest where "t = w @ rest" "denotes is w" "e \<longrightarrow> rest = []" by (rule beginsE)
  with t show "begins (One c # is, e) text" by (intro beginsI [of _ "x # w" rest]) (auto simp: denotes_simps)
qed

lemma begins_Many_iff:
  "begins (Many c # is, e) text \<longleftrightarrow> (\<exists>u v. text = u @ v \<and> (\<forall>x \<in> set u. fits_char c x) \<and> begins (is, e) v)"
proof
  assume "begins (Many c # is, e) text"
  then obtain w rest where w: "text = w @ rest" "denotes (Many c # is) w" "e \<longrightarrow> rest = []" by (rule beginsE)
  then obtain u v where u: "w = u @ v" "\<forall>x \<in> set u. fits_char c x" "denotes is v" by (auto simp: denotes_simps)
  then have "begins (is, e) (v @ rest)" using w(3) by (intro beginsI) auto
  with w u show "\<exists>u v. text = u @ v \<and> (\<forall>x \<in> set u. fits_char c x) \<and> begins (is, e) v" by auto
next
  assume "\<exists>u v. text = u @ v \<and> (\<forall>x \<in> set u. fits_char c x) \<and> begins (is, e) v"
  then obtain u v where u: "text = u @ v" "\<forall>x \<in> set u. fits_char c x" "begins (is, e) v" by blast
  from u(3) obtain w rest where "v = w @ rest" "denotes is w" "e \<longrightarrow> rest = []" by (rule beginsE)
  with u show "begins (Many c # is, e) text" by (intro beginsI [of _ "u @ w" rest] denotes.intros) auto
qed

lemma begins_Many: "begins (Many c # is, e) text \<longleftrightarrow>
    begins (is, e) text \<or> (\<exists>x t. text = x # t \<and> fits_char c x \<and> begins (Many c # is, e) t)" (is "?L \<longleftrightarrow> ?R")
proof
  assume ?L
  then obtain u v where u: "text = u @ v" "\<forall>x \<in> set u. fits_char c x" "begins (is, e) v"
    by (auto simp: begins_Many_iff)
  then show ?R by (cases u) (auto simp: begins_Many_iff)
next
  assume ?R
  then show ?L
  proof
    assume "begins (is, e) text"
    then show ?L unfolding begins_Many_iff by force
  next
    assume "\<exists>x t. text = x # t \<and> fits_char c x \<and> begins (Many c # is, e) t"
    then obtain x u v where "text = (x # u) @ v" "\<forall>y \<in> set (x # u). fits_char c y" "begins (is, e) v"
      by (auto simp: begins_Many_iff)
    then show ?L unfolding begins_Many_iff by blast
  qed
qed

lemma matchhere_begins:
  "0 \<notin> set re \<Longrightarrow> 0 \<notin> set tx \<Longrightarrow> matchhere re tx \<longleftrightarrow> begins (items re) tx"
  "0 \<notin> set re \<Longrightarrow> 0 \<notin> set tx \<Longrightarrow> c \<noteq> 0 \<Longrightarrow>
     matchstar c re tx \<longleftrightarrow> begins (Many c # fst (items re), snd (items re)) tx"
proof (induction re tx and c re tx rule: matchhere_matchstar.induct)
  case (1 re tx)
  consider "re = []" | c where "re = [c]" | c d r where "re = c # d # r" using list.exhaust by metis
  then show ?case
  proof cases
    case 1
    then show ?thesis by (simp add: matchhere.simps begins_Nil)
  next
    case (2 c)
    with "1.prems" show ?thesis
      by (cases tx) (auto simp: matchhere.simps [of "[c]"] matchhere.simps [of "[]"] begins_One begins_Nil fits_char_def)
  next
    case (3 c d r)
    show ?thesis
    proof (cases "d = 42")
      case True
      with 3 "1.IH"(1) "1.prems" show ?thesis by (auto simp: matchhere.simps [of "c # 42 # r"] split: prod.split)
    next
      case False
      with 3 "1.IH"(2) "1.prems" show ?thesis
        by (cases tx) (auto simp: matchhere.simps [of "c # d # r"] begins_One fits_char_def split: prod.split)
    qed
  qed
next
  case (2 c re tx)
  let ?p = "(Many c # fst (items re), snd (items re))"
  have b: "begins ?p tx \<longleftrightarrow> begins (items re) tx \<or> (\<exists>x t. tx = x # t \<and> fits_char c x \<and> begins ?p t)"
    using begins_Many [of c "fst (items re)" "snd (items re)" tx] by simp
  show ?case
    unfolding matchstar.simps [of c re tx] b using "2.IH" "2.prems" by (cases tx) (auto simp: fits_char_def)
qed

lemma match_loop_begins:
  "0 \<notin> set re \<Longrightarrow> 0 \<notin> set tx \<Longrightarrow> match_loop re tx \<longleftrightarrow> (\<exists>u v. tx = u @ v \<and> begins (items re) v)"
proof (induction tx)
  case Nil
  then show ?case by (simp add: match_loop.simps [of re "[]"] matchhere_begins)
next
  case (Cons x tx)
  have "(\<exists>u v. x # tx = u @ v \<and> begins (items re) v) \<longleftrightarrow>
      begins (items re) (x # tx) \<or> (\<exists>u v. tx = u @ v \<and> begins (items re) v)"
    by (auto simp: Cons_eq_append_conv)
  with Cons show ?case by (simp add: match_loop.simps [of re "x # tx"] matchhere_begins)
qed

text \<open>
  C12: \<open>match\<close> decides whether a text contains a word of the pattern's language: it returns true
  exactly when the text can be cut in three such that the middle part is denoted by the items of
  the pattern, the first part is empty if the pattern starts with a caret, and the last part is
  empty if the pattern ends with a dollar.
\<close>

theorem match_decides_pattern:
  assumes "0 \<notin> set re" "0 \<notin> set tx"
  shows "match re tx \<longleftrightarrow> (let anchored = (re \<noteq> [] \<and> hd re = 94); p = items (if anchored then tl re else re) in
    \<exists>u w v. tx = u @ w @ v \<and> denotes (fst p) w \<and> (anchored \<longrightarrow> u = []) \<and> (snd p \<longrightarrow> v = []))"
proof (cases "chr re = 94")
  case True
  then obtain r where r: "re = 94 # r" by (cases re) auto
  with assms matchhere_begins(1) [of r tx] show ?thesis by (simp add: match_def begins_def Let_def)
next
  case False
  then have "\<not> (re \<noteq> [] \<and> hd re = 94)" by (cases re) auto
  with False assms show ?thesis
    by (simp add: match_def match_loop_begins begins_def Let_def) blast
qed

theorem match_decides_pattern_witness:
  "match [97, 46, 42, 36] [98, 97, 99] \<and> \<not> match [94, 97] [98, 97, 99]"
proof -
  have "denotes [One 97, Many 46] [97, 99]"
    by (simp add: denotes_simps fits_char_def)
  then have "\<exists>u w. [98, 97, 99] = u @ w \<and> denotes [One 97, Many 46] w" by (intro exI [of _ "[98]"] exI [of _ "[97, 99]"]) simp
  then have "match [97, 46, 42, 36] [98, 97, 99]"
    using match_decides_pattern [of "[97, 46, 42, 36]" "[98, 97, 99]"] by simp
  moreover have "\<not> match [94, 97] [98, 97, 99]"
    using match_decides_pattern [of "[94, 97]" "[98, 97, 99]"] by (auto simp: denotes_simps fits_char_def)
  ultimately show ?thesis by simp
qed

section \<open>The filter\<close>

text \<open>
  The loop over the lines in the buffer, from \<^verbatim>\<open>p\<close> on; it leaves the beginning of the next line.
\<close>

function grep_lines :: "uchar list \<Rightarrow> uchar list \<Rightarrow> uchar list prog" where
  "grep_lines pattern p = (case strchr p 10 of
       None \<Rightarrow> Done p
     | Some q \<Rightarrow> let l = take (length p - length q) p in
         if match pattern l then Sys (Swrite 1 (l @ [10])) (\<lambda>_. grep_lines pattern (tl q))
         else grep_lines pattern (tl q))"
  by auto

lemma strchr_length: "strchr p c = Some q \<Longrightarrow> length (tl q) < length p"
  by (induction p) (auto split: if_splits)

termination grep_lines
  by (relation "measure (\<lambda>(pattern, p). length p)") (auto dest!: strchr_length)

declare grep_lines.simps [simp del]

text \<open>\<open>buf\<close> are the \<^verbatim>\<open>m\<close> characters in the buffer.\<close>

primrec grep :: "nat \<Rightarrow> uchar list \<Rightarrow> int \<Rightarrow> uchar list \<Rightarrow> unit prog" where
  "grep 0 pattern fd buf = NoFuel"
| "grep (Suc fuel) pattern fd buf = Sys (Sread fd (1024 - length buf - 1)) (\<lambda>(n, d).
     if n > 0 then pbind (grep_lines pattern (buf @ take (nat n) d)) (grep fuel pattern fd)
     else Done ())"

primrec grep_files :: "nat \<Rightarrow> uchar list \<Rightarrow> uchar list list \<Rightarrow> unit prog" where
  "grep_files fuel pattern [] = Halt 0"
| "grep_files fuel pattern (f # fs) = pbind (sys (Sopen f 0)) (\<lambda>fd.
     if fd < 0 then pseq [u_printf ''grep: cannot open %s\<newline>'' [AStr (Some f)]] (Halt 1)
     else pseq [grep fuel pattern fd [], sysv (Sclose fd)] (grep_files fuel pattern fs))"

definition grep_main :: "nat \<Rightarrow> uchar list list \<Rightarrow> unit prog" where
  "grep_main fuel argv =
     (if length argv \<le> 1 then pseq [fprintf 2 ''usage: grep pattern [file ...]\<newline>'' []] (Halt 1)
      else if length argv \<le> 2 then pseq [grep fuel (argv ! 1) 0 []] (Halt 0)
      else grep_files fuel (argv ! 1) (drop 2 argv))"

section \<open>What the filter prints\<close>

function complete_lines :: "uchar list \<Rightarrow> uchar list list" where
  "complete_lines t = (if 10 \<in> set t
     then takeWhile (\<lambda>c. c \<noteq> 10) t # complete_lines (tl (dropWhile (\<lambda>c. c \<noteq> 10) t)) else [])"
  by auto

termination complete_lines
proof (relation "measure length")
  fix t :: "uchar list" assume "10 \<in> set t"
  then have "dropWhile (\<lambda>c. c \<noteq> 10) t \<noteq> []" by auto
  then have "length (tl (dropWhile (\<lambda>c. c \<noteq> 10) t)) < length (dropWhile (\<lambda>c. c \<noteq> 10) t)" by simp
  then show "(tl (dropWhile (\<lambda>c. c \<noteq> 10) t), t) \<in> measure length"
    using length_dropWhile_le [of "\<lambda>c. c \<noteq> 10" t] by simp
qed simp

declare complete_lines.simps [simp del]

definition last_part :: "uchar list \<Rightarrow> uchar list" where
  "last_part t = rev (takeWhile (\<lambda>c. c \<noteq> 10) (rev t))"

lemma lines_simps:
  assumes "10 \<notin> set l"
  shows "complete_lines l = []" "last_part l = l"
    "complete_lines (l @ 10 # r) = l # complete_lines r" "last_part (l @ 10 # r) = last_part r"
proof -
  have d: "takeWhile (\<lambda>c. c \<noteq> 10) (l @ 10 # r) = l" "dropWhile (\<lambda>c. c \<noteq> 10) (l @ 10 # r) = 10 # r"
    using assms by (auto simp: takeWhile_append dropWhile_append)
  show "complete_lines l = []" using assms by (simp add: complete_lines.simps)
  have "takeWhile (\<lambda>c. c \<noteq> 10) (rev l) = rev l" using assms unfolding takeWhile_eq_all_conv by auto
  then show "last_part l = l" unfolding last_part_def by (simp only: rev_rev_ident)
  show "complete_lines (l @ 10 # r) = l # complete_lines r"
    by (subst complete_lines.simps) (simp add: d)
  show "last_part (l @ 10 # r) = last_part r" by (simp add: last_part_def takeWhile_tail)
qed

lemma text_cases:
  fixes t :: "uchar list"
  obtains "10 \<notin> set t" | l r where "t = l @ 10 # r" "10 \<notin> set l" "length r < length t"
  using split_list_first [of 10 t] by fastforce

lemma text_induct:
  assumes "\<And>t. 10 \<notin> set t \<Longrightarrow> P t" "\<And>l r. 10 \<notin> set l \<Longrightarrow> P r \<Longrightarrow> P (l @ 10 # r)"
  shows "P (t :: uchar list)"
proof (induction t rule: length_induct)
  case (1 t)
  then show ?case using assms by (cases t rule: text_cases) auto
qed

lemma last_part_free: "10 \<notin> set (last_part t)"
  by (auto simp: last_part_def dest: set_takeWhileD)

lemma complete_append: "complete_lines (a @ b) = complete_lines a @ complete_lines (last_part a @ b)"
  by (induction a rule: text_induct) (simp_all add: lines_simps)

lemma last_part_append: "last_part (a @ b) = last_part (last_part a @ b)"
  by (induction a rule: text_induct) (simp_all add: lines_simps)

lemma last_part_subset: "set (last_part t) \<subseteq> set t"
  by (auto simp: last_part_def dest: set_takeWhileD)

lemma grep_lines_step:
  assumes "10 \<notin> set l" "0 \<notin> set l"
  shows "grep_lines pattern l = Done l"
    "grep_lines pattern (l @ 10 # r) = (if match pattern l then Sys (Swrite 1 (l @ [10])) (\<lambda>_. grep_lines pattern r)
       else grep_lines pattern r)"
proof -
  have "strchr l 10 = None" using assms by (simp add: strchr_None)
  then show "grep_lines pattern l = Done l" by (simp add: grep_lines.simps)
  have "strchr (l @ 10 # r) 10 = Some (10 # r)" using assms by (induction l) auto
  then show "grep_lines pattern (l @ 10 # r) = (if match pattern l then Sys (Swrite 1 (l @ [10])) (\<lambda>_. grep_lines pattern r)
       else grep_lines pattern r)"
    by (subst grep_lines.simps) (simp add: Let_def)
qed

definition print_lines :: "uchar list list \<Rightarrow> io \<Rightarrow> io" where
  "print_lines ls e = e\<lparr>io_out := io_out e @ map (\<lambda>l. (1, l @ [10])) ls\<rparr>"

lemma print_lines_simps [simp]:
  "print_lines [] e = e" "io_in (print_lines ls e) = io_in e" "io_reads (print_lines ls e) = io_reads e"
  "print_lines ks (print_lines ls e) = print_lines (ls @ ks) e"
  by (simp_all add: print_lines_def)

lemma file_io_write [simp]:
  "file_io rd e (Swrite fd d) = ((int (length d), []), e\<lparr>io_out := io_out e @ [(fd, d)]\<rparr>)"
  by (simp add: file_io_def)

lemma file_io_read:
  "\<exists>d r. io_in e = d @ r \<and> d = take (min n (rd (io_reads e))) (io_in e) \<and>
     file_io rd e (Sread fd n) = ((int (length d), d), e\<lparr>io_in := r, io_reads := Suc (io_reads e)\<rparr>)"
proof -
  let ?d = "take (min n (rd (io_reads e))) (io_in e)"
  have "?d @ drop (length ?d) (io_in e) = io_in e" by (metis append_take_drop_id length_take take_take take_all_iff min.idem append_eq_conv_conj)
  then show ?thesis
    by (intro exI [of _ ?d] exI [of _ "drop (length ?d) (io_in e)"]) (simp add: file_io_def Let_def)
qed

lemma grep_lines_run:
  "0 \<notin> set p \<Longrightarrow> prun (file_io rd) (grep_lines pattern p) e =
     (Returned (last_part p), print_lines (filter (match pattern) (complete_lines p)) e)"
proof (induction p arbitrary: e rule: text_induct)
  case (1 t)
  then show ?case by (simp add: grep_lines_step lines_simps)
next
  case (2 l r)
  have "print_lines ls (e\<lparr>io_out := io_out e @ [(1, l @ [10])]\<rparr>) = print_lines (l # ls) e" for ls
    by (simp add: print_lines_def)
  with 2 show ?case by (simp add: grep_lines_step lines_simps)
qed

lemma grep_run:
  assumes "length (io_in e) < fuel" "10 \<notin> set buf" "0 \<notin> set (buf @ io_in e)" "\<forall>i. 0 < rd i"
    "\<forall>l \<in> set (complete_lines (buf @ io_in e)). length l < 1023"
  shows "\<exists>e'. prun (file_io rd) (grep fuel pattern fd buf) e = (Returned (), e') \<and>
    io_out e' = io_out e @ map (\<lambda>l. (1, l @ [10])) (filter (match pattern) (complete_lines (buf @ io_in e)))"
  using assms
proof (induction fuel arbitrary: buf e)
  case (Suc fuel)
  obtain d r where in_e: "io_in e = d @ r" and d: "d = take (min (1024 - length buf - 1) (rd (io_reads e))) (io_in e)"
    and rd: "file_io rd e (Sread fd (1024 - length buf - 1)) =
      ((int (length d), d), e\<lparr>io_in := r, io_reads := Suc (io_reads e)\<rparr>)"
    using file_io_read by blast
  let ?e = "e\<lparr>io_in := r, io_reads := Suc (io_reads e)\<rparr>"
  show ?case
  proof (cases "d = []")
    case True
    have "complete_lines (buf @ io_in e) = []"
    proof (cases "io_in e" rule: text_cases)
      case 1
      then show ?thesis using Suc.prems(2) by (simp add: lines_simps)
    next
      case (2 l r)
      then have "min (1024 - length buf - 1) (rd (io_reads e)) = 0" using True d by auto
      moreover have "0 < rd (io_reads e)" using Suc.prems(4) by blast
      ultimately have "1023 \<le> length buf" by linarith
      moreover have "buf @ l \<in> set (complete_lines (buf @ io_in e))"
        using 2 Suc.prems(2) lines_simps(3) [of "buf @ l" r] by simp
      ultimately show ?thesis using Suc.prems(5) by fastforce
    qed
    with True rd show ?thesis by simp
  next
    case False
    let ?b = "buf @ d"
    let ?ls = "filter (match pattern) (complete_lines ?b)"
    have split: "complete_lines (buf @ io_in e) = complete_lines ?b @ complete_lines (last_part ?b @ r)"
      using complete_append [of ?b r] by (simp add: in_e)
    have z: "0 \<notin> set ?b" using Suc.prems(3) in_e by auto
    have run: "prun (file_io rd) (grep (Suc fuel) pattern fd buf) e =
        prun (file_io rd) (grep fuel pattern fd (last_part ?b)) (print_lines ?ls ?e)"
      using False rd grep_lines_run [OF z] by (simp add: prun_bind)
    have "\<exists>e'. prun (file_io rd) (grep fuel pattern fd (last_part ?b)) (print_lines ?ls ?e) = (Returned (), e') \<and>
      io_out e' = io_out (print_lines ?ls ?e) @ map (\<lambda>l. (1, l @ [10]))
        (filter (match pattern) (complete_lines (last_part ?b @ io_in (print_lines ?ls ?e))))"
    proof (rule Suc.IH)
      show "length (io_in (print_lines ?ls ?e)) < fuel" using False Suc.prems(1) in_e by (cases d) auto
      show "10 \<notin> set (last_part ?b)" by (rule last_part_free)
      show "0 \<notin> set (last_part ?b @ io_in (print_lines ?ls ?e))"
        using z last_part_subset [of ?b] Suc.prems(3) in_e by auto
      show "\<forall>l \<in> set (complete_lines (last_part ?b @ io_in (print_lines ?ls ?e))). length l < 1023"
        using Suc.prems(5) split by auto
    qed (use Suc.prems in auto)
    then show ?thesis unfolding run by (auto simp: split print_lines_def)
  qed
qed simp

text \<open>
  C36: \<open>grep\<close> prints the matching lines: run on an input without zero bytes whose lines are shorter
  than the buffer, it returns, having written exactly the complete lines that match the pattern, in
  their order and each with its newline, however many bytes each \<^verbatim>\<open>read\<close> returned.
\<close>

theorem grep_prints_matching_lines:
  assumes "0 \<notin> set inp" "\<forall>i. 0 < rd i" "\<forall>l \<in> set (complete_lines inp). length l < 1023" "length inp < fuel"
  shows "\<exists>e. prun (file_io rd) (grep fuel pattern fd []) \<lparr>io_in = inp, io_reads = 0, io_out = []\<rparr> = (Returned (), e) \<and>
    io_out e = map (\<lambda>l. (1, l @ [10])) (filter (match pattern) (complete_lines inp))"
  using grep_run [of "\<lparr>io_in = inp, io_reads = 0, io_out = []\<rparr>" fuel "[]" rd pattern fd] assms by simp

theorem grep_prints_matching_lines_witness:
  "\<exists>e. prun (file_io (\<lambda>_. 2)) (grep 9 [98] 0 []) \<lparr>io_in = [97, 10, 97, 98, 10, 98], io_reads = 0, io_out = []\<rparr> =
     (Returned (), e) \<and> io_out e = [(1, [97, 98, 10])]"
proof -
  have l: "complete_lines [97, 10, 97, 98, 10, 98] = [[97], [97, 98]]" by (simp add: complete_lines.simps)
  have "match [98] [97, 98]" "\<not> match [98] [97]"
    by (simp_all add: match_def match_loop.simps matchhere.simps)
  with l grep_prints_matching_lines [of "[97, 10, 97, 98, 10, 98]" "\<lambda>_. 2" 9 "[98]" 0] show ?thesis by simp
qed

end
