(* ===== verification/Mkfs.thy ===== *)
theory Mkfs
  imports Fs_Pure
begin

text \<open>
  The program that builds the initial file system image, \<^verbatim>\<open>mkfs/mkfs.c\<close>, which runs on the host.
  The image file is a map from sectors to their bytes, undefined behind its end; the program's other
  globals are the counters of free inodes and blocks. \<^verbatim>\<open>die\<close> and a failing \<^verbatim>\<open>assert\<close> end the
  program. A \<^verbatim>\<open>struct dinode\<close> is the corresponding fields of an inode, and what the
  program prints is left out. The host is little endian.
\<close>

section \<open>State and layout\<close>

abbreviation (input) FSSIZE :: nat where "FSSIZE \<equiv> 2000"
abbreviation (input) NINODES :: nat where "NINODES \<equiv> 200"

record mkfs_st =
  image :: "nat \<Rightarrow> bytes option"
  freeinode :: uint
  freeblock :: uint

type_synonym 'r mkop = "('r, mkfs_st) kmonad"

definition die :: "string \<Rightarrow> 'r mkop" where
  "die s = kpanic s"

definition mk_nbitmap :: nat where
  "mk_nbitmap = FSSIZE div (BSIZE * 8) + 1"

definition mk_ninodeblocks :: nat where
  "mk_ninodeblocks = NINODES div 16 + 1"

definition mk_nlog :: nat where
  "mk_nlog = 30"

definition mk_nmeta :: nat where
  "mk_nmeta = 2 + mk_nlog + mk_ninodeblocks + mk_nbitmap"

definition mk_nblocks :: nat where
  "mk_nblocks = FSSIZE - mk_nmeta"

definition xshort :: "ushort \<Rightarrow> ushort" where
  "xshort x = le_word [ucast x, ucast (drop_bit 8 x)]"

definition xint :: "uint \<Rightarrow> uint" where
  "xint x = le_word [ucast x, ucast (drop_bit 8 x), ucast (drop_bit 16 x), ucast (drop_bit 24 x)]"

definition mk_sb :: superblock where
  "mk_sb = \<lparr>sb_magic = FSMAGIC, sb_size = xint (of_nat FSSIZE), sb_nblocks = xint (of_nat mk_nblocks),
     sb_ninodes = xint (of_nat NINODES), sb_nlog = xint (of_nat mk_nlog), sb_logstart = xint 2,
     sb_inodestart = xint (of_nat (2 + mk_nlog)), sb_bmapstart = xint (of_nat (2 + mk_nlog + mk_ninodeblocks))\<rparr>"

text \<open>The bytes of a \<^verbatim>\<open>struct superblock\<close> and of a \<^verbatim>\<open>struct dirent\<close>.\<close>

definition sb_encode :: "superblock \<Rightarrow> uchar list" where
  "sb_encode sp = concat (map (le_bytes 4) [sb_magic sp, sb_size sp, sb_nblocks sp, sb_ninodes sp, sb_nlog sp,
     sb_logstart sp, sb_inodestart sp, sb_bmapstart sp])"

definition dirent_bytes :: "ushort \<Rightarrow> uchar list \<Rightarrow> uchar list" where
  "dirent_bytes inum name = le_bytes 2 inum @ take DIRSIZ (name @ replicate DIRSIZ 0)"

section \<open>Sectors and inodes\<close>

text \<open>The sector at the file offset \<^verbatim>\<open>sec * BSIZE\<close>.\<close>

definition sector :: "uint \<Rightarrow> nat" where
  "sector sec = unat (sec * of_nat BSIZE) div BSIZE"

definition wsect :: "uint \<Rightarrow> bytes \<Rightarrow> unit mkop" where
  "wsect sec buf = kmodify (\<lambda>m. m\<lparr>image := (image m)(sector sec \<mapsto> buf)\<rparr>)"

definition rsect :: "uint \<Rightarrow> bytes mkop" where
  "rsect sec = kbind (kgets (\<lambda>m. image m (sector sec))) (\<lambda>r. case r of None \<Rightarrow> die ''read'' | Some buf \<Rightarrow> kreturn buf)"

definition winode :: "uint \<Rightarrow> inode \<Rightarrow> unit mkop" where
  "winode inum ip = (let bn = IBLOCK inum mk_sb in
     kbind (rsect bn) (\<lambda>buf. wsect bn (dinode_put ip (dinode_off inum) buf)))"

definition rinode :: "uint \<Rightarrow> inode mkop" where
  "rinode inum = kbind (rsect (IBLOCK inum mk_sb)) (\<lambda>buf. kreturn (dinode_get buf (dinode_off inum) inode0))"

definition mk_ialloc :: "ushort \<Rightarrow> uint mkop" where
  "mk_ialloc type = kbind (kgets freeinode) (\<lambda>inum. kthen
     [kmodify (\<lambda>m. m\<lparr>freeinode := inum + 1\<rparr>),
      winode inum (inode0\<lparr>i_type := xshort type, i_nlink := xshort 1, i_size := xint 0\<rparr>)]
     (kreturn inum))"

definition mk_balloc :: "uint \<Rightarrow> unit mkop" where
  "mk_balloc used = (if \<not> sint used < int (BSIZE * 8) then die ''used < BSIZE*8''
     else wsect (sb_bmapstart mk_sb) (foldl (\<lambda>buf i. buf(i div 8 := buf (i div 8) OR push_bit (i mod 8) 1))
       (\<lambda>_. 0) [0..<nat (sint used)]))"

section \<open>Appending to a file\<close>

definition take_block :: "uint mkop" where
  "take_block = kbind (kgets freeblock) (\<lambda>b. kthen [kmodify (\<lambda>m. m\<lparr>freeblock := b + 1\<rparr>)] (kreturn b))"

text \<open>
  The sector \<^verbatim>\<open>x\<close> of block \<^verbatim>\<open>fbn\<close> of the file, allocated when it has none, and the inode then.
\<close>

definition block_of :: "inode \<Rightarrow> nat \<Rightarrow> (inode \<times> uint) mkop" where
  "block_of din fbn =
     (if fbn < NDIRECT then
        (if xint (i_addrs din fbn) = 0 then kbind take_block (\<lambda>b.
           kreturn (din\<lparr>i_addrs := (i_addrs din)(fbn := xint b)\<rparr>, xint (xint b)))
         else kreturn (din, xint (i_addrs din fbn)))
      else
        kbind (if xint (i_addrs din NDIRECT) = 0 then kbind take_block (\<lambda>b.
            kreturn (din\<lparr>i_addrs := (i_addrs din)(NDIRECT := xint b)\<rparr>)) else kreturn din) (\<lambda>din.
        kbind (rsect (xint (i_addrs din NDIRECT))) (\<lambda>ind.
        let a = get32 ind (4 * (fbn - NDIRECT)) in
        if a = 0 then kbind take_block (\<lambda>b. kthen
          [wsect (xint (i_addrs din NDIRECT)) (put32 ind (4 * (fbn - NDIRECT)) (xint b))]
          (kreturn (din, xint (xint b))))
        else kreturn (din, xint a))))"

text \<open>The block, the place in it and the bytes of each round of the loop of \<^verbatim>\<open>iappend\<close>.\<close>

function pieces :: "nat \<Rightarrow> uchar list \<Rightarrow> (nat \<times> nat \<times> uchar list) list" where
  "pieces off p = (if p = [] then []
     else let fbn = off div BSIZE; n1 = min (length p) ((fbn + 1) * BSIZE - off) in
       (fbn, off - fbn * BSIZE, take n1 p) # pieces (off + n1) (drop n1 p))"
  by auto

termination pieces
proof (relation "measure (\<lambda>(off, p). length p)")
  fix off fbn n1 :: nat and p :: "uchar list"
  assume "p \<noteq> []" "fbn = off div BSIZE" "n1 = min (length p) ((fbn + 1) * BSIZE - off)"
  moreover have "off < (off div BSIZE + 1) * BSIZE" using div_mult_mod_eq [of off BSIZE] mod_less_divisor [of BSIZE off]
    by (simp del: mod_less_divisor)
  ultimately show "((off + n1, drop n1 p), off, p) \<in> measure (\<lambda>(off, p). length p)" by simp
qed simp

declare pieces.simps [simp del]

definition iappend_piece :: "inode \<Rightarrow> nat \<times> nat \<times> uchar list \<Rightarrow> inode mkop" where
  "iappend_piece din = (\<lambda>(fbn, o1, p).
     if \<not> fbn < MAXFILE then die ''fbn < MAXFILE''
     else kbind (block_of din fbn) (\<lambda>(din, x).
       kbind (rsect x) (\<lambda>buf. kthen [wsect x (put_bytes buf o1 p)] (kreturn din))))"

primrec iappend_loop :: "(nat \<times> nat \<times> uchar list) list \<Rightarrow> inode \<Rightarrow> inode mkop" where
  "iappend_loop [] din = kreturn din"
| "iappend_loop (q # qs) din = kbind (iappend_piece din q) (iappend_loop qs)"

definition iappend :: "uint \<Rightarrow> uchar list \<Rightarrow> unit mkop" where
  "iappend inum p = kbind (rinode inum) (\<lambda>din. let off = xint (i_size din) in
     kbind (iappend_loop (pieces (unat off) p) din) (\<lambda>din.
     winode inum (din\<lparr>i_size := xint (off + of_nat (length p))\<rparr>)))"

section \<open>The program\<close>

definition shortname :: "uchar list \<Rightarrow> uchar list" where
  "shortname name = (if take 5 name = map of_char ''user/'' then drop 5 name else name)"

text \<open>
  One file: its name, and what the successive reads return, \<open>None\<close> when it cannot be opened.
\<close>

definition add_file :: "uint \<Rightarrow> uchar list \<times> uchar list list option \<Rightarrow> unit mkop" where
  "add_file rootino = (\<lambda>(arg, reads). let name = shortname arg in
     if SLASH \<in> set name then die ''index(shortname)''
     else case reads of None \<Rightarrow> die ''open'' | Some rds \<Rightarrow>
       let name = (if take 1 name = [of_char CHR ''_''] then drop 1 name else name) in
       kbind (mk_ialloc T_FILE) (\<lambda>inum. kdo [
         iappend rootino (dirent_bytes (xshort (ucast inum)) name),
         kforeach rds (iappend inum)]))"

definition mkfs_start :: mkfs_st where
  "mkfs_start = \<lparr>image = (\<lambda>_. None), freeinode = 1, freeblock = of_nat mk_nmeta\<rparr>"

definition mkfs_main :: "(uchar list \<times> uchar list list option) list \<Rightarrow> unit mkop" where
  "mkfs_main files = kdo [
     kforeach [0..<FSSIZE] (\<lambda>i. wsect (of_nat i) (\<lambda>_. 0)),
     wsect 1 (put_bytes (\<lambda>_. 0) 0 (sb_encode mk_sb)),
     kbind (mk_ialloc T_DIR) (\<lambda>rootino. if rootino \<noteq> ROOTINO then die ''rootino == ROOTINO'' else kdo [
       iappend rootino (dirent_bytes (xshort (ucast rootino)) (map of_char ''.'')),
       iappend rootino (dirent_bytes (xshort (ucast rootino)) (map of_char ''..'')),
       kforeach files (add_file rootino),
       kbind (rinode rootino) (\<lambda>din. let off = (xint (i_size din) div of_nat BSIZE + 1) * of_nat BSIZE in
         winode rootino (din\<lparr>i_size := xint off\<rparr>))]),
     kbind (kgets freeblock) mk_balloc]"

end
