(* ===== verification/Mkfs_Image.thy ===== *)
theory Mkfs_Image
  imports Mkfs Writei
begin

text \<open>
  The image \<^verbatim>\<open>mkfs\<close> builds is a file system as the kernel understands one. Until the free map is written at the
  end, the program's counter of free blocks stands for it: the image with the free map that belongs to
  the counter satisfies the kernel's invariants, and appending to a file is the kind of growth and
  rewriting that \<open>writei\<close> does.
\<close>

section \<open>The layout\<close>

lemma xint_id [simp]: "xint x = x"
proof (rule bit_word_eqI)
  fix n assume n: "n < LENGTH(32)"
  consider "n < 8" | "8 \<le> n" "n < 16" | "16 \<le> n" "n < 24" | "24 \<le> n" by linarith
  then show "bit (xint x) n = bit x n" using n by cases (auto simp: xint_def bit_simps)
qed

lemma xshort_id [simp]: "xshort x = x"
  by (rule bit_eqI) (auto simp: xshort_def bit_simps)

lemma mk_sizes [simp]: "mk_nmeta = 46" "mk_nlog = 30" "mk_ninodeblocks = 13"
  by (simp_all add: mk_nmeta_def mk_nlog_def mk_ninodeblocks_def mk_nbitmap_def)

lemma mk_sb_sel [simp]:
  "sb_size mk_sb = 2000" "sb_inodestart mk_sb = 32" "sb_bmapstart mk_sb = 45" "sb_magic mk_sb = FSMAGIC" "sb_nlog mk_sb = 30" "sb_logstart mk_sb = 2"
  by (simp_all add: mk_sb_def)

lemma unat_numeral_2000: "unat (2000 :: uint) = 2000"
  by simp

lemma mk_BBLOCK: "unat b < BPB \<Longrightarrow> BBLOCK b mk_sb = 45"
  by (simp add: BBLOCK_def word_arith_nat_div)

lemma mk_meta: "b \<in> meta mk_sb \<longleftrightarrow> unat b < 46"
  by (auto simp: meta_def)

lemma mk_maps: "all_maps mk_sb = {45}"
  using mk_BBLOCK by (auto simp: all_maps_def map_blocks_def unat_of_nat)

lemma mk_sb_ok: "sb_ok mk_sb"
  by (simp add: sb_ok_def)

lemma sector_small: "unat b < 4194304 \<Longrightarrow> sector b = unat b"
  by (simp add: sector_def unat_word_ariths)

lemma mk_IBLOCK:
  assumes "unat inum < 208"
  shows "unat (IBLOCK inum mk_sb) = 32 + unat inum div 16" "IBLOCK inum mk_sb \<in> meta mk_sb" "IBLOCK inum mk_sb \<noteq> 45"
    "IBLOCK inum mk_sb \<notin> all_maps mk_sb" "IBLOCK inum mk_sb \<noteq> 1"
proof -
  have "unat inum div 16 < 13" using assms by (simp add: less_mult_imp_div_less)
  then show u: "unat (IBLOCK inum mk_sb) = 32 + unat inum div 16"
    by (simp add: IBLOCK_def unat_word_ariths unat_div)
  then show "IBLOCK inum mk_sb \<noteq> 45" "IBLOCK inum mk_sb \<noteq> 1" using \<open>unat inum div 16 < 13\<close> by (auto dest!: arg_cong [of _ _ unat])
  then show "IBLOCK inum mk_sb \<notin> all_maps mk_sb" by (simp add: mk_maps)
  show "IBLOCK inum mk_sb \<in> meta mk_sb" using u \<open>unat inum div 16 < 13\<close> by (simp add: mk_meta)
qed

section \<open>The image with its free map\<close>

definition sect :: "mkfs_st \<Rightarrow> uint \<Rightarrow> bytes" where
  "sect m b = (case image m (unat b) of None \<Rightarrow> (\<lambda>_. 0) | Some d \<Rightarrow> d)"

definition bitmap :: "nat \<Rightarrow> bytes" where
  "bitmap n = foldl (\<lambda>buf i. buf(i div 8 := buf (i div 8) OR push_bit (i mod 8) 1)) (\<lambda>_. 0) [0..<n]"

definition gview :: "mkfs_st \<Rightarrow> uint \<Rightarrow> bytes" where
  "gview m b = (if b = 45 then bitmap (unat (freeblock m)) else sect m b)"

text \<open>The image has all its sectors, and those from the counter on are still zero.\<close>

definition img_ok :: "mkfs_st \<Rightarrow> bool" where
  "img_ok m \<longleftrightarrow> (\<forall>n. image m n \<noteq> None \<longleftrightarrow> n < FSSIZE) \<and> 46 \<le> unat (freeblock m) \<and> unat (freeblock m) \<le> FSSIZE \<and>
     (\<forall>b. unat (freeblock m) \<le> unat b \<longrightarrow> sect m b = (\<lambda>_. 0))"

lemma bitmap_Suc: "bitmap (Suc n) = bit_set n (bitmap n)"
  by (simp add: bitmap_def bit_set_def bit_mask_def)

lemma bitmap_free: "bit_free c (bitmap n) \<longleftrightarrow> n \<le> c"
proof (induction n)
  case 0
  show ?case by (simp add: bitmap_def bit_free_bit)
next
  case (Suc n)
  then show ?case by (auto simp: bitmap_Suc bit_free_set)
qed

lemma gfree: "n < FSSIZE \<Longrightarrow> blk_free mk_sb (gview m) n \<longleftrightarrow> unat (freeblock m) \<le> n"
  by (simp add: blk_free_def mk_BBLOCK unat_of_nat take_bit_nat_eq_self gview_def bitmap_free)

lemma guse: "unat b < FSSIZE \<Longrightarrow> in_use mk_sb (gview m) b \<longleftrightarrow> unat b < unat (freeblock m)"
  by (auto simp: in_use_def gfree not_le)

lemma gmark:
  assumes ok: "img_ok m" and f: "unat (freeblock m) < FSSIZE"
  shows "gview (m\<lparr>freeblock := freeblock m + 1\<rparr>) = mark mk_sb (gview m) (unat (freeblock m))"
    "img_ok (m\<lparr>freeblock := freeblock m + 1\<rparr>)" "unat (freeblock m + 1) = Suc (unat (freeblock m))"
proof -
  show u: "unat (freeblock m + 1) = Suc (unat (freeblock m))" using f by (simp add: unat_word_ariths)
  have ne: "freeblock m \<noteq> 45" using ok by (auto simp: img_ok_def)
  have z: "sect m (freeblock m) = (\<lambda>_. 0)" using ok by (simp add: img_ok_def)
  have B: "BBLOCK (freeblock m) mk_sb = 45" using f by (simp add: mk_BBLOCK)
  have mod: "unat (freeblock m) mod BPB = unat (freeblock m)" using f by simp
  show "gview (m\<lparr>freeblock := freeblock m + 1\<rparr>) = mark mk_sb (gview m) (unat (freeblock m))"
    unfolding mark_def mod using u ne z B by (auto simp: fun_eq_iff gview_def sect_def bitmap_Suc zeroed_def)
  show "img_ok (m\<lparr>freeblock := freeblock m + 1\<rparr>)" using ok u f by (auto simp: img_ok_def sect_def)
qed

lemma wsect_eq:
  assumes ok: "img_ok m" and b: "unat b < FSSIZE" "b \<noteq> 45"
  shows "wsect b d m = Ret () (m\<lparr>image := (image m)(unat b \<mapsto> d)\<rparr>)" "gview (m\<lparr>image := (image m)(unat b \<mapsto> d)\<rparr>) = (gview m)(b := d)"
    "unat b < unat (freeblock m) \<Longrightarrow> img_ok (m\<lparr>image := (image m)(unat b \<mapsto> d)\<rparr>)"
    "sect (m\<lparr>image := (image m)(unat b \<mapsto> d)\<rparr>) = (sect m)(b := d)"
proof -
  show "wsect b d m = Ret () (m\<lparr>image := (image m)(unat b \<mapsto> d)\<rparr>)" using b by (simp add: wsect_def sector_small run_defs)
  show s: "sect (m\<lparr>image := (image m)(unat b \<mapsto> d)\<rparr>) = (sect m)(b := d)" by (auto simp: fun_eq_iff sect_def word_unat_eq_iff)
  then show "gview (m\<lparr>image := (image m)(unat b \<mapsto> d)\<rparr>) = (gview m)(b := d)" using b by (auto simp: fun_eq_iff gview_def)
  show "img_ok (m\<lparr>image := (image m)(unat b \<mapsto> d)\<rparr>)" if "unat b < unat (freeblock m)"
    using ok b that unfolding img_ok_def s by (auto simp: fun_eq_iff)
qed

lemma rsect_eq:
  assumes "img_ok m" "unat b < FSSIZE"
  shows "rsect b m = Ret (sect m b) m"
proof -
  obtain d where "image m (unat b) = Some d" using assms by (auto simp: img_ok_def)
  then show ?thesis using assms(2) by (simp add: rsect_def sector_small run_defs sect_def)
qed

lemma take_block_eq: "take_block m = Ret (freeblock m) (m\<lparr>freeblock := freeblock m + 1\<rparr>)"
  by (simp add: take_block_def run_defs)

section \<open>Inodes of the image\<close>

text \<open>An inode as the kernel has it once it read it from the root device.\<close>

definition kdev :: "inode \<Rightarrow> inode" where
  "kdev i = i\<lparr>i_dev := ROOTDEV\<rparr>"

lemma kdev_sel [simp]: "i_dev (kdev i) = ROOTDEV" "i_size (kdev i) = i_size i" "i_addrs (kdev i) = i_addrs i" "i_type (kdev i) = i_type i"
  "i_nlink (kdev i) = i_nlink i" "kdev (i\<lparr>i_addrs := a\<rparr>) = (kdev i)\<lparr>i_addrs := a\<rparr>" "kdev (i\<lparr>i_size := z\<rparr>) = (kdev i)\<lparr>i_size := z\<rparr>"
  by (simp_all add: kdev_def)

text \<open>What \<open>block_of\<close> leaves behind: a block at place \<open>fbn\<close>, and an indirect block where that needs one.\<close>

definition placed :: "mkfs_st \<Rightarrow> inode \<Rightarrow> nat \<Rightarrow> mkfs_st \<Rightarrow> inode \<Rightarrow> bool" where
  "placed m i fbn m' i' \<longleftrightarrow> img_ok m' \<and> alloc_inv mk_sb (gview m') (kdev i') \<and> grown mk_sb (gview m) (kdev i) (gview m') (kdev i') \<and>
     fblk (gview m') (kdev i') fbn \<noteq> 0 \<and> (\<forall>cn < MAXFILE. cn \<noteq> fbn \<longrightarrow> fblk (gview m') (kdev i') cn = fblk (gview m) (kdev i) cn) \<and>
     (i_addrs i' NDIRECT \<noteq> 0 \<longleftrightarrow> i_addrs i NDIRECT \<noteq> 0 \<or> \<not> fbn < NDIRECT) \<and> freeinode m' = freeinode m \<and>
     unat (freeblock m') = unat (freeblock m) + (if fblk (gview m) (kdev i) fbn = 0 then 1 else 0) +
       (if \<not> fbn < NDIRECT \<and> i_addrs i NDIRECT = 0 then 1 else 0)"

lemma fresh_counter:
  assumes "img_ok m" "unat (freeblock m) < FSSIZE"
  shows "unat (freeblock m) < unat (sb_size mk_sb)" "blk_free mk_sb (gview m) (unat (freeblock m))"
  using assms by (simp_all add: gfree)

lemma block_of_direct:
  assumes ok: "img_ok m" and a: "alloc_inv mk_sb (gview m) (kdev i)" and bn: "fbn < NDIRECT"
    and room: "fblk (gview m) (kdev i) fbn = 0 \<Longrightarrow> unat (freeblock m) < FSSIZE"
  shows "\<exists>i' m'. block_of i fbn m = Ret (i', fblk (gview m') (kdev i') fbn) m' \<and> placed m i fbn m' i'"
proof (cases "i_addrs i fbn = 0")
  case False
  then have "fblk (gview m) (kdev i) fbn = i_addrs i fbn" using bn by (simp add: fblk_def)
  then show ?thesis using False bn ok a
    by (intro exI [of _ i] exI [of _ m]) (simp add: block_of_def run_defs placed_def)
next
  case True
  let ?f = "freeblock m" let ?m = "m\<lparr>freeblock := ?f + 1\<rparr>" let ?i = "i\<lparr>i_addrs := (i_addrs i)(fbn := ?f)\<rparr>"
  have z: "fblk (gview m) (kdev i) fbn = 0" using True bn by (simp add: fblk_def)
  note f = room [OF z]
  note g = gmark [OF ok f] and n = fresh_counter [OF ok f]
  have td: "alloc_inv mk_sb (gview ?m) (kdev ?i)" "grown mk_sb (gview m) (kdev i) (gview ?m) (kdev ?i)"
    "fblk (gview ?m) (kdev ?i) fbn = ?f" "\<And>cn. cn \<noteq> fbn \<Longrightarrow> fblk (gview ?m) (kdev ?i) cn = fblk (gview m) (kdev i) cn"
    using take_direct [OF a n bn] True g(1) by simp_all
  have "?f \<noteq> 0" using ok by (auto simp: img_ok_def)
  then show ?thesis using z td g True bn
    by (intro exI [of _ ?i] exI [of _ ?m]) (simp add: block_of_def run_defs take_block_eq placed_def)
qed

text \<open>Behind the indirect block \<open>d\<close>.\<close>

definition entry_of :: "inode \<Rightarrow> nat \<Rightarrow> (inode \<times> uint) mkop" where
  "entry_of din fbn = kbind (rsect (i_addrs din NDIRECT)) (\<lambda>ind.
     let a = get32 ind (4 * (fbn - NDIRECT)) in
     if a = 0 then kbind take_block (\<lambda>b. kthen
       [wsect (i_addrs din NDIRECT) (put32 ind (4 * (fbn - NDIRECT)) b)] (kreturn (din, b)))
     else kreturn (din, a))"

lemma block_of_eq: "\<not> fbn < NDIRECT \<Longrightarrow> block_of i fbn m = (if i_addrs i NDIRECT = 0
  then entry_of (i\<lparr>i_addrs := (i_addrs i)(NDIRECT := freeblock m)\<rparr>) fbn (m\<lparr>freeblock := freeblock m + 1\<rparr>) else entry_of i fbn m)"
  unfolding block_of_def entry_of_def xint_id by (simp add: run_defs take_block_eq)

lemma entry_of_run:
  assumes ok: "img_ok m" and a: "alloc_inv mk_sb (gview m) (kdev i)" and bn: "\<not> fbn < NDIRECT" "fbn < MAXFILE"
    and ind: "i_addrs i NDIRECT \<noteq> 0" and room: "fblk (gview m) (kdev i) fbn = 0 \<Longrightarrow> unat (freeblock m) < FSSIZE"
  shows "\<exists>m'. entry_of i fbn m = Ret (i, fblk (gview m') (kdev i) fbn) m' \<and> placed m i fbn m' i"
proof -
  let ?d = "i_addrs i NDIRECT" let ?o = "4 * (fbn - NDIRECT)"
  have "?d \<in> own (gview m) (kdev i)" using ind_own [of "kdev i"] ind by simp
  note od = own_size [OF a this]
  have d: "unat ?d < FSSIZE" "?d \<noteq> 45" using od by (auto simp: mk_meta)
  have Vd: "sect m ?d = gview m ?d" using d by (simp add: gview_def)
  have fb: "fblk (gview m) (kdev i) fbn = get32 (gview m ?d) ?o" using bn ind by (simp add: fblk_def)
  note rd = rsect_eq [OF ok d(1)]
  show ?thesis
  proof (cases "get32 (gview m ?d) ?o = 0")
    case False
    then show ?thesis using rd Vd fb ok a ind
      by (intro exI [of _ m]) (simp add: entry_of_def run_defs placed_def)
  next
    case True
    let ?f = "freeblock m" let ?m = "m\<lparr>freeblock := ?f + 1\<rparr>" let ?x = "put32 (gview m ?d) ?o ?f"
    let ?m' = "?m\<lparr>image := (image ?m)(unat ?d \<mapsto> ?x)\<rparr>"
    have f: "unat ?f < FSSIZE" using room fb True by simp
    note g = gmark [OF ok f] and n = fresh_counter [OF ok f] and w = wsect_eq [OF gmark(2) [OF ok f] d, of ?x]
    have used: "unat ?d < unat ?f" using od guse [OF d(1)] by simp
    have f0: "?f \<noteq> 0" using ok by (auto simp: img_ok_def)
    have v: "gview ?m' = (mark mk_sb (gview m) (unat ?f))(?d := put32 (gview m ?d) ?o ?f)" using w(2) g(1) by simp
    have te: "alloc_inv mk_sb (gview ?m') (kdev i)" "grown mk_sb (gview m) (kdev i) (gview ?m') (kdev i)"
      "fblk (gview ?m') (kdev i) fbn = ?f" "\<And>cn. cn \<noteq> fbn \<Longrightarrow> fblk (gview ?m') (kdev i) cn = fblk (gview m) (kdev i) cn"
      unfolding v using take_entry [OF a n bn _ _ ind] fb True by simp_all
    have "img_ok ?m'" using w(3) used g(3) by simp
    moreover have "entry_of i fbn m = Ret (i, ?f) ?m'"
      using rd Vd True w(1) by (simp add: entry_of_def run_defs take_block_eq)
    ultimately show ?thesis using te f0 g(3) fb True ind by (intro exI [of _ ?m']) (simp add: placed_def)
  qed
qed

lemma block_of_run:
  assumes ok: "img_ok m" and a: "alloc_inv mk_sb (gview m) (kdev i)" and bn: "fbn < MAXFILE"
    and room: "unat (freeblock m) + (if fblk (gview m) (kdev i) fbn = 0 then 1 else 0) +
       (if \<not> fbn < NDIRECT \<and> i_addrs i NDIRECT = 0 then 1 else 0) \<le> FSSIZE"
  shows "\<exists>i' m'. block_of i fbn m = Ret (i', fblk (gview m') (kdev i') fbn) m' \<and> placed m i fbn m' i'"
proof -
  have r: "unat (freeblock m) < FSSIZE" if "fblk (gview m) (kdev i) fbn = 0" using room that by simp
  consider "fbn < NDIRECT" | "\<not> fbn < NDIRECT" "i_addrs i NDIRECT \<noteq> 0" | "\<not> fbn < NDIRECT" "i_addrs i NDIRECT = 0" by blast
  then show ?thesis
  proof cases
    case 1
    then show ?thesis using block_of_direct [OF ok a _ r] by blast
  next
    case 2
    then show ?thesis using entry_of_run [OF ok a 2(1) bn 2(2) r] block_of_eq [OF 2(1), of i m] by auto
  next
    case 3
    let ?f = "freeblock m" let ?m = "m\<lparr>freeblock := ?f + 1\<rparr>" let ?i = "i\<lparr>i_addrs := (i_addrs i)(NDIRECT := ?f)\<rparr>"
    have z: "fblk (gview m) (kdev i) fbn = 0" using 3 by (simp add: fblk_def)
    have f: "unat ?f < FSSIZE" "unat ?f + 1 < FSSIZE" using room z 3 by simp_all
    note g = gmark [OF ok f(1)] and n = fresh_counter [OF ok f(1)]
    have ti: "alloc_inv mk_sb (gview ?m) (kdev ?i)" "grown mk_sb (gview m) (kdev i) (gview ?m) (kdev ?i)"
      "\<And>cn. cn < MAXFILE \<Longrightarrow> fblk (gview ?m) (kdev ?i) cn = fblk (gview m) (kdev i) cn"
      using take_indirect [OF a n] 3 g(1) by simp_all
    have f0: "?f \<noteq> 0" using ok by (auto simp: img_ok_def)
    obtain m' where m': "entry_of ?i fbn ?m = Ret (?i, fblk (gview m') (kdev ?i) fbn) m'" "placed ?m ?i fbn m' ?i"
      using entry_of_run [OF g(2) ti(1) 3(1) bn] f g(3) f0 by auto
    have gr: "grown mk_sb (gview m) (kdev i) (gview m') (kdev ?i)"
      using m'(2) by (intro grown_trans [OF ti(2) _ ti(1)]) (simp_all add: placed_def)
    have "placed m i fbn m' ?i" using m'(2) gr ti(3) f0 3 z g(3) bn by (simp add: placed_def)
    then show ?thesis using m'(1) block_of_eq [OF 3(1), of i m] 3(2) by auto
  qed
qed

section \<open>Appending\<close>

text \<open>The number of blocks of a file of \<open>z\<close> bytes, and that it has just those, zero behind its end.\<close>

definition nb :: "nat \<Rightarrow> nat" where
  "nb z = (z + BSIZE - 1) div BSIZE + (if NDIRECT * BSIZE < z then 1 else 0)"

definition exact :: "(uint \<Rightarrow> bytes) \<Rightarrow> inode \<Rightarrow> nat \<Rightarrow> bool" where
  "exact V i z \<longleftrightarrow> (\<forall>bn < MAXFILE. fblk V i bn \<noteq> 0 \<longleftrightarrow> bn * BSIZE < z) \<and> (i_addrs i NDIRECT \<noteq> 0 \<longleftrightarrow> NDIRECT * BSIZE < z) \<and>
     (\<forall>j < MAXFILE * BSIZE. z \<le> j \<longrightarrow> fblk V i (j div BSIZE) \<noteq> 0 \<longrightarrow> fbyte V i j = 0)"

lemma nb_mono: "z \<le> y \<Longrightarrow> nb z \<le> nb y"
  unfolding nb_def by (intro add_mono div_le_mono) auto

lemma split_block: "(z :: nat) = z div BSIZE * BSIZE + z mod BSIZE" "z mod BSIZE < BSIZE"
  by simp_all

lemma block_start:
  fixes z n :: nat
  assumes "0 < n" "n \<le> BSIZE - z mod BSIZE"
  shows "z div BSIZE * BSIZE < z \<longleftrightarrow> z mod BSIZE \<noteq> 0"
    "bn * BSIZE < z + n \<longleftrightarrow> bn * BSIZE < z \<or> bn = z div BSIZE"
    "nb (z + n) = nb z + (if z div BSIZE * BSIZE < z then 0 else 1) + (if \<not> z div BSIZE < NDIRECT \<and> \<not> NDIRECT * BSIZE < z then 1 else 0)"
proof -
  obtain q r where qr: "z = q * BSIZE + r" "r < BSIZE" "z div BSIZE = q" "z mod BSIZE = r" using split_block [of z] by metis
  have n: "0 < n" "n \<le> BSIZE - r" using assms qr(4) by auto
  show "z div BSIZE * BSIZE < z \<longleftrightarrow> z mod BSIZE \<noteq> 0" using qr by auto
  have "bn \<le> q \<longleftrightarrow> bn * BSIZE < z + n"
  proof
    assume "bn \<le> q"
    then show "bn * BSIZE < z + n" using qr(1) n mult_le_mono1 [of bn q BSIZE] by linarith
  next
    assume "bn * BSIZE < z + n"
    then have "bn * BSIZE < (q + 1) * BSIZE" using qr(1,2) n by (simp add: algebra_simps)
    then show "bn \<le> q" by simp
  qed
  moreover have "bn < q \<Longrightarrow> bn * BSIZE < z" using qr(1) by simp
  moreover have "bn * BSIZE < z \<Longrightarrow> bn \<le> q" using qr(1,2) by simp
  ultimately show "bn * BSIZE < z + n \<longleftrightarrow> bn * BSIZE < z \<or> bn = z div BSIZE" using qr(3) by (auto simp: le_less)
  have d: "(z + BSIZE - 1) div BSIZE = q + (if r = 0 then 0 else 1)"
  proof (cases "r = 0")
    case True
    then have "z + BSIZE - 1 = q * BSIZE + 1023" using qr(1) by simp
    then show ?thesis using True by simp
  next
    case False
    then have "z + BSIZE - 1 = (q + 1) * BSIZE + (r - 1)" using qr(1) by simp
    then show ?thesis using False qr(2) by simp
  qed
  have "z + n + BSIZE - 1 = (q + 1) * BSIZE + (r + n - 1)" "r + n - 1 < BSIZE" using qr(1,2) n by (simp_all add: algebra_simps)
  then have d': "(z + n + BSIZE - 1) div BSIZE = q + 1" by simp
  have "(NDIRECT * BSIZE < z + n) = (NDIRECT * BSIZE < z \<or> q \<ge> NDIRECT)" using qr(1,2) n by auto
  moreover have "NDIRECT * BSIZE < z \<Longrightarrow> q \<ge> NDIRECT" using qr(1,2) by simp
  ultimately show "nb (z + n) = nb z + (if z div BSIZE * BSIZE < z then 0 else 1) + (if \<not> z div BSIZE < NDIRECT \<and> \<not> NDIRECT * BSIZE < z then 1 else 0)"
    unfolding nb_def d d' qr(3) using qr(1) by auto
qed

text \<open>The first \<open>tot\<close> bytes of \<open>p\<close> are appended behind offset \<open>off\<close>.\<close>

definition appending :: "mkfs_st \<Rightarrow> inode \<Rightarrow> nat \<Rightarrow> uchar list \<Rightarrow> nat \<Rightarrow> mkfs_st \<Rightarrow> inode \<Rightarrow> bool" where
  "appending m0 i0 off p tot m i \<longleftrightarrow> img_ok m \<and> alloc_inv mk_sb (gview m) (kdev i) \<and>
     rewritten mk_sb (gview m0) (kdev i0) off (nth p) tot (gview m) (kdev i) \<and> exact (gview m) (kdev i) (off + tot) \<and>
     unat (freeblock m) + nb off = unat (freeblock m0) + nb (off + tot) \<and> freeinode m = freeinode m0"

lemma put_splice: "put_bytes b o1 p = splice b o1 (length p) (nth p)"
  by (auto simp: fun_eq_iff put_bytes_def splice_def)

lemma append_piece:
  assumes A: "appending m0 i0 off p tot m i" and n: "0 < n" "n \<le> BSIZE - (off + tot) mod BSIZE" "tot + n \<le> length p"
    and mx: "off + length p \<le> MAXFILE * BSIZE" and room: "unat (freeblock m0) + nb (off + length p) \<le> FSSIZE + nb off"
  shows "\<exists>i' m'. iappend_piece i ((off + tot) div BSIZE, (off + tot) mod BSIZE, take n (drop tot p)) m = Ret i' m' \<and>
    appending m0 i0 off p (tot + n) m' i'"
proof -
  let ?z = "off + tot" let ?bn = "?z div BSIZE"
  have ok: "img_ok m" and a: "alloc_inv mk_sb (gview m) (kdev i)" and r: "rewritten mk_sb (gview m0) (kdev i0) off (nth p) tot (gview m) (kdev i)"
    and e: "exact (gview m) (kdev i) ?z" and fb: "unat (freeblock m) + nb off = unat (freeblock m0) + nb ?z" and fi: "freeinode m = freeinode m0"
    using A by (simp_all add: appending_def)
  have bn: "?bn < MAXFILE" using mx n by (simp add: less_mult_imp_div_less)
  note bs = block_start [OF n(1,2)]
  have z0: "fblk (gview m) (kdev i) ?bn = 0 \<longleftrightarrow> \<not> ?bn * BSIZE < ?z" and i0: "i_addrs i NDIRECT = 0 \<longleftrightarrow> \<not> NDIRECT * BSIZE < ?z"
    using e bn by (auto simp: exact_def)
  have cost: "(if fblk (gview m) (kdev i) ?bn = 0 then 1 else 0) + (if \<not> ?bn < NDIRECT \<and> i_addrs i NDIRECT = 0 then 1 else 0) + nb ?z = nb (?z + n)"
    unfolding z0 i0 bs(3) by simp
  have "nb (?z + n) \<le> nb (off + length p)" using n(3) by (intro nb_mono) simp
  then have "unat (freeblock m) + (if fblk (gview m) (kdev i) ?bn = 0 then 1 else 0) + (if \<not> ?bn < NDIRECT \<and> i_addrs i NDIRECT = 0 then 1 else 0) \<le> FSSIZE"
    using cost fb room by linarith
  from block_of_run [OF ok a bn this] obtain i' m' where
    b: "block_of i ?bn m = Ret (i', fblk (gview m') (kdev i') ?bn) m'" and pl: "placed m i ?bn m' i'" by blast
  let ?x = "fblk (gview m') (kdev i') ?bn" let ?p = "take n (drop tot p)"
  let ?d = "put_bytes (sect m' ?x) (?z mod BSIZE) ?p" let ?m = "m'\<lparr>image := (image m')(unat ?x \<mapsto> ?d)\<rparr>"
  have pl': "img_ok m'" "alloc_inv mk_sb (gview m') (kdev i')" "grown mk_sb (gview m) (kdev i) (gview m') (kdev i')" "?x \<noteq> 0"
    using pl by (simp_all add: placed_def)
  note x = alloc_invD [OF pl'(2) bn pl'(4)]
  have xs: "unat ?x < FSSIZE" "?x \<noteq> 45" using x(1,3) by (auto simp: mk_meta)
  note w = wsect_eq [OF pl'(1) xs, of ?d] and pb = put_block [OF pl'(2) bn pl'(4), where d = ?d, folded w(2)]
  have run: "iappend_piece i (?bn, ?z mod BSIZE, ?p) m = Ret i' ?m"
    using bn b rsect_eq [OF pl'(1) xs(1)] w(1) by (simp add: iappend_piece_def run_defs)
  have "off + tot \<le> MAXFILE * BSIZE" using mx n by simp
  note r' = rewritten_grown [OF r pl'(3) a pl'(2) this]
  have lp: "length ?p = n" using n(3) by simp
  have "gview ?m = (gview m')(?x := splice (gview m' ?x) (?z mod BSIZE) n (nth ?p))"
    using w(2) xs(2) lp by (simp add: put_splice gview_def)
  moreover have "rewritten mk_sb (gview m0) (kdev i0) off (nth p) (tot + n) ((gview m')(?x := splice (gview m' ?x) (?z mod BSIZE) n (nth ?p))) (kdev i')"
    by (rule rewritten_put [OF r' pl'(2) refl pl'(4)]) (use n mx in simp_all)
  ultimately have rw: "rewritten mk_sb (gview m0) (kdev i0) off (nth p) (tot + n) (gview ?m) (kdev i')" by simp
  have "exact (gview ?m) (kdev i') (off + (tot + n))"
    unfolding exact_def pb(1)
  proof (intro conjI allI impI)
    show "(fblk (gview m') (kdev i') cn \<noteq> 0) = (cn * BSIZE < off + (tot + n))" if cn: "cn < MAXFILE" for cn
      using pl e bs(2) [of cn] cn pl'(4) by (cases "cn = ?bn") (auto simp: placed_def exact_def add.assoc)
    show "(i_addrs (kdev i') NDIRECT \<noteq> 0) = (NDIRECT * BSIZE < off + (tot + n))"
      using pl bs(2) [of NDIRECT] i0 bs by (auto simp: placed_def add.assoc)
    fix j assume j: "j < MAXFILE * BSIZE" "off + (tot + n) \<le> j" "fblk (gview m') (kdev i') (j div BSIZE) \<noteq> 0"
    have jm: "j div BSIZE < MAXFILE" using j(1) by (simp add: less_mult_imp_div_less)
    have z: "fbyte (gview m') (kdev i') j = 0"
    proof (cases "fblk (gview m) (kdev i) (j div BSIZE) = 0")
      case True
      then show ?thesis using grownD(4) [OF pl'(3) jm True j(3)] by (simp add: fbyte_def)
    next
      case False
      then have "fbyte (gview m) (kdev i) j = 0" using e j(1,2) by (simp add: exact_def)
      then show ?thesis using grown_byte(2) [OF pl'(3) a jm False] by simp
    qed
    have "?d (j mod BSIZE) = sect m' ?x (j mod BSIZE)" if jd: "j div BSIZE = ?bn"
    proof -
      have "?z mod BSIZE + n \<le> j mod BSIZE"
        using split_block(1) [of j] split_block(1) [of ?z] j(2) unfolding jd by linarith
      then show ?thesis using lp by (simp add: put_bytes_def)
    qed
    then show "fbyte (gview ?m) (kdev i') j = 0"
      using pb(5) [OF jm] z xs(2) by (simp add: fbyte_def gview_def split: if_splits)
  qed
  then have "appending m0 i0 off p (tot + n) ?m i'"
    using rw pb(4) w(3) x(2) guse [OF xs(1)] pl cost fb fi by (simp add: appending_def placed_def add.assoc)
  then show ?thesis using run by blast
qed

lemma append_loop:
  assumes mx: "off + length p \<le> MAXFILE * BSIZE" and room: "unat (freeblock m0) + nb (off + length p) \<le> FSSIZE + nb off"
  shows "appending m0 i0 off p tot m i \<Longrightarrow> tot \<le> length p \<Longrightarrow>
    \<exists>i' m'. iappend_loop (pieces (off + tot) (drop tot p)) i m = Ret i' m' \<and> appending m0 i0 off p (length p) m' i'"
proof (induction "length p - tot" arbitrary: tot m i rule: less_induct)
  case less
  show ?case
  proof (cases "tot = length p")
    case True
    then show ?thesis using less.prems by (simp add: pieces.simps run_defs)
  next
    case False
    let ?z = "off + tot" define n where "n = min (length p - tot) (BSIZE - ?z mod BSIZE)"
    have n: "0 < n" "n \<le> BSIZE - ?z mod BSIZE" "tot + n \<le> length p" using False less.prems(2) by (auto simp: n_def)
    have "(?z div BSIZE + 1) * BSIZE - ?z = BSIZE - ?z mod BSIZE"
    proof -
      obtain q r where "?z = q * BSIZE + r" "?z div BSIZE = q" "?z mod BSIZE = r" using split_block [of ?z] by metis
      then show ?thesis by simp
    qed
    then have ps: "pieces ?z (drop tot p) = (?z div BSIZE, ?z mod BSIZE, take n (drop tot p)) # pieces (off + (tot + n)) (drop (tot + n) p)"
      using False less.prems(2) by (subst pieces.simps) (simp add: n_def Let_def minus_div_mult_eq_mod add.assoc add.commute [of tot])
    obtain i1 m1 where s: "iappend_piece i (?z div BSIZE, ?z mod BSIZE, take n (drop tot p)) m = Ret i1 m1" "appending m0 i0 off p (tot + n) m1 i1"
      using append_piece [OF less.prems(1) n mx room] by blast
    obtain i' m' where "iappend_loop (pieces (off + (tot + n)) (drop (tot + n) p)) i1 m1 = Ret i' m'" "appending m0 i0 off p (length p) m' i'"
      using less.hyps [OF _ s(2) n(3)] n(1,3) by force
    then show ?thesis unfolding ps using s(1) by (auto simp: run_defs)
  qed
qed

section \<open>Inodes on the image\<close>

definition din :: "mkfs_st \<Rightarrow> uint \<Rightarrow> inode" where
  "din m inum = kdev (dinode_get (sect m (IBLOCK inum mk_sb)) (dinode_off inum) inode0)"

text \<open>Two inodes of the same blocks, and block contents that agree on them.\<close>

lemma same_blocks:
  assumes j: "\<forall>k \<le> NDIRECT. i_addrs i' k = i_addrs i k" and V: "\<forall>b \<in> own V i. V' b = V b"
  shows "\<And>bn. fblk V' i' bn = fblk V i bn" "own V' i' = own V i"
    "\<And>k. k div BSIZE < MAXFILE \<Longrightarrow> fblk V i (k div BSIZE) \<noteq> 0 \<Longrightarrow> fbyte V' i' k = fbyte V i k"
    "exact V' i' z = exact V i z"
proof -
  show f: "fblk V' i' bn = fblk V i bn" for bn
    using j V ind_own [of i V] by (auto simp: fblk_def)
  show "own V' i' = own V i" using j by (simp add: own_def f)
  show "fbyte V' i' k = fbyte V i k" if "k div BSIZE < MAXFILE" "fblk V i (k div BSIZE) \<noteq> 0" for k
    using V fblk_own [OF that] by (simp add: fbyte_def f)
  then have "(\<forall>k < MAXFILE * BSIZE. z \<le> k \<longrightarrow> fblk V i (k div BSIZE) \<noteq> 0 \<longrightarrow> fbyte V' i' k = 0) \<longleftrightarrow>
    (\<forall>k < MAXFILE * BSIZE. z \<le> k \<longrightarrow> fblk V i (k div BSIZE) \<noteq> 0 \<longrightarrow> fbyte V i k = 0)"
    by (auto simp: less_mult_imp_div_less)
  then show "exact V' i' z = exact V i z" using j by (simp add: exact_def f)
qed

lemma same_contents:
  assumes j: "\<forall>k \<le> NDIRECT. i_addrs i' k = i_addrs i k" and V: "\<forall>b \<in> own V i. V' b = V b"
    and i: "i_size i' = i_size i" "i_dev i' = i_dev i" and ok: "file_ok V i"
  shows "contents V' i' = contents V i" "file_ok V' i'"
proof -
  note s = same_blocks [OF j V]
  have "fbyte V' i' k = fbyte V i k" if "k < unat (i_size i)" for k
    using ok that by (intro s(3)) (auto simp: file_ok_def less_mult_imp_div_less)
  then show "contents V' i' = contents V i" using i by (simp add: contents_def)
  show "file_ok V' i'" using ok i unfolding file_ok_def s(1) by simp
qed

lemma same_alloc:
  assumes j: "\<forall>k \<le> NDIRECT. i_addrs i' k = i_addrs i k" and V: "\<forall>b \<in> own V i. V' b = V b"
    and i: "i_dev i' = i_dev i" and a: "alloc_inv sp V i" and mu: "meta_used sp V'" and use: "\<forall>b \<in> own V i. in_use sp V' b"
  shows "alloc_inv sp V' i'"
proof -
  note s = same_blocks [OF j V]
  show ?thesis using a i mu use j unfolding alloc_inv_def s(1,2) by auto
qed

text \<open>An inode written to the image is read back, and the others stay.\<close>

definition wino :: "mkfs_st \<Rightarrow> uint \<Rightarrow> inode \<Rightarrow> mkfs_st" where
  "wino m inum i = (let b = IBLOCK inum mk_sb in m\<lparr>image := (image m)(unat b \<mapsto> dinode_put i (dinode_off inum) (sect m b))\<rparr>)"

lemma winode_run:
  assumes ok: "img_ok m" and inum: "unat inum < 208" and m': "m' = wino m inum i"
    and b_def: "b = IBLOCK inum mk_sb" and d_def: "d = dinode_put i (dinode_off inum) (sect m b)"
  shows "winode inum i m = Ret () m'" "img_ok m'" "gview m' = (gview m)(b := d)" "sect m' = (sect m)(b := d)"
    "i_size (din m' inum) = i_size i" "i_type (din m' inum) = i_type i" "i_nlink (din m' inum) = i_nlink i"
    "\<forall>k \<le> NDIRECT. i_addrs (din m' inum) k = i_addrs (kdev i) k"
    "\<And>j. unat j < 208 \<Longrightarrow> j \<noteq> inum \<Longrightarrow> din m' j = din m j" "freeblock m' = freeblock m" "freeinode m' = freeinode m"
proof -
  have m'_def: "m' = m\<lparr>image := (image m)(unat b \<mapsto> d)\<rparr>" using m' by (simp add: wino_def Let_def b_def d_def)
  note ib = mk_IBLOCK [OF inum, folded b_def]
  have b: "unat b < FSSIZE" "b \<noteq> 45" "unat b < unat (freeblock m)" using ib ok by (auto simp: mk_meta img_ok_def)
  note w = wsect_eq [OF ok b(1,2), of d, folded m'_def]
  show "winode inum i m = Ret () m'"
    using rsect_eq [OF ok b(1)] w(1) by (simp add: winode_def run_defs Let_def d_def b_def [symmetric])
  show "img_ok m'" "gview m' = (gview m)(b := d)" using w(2,3) b(3) by auto
  show s: "sect m' = (sect m)(b := d)" by (rule w(4))
  have "din m' inum = kdev (dinode_get d (dinode_off inum) inode0)" by (simp add: din_def s b_def)
  then show "i_size (din m' inum) = i_size i" "i_type (din m' inum) = i_type i" "i_nlink (din m' inum) = i_nlink i"
    "\<forall>k \<le> NDIRECT. i_addrs (din m' inum) k = i_addrs (kdev i) k"
    by (simp_all add: d_def dinode_get_put)
  show "din m' j = din m j" if j: "unat j < 208" "j \<noteq> inum" for j
  proof (cases "IBLOCK j mk_sb = b")
    case True
    then have "unat j div 16 = unat inum div 16" using mk_IBLOCK(1) [OF j(1)] ib(1) by simp
    moreover have "unat j \<noteq> unat inum" using j(2) by (simp add: word_unat_eq_iff)
    ultimately have "unat j mod 16 \<noteq> unat inum mod 16" by (metis div_mult_mod_eq)
    then have "inum mod IPB \<noteq> j mod IPB" by (auto simp: word_unat_eq_iff unat_mod)
    then show ?thesis using True by (simp add: din_def s d_def dinode_get_put_other)
  qed (simp add: din_def s)
  show "freeblock m' = freeblock m" "freeinode m' = freeinode m" by (simp_all add: m'_def)
qed

definition appended :: "mkfs_st \<Rightarrow> uint \<Rightarrow> uchar list \<Rightarrow> mkfs_st \<Rightarrow> bool" where
  "appended m inum p m' \<longleftrightarrow> (let V = gview m; V' = gview m'; i = din m inum; i' = din m' inum; z = unat (i_size i) in
     img_ok m' \<and> freeinode m' = freeinode m \<and> unat (freeblock m') + nb z = unat (freeblock m) + nb (z + length p) \<and>
     contents V' i' = contents V i @ p \<and> file_ok V' i' \<and> alloc_inv mk_sb V' i' \<and> exact V' i' (z + length p) \<and>
     unat (i_size i') = z + length p \<and> i_type i' = i_type i \<and> i_nlink i' = i_nlink i \<and>
     (\<forall>b \<in> own V' i'. b \<in> own V i \<or> \<not> in_use mk_sb V b) \<and>
     (\<forall>b. unat b < FSSIZE \<longrightarrow> in_use mk_sb V b \<longrightarrow> b \<notin> meta mk_sb \<longrightarrow> b \<notin> own V i \<longrightarrow> V' b = V b) \<and>
     sect m' 1 = sect m 1 \<and> (\<forall>j. unat j < 208 \<longrightarrow> j \<noteq> inum \<longrightarrow> din m' j = din m j))"

lemma iappend_run:
  assumes ok: "img_ok m" and inum: "unat inum < 208" and i: "i = din m inum" and z: "z = unat (i_size i)"
    and f: "file_ok (gview m) i" "alloc_inv mk_sb (gview m) i" "exact (gview m) i z"
    and mx: "z + length p \<le> MAXFILE * BSIZE" and room: "unat (freeblock m) + nb (z + length p) \<le> FSSIZE + nb z"
  shows "\<exists>m'. iappend inum p m = Ret () m' \<and> appended m inum p m'"
proof -
  let ?b = "IBLOCK inum mk_sb" let ?r = "dinode_get (sect m ?b) (dinode_off inum) inode0"
  note ib = mk_IBLOCK [OF inum]
  have r: "kdev ?r = i" "i_size ?r = i_size i" using i by (simp_all add: din_def)
  have "appending m ?r z p 0 m ?r" using f ok r by (simp add: appending_def rewritten_refl)
  from append_loop [OF mx room this] obtain i1 m1 where
    l: "iappend_loop (pieces z p) ?r m = Ret i1 m1" and A: "appending m ?r z p (length p) m1 i1" by auto
  let ?i = "i1\<lparr>i_size := i_size i + of_nat (length p)\<rparr>"
  have ok1: "img_ok m1" and a1: "alloc_inv mk_sb (gview m1) (kdev i1)" and rw: "rewritten mk_sb (gview m) i z (nth p) (length p) (gview m1) (kdev i1)"
    and e1: "exact (gview m1) (kdev i1) (z + length p)" and fb: "unat (freeblock m1) + nb z = unat (freeblock m) + nb (z + length p)"
    and fi: "freeinode m1 = freeinode m"
    using A r by (simp_all add: appending_def)
  let ?m = "wino m1 inum ?i"
  note w = winode_run [where i = ?i, OF ok1 inum refl refl refl]
  have sz: "unat (i_size i + of_nat (length p)) = z + length p"
    using mx z by (simp add: unat_word_ariths unat_of_nat take_bit_nat_eq_self)
  then have zm: "unat (i_size i + of_nat (length p)) = max (unat (i_size i)) (z + length p)" using z by simp
  have meta: "sect m1 c = sect m c" if "c \<in> meta mk_sb" "c \<noteq> 45" for c
  proof -
    have "\<forall>n < unat (sb_size mk_sb). c \<noteq> BBLOCK (of_nat n) mk_sb" using that(2) mk_BBLOCK by (simp add: unat_of_nat take_bit_nat_eq_self)
    from rewrittenD(9) [OF rw that(1) this] that(2) show ?thesis by (simp add: gview_def)
  qed
  note mb = meta_block [OF a1 ib(2,4)]
  have fok: "file_ok (gview m1) (kdev ?i)" using rewritten_file_ok [OF rw f(1) _ mx zm] z by simp
  have ct: "contents (gview m1) (kdev ?i) = contents (gview m) i @ p"
    using rewritten_contents [OF rw f(1) _ mx zm, of "gview m1"] z by (simp add: contents_def map_nth)
  have j: "\<forall>k \<le> NDIRECT. i_addrs (din ?m inum) k = i_addrs (kdev ?i) k" using w(8) by simp
  have V: "\<forall>c \<in> own (gview m1) (kdev ?i). gview ?m c = gview m1 c" unfolding w(3) using own_size [OF a1] ib(2) by auto
  have a2: "alloc_inv mk_sb (gview m1) (kdev ?i)" using a1 by simp
  have "meta_used mk_sb (gview ?m)" unfolding w(3) using mb(3) by (simp add: alloc_inv_def)
  moreover have "\<forall>c \<in> own (gview m1) (kdev ?i). in_use mk_sb (gview ?m) c" unfolding w(3) using own_size [OF mb(3), unfolded mb(2)] by simp
  ultimately have a3: "alloc_inv mk_sb (gview ?m) (din ?m inum)" using same_alloc [OF j V _ a2] by (simp add: din_def)
  note sc = same_contents [OF j V _ _ fok] and sb = same_blocks [OF j V]
  have same: "i_type i1 = i_type i" "i_nlink i1 = i_nlink i"
    using arg_cong [OF rewrittenD(1) [OF rw], of i_type] arg_cong [OF rewrittenD(1) [OF rw], of i_nlink] by simp_all
  have dj: "din ?m k = din m k" if "unat k < 208" "k \<noteq> inum" for k
    using w(9) [OF that] meta mk_IBLOCK [OF that(1)] by (simp add: din_def)
  have s1: "sect ?m 1 = sect m 1" using w(4) ib(5) meta [of 1] by (auto simp: mk_meta)
  have "iappend inum p m = Ret () ?m"
    using rsect_eq [OF ok, of ?b] ib l w(1) z r by (simp add: iappend_def rinode_def run_defs Let_def mk_meta)
  moreover have "appended m inum p ?m"
    unfolding appended_def Let_def i [symmetric] z [symmetric]
  proof (intro conjI ballI allI impI)
    show "contents (gview ?m) (din ?m inum) = contents (gview m) i @ p" "file_ok (gview ?m) (din ?m inum)"
      using sc ct w(5) by (simp_all add: din_def)
    show "exact (gview ?m) (din ?m inum) (z + length p)" unfolding sb(4) using e1 by (simp add: exact_def)
    show "b \<in> own (gview m) i \<or> \<not> in_use mk_sb (gview m) b" if "b \<in> own (gview ?m) (din ?m inum)" for b
      using that rewrittenD(6) [OF rw] unfolding sb(2) by simp
    show "gview ?m b = gview m b" if "unat b < FSSIZE" "in_use mk_sb (gview m) b" "b \<notin> meta mk_sb" "b \<notin> own (gview m) i" for b
      using rewrittenD(8) [OF rw, of b] that ib(2) unfolding w(3) by auto
  qed (use w sz same dj s1 fb fi a3 in simp_all)
  ultimately show ?thesis by blast
qed

section \<open>All files\<close>

text \<open>
  The files of the image so far: inode \<open>k + 1\<close> has the type and the contents that \<open>cs\<close> has at place \<open>k\<close>.
\<close>

definition file_at :: "mkfs_st \<Rightarrow> inode \<Rightarrow> ushort \<Rightarrow> uchar list \<Rightarrow> bool" where
  "file_at m i ty c \<longleftrightarrow> i_type i = ty \<and> i_nlink i = 1 \<and> contents (gview m) i = c \<and> file_ok (gview m) i \<and>
     alloc_inv mk_sb (gview m) i \<and> exact (gview m) i (length c)"

definition total :: "(ushort \<times> uchar list) list \<Rightarrow> nat" where
  "total cs = 46 + sum_list (map (\<lambda>(ty, c). nb (length c)) cs)"

definition ino :: "nat \<Rightarrow> uint" where
  "ino k = of_nat (k + 1)"

definition fs_inv :: "mkfs_st \<Rightarrow> (ushort \<times> uchar list) list \<Rightarrow> bool" where
  "fs_inv m cs \<longleftrightarrow> img_ok m \<and> freeinode m = ino (length cs) \<and> unat (freeblock m) = total cs \<and> length cs \<le> 200 \<and>
     sect m 1 = put_bytes (\<lambda>_. 0) 0 (sb_encode mk_sb) \<and>
     (\<forall>k < length cs. file_at m (din m (ino k)) (fst (cs ! k)) (snd (cs ! k))) \<and>
     (\<forall>j < length cs. \<forall>k < length cs. j \<noteq> k \<longrightarrow> own (gview m) (din m (ino j)) \<inter> own (gview m) (din m (ino k)) = {})"

lemma ino_facts: "k < 207 \<Longrightarrow> unat (ino k) = k + 1" "k < 207 \<Longrightarrow> unat (ino k) < 208"
  by (simp_all add: ino_def unat_word_ariths unat_of_nat take_bit_nat_eq_self)

lemma ino_inj: "j < 207 \<Longrightarrow> k < 207 \<Longrightarrow> ino j = ino k \<longleftrightarrow> j = k"
  using ino_facts(1) [of j] ino_facts(1) [of k] by (metis add_right_cancel)

lemma file_size: "file_at m i ty c \<Longrightarrow> unat (i_size i) = length c"
  by (auto simp: file_at_def contents_def)

lemma total_update: "k < length cs \<Longrightarrow> total (cs[k := (ty, c)]) + nb (length (snd (cs ! k))) = total cs + nb (length c)"
proof (induction cs arbitrary: k)
  case (Cons x cs)
  then show ?case by (cases k) (auto simp: total_def split: prod.splits)
qed simp

text \<open>A file whose inode and blocks did not change.\<close>

lemma file_kept:
  assumes f: "file_at m i ty c" and V: "\<forall>b \<in> own (gview m) i. gview m' b = gview m b"
    and ok: "img_ok m'" "unat (freeblock m) \<le> unat (freeblock m')"
  shows "file_at m' i ty c" "own (gview m') i = own (gview m) i"
proof -
  have r: "\<forall>k \<le> NDIRECT. i_addrs i k = i_addrs i k" by simp
  note a = f [unfolded file_at_def]
  have mu: "meta_used mk_sb (gview m')" using ok(1) by (auto simp: meta_used_def mk_meta guse img_ok_def)
  have use: "\<forall>b \<in> own (gview m) i. in_use mk_sb (gview m') b"
  proof
    fix b assume "b \<in> own (gview m) i"
    then show "in_use mk_sb (gview m') b" using own_size [of mk_sb "gview m" i b] a guse [of b m] guse [of b m'] ok(2) by simp
  qed
  show "own (gview m') i = own (gview m) i" by (rule same_blocks(2) [OF r V])
  show "file_at m' i ty c"
    using a same_contents [OF r V] same_alloc [OF r V _ _ mu use] same_blocks(4) [OF r V] by (simp add: file_at_def)
qed

lemma iappend_files:
  assumes inv: "fs_inv m cs" and k: "k < length cs" and mx: "length (snd (cs ! k)) + length p \<le> MAXFILE * BSIZE"
    and room: "total (cs[k := (fst (cs ! k), snd (cs ! k) @ p)]) \<le> FSSIZE"
  shows "\<exists>m'. iappend (ino k) p m = Ret () m' \<and> fs_inv m' (cs[k := (fst (cs ! k), snd (cs ! k) @ p)])"
proof -
  let ?i = "din m (ino k)" let ?c = "snd (cs ! k)" let ?cs = "cs[k := (fst (cs ! k), ?c @ p)]"
  have inv': "img_ok m" "freeinode m = ino (length cs)" "unat (freeblock m) = total cs" "length cs \<le> 200"
    "sect m 1 = put_bytes (\<lambda>_. 0) 0 (sb_encode mk_sb)"
    "\<And>j. j < length cs \<Longrightarrow> file_at m (din m (ino j)) (fst (cs ! j)) (snd (cs ! j))"
    "\<And>j l. j < length cs \<Longrightarrow> l < length cs \<Longrightarrow> j \<noteq> l \<Longrightarrow> own (gview m) (din m (ino j)) \<inter> own (gview m) (din m (ino l)) = {}"
    using inv by (auto simp: fs_inv_def)
  have lt: "j < 207" if "j < length cs" for j using that inv'(4) by simp
  note f = inv'(6) [OF k] and tu = total_update [OF k, of "fst (cs ! k)" "?c @ p"]
  have z: "length ?c = unat (i_size ?i)" using file_size [OF f] by simp
  have f': "file_ok (gview m) ?i" "alloc_inv mk_sb (gview m) ?i" "exact (gview m) ?i (length ?c)" using f by (simp_all add: file_at_def)
  have "unat (freeblock m) + nb (length ?c + length p) \<le> FSSIZE + nb (length ?c)" using room tu inv'(3) by simp
  from iappend_run [OF inv'(1) ino_facts(2) [OF lt [OF k]] refl z f' mx this]
  obtain m' where run: "iappend (ino k) p m = Ret () m'" and A: "appended m (ino k) p m'" by blast
  let ?i' = "din m' (ino k)"
  have ap: "img_ok m'" "freeinode m' = freeinode m" "unat (freeblock m') + nb (length ?c) = unat (freeblock m) + nb (length ?c + length p)"
    "file_at m' ?i' (fst (cs ! k)) (?c @ p)" "sect m' 1 = sect m 1"
    "\<And>b. b \<in> own (gview m') ?i' \<Longrightarrow> b \<in> own (gview m) ?i \<or> \<not> in_use mk_sb (gview m) b"
    "\<And>b. unat b < FSSIZE \<Longrightarrow> in_use mk_sb (gview m) b \<Longrightarrow> b \<notin> meta mk_sb \<Longrightarrow> b \<notin> own (gview m) ?i \<Longrightarrow> gview m' b = gview m b"
    "\<And>j. j < length cs \<Longrightarrow> j \<noteq> k \<Longrightarrow> din m' (ino j) = din m (ino j)"
    using A f z ino_inj [OF lt lt] ino_facts(2) [OF lt] k unfolding appended_def Let_def by (auto simp: file_at_def)
  have "nb (length ?c) \<le> nb (length ?c + length p)" by (rule nb_mono) simp
  then have fb: "unat (freeblock m') = total ?cs" "unat (freeblock m) \<le> unat (freeblock m')" using ap(3) tu inv'(3) by simp_all
  have other: "file_at m' (din m' (ino j)) (fst (cs ! j)) (snd (cs ! j))" "own (gview m') (din m' (ino j)) = own (gview m) (din m (ino j))"
    if j: "j < length cs" "j \<noteq> k" for j
  proof -
    have "alloc_inv mk_sb (gview m) (din m (ino j))" using inv'(6) [OF j(1)] by (simp add: file_at_def)
    then have V: "\<forall>b \<in> own (gview m) (din m (ino j)). gview m' b = gview m b"
      using own_size [of mk_sb "gview m" "din m (ino j)"] inv'(7) [OF j(1) k j(2)] ap(7) by (metis disjoint_iff mk_sb_sel(1) unat_numeral_2000)
    show "file_at m' (din m' (ino j)) (fst (cs ! j)) (snd (cs ! j))" "own (gview m') (din m' (ino j)) = own (gview m) (din m (ino j))"
      using file_kept [OF inv'(6) [OF j(1)] V ap(1) fb(2)] ap(8) [OF j] by auto
  qed
  have dj: "own (gview m') ?i' \<inter> own (gview m') (din m' (ino j)) = {}" if j: "j < length cs" "j \<noteq> k" for j
    using ap(6) other(2) [OF j] inv'(7) [OF k j(1)] j own_size [of mk_sb "gview m" "din m (ino j)"] inv'(6) [OF j(1)] by (auto simp: file_at_def)
  have "fs_inv m' ?cs"
    unfolding fs_inv_def
  proof (intro conjI allI impI)
    show "file_at m' (din m' (ino j)) (fst (?cs ! j)) (snd (?cs ! j))" if "j < length ?cs" for j
      using that ap(4) other(1) by (cases "j = k") auto
    show "own (gview m') (din m' (ino j)) \<inter> own (gview m') (din m' (ino l)) = {}" if "j < length ?cs" "l < length ?cs" "j \<noteq> l" for j l
      using that dj [of j] dj [of l] other(2) inv'(7) [of j l] by (cases "j = k"; cases "l = k") (simp_all add: Int_commute)
  qed (use ap inv' fb in simp_all)
  then show ?thesis using run by blast
qed

lemma ialloc_files:
  assumes inv: "fs_inv m cs" and l: "length cs < 200"
  shows "\<exists>m'. mk_ialloc ty m = Ret (ino (length cs)) m' \<and> fs_inv m' (cs @ [(ty, [])])"
proof -
  let ?n = "ino (length cs)" let ?m = "m\<lparr>freeinode := ?n + 1\<rparr>" let ?i = "inode0\<lparr>i_type := ty, i_nlink := 1, i_size := 0\<rparr>"
  let ?m' = "wino ?m ?n ?i"
  have inv': "img_ok m" "freeinode m = ino (length cs)" "unat (freeblock m) = total cs" "sect m 1 = put_bytes (\<lambda>_. 0) 0 (sb_encode mk_sb)"
    "\<And>j. j < length cs \<Longrightarrow> file_at m (din m (ino j)) (fst (cs ! j)) (snd (cs ! j))"
    "\<And>j l. j < length cs \<Longrightarrow> l < length cs \<Longrightarrow> j \<noteq> l \<Longrightarrow> own (gview m) (din m (ino j)) \<inter> own (gview m) (din m (ino l)) = {}"
    using inv by (auto simp: fs_inv_def)
  have s: "sect ?m = sect m" "gview ?m = gview m" "din ?m = din m" by (simp_all add: fun_eq_iff sect_def gview_def din_def)
  have ok: "img_ok ?m" using inv'(1) unfolding img_ok_def s by simp
  have inum: "unat ?n < 208" using ino_facts(2) l by simp
  note w = winode_run [where i = ?i, OF ok inum refl refl refl, unfolded s]
  note ib = mk_IBLOCK [OF inum]
  have run: "mk_ialloc ty m = Ret ?n ?m'" using w(1) inv'(2) by (simp add: mk_ialloc_def run_defs inode0_def)
  have z: "\<forall>k \<le> NDIRECT. i_addrs (din ?m' ?n) k = 0" using w(8) by (simp add: inode0_def)
  then have new: "fblk V (din ?m' ?n) bn = 0" "own V (din ?m' ?n) = {}" for V bn by (auto simp: fblk_def own_def)
  have mu: "meta_used mk_sb (gview ?m')" using w(2) by (auto simp: meta_used_def mk_meta guse img_ok_def)
  have nf: "file_at ?m' (din ?m' ?n) ty []"
    using w(5,6,7) z new mu mk_sb_ok by (simp add: file_at_def contents_def file_ok_def alloc_inv_def exact_def din_def)
  have other: "file_at ?m' (din ?m' (ino j)) (fst (cs ! j)) (snd (cs ! j))" "own (gview ?m') (din ?m' (ino j)) = own (gview m) (din m (ino j))"
    if j: "j < length cs" for j
  proof -
    have V: "\<forall>b \<in> own (gview m) (din m (ino j)). gview ?m' b = gview m b"
      unfolding w(3) using own_size [of mk_sb "gview m" "din m (ino j)"] inv'(5) [OF j] ib(2) by (auto simp: file_at_def)
    have "din ?m' (ino j) = din m (ino j)" using w(9) [of "ino j"] ino_facts(2) [of j] ino_inj [of j "length cs"] j l by auto
    then show "file_at ?m' (din ?m' (ino j)) (fst (cs ! j)) (snd (cs ! j))" "own (gview ?m') (din ?m' (ino j)) = own (gview m) (din m (ino j))"
      using file_kept [OF inv'(5) [OF j] V w(2)] w(10) by auto
  qed
  have "fs_inv ?m' (cs @ [(ty, [])])"
    unfolding fs_inv_def
  proof (intro conjI allI impI)
    let ?cs = "cs @ [(ty, [])]"
    show "file_at ?m' (din ?m' (ino j)) (fst (?cs ! j)) (snd (?cs ! j))" if "j < length ?cs" for j
      using that nf other(1) by (cases "j = length cs") (auto simp: nth_append)
    show "own (gview ?m') (din ?m' (ino j)) \<inter> own (gview ?m') (din ?m' (ino l)) = {}" if "j < length ?cs" "l < length ?cs" "j \<noteq> l" for j l
      using that new(2) other(2) inv'(6) [of j l] by (cases "j = length cs"; cases "l = length cs") auto
    show "sect ?m' 1 = put_bytes (\<lambda>_. 0) 0 (sb_encode mk_sb)" using w(4) ib(5) inv'(4) by auto
    show "unat (freeblock ?m') = total ?cs" using w(10) inv'(3) by (simp add: total_def nb_def)
    show "freeinode ?m' = ino (length ?cs)" using w(11) by (simp add: ino_def)
  qed (use w(2) l in simp_all)
  then show ?thesis using run by blast
qed

section \<open>The whole program\<close>

lemma fold_appends:
  assumes "k < length cs" "length (snd (cs ! k) @ concat rds) \<le> MAXFILE * BSIZE" "total (cs[k := (fst (cs ! k), snd (cs ! k) @ concat rds)]) \<le> FSSIZE"
    and "fs_inv m cs"
  shows "\<exists>m'. kforeach rds (iappend (ino k)) m = Ret () m' \<and> fs_inv m' (cs[k := (fst (cs ! k), snd (cs ! k) @ concat rds)])"
  using assms
proof (induction rds arbitrary: cs m)
  case Nil
  then show ?case by (simp add: run_defs)
next
  case (Cons p rds)
  let ?cs = "cs[k := (fst (cs ! k), snd (cs ! k) @ p)]"
  have "nb (length (snd (cs ! k) @ p)) \<le> nb (length (snd (cs ! k) @ concat (p # rds)))" by (intro nb_mono) simp
  then have r: "total ?cs \<le> FSSIZE"
    using Cons.prems(3) total_update [OF Cons.prems(1), of "fst (cs ! k)" "snd (cs ! k) @ p"]
      total_update [OF Cons.prems(1), of "fst (cs ! k)" "snd (cs ! k) @ concat (p # rds)"] by simp
  obtain m1 where 1: "iappend (ino k) p m = Ret () m1" "fs_inv m1 ?cs"
    using iappend_files [OF Cons.prems(4,1) _ r] Cons.prems(2) by auto
  then show ?case using Cons.IH [of ?cs m1] Cons.prems(1,2,3) by (auto simp: run_defs)
qed

text \<open>The name a file gets, its entry in the root directory, and the files of the image.\<close>

definition stored_name :: "uchar list \<Rightarrow> uchar list" where
  "stored_name arg = (let name = shortname arg in if take 1 name = [of_char CHR ''_''] then drop 1 name else name)"

definition root_dir :: "uchar list list \<Rightarrow> uchar list" where
  "root_dir names = dirent_bytes 1 (map of_char ''.'') @ dirent_bytes 1 (map of_char ''..'') @
     concat (map (\<lambda>(k, arg). dirent_bytes (of_nat (k + 2)) (stored_name arg)) (List.enumerate 0 names))"

definition mk_files :: "(uchar list \<times> uchar list list) list \<Rightarrow> (ushort \<times> uchar list) list" where
  "mk_files fs = (T_DIR, root_dir (map fst fs)) # map (\<lambda>(arg, rds). (T_FILE, concat rds)) fs"

lemma length_dirent [simp]: "length (dirent_bytes n name) = 16"
  by (simp add: dirent_bytes_def)

lemma length_root_dir: "length (root_dir names) = 16 * (length names + 2)"
proof -
  have "length (concat (map (\<lambda>(k, arg). dirent_bytes (of_nat (k + 2)) (stored_name arg)) (List.enumerate n names))) = 16 * length names" for n
    by (induction names arbitrary: n) simp_all
  then show ?thesis by (simp add: root_dir_def)
qed

lemma root_dir_snoc: "root_dir (names @ [x]) = root_dir names @ dirent_bytes (of_nat (length names + 2)) (stored_name x)"
  by (simp add: root_dir_def enumerate_append_eq)

lemma nb_0 [simp]: "nb 0 = 0"
  by (simp add: nb_def)

lemma total_append: "total (xs @ ys) = total xs + sum_list (map (\<lambda>(ty, c). nb (length c)) ys)"
  by (simp add: total_def)

lemma ucast_inum: "n < 65536 \<Longrightarrow> ucast (of_nat n :: uint) = (of_nat n :: ushort)"
  by (simp add: unsigned_of_nat take_bit_nat_eq_self)

text \<open>An argument whose name has no slash, and whose contents fit a file.\<close>

definition arg_ok :: "uchar list \<times> uchar list list \<Rightarrow> bool" where
  "arg_ok = (\<lambda>(arg, rds). SLASH \<notin> set (shortname arg) \<and> length (concat rds) \<le> MAXFILE * BSIZE)"

lemma add_file_run:
  assumes inv: "fs_inv m (mk_files fs)" and l: "length fs < 199" and a: "arg_ok (arg, rds)"
    and room: "total (mk_files (fs @ [(arg, rds)])) \<le> FSSIZE"
  shows "\<exists>m'. add_file 1 (arg, Some rds) m = Ret () m' \<and> fs_inv m' (mk_files (fs @ [(arg, rds)]))"
proof -
  let ?cs1 = "mk_files fs @ [(T_FILE, [])]" let ?n = "length (mk_files fs)"
  let ?d = "dirent_bytes (of_nat (length fs + 2)) (stored_name arg)"
  let ?cs2 = "?cs1[0 := (T_DIR, root_dir (map fst fs) @ ?d)]"
  have n: "?n = length fs + 1" "?n < 200" using l by (simp_all add: mk_files_def)
  have 0: "?cs1 ! 0 = (T_DIR, root_dir (map fst fs))" "0 < length ?cs1" by (simp_all add: mk_files_def)
  have c2: "?cs2 = (T_DIR, root_dir (map fst (fs @ [(arg, rds)]))) # map (\<lambda>(arg, rds). (T_FILE, concat rds)) fs @ [(T_FILE, [])]"
    by (simp add: mk_files_def root_dir_snoc)
  have c3: "?cs2[?n := (T_FILE, concat rds)] = mk_files (fs @ [(arg, rds)])"
    unfolding c2 n by (simp add: mk_files_def list_update_append)
  have cn: "?cs2 ! ?n = (T_FILE, [])" "?n < length ?cs2" unfolding c2 n by (simp_all add: nth_append)
  have "total ?cs2 \<le> FSSIZE"
    using room total_update [OF cn(2), of T_FILE "concat rds"] unfolding c3 cn by simp
  then have r2: "total (?cs1[0 := (fst (?cs1 ! 0), snd (?cs1 ! 0) @ ?d)]) \<le> FSSIZE" unfolding 0 by simp
  obtain m1 where 1: "mk_ialloc T_FILE m = Ret (ino ?n) m1" "fs_inv m1 ?cs1" using ialloc_files [OF inv n(2)] by blast
  have sz: "length (snd (?cs1 ! 0)) + length ?d \<le> MAXFILE * BSIZE" unfolding 0 using l by (simp add: length_root_dir)
  obtain m2 where 2: "iappend (ino 0) ?d m1 = Ret () m2" "fs_inv m2 ?cs2"
    using iappend_files [OF 1(2) 0(2) sz r2] unfolding 0 by auto
  have "length (snd (?cs2 ! ?n) @ concat rds) \<le> MAXFILE * BSIZE" unfolding cn using a by (simp add: arg_ok_def)
  moreover have "total (?cs2[?n := (fst (?cs2 ! ?n), snd (?cs2 ! ?n) @ concat rds)]) \<le> FSSIZE"
    using room by (simp only: cn fst_conv snd_conv append_Nil c3)
  ultimately obtain m3 where 3: "kforeach rds (iappend (ino ?n)) m2 = Ret () m3" "fs_inv m3 (mk_files (fs @ [(arg, rds)]))"
    using fold_appends [OF cn(2) _ _ 2(2), of rds] by (auto simp only: cn fst_conv snd_conv append_Nil c3)
  have "ino 0 = 1" "ino ?n = of_nat (length fs + 2)" unfolding n by (simp_all add: ino_def)
  moreover have "ucast (of_nat (length fs + 2) :: uint) = (of_nat (length fs + 2) :: ushort)"
    by (rule ucast_inum) (use l in simp)
  ultimately have "ino 0 = 1" "xshort (ucast (ino ?n)) = of_nat (length fs + 2)" by (simp_all del: of_nat_add)
  then have "add_file 1 (arg, Some rds) m = Ret () m3"
    using 1(1) 2(1) 3(1) a by (simp add: add_file_def arg_ok_def stored_name_def Let_def run_defs)
  with 3(2) show ?thesis by blast
qed

lemma add_files_run:
  "fs_inv m (mk_files fs) \<Longrightarrow> length fs + length gs \<le> 199 \<Longrightarrow> list_all arg_ok gs \<Longrightarrow> total (mk_files (fs @ gs)) \<le> FSSIZE \<Longrightarrow>
    \<exists>m'. kforeach (map (\<lambda>(arg, rds). (arg, Some rds)) gs) (add_file 1) m = Ret () m' \<and> fs_inv m' (mk_files (fs @ gs))"
proof (induction gs arbitrary: fs m)
  case Nil
  then show ?case by (simp add: run_defs)
next
  case (Cons g gs)
  obtain arg rds where g: "g = (arg, rds)" by (cases g)
  have "nb (length (root_dir (map fst (fs @ [g])))) \<le> nb (length (root_dir (map fst (fs @ g # gs))))"
    by (intro nb_mono) (simp add: length_root_dir)
  then have "total (mk_files (fs @ [g])) \<le> FSSIZE" using Cons.prems(4) by (simp add: mk_files_def total_def)
  then obtain m1 where "add_file 1 (arg, Some rds) m = Ret () m1" "fs_inv m1 (mk_files (fs @ [g]))"
    using add_file_run [OF Cons.prems(1)] Cons.prems(2,3) g by auto
  then show ?case using Cons.IH [of m1 "fs @ [g]"] Cons.prems g by (auto simp: run_defs)
qed

lemma zero_image: "n \<le> FSSIZE \<Longrightarrow> kforeach [0..<n] (\<lambda>i. wsect (of_nat i) (\<lambda>_. 0)) m =
  Ret () (m\<lparr>image := (\<lambda>k. if k < n then Some (\<lambda>_. 0) else image m k)\<rparr>)"
proof -
  assume n: "n \<le> FSSIZE"
  have "wp (kforeach [0..<n] (\<lambda>i. wsect (of_nat i) (\<lambda>_. 0))) (\<lambda>_ t. t = m\<lparr>image := (\<lambda>k. if k < n then Some (\<lambda>_. 0) else image m k)\<rparr>) m"
  proof (rule wp_kforeach_inv [where I = "\<lambda>ys t. t = m\<lparr>image := (\<lambda>k. if k < length ys then Some (\<lambda>_. 0) else image m k)\<rparr>"])
    fix ys i zs t assume e: "[0..<n] = ys @ i # zs" and t: "t = m\<lparr>image := (\<lambda>k. if k < length ys then Some (\<lambda>_. 0) else image m k)\<rparr>"
    have "length ys < n" using arg_cong [OF e, of length] by simp
    moreover have "[0..<n] ! length ys = i" unfolding e by simp
    ultimately have i: "i = length ys" "i < n" by auto
    then have "sector (of_nat i) = i" using n sector_small [of "of_nat i"] by (simp add: unat_of_nat take_bit_nat_eq_self)
    then show "wp (wsect (of_nat i) (\<lambda>_. 0)) (\<lambda>_ t. t = m\<lparr>image := (\<lambda>k. if k < length (ys @ [i]) then Some (\<lambda>_. 0) else image m k)\<rparr>) t"
      using t i by (auto simp: wsect_def wp_simps fun_eq_iff less_Suc_eq)
  qed simp_all
  then show ?thesis by (auto simp: wp_iff_Ret)
qed

lemma get32_concat: "k < length ws \<Longrightarrow> get32 (put_bytes b n (concat (map (le_bytes 4) ws))) (n + 4 * k) = (ws ! k :: uint)"
proof (induction ws arbitrary: b n k)
  case (Cons w ws)
  have "put_bytes b n (concat (map (le_bytes 4) (w # ws))) = put_bytes (put32 b n w) (n + 4) (concat (map (le_bytes 4) ws))"
    by (auto simp: fun_eq_iff put_bytes_def put32_def nth_append)
  then show ?case
  proof (cases k)
    case 0
    then show ?thesis using \<open>put_bytes b n _ = _\<close> by (simp add: get32_def put32_def get_put_bytes_other get_put_bytes_same le_word_le_bytes)
  next
    case (Suc j)
    then show ?thesis using \<open>put_bytes b n _ = _\<close> Cons.IH [of j "put32 b n w" "n + 4"] Cons.prems by (simp add: algebra_simps)
  qed
qed simp

lemma sb_round_trip: "sb_decode (put_bytes b 0 (sb_encode sp)) = sp"
proof -
  have "get32 (put_bytes b 0 (sb_encode sp)) (4 * k) = [sb_magic sp, sb_size sp, sb_nblocks sp, sb_ninodes sp, sb_nlog sp,
     sb_logstart sp, sb_inodestart sp, sb_bmapstart sp] ! k" if "k < 8" for k
    using get32_concat [of k "[sb_magic sp, sb_size sp, sb_nblocks sp, sb_ninodes sp, sb_nlog sp,
     sb_logstart sp, sb_inodestart sp, sb_bmapstart sp]" b 0] that by (simp add: sb_encode_def)
  from this [of 0] this [of 1] this [of 2] this [of 3] this [of 4] this [of 5] this [of 6] this [of 7]
  show ?thesis by (simp add: sb_decode_def)
qed

text \<open>The end of the program: the root directory's size is rounded up, and the free map is written.\<close>

definition root_size :: "nat \<Rightarrow> nat" where
  "root_size z = (z div BSIZE + 1) * BSIZE"

lemma end_run:
  assumes inv: "fs_inv m cs" and cs: "0 < length cs" and z: "z = length (snd (cs ! 0))" "z < MAXFILE * BSIZE"
  defines "prog \<equiv> kdo [kbind (rinode 1) (\<lambda>din. let off = (xint (i_size din) div of_nat BSIZE + 1) * of_nat BSIZE in
         winode 1 (din\<lparr>i_size := xint off\<rparr>)), kbind (kgets freeblock) mk_balloc]"
  shows "\<exists>m'. prog m = Ret () m' \<and> sect m' 1 = sect m 1 \<and> (\<forall>n < FSSIZE. blk_free mk_sb (sect m') n \<longleftrightarrow> total cs \<le> n) \<and>
    (\<exists>m2. sect m' = gview m2 \<and> img_ok m2 \<and> freeblock m2 = freeblock m \<and> (\<forall>k < length cs. k \<noteq> 0 \<longrightarrow> din m' (ino k) = din m (ino k)) \<and>
      (\<forall>b. b \<notin> meta mk_sb \<longrightarrow> gview m2 b = gview m b) \<and>
      i_type (din m' 1) = i_type (din m 1) \<and> i_nlink (din m' 1) = i_nlink (din m 1) \<and> unat (i_size (din m' 1)) = root_size z \<and>
      (\<forall>k \<le> NDIRECT. i_addrs (din m' 1) k = i_addrs (din m 1) k))"
proof -
  have inv': "img_ok m" "unat (freeblock m) = total cs" "length cs \<le> 200" "file_at m (din m (ino 0)) (fst (cs ! 0)) (snd (cs ! 0))"
    using inv cs by (auto simp: fs_inv_def)
  have i0: "ino 0 = 1" by (simp add: ino_def)
  let ?b = "IBLOCK 1 mk_sb" let ?r = "dinode_get (sect m ?b) (dinode_off 1) inode0"
  let ?o = "(i_size ?r div of_nat BSIZE + 1) * of_nat BSIZE"
  have n1: "unat (1 :: uint) < 208" by simp
  note ib = mk_IBLOCK [OF n1]
  have r: "kdev ?r = din m 1" "unat (i_size ?r) = z" using file_size [OF inv'(4)] z(1) by (simp_all add: din_def i0)
  let ?m = "wino m 1 (?r\<lparr>i_size := ?o\<rparr>)"
  note w = winode_run [where i = "?r\<lparr>i_size := ?o\<rparr>", OF inv'(1) n1 refl refl refl]
  have "z div BSIZE < MAXFILE" using z(2) by (simp add: less_mult_imp_div_less)
  then have o: "unat ?o = root_size z" using r(2) by (simp add: root_size_def unat_word_ariths unat_div)
  have f: "unat (freeblock m) \<le> FSSIZE" using inv'(1) by (simp add: img_ok_def)
  then have si: "sint (freeblock m) = int (unat (freeblock m))" by (intro sint_unat) simp
  let ?m' = "?m\<lparr>image := (image ?m)(45 \<mapsto> bitmap (unat (freeblock m)))\<rparr>"
  have "wsect 45 (bitmap (unat (freeblock m))) ?m = Ret () ?m'" by (simp add: wsect_def sector_small run_defs)
  moreover have "sint (freeblock m) < int (BSIZE * 8)" "nat (sint (freeblock m)) = unat (freeblock m)" unfolding si using f by linarith simp
  ultimately have "mk_balloc (freeblock ?m) ?m = Ret () ?m'" using w(10) by (simp add: mk_balloc_def bitmap_def)
  moreover have "rinode 1 m = Ret ?r m" using rsect_eq [OF inv'(1), of ?b] ib by (simp add: rinode_def run_defs mk_meta)
  ultimately have run: "prog m = Ret () ?m'" using w(1) by (simp add: prog_def run_defs Let_def)
  have s: "sect ?m' = gview ?m" using w(10) by (auto simp: fun_eq_iff sect_def gview_def word_unat_eq_iff)
  have d: "din ?m' k = din ?m k" if "unat k < 208" for k
    using mk_IBLOCK(3) [OF that] s by (simp add: din_def gview_def)
  have "gview ?m b = gview m b" if "b \<notin> meta mk_sb" for b unfolding w(3) using that ib(2) by auto
  moreover have "din ?m' (ino k) = din m (ino k)" if "k < length cs" "k \<noteq> 0" for k
    using that d [OF ino_facts(2)] w(9) [OF ino_facts(2)] ino_inj [of k 0] inv'(3) i0 by auto
  moreover have "sect ?m' 1 = sect m 1" unfolding s using w(4) ib(5) by (simp add: gview_def)
  moreover have "\<forall>n < FSSIZE. blk_free mk_sb (sect ?m') n \<longleftrightarrow> total cs \<le> n" unfolding s using gfree w(10) inv'(2) by simp
  moreover have "i_type (din m 1) = i_type ?r" "i_nlink (din m 1) = i_nlink ?r" "i_addrs (din m 1) = i_addrs ?r" using r(1) by (metis kdev_sel)+
  ultimately show ?thesis using run s w d [OF n1] o by (intro exI [of _ ?m'] conjI exI [of _ ?m]) simp_all
qed

lemma final_files:
  assumes inv: "fs_inv m cs" and ok: "img_ok m2" "freeblock m2 = freeblock m" and V: "\<forall>b. b \<notin> meta mk_sb \<longrightarrow> gview m2 b = gview m b"
    and k: "k < length cs" and i: "\<forall>l \<le> NDIRECT. i_addrs i l = i_addrs (din m (ino k)) l" "i_dev i = ROOTDEV"
  shows "alloc_inv mk_sb (gview m2) i" "own (gview m2) i = own (gview m) (din m (ino k))" "exact (gview m2) i (length (snd (cs ! k)))"
    "\<And>bn. fblk (gview m2) i bn = fblk (gview m) (din m (ino k)) bn"
    "i_size i = i_size (din m (ino k)) \<Longrightarrow> contents (gview m2) i = snd (cs ! k) \<and> file_ok (gview m2) i"
    "\<And>j. j < length (snd (cs ! k)) \<Longrightarrow> fbyte (gview m2) i j = snd (cs ! k) ! j"
proof -
  let ?i = "din m (ino k)"
  have f: "file_at m ?i (fst (cs ! k)) (snd (cs ! k))" using inv k by (simp add: fs_inv_def)
  note a = f [unfolded file_at_def]
  have V': "\<forall>b \<in> own (gview m) ?i. gview m2 b = gview m b" using own_size [of mk_sb "gview m" ?i] a V by blast
  have le: "unat (freeblock m) \<le> unat (freeblock m2)" using ok(2) by simp
  have kept: "alloc_inv mk_sb (gview m2) ?i" "own (gview m2) ?i = own (gview m) ?i"
    using file_kept [OF f V' ok(1) le] by (simp_all add: file_at_def)
  have use: "\<forall>b \<in> own (gview m) ?i. in_use mk_sb (gview m2) b" using own_size [OF kept(1)] unfolding kept(2) by simp
  have mu: "meta_used mk_sb (gview m2)" using kept(1) by (simp add: alloc_inv_def)
  have dev: "i_dev i = i_dev ?i" using i(2) by (simp add: din_def)
  note s = same_blocks [OF i(1) V']
  show "alloc_inv mk_sb (gview m2) i" using same_alloc [OF i(1) V' dev _ mu use] a by simp
  show "own (gview m2) i = own (gview m) ?i" "exact (gview m2) i (length (snd (cs ! k)))" "\<And>bn. fblk (gview m2) i bn = fblk (gview m) ?i bn"
    using s a by simp_all
  show "contents (gview m2) i = snd (cs ! k) \<and> file_ok (gview m2) i" if "i_size i = i_size ?i"
    using same_contents [OF i(1) V' that dev] a by simp
  show "fbyte (gview m2) i j = snd (cs ! k) ! j" if j: "j < length (snd (cs ! k))" for j
  proof -
    have "j < unat (i_size ?i)" using j file_size [OF f] by simp
    then have "fbyte (gview m2) i j = fbyte (gview m) ?i j" using a by (intro s(3)) (auto simp: file_ok_def less_mult_imp_div_less)
    moreover have "contents (gview m) ?i ! j = fbyte (gview m) ?i j" using \<open>j < unat (i_size ?i)\<close> by (simp add: contents_def)
    ultimately show ?thesis using a by simp
  qed
qed

lemma root_contents:
  assumes V: "exact V i z" "\<And>j. j < z \<Longrightarrow> fbyte V i j = c ! j" and z: "length c = z" "z < MAXFILE * BSIZE" "z mod BSIZE \<noteq> 0"
    and i: "unat (i_size i) = root_size z" "i_dev i = ROOTDEV"
  shows "contents V i = c @ replicate (BSIZE - z mod BSIZE) 0" "file_ok V i"
proof -
  obtain q r where qr: "z = q * BSIZE + r" "r < BSIZE" "z div BSIZE = q" "z mod BSIZE = r" using split_block [of z] by metis
  have q: "q < MAXFILE" using z(2) qr(1) by simp
  have R: "root_size z = q * BSIZE + BSIZE" "root_size z = z + (BSIZE - r)" using qr by (simp_all add: root_size_def)
  have blk: "j div BSIZE < MAXFILE \<and> fblk V i (j div BSIZE) \<noteq> 0" if "j < root_size z" for j
  proof -
    have "j div BSIZE < q + 1" using that R(1) by (simp add: less_mult_imp_div_less)
    then have jq: "j div BSIZE \<le> q" by simp
    then have "j div BSIZE * BSIZE \<le> q * BSIZE" by (rule mult_le_mono1)
    moreover have "0 < r" using qr(4) z(3) by simp
    ultimately have "j div BSIZE * BSIZE < z" using qr(1) by linarith
    then show ?thesis using V(1) jq q by (simp add: exact_def)
  qed
  then show "file_ok V i" using i R(1) q by (auto simp: file_ok_def)
  show "contents V i = c @ replicate (BSIZE - z mod BSIZE) 0"
  proof (rule nth_equalityI)
    show "length (contents V i) = length (c @ replicate (BSIZE - z mod BSIZE) 0)" using i(1) R(2) z(1) qr(4) by (simp add: contents_def)
    fix j assume "j < length (contents V i)"
    then have j: "j < root_size z" using i(1) by (simp add: contents_def)
    have "fbyte V i j = 0" if "z \<le> j" using V(1) that blk [OF j] j R(1) q by (simp add: exact_def)
    then show "contents V i ! j = (c @ replicate (BSIZE - z mod BSIZE) 0) ! j"
      using j i(1) V(2) [of j] z(1) R(2) qr(4) by (auto simp: contents_def nth_append)
  qed
qed

lemma start_run:
  "\<exists>m. kdo [kforeach [0..<FSSIZE] (\<lambda>i. wsect (of_nat i) (\<lambda>_. 0)), wsect 1 (put_bytes (\<lambda>_. 0) 0 (sb_encode mk_sb))] mkfs_start = Ret () m \<and> fs_inv m []"
proof -
  let ?z = "mkfs_start\<lparr>image := (\<lambda>k. if k < FSSIZE then Some (\<lambda>_. 0) else None)\<rparr>"
  let ?m = "?z\<lparr>image := (image ?z)(1 \<mapsto> put_bytes (\<lambda>_. 0) 0 (sb_encode mk_sb))\<rparr>"
  have z: "kforeach [0..<FSSIZE] (\<lambda>i. wsect (of_nat i) (\<lambda>_. 0)) mkfs_start = Ret () ?z"
    using zero_image [of FSSIZE mkfs_start] by (simp add: mkfs_start_def cong: if_cong)
  have ok: "img_ok ?z" by (simp add: img_ok_def sect_def mkfs_start_def)
  have "wsect 1 (put_bytes (\<lambda>_. 0) 0 (sb_encode mk_sb)) ?z = Ret () ?m" by (simp add: wsect_def sector_small run_defs)
  moreover have "img_ok ?m" "sect ?m 1 = put_bytes (\<lambda>_. 0) 0 (sb_encode mk_sb)"
    using wsect_eq(3,4) [OF ok, of 1 "put_bytes (\<lambda>_. 0) 0 (sb_encode mk_sb)"] by (simp_all add: mkfs_start_def)
  then have "fs_inv ?m []" by (simp add: fs_inv_def total_def ino_def mkfs_start_def)
  moreover have "kdo [kforeach [0..<FSSIZE] (\<lambda>i. wsect (of_nat i) (\<lambda>_. 0)), wsect 1 (put_bytes (\<lambda>_. 0) 0 (sb_encode mk_sb))] mkfs_start = Ret () ?m"
    using z calculation(1) by (simp add: run_defs del: upt_Suc)
  ultimately show ?thesis by blast
qed

lemma root_run:
  assumes "fs_inv m []"
  shows "\<exists>m'. kbind (mk_ialloc T_DIR) (\<lambda>r. kthen [iappend r (dirent_bytes (xshort (ucast r)) (map of_char ''.'')),
      iappend r (dirent_bytes (xshort (ucast r)) (map of_char ''..''))] (kreturn r)) m = Ret 1 m' \<and> fs_inv m' (mk_files [])"
proof -
  have i0: "ino 0 = 1" by (simp add: ino_def)
  let ?a = "dirent_bytes 1 (map of_char ''.'')" let ?b = "dirent_bytes 1 (map of_char ''..'')"
  obtain m1 where 1: "mk_ialloc T_DIR m = Ret 1 m1" "fs_inv m1 [(T_DIR, [])]" using ialloc_files [OF assms, of T_DIR] i0 by auto
  have t: "total [(T_DIR, ?a)] = 47" "total [(T_DIR, ?a @ ?b)] = 47" by (simp_all add: total_def nb_def)
  obtain m2 where 2: "iappend 1 ?a m1 = Ret () m2" "fs_inv m2 [(T_DIR, ?a)]"
    using iappend_files [OF 1(2), of 0 ?a] t i0 by auto
  obtain m3 where 3: "iappend 1 ?b m2 = Ret () m3" "fs_inv m3 [(T_DIR, ?a @ ?b)]"
    using iappend_files [OF 2(2), of 0 ?b] t i0 by auto
  have "mk_files [] = [(T_DIR, ?a @ ?b)]" by (simp add: mk_files_def root_dir_def)
  then show ?thesis using 1(1) 2(1) 3 by (simp add: run_defs)
qed

lemma main_run:
  assumes "kdo [kforeach [0..<FSSIZE] (\<lambda>i. wsect (of_nat i) (\<lambda>_. 0)), wsect 1 (put_bytes (\<lambda>_. 0) 0 (sb_encode mk_sb))] mkfs_start = Ret () m1"
    "kbind (mk_ialloc T_DIR) (\<lambda>r. kthen [iappend r (dirent_bytes (xshort (ucast r)) (map of_char ''.'')),
      iappend r (dirent_bytes (xshort (ucast r)) (map of_char ''..''))] (kreturn r)) m1 = Ret 1 m2"
    "kforeach files (add_file 1) m2 = Ret () m3"
    "kdo [kbind (rinode 1) (\<lambda>din. let off = (xint (i_size din) div of_nat BSIZE + 1) * of_nat BSIZE in
         winode 1 (din\<lparr>i_size := xint off\<rparr>)), kbind (kgets freeblock) mk_balloc] m3 = Ret () m"
  shows "mkfs_main files mkfs_start = Ret () m"
  using assms unfolding mkfs_main_def
  by (auto simp: run_defs Let_def simp del: upt_Suc split: outcome.splits)

text \<open>
  C3: \<open>mkfs\<close> builds the file system it was asked for. If the names have no slash, every file fits, and the blocks
  they need, indirect blocks included, are not more than the disk has, the program ends without an error.
  The image then has the super block \<open>mk_sb\<close>. For every argument there is an inode of type \<open>T_FILE\<close> whose
  contents, read the way the kernel reads them, are exactly what the file held, and the root directory's are the
  entries \<open>.\<close>, \<open>..\<close> and one per file with its name and inode number, padded with zeros to a block. Each file
  satisfies the invariant the kernel's operations keep, no two share a block, and the free map marks
  exactly the blocks up to the last one used.
\<close>

theorem mkfs_image_holds_files:
  assumes fs: "length fs \<le> 198" "list_all arg_ok fs" "total (mk_files fs) \<le> FSSIZE" and z: "z = length (root_dir (map fst fs))"
  shows "\<exists>m. mkfs_main (map (\<lambda>(arg, rds). (arg, Some rds)) fs) mkfs_start = Ret () m \<and> sb_decode (sect m 1) = mk_sb \<and>
    (\<forall>k < length fs. i_type (din m (ino (k + 1))) = T_FILE \<and> contents (sect m) (din m (ino (k + 1))) = concat (snd (fs ! k)) \<and>
       file_ok (sect m) (din m (ino (k + 1)))) \<and>
    i_type (din m ROOTINO) = T_DIR \<and> (z mod BSIZE \<noteq> 0 \<longrightarrow> file_ok (sect m) (din m ROOTINO) \<and>
       contents (sect m) (din m ROOTINO) = root_dir (map fst fs) @ replicate (BSIZE - z mod BSIZE) 0) \<and>
    (\<forall>k \<le> length fs. i_nlink (din m (ino k)) = 1 \<and> alloc_inv mk_sb (sect m) (din m (ino k))) \<and>
    (\<forall>j \<le> length fs. \<forall>k \<le> length fs. j \<noteq> k \<longrightarrow> own (sect m) (din m (ino j)) \<inter> own (sect m) (din m (ino k)) = {}) \<and>
    (\<forall>n < FSSIZE. blk_free mk_sb (sect m) n \<longleftrightarrow> total (mk_files fs) \<le> n)"
proof -
  have i0: "ino 0 = 1" by (simp add: ino_def)
  let ?cs = "mk_files fs"
  obtain m1 where 1: "kdo [kforeach [0..<FSSIZE] (\<lambda>i. wsect (of_nat i) (\<lambda>_. 0)), wsect 1 (put_bytes (\<lambda>_. 0) 0 (sb_encode mk_sb))] mkfs_start = Ret () m1"
    "fs_inv m1 []" using start_run by blast
  obtain m2 where 2: "kbind (mk_ialloc T_DIR) (\<lambda>r. kthen [iappend r (dirent_bytes (xshort (ucast r)) (map of_char ''.'')),
      iappend r (dirent_bytes (xshort (ucast r)) (map of_char ''..''))] (kreturn r)) m1 = Ret 1 m2" "fs_inv m2 (mk_files [])"
    using root_run [OF 1(2)] by blast
  obtain m3 where 3: "kforeach (map (\<lambda>(arg, rds). (arg, Some rds)) fs) (add_file 1) m2 = Ret () m3" "fs_inv m3 ?cs"
    using add_files_run [OF 2(2), of fs] fs by auto
  have c0: "snd (?cs ! 0) = root_dir (map fst fs)" "fst (?cs ! 0) = T_DIR" "length ?cs = Suc (length fs)" by (simp_all add: mk_files_def)
  have zl: "z < MAXFILE * BSIZE" using z fs(1) by (simp add: length_root_dir)
  obtain m m' where m: "kdo [kbind (rinode 1) (\<lambda>din. let off = (xint (i_size din) div of_nat BSIZE + 1) * of_nat BSIZE in
         winode 1 (din\<lparr>i_size := xint off\<rparr>)), kbind (kgets freeblock) mk_balloc] m3 = Ret () m"
    "sect m 1 = sect m3 1" "\<forall>n < FSSIZE. blk_free mk_sb (sect m) n \<longleftrightarrow> total ?cs \<le> n"
    "sect m = gview m'" "img_ok m'" "freeblock m' = freeblock m3" "\<And>k. k < length ?cs \<Longrightarrow> k \<noteq> 0 \<Longrightarrow> din m (ino k) = din m3 (ino k)"
    "\<forall>b. b \<notin> meta mk_sb \<longrightarrow> gview m' b = gview m3 b" "i_type (din m 1) = i_type (din m3 1)" "i_nlink (din m 1) = i_nlink (din m3 1)"
    "unat (i_size (din m 1)) = root_size z" "\<forall>k \<le> NDIRECT. i_addrs (din m 1) k = i_addrs (din m3 1) k"
    using end_run [OF 3(2) _ _ zl] c0 z by auto
  have run: "mkfs_main (map (\<lambda>(arg, rds). (arg, Some rds)) fs) mkfs_start = Ret () m"
    by (rule main_run [OF 1(1) 2(1) 3(1) m(1)])
  have sel: "\<forall>l \<le> NDIRECT. i_addrs (din m (ino k)) l = i_addrs (din m3 (ino k)) l" "i_dev (din m (ino k)) = ROOTDEV"
    "i_nlink (din m (ino k)) = i_nlink (din m3 (ino k))" "i_type (din m (ino k)) = i_type (din m3 (ino k))" if "k < length ?cs" for k
    using that m(7,9,10,12) i0 by (cases "k = 0"; simp add: din_def)+
  note F = final_files [OF 3(2) m(5,6,8) _ sel(1,2), folded m(4)]
  have at: "i_type (din m3 (ino k)) = fst (?cs ! k)" "i_nlink (din m3 (ino k)) = 1" if "k < length ?cs" for k
    using 3(2) that by (simp_all add: fs_inv_def file_at_def)
  have dj: "own (sect m) (din m (ino j)) \<inter> own (sect m) (din m (ino k)) = {}" if "j < length ?cs" "k < length ?cs" "j \<noteq> k" for j k
    using F(2) that 3(2) by (simp add: fs_inv_def)
  have ex: "exact (sect m) (din m 1) z" "\<And>j. j < z \<Longrightarrow> fbyte (sect m) (din m 1) j = root_dir (map fst fs) ! j"
    using F(3) [of 0] F(6) [of 0] c0 i0 z by simp_all
  have root: "file_ok (sect m) (din m ROOTINO) \<and> contents (sect m) (din m ROOTINO) = root_dir (map fst fs) @ replicate (BSIZE - z mod BSIZE) 0"
    if "z mod BSIZE \<noteq> 0"
    using root_contents [OF ex z [symmetric] zl that m(11)] sel(2) [of 0] c0(3) i0 by simp
  have "sb_decode (sect m 1) = mk_sb" using m(2) 3(2) sb_round_trip by (simp add: fs_inv_def)
  moreover have "i_type (din m (ino (k + 1))) = T_FILE \<and> contents (sect m) (din m (ino (k + 1))) = concat (snd (fs ! k)) \<and>
       file_ok (sect m) (din m (ino (k + 1)))" if "k < length fs" for k
    using F(5) [of "k + 1"] sel(4) [of "k + 1"] at [of "k + 1"] m(7) [of "k + 1"] that c0(3) by (simp add: mk_files_def split: prod.splits)
  moreover have "i_type (din m ROOTINO) = T_DIR" using at(1) [of 0] sel(4) [of 0] c0 i0 by simp
  moreover have "i_nlink (din m (ino k)) = 1 \<and> alloc_inv mk_sb (sect m) (din m (ino k))" if "k \<le> length fs" for k
    using sel(3) [of k] at(2) [of k] F(1) [of k] that c0(3) by simp
  ultimately show ?thesis using run root dj m(3) c0(3) by (intro exI [of _ m]) (simp add: less_Suc_eq_le)
qed

theorem mkfs_image_holds_files_witness:
  "\<exists>m. mkfs_main [(map of_char ''user/_a'', Some [[1, 2], [3]])] mkfs_start = Ret () m \<and> sb_decode (sect m 1) = mk_sb \<and>
     contents (sect m) (din m (ino 1)) = [1, 2, 3] \<and> i_type (din m ROOTINO) = T_DIR \<and> \<not> blk_free mk_sb (sect m) 47 \<and> blk_free mk_sb (sect m) 48"
proof -
  let ?fs = "[(map of_char ''user/_a'', [[1, 2], [3]])]"
  have s: "shortname (map of_char ''user/_a'') = map of_char ''_a''" by (simp add: shortname_def)
  have z: "length (root_dir (map fst ?fs)) = 48" by (simp add: length_root_dir)
  have t: "total (mk_files ?fs) = 48" using z by (simp add: mk_files_def total_def nb_def)
  have a: "list_all arg_ok ?fs" using s by (simp add: arg_ok_def)
  have l: "length ?fs \<le> 198" "total (mk_files ?fs) \<le> FSSIZE" using t by simp_all
  show ?thesis using mkfs_image_holds_files [OF l(1) a l(2) refl] unfolding t z by fastforce
qed

end
