(* ===== verification/Sh.thy ===== *)
theory Sh
  imports Ulib
begin

text \<open>
  The shell, \<^verbatim>\<open>user/sh.c\<close>. The command line is a buffer and pointers into it are indices. A
  parsed command is a tree, with each string as the indices of its beginning and of its end; the
  allocation of its nodes is taken to succeed. The parser's recursion and its loops have fuel. Running
  a command is a program in the sense of \<open>Uprog\<close>.
\<close>

section \<open>Parsed commands\<close>

abbreviation (input) MAXARGS :: nat where "MAXARGS \<equiv> 10"

datatype cmd =
    EXEC "(nat \<times> nat) list"
  | REDIR cmd nat nat nat int
  | PIPE cmd cmd
  | LIST cmd cmd
  | BACK cmd

text \<open>
  \<^verbatim>\<open>parseexec\<close> fills in the arguments of a command that redirections may already enclose.
\<close>

fun set_argv :: "(nat \<times> nat) list \<Rightarrow> cmd \<Rightarrow> cmd" where
  "set_argv args (EXEC _) = EXEC args"
| "set_argv args (REDIR c q eq mode fd) = REDIR (set_argv args c) q eq mode fd"
| "set_argv args c = c"

section \<open>Tokens\<close>

definition whitespace :: "uchar list" where
  "whitespace = [32, 9, 13, 10, 11]"

definition symbols :: "uchar list" where
  "symbols = str ''<|>&;()''"

function skip_ws :: "bytes \<Rightarrow> nat \<Rightarrow> nat \<Rightarrow> nat" where
  "skip_ws b es s = (if s < es \<and> strchr whitespace (b s) \<noteq> None then skip_ws b es (s + 1) else s)"
  by auto
termination by (relation "measure (\<lambda>(b, es, s). es - s)") auto

function skip_word :: "bytes \<Rightarrow> nat \<Rightarrow> nat \<Rightarrow> nat" where
  "skip_word b es s = (if s < es \<and> strchr whitespace (b s) = None \<and> strchr symbols (b s) = None
     then skip_word b es (s + 1) else s)"
  by auto
termination by (relation "measure (\<lambda>(b, es, s). es - s)") auto

declare skip_ws.simps [simp del] skip_word.simps [simp del]

text \<open>The kind of a token, its beginning and end, and where the next one begins.\<close>

definition gettoken :: "bytes \<Rightarrow> nat \<Rightarrow> nat \<Rightarrow> uchar \<times> nat \<times> nat \<times> nat" where
  "gettoken b es s0 = (let q = skip_ws b es s0; c = b q;
     (ret, eq) =
       (if c = 0 then (c, q)
        else if c \<in> set (str ''|();&<'') then (c, q + 1)
        else if c = of_char CHR ''>'' then
          (if b (q + 1) = of_char CHR ''>'' then (of_char CHR ''+'', q + 2) else (c, q + 1))
        else (of_char CHR ''a'', skip_word b es q))
     in (ret, q, eq, skip_ws b es eq))"

definition peek :: "bytes \<Rightarrow> nat \<Rightarrow> string \<Rightarrow> nat \<Rightarrow> bool \<times> nat" where
  "peek b es toks s0 = (let s = skip_ws b es s0 in (b s \<noteq> 0 \<and> strchr (str toks) (b s) \<noteq> None, s))"

section \<open>The parser\<close>

text \<open>
  A parser leaves a value and the place it came to, or panics with a message; \<open>Leftovers\<close> says where the
  part of the line begins that \<^verbatim>\<open>parsecmd\<close> complains of.
\<close>

datatype 'a parse = Parsed 'a nat | Syntax string | Leftovers nat | Again

fun pthen :: "'a parse \<Rightarrow> ('a \<Rightarrow> nat \<Rightarrow> 'b parse) \<Rightarrow> 'b parse" where
  "pthen (Parsed x s) k = k x s"
| "pthen (Syntax e) k = Syntax e"
| "pthen (Leftovers s) k = Leftovers s"
| "pthen Again k = Again"

primrec parseredirs :: "nat \<Rightarrow> bytes \<Rightarrow> nat \<Rightarrow> cmd \<Rightarrow> nat \<Rightarrow> cmd parse" where
  "parseredirs 0 b es c s = Again"
| "parseredirs (Suc n) b es c s = (let (p, s) = peek b es ''<>'' s in
     if \<not> p then Parsed c s
     else let (tok, _, _, s) = gettoken b es s; (t, q, eq, s) = gettoken b es s in
       if t \<noteq> of_char CHR ''a'' then Syntax ''missing file for redirection''
       else parseredirs n b es
         (if tok = of_char CHR ''<'' then REDIR c q eq M_RDONLY 0
          else if tok = of_char CHR ''>'' then REDIR c q eq (M_WRONLY + M_CREATE + M_TRUNC) 1
          else if tok = of_char CHR ''+'' then REDIR c q eq (M_WRONLY + M_CREATE) 1
          else c) s)"

text \<open>The loop of \<^verbatim>\<open>parseexec\<close>, with the arguments collected so far.\<close>

primrec parse_args :: "nat \<Rightarrow> bytes \<Rightarrow> nat \<Rightarrow> (nat \<times> nat) list \<Rightarrow> cmd \<Rightarrow> nat \<Rightarrow> cmd parse" where
  "parse_args 0 b es args ret s = Again"
| "parse_args (Suc n) b es args ret s = (let (p, s) = peek b es ''|)&;'' s in
     if p then Parsed (set_argv args ret) s
     else let (tok, q, eq, s) = gettoken b es s in
       if tok = 0 then Parsed (set_argv args ret) s
       else if tok \<noteq> of_char CHR ''a'' then Syntax ''syntax''
       else let args = args @ [(q, eq)] in
         if length args \<ge> MAXARGS then Syntax ''too many args''
         else pthen (parseredirs n b es ret s) (parse_args n b es args))"

text \<open>The loop of \<^verbatim>\<open>parseline\<close> over ampersands.\<close>

primrec parse_backs :: "nat \<Rightarrow> bytes \<Rightarrow> nat \<Rightarrow> cmd \<Rightarrow> nat \<Rightarrow> cmd parse" where
  "parse_backs 0 b es c s = Again"
| "parse_backs (Suc n) b es c s = (let (p, s) = peek b es ''&'' s in
     if p then let (_, _, _, s) = gettoken b es s in parse_backs n b es (BACK c) s
     else Parsed c s)"

text \<open>
  The four parsers call each other in a cycle. \<^verbatim>\<open>parseblock\<close>, \<^verbatim>\<open>parseexec\<close> and
  \<^verbatim>\<open>parsepipe\<close> have the parser of a line inside parentheses as an argument, and
  \<^verbatim>\<open>parseline\<close> passes itself, with less fuel.
\<close>

definition parseblock :: "(nat \<Rightarrow> cmd parse) \<Rightarrow> nat \<Rightarrow> bytes \<Rightarrow> nat \<Rightarrow> nat \<Rightarrow> cmd parse" where
  "parseblock line n b es s = (let (p, s) = peek b es ''('' s in
     if \<not> p then Syntax ''parseblock''
     else let (_, _, _, s) = gettoken b es s in pthen (line s) (\<lambda>c s.
       let (p, s) = peek b es '')'' s in
       if \<not> p then Syntax ''syntax - missing )''
       else let (_, _, _, s) = gettoken b es s in parseredirs n b es c s))"

definition parseexec :: "(nat \<Rightarrow> cmd parse) \<Rightarrow> nat \<Rightarrow> bytes \<Rightarrow> nat \<Rightarrow> nat \<Rightarrow> cmd parse" where
  "parseexec line n b es s = (let (p, s) = peek b es ''('' s in
     if p then parseblock line n b es s
     else pthen (parseredirs n b es (EXEC []) s) (parse_args n b es []))"

primrec parsepipe :: "nat \<Rightarrow> (nat \<Rightarrow> cmd parse) \<Rightarrow> bytes \<Rightarrow> nat \<Rightarrow> nat \<Rightarrow> cmd parse" where
  "parsepipe 0 line b es s = Again"
| "parsepipe (Suc n) line b es s = pthen (parseexec line n b es s) (\<lambda>c s.
     let (p, s) = peek b es ''|'' s in
     if p then let (_, _, _, s) = gettoken b es s in
       pthen (parsepipe n line b es s) (\<lambda>d s. Parsed (PIPE c d) s)
     else Parsed c s)"

primrec parseline :: "nat \<Rightarrow> bytes \<Rightarrow> nat \<Rightarrow> nat \<Rightarrow> cmd parse" where
  "parseline 0 b es s = Again"
| "parseline (Suc n) b es s = pthen (parsepipe n (parseline n b es) b es s) (\<lambda>c s.
     pthen (parse_backs n b es c s) (\<lambda>c s.
       let (p, s) = peek b es '';'' s in
       if p then let (_, _, _, s) = gettoken b es s in
         pthen (parseline n b es s) (\<lambda>d s. Parsed (LIST c d) s)
       else Parsed c s))"

fun nulterminate :: "cmd \<Rightarrow> bytes \<Rightarrow> bytes" where
  "nulterminate (EXEC args) b = fold (\<lambda>(q, eq) b. b(eq := 0)) args b"
| "nulterminate (REDIR c q eq mode fd) b = (nulterminate c b)(eq := 0)"
| "nulterminate (PIPE c d) b = nulterminate d (nulterminate c b)"
| "nulterminate (LIST c d) b = nulterminate d (nulterminate c b)"
| "nulterminate (BACK c) b = nulterminate c b"

text \<open>
  The command and the buffer after its strings are terminated; \<open>es\<close> is \<^verbatim>\<open>strlen(s)\<close>.
\<close>

definition parsecmd :: "nat \<Rightarrow> bytes \<Rightarrow> nat \<Rightarrow> (cmd \<times> bytes) parse" where
  "parsecmd fuel b es = pthen (parseline fuel b es 0) (\<lambda>c s.
     let (_, s) = peek b es '''' s in
     if s \<noteq> es then Leftovers s else Parsed (c, nulterminate c b) s)"

section \<open>Running commands\<close>

text \<open>The string at an index of a buffer whose last terminator is at \<open>es\<close>.\<close>

definition str_at :: "bytes \<Rightarrow> nat \<Rightarrow> nat \<Rightarrow> uchar list" where
  "str_at b es q = takeWhile (\<lambda>c. c \<noteq> 0) (map b [q..<es])"

definition sh_panic :: "string \<Rightarrow> 'a prog" where
  "sh_panic msg = pseq [fprintf 2 ''%s\<newline>'' [AStr (Some (str msg))]] (Halt 1)"

definition fork1 :: "int prog" where
  "fork1 = pbind (sys Sfork) (\<lambda>pid. if pid = - 1 then sh_panic ''fork'' else Done pid)"

text \<open>
  \<^verbatim>\<open>runcmd\<close> does not return. An \<^verbatim>\<open>exec\<close> that succeeds does not return either: the branch
  after it is that of a failure. \<^verbatim>\<open>pipe\<close> answers with its two descriptors.
\<close>

fun runcmd :: "bytes \<Rightarrow> nat \<Rightarrow> cmd \<Rightarrow> unit prog" where
  "runcmd b es (EXEC args) = (let argv = map (\<lambda>(q, _). str_at b es q) args in
     if argv = [] then Halt 1
     else pseq [sysv (Sexec (hd argv) argv), fprintf 2 ''exec %s failed\<newline>'' [AStr (Some (hd argv))]] (Halt 0))"
| "runcmd b es (REDIR c q eq mode fd) = pseq [sysv (Sclose fd)] (
     pbind (sys (Sopen (str_at b es q) mode)) (\<lambda>r.
       if r < 0 then pseq [fprintf 2 ''open %s failed\<newline>'' [AStr (Some (str_at b es q))]] (Halt 1)
       else runcmd b es c))"
| "runcmd b es (LIST c d) = pbind fork1 (\<lambda>pid.
     if pid = 0 then runcmd b es c else pseq [sysv Swait] (runcmd b es d))"
| "runcmd b es (PIPE c d) = Sys Spipe (\<lambda>(r, p).
     if r < 0 then sh_panic ''pipe''
     else let p0 = sint (get32 (line_bytes p) 0); p1 = sint (get32 (line_bytes p) 4) in
     pbind fork1 (\<lambda>pid.
       if pid = 0 then pseq [sysv (Sclose 1), sysv (Sdup p1), sysv (Sclose p0), sysv (Sclose p1)] (runcmd b es c)
       else pbind fork1 (\<lambda>pid.
         if pid = 0 then pseq [sysv (Sclose 0), sysv (Sdup p0), sysv (Sclose p0), sysv (Sclose p1)] (runcmd b es d)
         else pseq [sysv (Sclose p0), sysv (Sclose p1), sysv Swait, sysv Swait] (Halt 0))))"
| "runcmd b es (BACK c) = pbind fork1 (\<lambda>pid. if pid = 0 then runcmd b es c else Halt 0)"

definition getcmd :: "nat \<Rightarrow> uchar list option prog" where
  "getcmd nbuf = pseq [sysv (Swrite 2 (str ''$ ''))] (pbind (gets nbuf) (\<lambda>buf.
     Done (if chr buf = 0 then None else Some buf)))"

text \<open>The loop that opens descriptors 0, 1 and 2.\<close>

primrec open_console :: "nat \<Rightarrow> unit prog" where
  "open_console 0 = NoFuel"
| "open_console (Suc n) = pbind (sys (Sopen (str ''console'') M_RDWR)) (\<lambda>fd.
     if fd < 0 then Done ()
     else if fd \<ge> 3 then sysv (Sclose fd)
     else open_console n)"

text \<open>One round of \<^verbatim>\<open>main\<close>'s loop on a line that was read.\<close>

definition run_parsed :: "bytes \<Rightarrow> nat \<Rightarrow> (cmd \<times> bytes) parse \<Rightarrow> unit prog" where
  "run_parsed b0 es r = (case r of
       Parsed (c, b) _ \<Rightarrow> runcmd b es c
     | Syntax msg \<Rightarrow> sh_panic msg
     | Leftovers s \<Rightarrow> pseq [fprintf 2 ''leftovers: %s\<newline>'' [AStr (Some (str_at b0 es s))]] (sh_panic ''syntax'')
     | Again \<Rightarrow> NoFuel)"

definition do_line :: "uchar list \<Rightarrow> unit prog" where
  "do_line buf =
     (if take 3 buf = str ''cd '' then
        (let dir = drop 3 (take (u_strlen buf - 1) buf) in
         pbind (sys (Schdir dir)) (\<lambda>r.
           if r < 0 then fprintf 2 ''cannot cd %s\<newline>'' [AStr (Some dir)] else Done ()))
      else pbind fork1 (\<lambda>pid.
        if pid = 0 then let b = line_bytes buf; es = u_strlen buf in run_parsed b es (parsecmd (es + 3) b es)
        else sysv Swait))"

primrec sh_loop :: "nat \<Rightarrow> unit prog" where
  "sh_loop 0 = NoFuel"
| "sh_loop (Suc n) = pbind (getcmd 100) (\<lambda>line. case line of
       None \<Rightarrow> Halt 0
     | Some buf \<Rightarrow> pbind (do_line buf) (\<lambda>_. sh_loop n))"

definition sh_main :: "nat \<Rightarrow> unit prog" where
  "sh_main n = pbind (open_console n) (\<lambda>_. sh_loop n)"

section \<open>Tokens of a line\<close>

text \<open>A line of \<open>es\<close> characters, with its terminator.\<close>

definition line_ok :: "bytes \<Rightarrow> nat \<Rightarrow> bool" where
  "line_ok b es \<longleftrightarrow> b es = 0 \<and> (\<forall>i<es. b i \<noteq> 0)"

definition word_char :: "uchar \<Rightarrow> bool" where
  "word_char c \<longleftrightarrow> c \<noteq> 0 \<and> c \<notin> set whitespace \<and> c \<notin> set symbols"

text \<open>A maximal stretch of word characters to the right of its beginning.\<close>

definition is_word :: "bytes \<Rightarrow> nat \<Rightarrow> nat \<times> nat \<Rightarrow> bool" where
  "is_word b es = (\<lambda>(q, eq). q < eq \<and> eq \<le> es \<and> (\<forall>i. q \<le> i \<and> i < eq \<longrightarrow> word_char (b i)) \<and> \<not> word_char (b eq))"

lemma strchr_classes [simp]:
  "strchr whitespace c = None \<longleftrightarrow> c \<notin> set whitespace"
  "strchr symbols c = None \<longleftrightarrow> c \<notin> set symbols"
  by (rule strchr_None, simp add: whitespace_def symbols_def str_def)+

lemma skip_ws_bounds: "s \<le> es \<Longrightarrow> s \<le> skip_ws b es s \<and> skip_ws b es s \<le> es"
proof (induction b es s rule: skip_ws.induct)
  case (1 b es s)
  then show ?case by (auto simp: skip_ws.simps [of b es s])
qed

lemma skip_ws_stop: "skip_ws b es s < es \<Longrightarrow> b (skip_ws b es s) \<notin> set whitespace"
proof (induction b es s rule: skip_ws.induct)
  case (1 b es s)
  then show ?case by (auto simp: skip_ws.simps [of b es s] split: if_splits)
qed

lemma skip_word_bounds: "s \<le> es \<Longrightarrow> s \<le> skip_word b es s \<and> skip_word b es s \<le> es"
proof (induction b es s rule: skip_word.induct)
  case (1 b es s)
  then show ?case by (auto simp: skip_word.simps [of b es s])
qed

lemma skip_word_chars: "s \<le> i \<Longrightarrow> i < skip_word b es s \<Longrightarrow> b i \<notin> set whitespace \<and> b i \<notin> set symbols"
proof (induction b es s rule: skip_word.induct)
  case (1 b es s)
  then show ?case by (cases "i = s") (auto simp: skip_word.simps [of b es s] split: if_splits)
qed

lemma skip_word_stop: "skip_word b es s < es \<Longrightarrow> b (skip_word b es s) \<in> set whitespace \<union> set symbols"
proof (induction b es s rule: skip_word.induct)
  case (1 b es s)
  then show ?case by (auto simp: skip_word.simps [of b es s] split: if_splits)
qed

lemma skip_word_word:
  assumes "line_ok b es" "q < es" "b q \<notin> set whitespace" "b q \<notin> set symbols"
  shows "is_word b es (q, skip_word b es q)"
proof -
  have "q < skip_word b es q"
    using skip_word_bounds [of "q + 1" es b] assms by (subst skip_word.simps) auto
  then show ?thesis
    using assms skip_word_bounds [of q es b] skip_word_chars [of q _ b es] skip_word_stop [of b es q]
    by (auto simp: is_word_def word_char_def line_ok_def le_less)
qed

lemma gettoken_spec:
  assumes "line_ok b es" "s \<le> es" "gettoken b es s = (tok, q, eq, s')"
  shows "s \<le> s' \<and> s' \<le> es \<and> (s < es \<longrightarrow> s < s') \<and> (tok \<noteq> 0 \<longrightarrow> s < s')
    \<and> (tok = of_char CHR ''a'' \<longrightarrow> is_word b es (q, eq))"
proof -
  have q: "q = skip_ws b es s" "s' = skip_ws b es eq" using assms(3) by (auto simp: gettoken_def Let_def split: if_splits)
  have b: "s \<le> q" "q \<le> es" using skip_ws_bounds assms(2) q by auto
  show ?thesis
  proof (cases "q = es")
    case True
    then show ?thesis using assms b q by (auto simp: gettoken_def Let_def line_ok_def skip_ws.simps [of b es es])
  next
    case False
    then have lt: "q < es" "b q \<noteq> 0" using b assms(1) by (auto simp: line_ok_def)
    have eq: "q < eq \<and> eq \<le> es \<and> (tok = of_char CHR ''a'' \<longrightarrow> is_word b es (q, eq))"
    proof (cases "b q \<in> set symbols")
      case True
      have "b (Suc q) = of_char CHR ''>'' \<Longrightarrow> Suc q \<noteq> es" using assms(1) by (auto simp: line_ok_def)
      then show ?thesis using assms(3) True lt q(1)
        by (auto simp: gettoken_def Let_def symbols_def str_def split: if_splits)
    next
      case False
      have w: "is_word b es (q, skip_word b es q)"
        using skip_word_word [OF assms(1) lt(1)] False skip_ws_stop [of b es s] lt q(1) by simp
      have "eq = skip_word b es q" using assms(3) False lt q(1)
        by (auto simp: gettoken_def Let_def symbols_def str_def split: if_splits)
      then show ?thesis using w by (auto simp: is_word_def)
    qed
    then show ?thesis using skip_ws_bounds [of eq es b] q(2) b by auto
  qed
qed

lemma peek_spec:
  assumes "line_ok b es" "s \<le> es" "peek b es toks s = (p, s')"
  shows "s \<le> s' \<and> s' \<le> es \<and> (p \<longrightarrow> s' < es)"
  using skip_ws_bounds [OF assms(2), of b] assms(1,3) by (auto simp: peek_def Let_def line_ok_def le_less)

section \<open>The parser ends, and its words are words of the line\<close>

fun tokens :: "cmd \<Rightarrow> (nat \<times> nat) list" where
  "tokens (EXEC args) = args"
| "tokens (REDIR c q eq mode fd) = tokens c @ [(q, eq)]"
| "tokens (PIPE c d) = tokens c @ tokens d"
| "tokens (LIST c d) = tokens c @ tokens d"
| "tokens (BACK c) = tokens c"

text \<open>The numbers of arguments of the commands of a tree.\<close>

fun argcs :: "cmd \<Rightarrow> nat list" where
  "argcs (EXEC args) = [length args]"
| "argcs (REDIR c q eq mode fd) = argcs c"
| "argcs (PIPE c d) = argcs c @ argcs d"
| "argcs (LIST c d) = argcs c @ argcs d"
| "argcs (BACK c) = argcs c"

definition cmd_ok :: "bytes \<Rightarrow> nat \<Rightarrow> cmd \<Rightarrow> bool" where
  "cmd_ok b es c \<longleftrightarrow> (\<forall>w\<in>set (tokens c). is_word b es w) \<and> (\<forall>n\<in>set (argcs c). n < MAXARGS)"

text \<open>What a parser that starts at \<open>s\<close> promises.\<close>

definition parses :: "bytes \<Rightarrow> nat \<Rightarrow> nat \<Rightarrow> cmd parse \<Rightarrow> bool" where
  "parses b es s r \<longleftrightarrow> (case r of Parsed c s' \<Rightarrow> s \<le> s' \<and> s' \<le> es \<and> cmd_ok b es c | Syntax e \<Rightarrow> True
     | Leftovers s' \<Rightarrow> False | Again \<Rightarrow> False)"

lemma parses_simps [simp]:
  "parses b es s (Parsed c s') \<longleftrightarrow> s \<le> s' \<and> s' \<le> es \<and> cmd_ok b es c"
  "parses b es s (Syntax e)" "\<not> parses b es s (Leftovers s')" "\<not> parses b es s Again"
  by (simp_all add: parses_def)

lemma parses_then:
  assumes "parses b es s r" "\<And>c s'. s \<le> s' \<Longrightarrow> s' \<le> es \<Longrightarrow> cmd_ok b es c \<Longrightarrow> parses b es s (k c s')"
  shows "parses b es s (pthen r k)"
  using assms by (cases r) auto

lemma parses_later: "parses b es s' r \<Longrightarrow> s \<le> s' \<Longrightarrow> parses b es s r"
  by (cases r) auto

lemma cmd_ok_simps [simp]:
  "cmd_ok b es (EXEC args) \<longleftrightarrow> (\<forall>w\<in>set args. is_word b es w) \<and> length args < MAXARGS"
  "cmd_ok b es (REDIR c q eq mode fd) \<longleftrightarrow> cmd_ok b es c \<and> is_word b es (q, eq)"
  "cmd_ok b es (PIPE c d) \<longleftrightarrow> cmd_ok b es c \<and> cmd_ok b es d"
  "cmd_ok b es (LIST c d) \<longleftrightarrow> cmd_ok b es c \<and> cmd_ok b es d"
  "cmd_ok b es (BACK c) \<longleftrightarrow> cmd_ok b es c"
  by (auto simp: cmd_ok_def)

lemma cmd_ok_set_argv:
  "cmd_ok b es c \<Longrightarrow> \<forall>w\<in>set args. is_word b es w \<Longrightarrow> length args < MAXARGS \<Longrightarrow> cmd_ok b es (set_argv args c)"
  by (induction args c rule: set_argv.induct) auto

lemma parseredirs_parses:
  assumes "line_ok b es" "s \<le> es" "es - s < n" "cmd_ok b es c"
  shows "parses b es s (parseredirs n b es c s)"
  using assms(2-)
proof (induction n arbitrary: c s)
  case (Suc n)
  obtain p s1 where p: "peek b es ''<>'' s = (p, s1)" by (cases "peek b es ''<>'' s")
  obtain tok q0 e0 s2 where t: "gettoken b es s1 = (tok, q0, e0, s2)" by (cases "gettoken b es s1") auto
  obtain t' q eq s3 where u: "gettoken b es s2 = (t', q, eq, s3)" by (cases "gettoken b es s2") auto
  note P = peek_spec [OF assms(1) Suc.prems(1) p]
  have T: "p \<Longrightarrow> s1 < s2 \<and> s2 \<le> es" using gettoken_spec [OF assms(1) _ t] P by auto
  have U: "p \<Longrightarrow> s2 \<le> s3 \<and> s3 \<le> es \<and> (t' = of_char CHR ''a'' \<longrightarrow> is_word b es (q, eq))"
    using gettoken_spec [OF assms(1) _ u] T by auto
  show ?case using P T U Suc.prems p t u
    by (auto simp: Let_def intro!: parses_later [OF Suc.IH])
qed simp

lemma parse_args_parses:
  assumes "line_ok b es" "s \<le> es" "es - s < n" "cmd_ok b es c" "\<forall>w\<in>set args. is_word b es w" "length args < MAXARGS"
  shows "parses b es s (parse_args n b es args c s)"
  using assms(2-)
proof (induction n arbitrary: args c s)
  case (Suc n)
  obtain p s1 where p: "peek b es ''|)&;'' s = (p, s1)" by (cases "peek b es ''|)&;'' s")
  obtain t q eq s2 where t: "gettoken b es s1 = (t, q, eq, s2)" by (cases "gettoken b es s1") auto
  note P = peek_spec [OF assms(1) Suc.prems(1) p]
  note T = gettoken_spec [OF assms(1) _ t]
  have "parses b es s2 (pthen (parseredirs n b es c s2) (parse_args n b es (args @ [(q, eq)])))"
    if x: "t \<noteq> 0" "t = of_char CHR ''a''" "Suc (length args) < MAXARGS"
  proof -
    have s2: "s1 < s2" "s2 \<le> es" "is_word b es (q, eq)" using T P x by auto
    show ?thesis
      using s2 P Suc.prems x
      by (intro parses_then [OF parseredirs_parses [OF assms(1)]] parses_later [OF Suc.IH]) auto
  qed
  then show ?case using P T Suc.prems p t
    by (auto simp: Let_def cmd_ok_set_argv intro: parses_later)
qed simp

lemma parse_backs_parses:
  assumes "line_ok b es" "s \<le> es" "es - s < n" "cmd_ok b es c"
  shows "parses b es s (parse_backs n b es c s)"
  using assms(2-)
proof (induction n arbitrary: c s)
  case (Suc n)
  obtain p s1 where p: "peek b es ''&'' s = (p, s1)" by (cases "peek b es ''&'' s")
  obtain t q eq s2 where t: "gettoken b es s1 = (t, q, eq, s2)" by (cases "gettoken b es s1") auto
  note P = peek_spec [OF assms(1) Suc.prems(1) p] and T = gettoken_spec [OF assms(1) _ t]
  show ?case using P T Suc.prems p t by (auto intro!: parses_later [OF Suc.IH])
qed simp

lemma parseblock_parses:
  assumes "line_ok b es" "s \<le> es" "es - s < n"
    and line: "\<And>s'. s < s' \<Longrightarrow> s' \<le> es \<Longrightarrow> parses b es s' (line s')"
  shows "parses b es s (parseblock line n b es s)"
proof -
  obtain p s1 where p: "peek b es ''('' s = (p, s1)" by (cases "peek b es ''('' s")
  obtain t q eq s2 where t: "gettoken b es s1 = (t, q, eq, s2)" by (cases "gettoken b es s1") auto
  note P = peek_spec [OF assms(1,2) p] and T = gettoken_spec [OF assms(1) _ t]
  have rest: "parses b es s2 (let (p, s) = peek b es '')'' s3 in
      if \<not> p then Syntax ''syntax - missing )''
      else let (_, _, _, s) = gettoken b es s in parseredirs n b es c s)"
    if x: "s2 \<le> s3" "s3 \<le> es" "cmd_ok b es c" "s \<le> s2" for s3 c
  proof -
    obtain p' s4 where p': "peek b es '')'' s3 = (p', s4)" by (cases "peek b es '')'' s3")
    obtain t' q' eq' s5 where t': "gettoken b es s4 = (t', q', eq', s5)" by (cases "gettoken b es s4") auto
    show ?thesis using peek_spec [OF assms(1) x(2) p'] gettoken_spec [OF assms(1) _ t'] p' t' x assms(3)
      by (auto intro!: parses_later [OF parseredirs_parses [OF assms(1)]])
  qed
  have "parses b es s2 (pthen (line s2) (\<lambda>c s.
       let (p, s) = peek b es '')'' s in
       if \<not> p then Syntax ''syntax - missing )''
       else let (_, _, _, s) = gettoken b es s in parseredirs n b es c s))" if p
    using P T that by (intro parses_then [OF line] rest) auto
  then show ?thesis using P T p t by (auto simp: parseblock_def intro: parses_later)
qed

lemma parseexec_parses:
  assumes "line_ok b es" "s \<le> es" "es - s < n"
    and line: "\<And>s'. s < s' \<Longrightarrow> s' \<le> es \<Longrightarrow> parses b es s' (line s')"
  shows "parses b es s (parseexec line n b es s)"
proof -
  obtain p s1 where p: "peek b es ''('' s = (p, s1)" by (cases "peek b es ''('' s")
  note P = peek_spec [OF assms(1,2) p]
  have block: "parses b es s1 (parseblock line n b es s1)"
    using P assms by (intro parseblock_parses) auto
  have "parses b es s1 (pthen (parseredirs n b es (EXEC []) s1) (parse_args n b es []))"
    using P assms by (intro parses_then [OF parseredirs_parses] parses_later [OF parse_args_parses]) auto
  with block show ?thesis using P p by (auto simp: parseexec_def intro: parses_later)
qed

lemma parsepipe_parses:
  assumes "line_ok b es" "s \<le> es" "Suc (es - s) < n"
    and "\<And>s'. s < s' \<Longrightarrow> s' \<le> es \<Longrightarrow> parses b es s' (line s')"
  shows "parses b es s (parsepipe n line b es s)"
  using assms(2-)
proof (induction n arbitrary: s)
  case (Suc n)
  have "parses b es s (let (p, s) = peek b es ''|'' s0 in
     if p then let (_, _, _, s) = gettoken b es s in
       pthen (parsepipe n line b es s) (\<lambda>d s. Parsed (PIPE c d) s)
     else Parsed c s)"
    if x: "s \<le> s0" "s0 \<le> es" "cmd_ok b es c" for c s0
  proof -
    obtain p s1 where p: "peek b es ''|'' s0 = (p, s1)" by (cases "peek b es ''|'' s0")
    obtain t q eq s2 where t: "gettoken b es s1 = (t, q, eq, s2)" by (cases "gettoken b es s1") auto
    note P = peek_spec [OF assms(1) x(2) p] and T = gettoken_spec [OF assms(1) _ t]
    have "parses b es s2 (pthen (parsepipe n line b es s2) (\<lambda>d s. Parsed (PIPE c d) s))" if p
      using P T that x Suc.prems by (intro parses_then [OF Suc.IH]) auto
    then show ?thesis using P T p t x by (auto intro: parses_later)
  qed
  moreover have "parses b es s (parseexec line n b es s)"
    using Suc.prems by (intro parseexec_parses [OF assms(1)]) auto
  ultimately show ?case by (auto intro: parses_then)
qed simp

lemma parseline_parses:
  assumes "line_ok b es" "s \<le> es" "Suc (Suc (es - s)) < n"
  shows "parses b es s (parseline n b es s)"
  using assms(2-)
proof (induction n arbitrary: s)
  case (Suc n)
  have "parses b es s (let (p, s) = peek b es '';'' s0 in
     if p then let (_, _, _, s) = gettoken b es s in
       pthen (parseline n b es s) (\<lambda>d s. Parsed (LIST c d) s)
     else Parsed c s)"
    if x: "s \<le> s0" "s0 \<le> es" "cmd_ok b es c" for c s0
  proof -
    obtain p s1 where p: "peek b es '';'' s0 = (p, s1)" by (cases "peek b es '';'' s0")
    obtain t q eq s2 where t: "gettoken b es s1 = (t, q, eq, s2)" by (cases "gettoken b es s1") auto
    note P = peek_spec [OF assms(1) x(2) p] and T = gettoken_spec [OF assms(1) _ t]
    have "parses b es s2 (pthen (parseline n b es s2) (\<lambda>d s. Parsed (LIST c d) s))" if p
      using P T that x Suc.prems by (intro parses_then [OF Suc.IH]) auto
    then show ?thesis using P T p t x by (auto intro: parses_later)
  qed
  note list = this
  have "parses b es s (parsepipe n (parseline n b es) b es s)"
    using Suc.prems by (intro parsepipe_parses [OF assms(1)] Suc.IH) auto
  moreover have "parses b es s (parse_backs n b es c s0)" if "s \<le> s0" "s0 \<le> es" "cmd_ok b es c" for c s0
    using that Suc.prems by (intro parses_later [OF parse_backs_parses [OF assms(1)]]) auto
  ultimately show ?case unfolding parseline.simps by (intro parses_then list) auto
qed simp

lemma parsecmd_cases:
  assumes "line_ok b es" "es + 3 \<le> fuel"
  shows "(\<exists>c. parsecmd fuel b es = Parsed (c, nulterminate c b) es \<and> cmd_ok b es c)
    \<or> (\<exists>msg. parsecmd fuel b es = Syntax msg) \<or> (\<exists>s. s < es \<and> parsecmd fuel b es = Leftovers s)"
proof -
  have "parses b es 0 (parseline fuel b es 0)" using assms by (intro parseline_parses) auto
  then show ?thesis
  proof (cases "parseline fuel b es 0")
    case (Parsed c s)
    obtain p s' where p: "peek b es '''' s = (p, s')" by (cases "peek b es '''' s")
    have "s' \<le> es" "cmd_ok b es c" using \<open>parses b es 0 _\<close> Parsed peek_spec [OF assms(1) _ p] by auto
    then show ?thesis using Parsed p by (auto simp: parsecmd_def)
  qed (auto simp: parsecmd_def)
qed

section \<open>Terminating the strings\<close>




section \<open>What the shell promises\<close>

text \<open>
  C37: Parsing a command line ends. On a line of \<open>es\<close> characters, recursion and loops of at most
  \<open>es + 3\<close> rounds are enough: the parser reaches the end of the line, or it panics with one of
  its messages, or it complains of what is left over from a place inside the line. The fuel that
  \<open>do_line\<close> passes is therefore enough on every line.
\<close>

theorem parsecmd_ends:
  assumes "line_ok b es" "es + 3 \<le> fuel"
  shows "case parsecmd fuel b es of Parsed (c, b') s \<Rightarrow> s = es | Syntax msg \<Rightarrow> True | Leftovers s \<Rightarrow> s < es | Again \<Rightarrow> False"
  using parsecmd_cases [OF assms] by auto

theorem parsecmd_ends_witness:
  "line_ok (line_bytes (str ''(a;b'')) 4 \<and> (case parsecmd 7 (line_bytes (str ''(a;b'')) 4 of
     Parsed (c, b') s \<Rightarrow> s = 4 | Syntax msg \<Rightarrow> True | Leftovers s \<Rightarrow> s < 4 | Again \<Rightarrow> False)"
proof -
  have "line_ok (line_bytes (str ''(a;b'')) 4"
    by code_simp
  then show ?thesis using parsecmd_ends [of "line_bytes (str ''(a;b'')" 4 7] by simp
qed



end
