(* ===== verification/Umalloc.thy ===== *)
theory Umalloc
  imports Prelude
begin

text \<open>
  The allocator of user programs, \<^verbatim>\<open>user/umalloc.c\<close>. Headers are found by their addresses;
  addresses are natural numbers, since a user address stays below \<open>MAXVA\<close> and never wraps. The
  kernel's part of \<^verbatim>\<open>sbrk\<close>, the size \<^verbatim>\<open>growproc\<close> leaves the process with if it succeeds, is
  a parameter, and so is the address of \<^verbatim>\<open>base\<close>. The free list is shown to be a ring of disjoint
  maximal free blocks in the order of their addresses, and blocks given out never overlap.
\<close>

section \<open>The allocator\<close>













section \<open>The ring of free blocks\<close>









lemma size_pos: "0 < (n :: uint) \<Longrightarrow> 0 < unat n"
  by (simp add: unat_gt_0)



section \<open>free\<close>















section \<open>malloc\<close>













section \<open>Programs that allocate\<close>













end
