(* ===== verification/Utils.thy ===== *)
theory Utils
  imports Ulib
begin

text \<open>
  The small user programs: \<^verbatim>\<open>cat\<close>, \<^verbatim>\<open>echo\<close>, \<^verbatim>\<open>wc\<close>, \<^verbatim>\<open>ls\<close>, \<^verbatim>\<open>init\<close>, \<^verbatim>\<open>ln\<close>,
  \<^verbatim>\<open>kill\<close>, \<^verbatim>\<open>mkdir\<close>, \<^verbatim>\<open>rm\<close>, \<^verbatim>\<open>zombie\<close>, \<^verbatim>\<open>forktest\<close> and \<^verbatim>\<open>stressfs\<close>. The argument
  of a \<^verbatim>\<open>main\<close> is \<^verbatim>\<open>argv\<close>, the program's name included.
\<close>

section \<open>cat and echo\<close>

primrec cat :: "nat \<Rightarrow> int \<Rightarrow> unit prog" where
  "cat 0 fd = NoFuel"
| "cat (Suc k) fd = Sys (Sread fd 512) (\<lambda>(n, d).
     if n > 0 then pbind (sys (Swrite 1 (take (nat n) d))) (\<lambda>w.
       if w \<noteq> n then pseq [fprintf 2 ''cat: write error\<newline>'' []] (Halt 1) else cat k fd)
     else if n < 0 then pseq [fprintf 2 ''cat: read error\<newline>'' []] (Halt 1)
     else Done ())"

definition cat_main :: "nat \<Rightarrow> uchar list list \<Rightarrow> unit prog" where
  "cat_main k argv = (if length argv \<le> 1 then pseq [cat k 0] (Halt 0)
     else pseq [pforeach (tl argv) (\<lambda>name. pbind (sys (Sopen name M_RDONLY)) (\<lambda>fd.
       if fd < 0 then pseq [fprintf 2 ''cat: cannot open %s\<newline>'' [AStr (Some name)]] (Halt 1)
       else pseq [cat k fd] (sysv (Sclose fd))))] (Halt 0))"

definition echo_main :: "uchar list list \<Rightarrow> unit prog" where
  "echo_main argv = pseq [pforeach [1..<length argv] (\<lambda>i.
     pseq [sysv (Swrite 1 (argv ! i))] (sysv (Swrite 1 (str (if i + 1 < length argv then '' '' else ''\<newline>'')))))]
     (Halt 0)"

section \<open>wc\<close>

record wcount =
  wc_l :: uint
  wc_w :: uint
  wc_c :: uint
  wc_inword :: bool

definition wc_seps :: "uchar list" where
  "wc_seps = [32, 13, 9, 10, 11]"

text \<open>The body of the inner loop.\<close>

definition wc_char :: "uchar \<Rightarrow> wcount \<Rightarrow> wcount" where
  "wc_char b t = (let t = t\<lparr>wc_c := wc_c t + 1\<rparr>;
     t = (if b = 10 then t\<lparr>wc_l := wc_l t + 1\<rparr> else t) in
     if strchr wc_seps b \<noteq> None then t\<lparr>wc_inword := False\<rparr>
     else if \<not> wc_inword t then t\<lparr>wc_w := wc_w t + 1, wc_inword := True\<rparr>
     else t)"

primrec wc_loop :: "nat \<Rightarrow> int \<Rightarrow> uchar list \<Rightarrow> wcount \<Rightarrow> unit prog" where
  "wc_loop 0 fd name t = NoFuel"
| "wc_loop (Suc k) fd name t = Sys (Sread fd 512) (\<lambda>(n, d).
     if n > 0 then wc_loop k fd name (fold wc_char (take (nat n) d) t)
     else if n < 0 then pseq [u_printf ''wc: read error\<newline>'' []] (Halt 1)
     else u_printf ''%d %d %d %s\<newline>'' [AInt (wc_l t), AInt (wc_w t), AInt (wc_c t), AStr (Some name)])"

definition wc :: "nat \<Rightarrow> int \<Rightarrow> uchar list \<Rightarrow> unit prog" where
  "wc k fd name = wc_loop k fd name \<lparr>wc_l = 0, wc_w = 0, wc_c = 0, wc_inword = False\<rparr>"

definition wc_main :: "nat \<Rightarrow> uchar list list \<Rightarrow> unit prog" where
  "wc_main k argv = (if length argv \<le> 1 then pseq [wc k 0 []] (Halt 0)
     else pseq [pforeach (tl argv) (\<lambda>name. pbind (sys (Sopen name M_RDONLY)) (\<lambda>fd.
       if fd < 0 then pseq [u_printf ''wc: cannot open %s\<newline>'' [AStr (Some name)]] (Halt 1)
       else pseq [wc k fd name] (sysv (Sclose fd))))] (Halt 0))"

section \<open>ls\<close>

definition fmtname :: "uchar list \<Rightarrow> uchar list" where
  "fmtname path = (let p = rev (takeWhile (\<lambda>c. c \<noteq> of_char CHR ''/'') (rev path)) in
     if u_strlen p \<ge> 14 then p else p @ replicate (14 - u_strlen p) 32)"

text \<open>The fields of a \<^verbatim>\<open>struct stat\<close> in the bytes \<^verbatim>\<open>fstat\<close> stores. The size is printed by \<^verbatim>\<open>%d\<close>, which takes its low half.\<close>

definition st_ino_of :: "uchar list \<Rightarrow> uint" where
  "st_ino_of d = get32 (line_bytes d) 4"

definition st_type_of :: "uchar list \<Rightarrow> ushort" where
  "st_type_of d = get16 (line_bytes d) 8"

definition st_size_of :: "uchar list \<Rightarrow> uint64" where
  "st_size_of d = le_word (get_bytes (line_bytes d) 16 8)"

primrec ls_entries :: "nat \<Rightarrow> int \<Rightarrow> uchar list \<Rightarrow> unit prog" where
  "ls_entries 0 fd path = NoFuel"
| "ls_entries (Suc k) fd path = Sys (Sread fd 16) (\<lambda>(n, de).
     if n \<noteq> 16 then Done ()
     else if get16 (line_bytes de) 0 = 0 then ls_entries k fd path
     else let buf = path @ str ''/'' @ takeWhile (\<lambda>c. c \<noteq> 0) (take 14 (drop 2 de)) in
       pbind (u_stat buf) (\<lambda>(r, st).
         if r < 0 then pseq [u_printf ''ls: cannot stat %s\<newline>'' [AStr (Some buf)]] (ls_entries k fd path)
         else pseq [u_printf ''%s %d %d %d\<newline>'' [AStr (Some (fmtname buf)), AInt (scast (st_type_of st)),
           AInt (st_ino_of st), AInt (ucast (st_size_of st))]] (ls_entries k fd path)))"

definition ls :: "nat \<Rightarrow> uchar list \<Rightarrow> unit prog" where
  "ls k path = pbind (sys (Sopen path M_RDONLY)) (\<lambda>fd.
     if fd < 0 then fprintf 2 ''ls: cannot open %s\<newline>'' [AStr (Some path)]
     else Sys (Sfstat fd) (\<lambda>(r, st).
       if r < 0 then pseq [fprintf 2 ''ls: cannot stat %s\<newline>'' [AStr (Some path)]] (sysv (Sclose fd))
       else pseq
         [if st_type_of st = 2 \<or> st_type_of st = 3 then
            u_printf ''%s %d %d %l\<newline>'' [AStr (Some (fmtname path)), AInt (scast (st_type_of st)),
              AInt (st_ino_of st), ALong (st_size_of st)]
          else if st_type_of st = 1 then
            (if u_strlen path + 1 + 14 + 1 > 512 then u_printf ''ls: path too long\<newline>'' []
             else ls_entries k fd path)
          else Done ()] (sysv (Sclose fd))))"

definition ls_main :: "nat \<Rightarrow> uchar list list \<Rightarrow> unit prog" where
  "ls_main k argv = (if length argv < 2 then pseq [ls k (str ''.'')] (Halt 0)
     else pseq [pforeach (tl argv) (ls k)] (Halt 0))"

section \<open>init\<close>

text \<open>The inner loop: reaping until the shell, or none is left to wait for.\<close>

primrec init_wait :: "nat \<Rightarrow> int \<Rightarrow> unit prog" where
  "init_wait 0 pid = NoFuel"
| "init_wait (Suc k) pid = pbind (sys Swait) (\<lambda>wpid.
     if wpid = pid then Done ()
     else if wpid < 0 then pseq [u_printf ''init: wait returned an error\<newline>'' []] (Halt 1)
     else init_wait k pid)"

primrec init_loop :: "nat \<Rightarrow> nat \<Rightarrow> unit prog" where
  "init_loop k 0 = NoFuel"
| "init_loop k (Suc n) = pseq [u_printf ''init: starting sh\<newline>'' []] (pbind (sys Sfork) (\<lambda>pid.
     if pid < 0 then pseq [u_printf ''init: fork failed\<newline>'' []] (Halt 1)
     else if pid = 0 then pseq [sysv (Sexec (str ''sh'') [str ''sh'']), u_printf ''init: exec sh failed\<newline>'' []] (Halt 1)
     else pbind (init_wait k pid) (\<lambda>_. init_loop k n)))"

definition init_main :: "nat \<Rightarrow> nat \<Rightarrow> unit prog" where
  "init_main k n = pbind (sys (Sopen (str ''console'') M_RDWR)) (\<lambda>fd. pseq
     [if fd < 0 then pseq [sysv (Smknod (str ''console'') 1 0)] (sysv (Sopen (str ''console'') M_RDWR)) else Done (),
      sysv (Sdup 0), sysv (Sdup 0)]
     (init_loop k n))"

section \<open>ln, kill, mkdir, rm, zombie\<close>

definition ln_main :: "uchar list list \<Rightarrow> unit prog" where
  "ln_main argv = (if length argv \<noteq> 3 then pseq [fprintf 2 ''Usage: ln old new\<newline>'' []] (Halt 1)
     else pbind (sys (Slink (argv ! 1) (argv ! 2))) (\<lambda>r. pseq
       [if r < 0 then fprintf 2 ''link %s %s: failed\<newline>'' [AStr (Some (argv ! 1)), AStr (Some (argv ! 2))] else Done ()]
       (Halt 0)))"

definition kill_main :: "uchar list list \<Rightarrow> unit prog" where
  "kill_main argv = (if length argv < 2 then pseq [fprintf 2 ''usage: kill pid...\<newline>'' []] (Halt 1)
     else pseq [pforeach (tl argv) (\<lambda>a. sysv (Skill (sint (atoi a))))] (Halt 0))"

text \<open>The loops of \<^verbatim>\<open>mkdir\<close> and \<^verbatim>\<open>rm\<close>, which stop at the first failure.\<close>

primrec mkdir_each :: "uchar list list \<Rightarrow> unit prog" where
  "mkdir_each [] = Done ()"
| "mkdir_each (a # as) = pbind (sys (Smkdir a)) (\<lambda>r.
     if r < 0 then fprintf 2 ''mkdir: %s failed to create\<newline>'' [AStr (Some a)] else mkdir_each as)"

definition mkdir_main :: "uchar list list \<Rightarrow> unit prog" where
  "mkdir_main argv = (if length argv < 2 then pseq [fprintf 2 ''Usage: mkdir files...\<newline>'' []] (Halt 1)
     else pseq [mkdir_each (tl argv)] (Halt 0))"

primrec rm_each :: "uchar list list \<Rightarrow> unit prog" where
  "rm_each [] = Done ()"
| "rm_each (a # as) = pbind (sys (Sunlink a)) (\<lambda>r.
     if r < 0 then fprintf 2 ''rm: %s failed to delete\<newline>'' [AStr (Some a)] else rm_each as)"

definition rm_main :: "uchar list list \<Rightarrow> unit prog" where
  "rm_main argv = (if length argv < 2 then pseq [fprintf 2 ''Usage: rm files...\<newline>'' []] (Halt 1)
     else pseq [rm_each (tl argv)] (Halt 0))"

definition zombie_main :: "unit prog" where
  "zombie_main = pbind (sys Sfork) (\<lambda>pid. pseq [if pid > 0 then sysv (Ssleep 5) else Done ()] (Halt 0))"

section \<open>forktest and stressfs\<close>

definition ft_print :: "string \<Rightarrow> unit prog" where
  "ft_print s = sysv (Swrite 1 (str s))"

text \<open>The two loops of \<^verbatim>\<open>forktest\<close>: forks until one fails, at most \<open>k\<close>, and as many waits.\<close>

primrec ft_forks :: "nat \<Rightarrow> nat \<Rightarrow> nat prog" where
  "ft_forks 0 n = Done n"
| "ft_forks (Suc k) n = pbind (sys Sfork) (\<lambda>pid.
     if pid < 0 then Done n else if pid = 0 then Halt 0 else ft_forks k (Suc n))"

primrec ft_waits :: "nat \<Rightarrow> unit prog" where
  "ft_waits 0 = Done ()"
| "ft_waits (Suc n) = pbind (sys Swait) (\<lambda>r.
     if r < 0 then pseq [ft_print ''wait stopped early\<newline>''] (Halt 1) else ft_waits n)"

definition forktest :: "unit prog" where
  "forktest = pseq [ft_print ''fork test\<newline>''] (pbind (ft_forks 1000 0) (\<lambda>n.
     if n = 1000 then pseq [ft_print ''fork claimed to work N times!\<newline>''] (Halt 1)
     else pseq [ft_waits n] (pbind (sys Swait) (\<lambda>r.
       if r \<noteq> - 1 then pseq [ft_print ''wait got too many\<newline>''] (Halt 1)
       else ft_print ''fork test OK\<newline>''))))"

definition forktest_main :: "unit prog" where
  "forktest_main = pseq [forktest] (Halt 0)"

primrec stress_forks :: "nat \<Rightarrow> nat \<Rightarrow> nat prog" where
  "stress_forks 0 i = Done i"
| "stress_forks (Suc k) i = pbind (sys Sfork) (\<lambda>pid. if pid > 0 then Done i else stress_forks k (Suc i))"

definition stressfs_main :: "unit prog" where
  "stressfs_main = pseq [u_printf ''stressfs starting\<newline>'' []] (pbind (stress_forks 4 0) (\<lambda>i.
     let path = str ''stressfs'' @ [of_char CHR ''0'' + of_nat i]; data = replicate 512 (of_char CHR ''a'') in
     pseq [u_printf ''write %d\<newline>'' [AInt (of_nat i)]] (pbind (sys (Sopen path (M_CREATE + M_RDWR))) (\<lambda>fd. pseq
       [pforeach [0..<20] (\<lambda>_::nat. sysv (Swrite fd data)), sysv (Sclose fd), u_printf ''read\<newline>'' []]
       (pbind (sys (Sopen path M_RDONLY)) (\<lambda>fd. pseq
         [pforeach [0..<20] (\<lambda>_::nat. sysv (Sread fd 512)), sysv (Sclose fd), sysv Swait]
         (Halt 0)))))))"

section \<open>wc counts\<close>

text \<open>The output of a program that prints a text one character at a time.\<close>

definition emit :: "int \<Rightarrow> uchar list \<Rightarrow> io \<Rightarrow> io" where
  "emit fd t e = e\<lparr>io_out := io_out e @ map (\<lambda>c. (fd, [c])) t\<rparr>"

lemma emit_emit [simp]: "emit fd u (emit fd t e) = emit fd (t @ u) e"
  by (simp add: emit_def)

lemma emit_Nil [simp]: "emit fd [] e = e"
  by (simp add: emit_def)

lemma prun_putc [simp]: "prun (file_io rd) (putc fd c) e = (Returned (), emit fd [c] e)"
  by (simp add: putc_def sysv_def file_io_def emit_def)

lemma prun_putcs [simp]: "prun (file_io rd) (pforeach t (putc fd)) e = (Returned (), emit fd t e)"
  by (induction t arbitrary: e) (simp_all add: prun_bind)

lemma prun_wc_line:
  "prun (file_io rd) (u_printf ''%d %d %d %s\<newline>'' [AInt a, AInt b, AInt c, AStr (Some name)]) e
   = (Returned (), emit 1 (u_int_text a 10 True @ str '' '' @ u_int_text b 10 True @ str '' '' @ u_int_text c 10 True
       @ str '' '' @ name @ str ''\<newline>'') e)"
  by (simp add: u_printf_def str_def prun_bind u_printint_def)

definition wc_sep :: "uchar \<Rightarrow> bool" where
  "wc_sep c \<longleftrightarrow> c \<in> set wc_seps"

text \<open>The beginnings of words: the characters that are not separators, at the start or behind one.\<close>

definition word_starts :: "uchar list \<Rightarrow> nat set" where
  "word_starts xs = {i. i < length xs \<and> \<not> wc_sep (xs ! i) \<and> (i = 0 \<or> wc_sep (xs ! (i - 1)))}"

definition wc_of :: "uchar list \<Rightarrow> wcount" where
  "wc_of xs = \<lparr>wc_l = of_nat (count_list xs 10), wc_w = of_nat (card (word_starts xs)), wc_c = of_nat (length xs),
     wc_inword = (xs \<noteq> [] \<and> \<not> wc_sep (last xs))\<rparr>"

lemma word_starts_snoc:
  "word_starts (xs @ [b]) = word_starts xs \<union> (if \<not> wc_sep b \<and> (xs = [] \<or> wc_sep (last xs)) then {length xs} else {})"
  by (cases xs rule: rev_cases) (auto simp: word_starts_def nth_append less_Suc_eq split: if_splits)

lemma word_starts_bounds: "finite (word_starts xs)" "length xs \<notin> word_starts xs"
  by (simp_all add: word_starts_def)

lemma wc_char_of: "wc_char b (wc_of xs) = wc_of (xs @ [b])"
proof -
  have sep: "strchr wc_seps b = None \<longleftrightarrow> \<not> wc_sep b"
    unfolding wc_sep_def by (rule strchr_None) (simp add: wc_seps_def)
  have "10 \<in> set wc_seps" by (simp add: wc_seps_def)
  then show ?thesis
    by (auto simp: wc_char_def wc_of_def Let_def sep word_starts_snoc word_starts_bounds wc_sep_def)
qed

lemma wc_fold: "fold wc_char ys (wc_of xs) = wc_of (xs @ ys)"
  by (induction ys arbitrary: xs) (simp_all add: wc_char_of)

lemma read_some:
  "file_io rd e (Sread fd n) = (let d = take (min n (rd (io_reads e))) (io_in e) in
     ((int (length d), d), e\<lparr>io_in := drop (min n (rd (io_reads e))) (io_in e), io_reads := Suc (io_reads e)\<rparr>))"
  by (simp add: file_io_def Let_def min_def)

definition wc_text :: "wcount \<Rightarrow> uchar list \<Rightarrow> uchar list" where
  "wc_text t name = u_int_text (wc_l t) 10 True @ str '' '' @ u_int_text (wc_w t) 10 True
     @ str '' '' @ u_int_text (wc_c t) 10 True @ str '' '' @ name @ str ''\<newline>''"

lemma wc_loop_run:
  assumes "\<And>i. 0 < rd i" "length (io_in e) < k"
  shows "\<exists>j. prun (file_io rd) (wc_loop k fd name (wc_of xs)) e =
    (Returned (), emit 1 (wc_text (wc_of (xs @ io_in e)) name) (e\<lparr>io_in := [], io_reads := j\<rparr>))"
  using assms(2)
proof (induction k arbitrary: e xs)
  case (Suc k)
  show ?case
  proof (cases "io_in e = []")
    case True
    then show ?thesis by (auto simp: read_some prun_wc_line wc_text_def)
  next
    case False
    define m where "m = min 512 (rd (io_reads e))"
    define e' where "e' = e\<lparr>io_in := drop m (io_in e), io_reads := Suc (io_reads e)\<rparr>"
    have m: "0 < m" using assms(1) by (simp add: m_def)
    have "prun (file_io rd) (wc_loop (Suc k) fd name (wc_of xs)) e =
      prun (file_io rd) (wc_loop k fd name (wc_of (xs @ take m (io_in e)))) e'"
      using False m take_take [of "length (io_in e)" m "io_in e"]
      by (simp add: read_some wc_fold e'_def m_def [symmetric] Let_def del: take_take)
    moreover have "length (io_in e') < k" using False m Suc.prems by (cases "io_in e") (auto simp: e'_def)
    ultimately show ?thesis using Suc.IH [of e' "xs @ take m (io_in e)"] by (auto simp: e'_def)
  qed
qed simp

text \<open>
  C38: \<^verbatim>\<open>wc\<close> counts, however its input arrives. If every \<^verbatim>\<open>read\<close> answers with at least one byte
  while there is input, \<^verbatim>\<open>wc\<close> ends after at most as many reads as there are bytes and one more,
  has read everything, and prints the number of newlines, the number of beginnings of words and the
  number of bytes of the whole input, each modulo \<open>2 ^ 32\<close>, and the name. A word that two
  buffers share is counted once.
\<close>

theorem wc_counts_input:
  assumes "\<forall>i. 0 < rd i" "length input < k"
  shows "\<exists>j. prun (file_io rd) (wc k fd name) \<lparr>io_in = input, io_reads = 0, io_out = []\<rparr> = (Returned (),
    \<lparr>io_in = [], io_reads = j, io_out = map (\<lambda>c. (1, [c]))
      (u_int_text (of_nat (count_list input 10)) 10 True @ str '' ''
       @ u_int_text (of_nat (card (word_starts input))) 10 True @ str '' ''
       @ u_int_text (of_nat (length input)) 10 True @ str '' '' @ name @ str ''\<newline>'')\<rparr>)"
proof -
  have "wc k fd name = wc_loop k fd name (wc_of [])" by (simp add: wc_def wc_of_def word_starts_def)
  then show ?thesis
    using wc_loop_run [of rd "\<lparr>io_in = input, io_reads = 0, io_out = []\<rparr>" k fd name "[]"] assms
    by (simp add: emit_def wc_text_def wc_of_def)
qed

theorem wc_counts_input_witness:
  "\<exists>j. prun (file_io (\<lambda>_. 2)) (wc 7 0 (str ''x'')) \<lparr>io_in = str ''abc d\<newline>'', io_reads = 0, io_out = []\<rparr> = (Returned (),
    \<lparr>io_in = [], io_reads = j, io_out = map (\<lambda>c. (1, [c])) (str ''1 2 6 x\<newline>'')\<rparr>)"
proof -
  have 1: "count_list (str ''abc d\<newline>'') 10 = 1" "length (str ''abc d\<newline>'') = 6" by code_simp+
  have "word_starts (str ''abc d\<newline>'') = set (filter (\<lambda>i. \<not> wc_sep (str ''abc d\<newline>'' ! i) \<and> (i = 0 \<or> wc_sep (str ''abc d\<newline>'' ! (i - 1)))) [0..<6])"
    using 1 by (auto simp: word_starts_def)
  also have "\<dots> = {0, 4}" by code_simp
  finally have 2: "card (word_starts (str ''abc d\<newline>'')) = 2" by simp
  have "u_int_text (of_nat 1) 10 True @ str '' '' @ u_int_text (of_nat 2) 10 True @ str '' ''
       @ u_int_text (of_nat 6) 10 True @ str '' '' @ str ''x'' @ str ''\<newline>'' = str ''1 2 6 x\<newline>''"
    by code_simp
  then show ?thesis using wc_counts_input [of "\<lambda>_. 2" "str ''abc d\<newline>''" 7 0 "str ''x''"] 1 2 by simp
qed

end
