(* ===== verification/Spec2Isabelle.thy ===== *)
theory Spec2Isabelle
  imports Prelude Layout Spinlock Cstring Kalloc Vm Vm_Tables Vm_User Frames Proc Proc_Sched Wakeup Bio_Contract Uart_Output Timer Writei Grep Mkfs_Image Sh Umalloc Utils
begin

text \<open>
  A verification of xv6 for RISC-V: the kernel in \<^verbatim>\<open>src/kernel\<close>, the user programs in
  \<^verbatim>\<open>src/user\<close> and the program that makes the disk image, \<^verbatim>\<open>src/mkfs\<close>.

  \<^bold>\<open>The program.\<close> A hart starts in machine mode in \<^verbatim>\<open>entry.S\<close> and \<^verbatim>\<open>start.c\<close> and enters
  \<^verbatim>\<open>main.c\<close>, which initialises the parts in order and runs the scheduler. Every part rests on spinlocks
  (\<^verbatim>\<open>spinlock.c\<close>) and on pages from \<^verbatim>\<open>kalloc.c\<close>; \<^verbatim>\<open>vm.c\<close> builds page tables out of
  such pages, \<^verbatim>\<open>proc.c\<close> runs processes in them. The file system is a stack: the disk driver, the buffer cache
  \<^verbatim>\<open>bio.c\<close>, the redo log \<^verbatim>\<open>log.c\<close>, inodes and directories \<^verbatim>\<open>fs.c\<close>, open files
  \<^verbatim>\<open>file.c\<close> and pipes \<^verbatim>\<open>pipe.c\<close>, and the system calls on top. Traps bring user programs and
  devices into the kernel. User programs see the system calls only.

  \<^bold>\<open>How the kernel is modelled.\<close> A C function of the kernel is a function from the kernel's state to an outcome
  (\<open>Prelude\<close>): it returns, it panics with its message, it goes to sleep on a channel, or it spins on a lock. The state is a
  record that grows with the parts, in the order of the theories below, so that each operation is stated on any extension
  of the state it needs. Machine integers are words of their width; structures that the code lays out in bytes (page-table
  entries, free pages, trap frames, disk blocks) lie in the bytes of the model's memory or disk. A function that sleeps is
  split there: the part before ends in \<open>Sleep\<close>, and an operation named \<open>_return\<close> or \<open>_resume\<close> is the part after. What
  other harts do meanwhile is covered by two step relations, \<open>lock_step\<close> and \<open>sw_step\<close>; the other contracts are about runs
  of one hart that nobody interferes with (\<open>calm\<close>). Addresses chosen by the linker are the fields of \<open>symtab\<close> and
  \<open>boot_syms\<close>.

  \<^bold>\<open>Theories and sources.\<close>
  \<^item> \<open>Prelude\<close>, \<open>Layout\<close>: the monad and its rules, generic lemmas; \<^verbatim>\<open>types.h\<close>, \<^verbatim>\<open>param.h\<close>,
    \<^verbatim>\<open>memlayout.h\<close>, the macros of \<^verbatim>\<open>riscv.h\<close>.
  \<^item> \<open>Spinlock\<close>: \<^verbatim>\<open>spinlock.c\<close>, \<^verbatim>\<open>riscv.h\<close>. \<open>Cstring\<close>: \<^verbatim>\<open>string.c\<close>.
    \<open>Kalloc\<close>: \<^verbatim>\<open>kalloc.c\<close>.
  \<^item> \<open>Vm\<close>: \<^verbatim>\<open>vm.c\<close>; \<open>Vm_Tables\<close> says what a page table means, \<open>Vm_User\<close> what user memory is.
  \<^item> \<open>Machine\<close>, \<open>Lowlevel\<close>: a hart with its instructions; \<^verbatim>\<open>entry.S\<close>, \<^verbatim>\<open>start.c\<close>, \<^verbatim>\<open>swtch.S\<close>,
    \<^verbatim>\<open>kernelvec.S\<close>, \<^verbatim>\<open>trampoline.S\<close>. \<open>Switch\<close> and \<open>Timer\<close> hold their properties.
  \<^item> \<open>Proc\<close>, \<open>Procfs\<close>: \<^verbatim>\<open>proc.c\<close>, \<^verbatim>\<open>sleeplock.c\<close>. \<open>Frames\<close>, \<open>Proc_Sched\<close>, \<open>Wakeup\<close>, \<open>Calm\<close>: their
    properties.
  \<^item> \<open>Bio\<close>: \<^verbatim>\<open>bio.c\<close>; \<open>Bio_Cache\<close>, \<open>Bio_Contract\<close> and the interface \<open>Block_Store\<close>.
  \<^item> \<open>Log\<close>: \<^verbatim>\<open>log.c\<close>; \<open>Log_Commit\<close>, \<open>Log_Recover\<close>, \<open>Log_Atomic\<close>.
  \<^item> \<open>Uart\<close>, \<open>Printf\<close>, \<open>Console\<close>: \<^verbatim>\<open>uart.c\<close>, \<^verbatim>\<open>printf.c\<close>, \<^verbatim>\<open>console.c\<close>; \<open>Uart_Output\<close>,
    \<open>Printf_Text\<close>.
  \<^item> \<open>Fs\<close>: \<^verbatim>\<open>fs.c\<close>; \<open>Fs_Pure\<close>, \<open>Txn\<close>, \<open>Balloc\<close>, \<open>File_Content\<close>, \<open>Alloc_Inv\<close>, \<open>Write_Content\<close>, \<open>Bmap\<close>, \<open>Writei\<close>.
  \<^item> \<open>Pipe\<close>, \<open>File\<close>: \<^verbatim>\<open>pipe.c\<close>, \<^verbatim>\<open>file.c\<close>; \<open>Ring\<close> and \<open>Pipe_Fifo\<close>. \<open>Exec\<close>: \<^verbatim>\<open>exec.c\<close>.
    \<open>Sysfile\<close>, \<open>Syscall\<close>: \<^verbatim>\<open>sysfile.c\<close>, \<^verbatim>\<open>syscall.c\<close>, \<^verbatim>\<open>sysproc.c\<close>.
    \<open>Virtio\<close>: \<^verbatim>\<open>virtio_disk.c\<close>. \<open>Trap\<close>: \<^verbatim>\<open>trap.c\<close>, \<^verbatim>\<open>plic.c\<close>, \<^verbatim>\<open>main.c\<close>.
    \<open>Sample\<close> is a state to evaluate contracts on.
  \<^item> \<open>Uprog\<close>: \<^verbatim>\<open>user.h\<close>, a user program as the tree of its system calls. \<open>Ulib\<close>: \<^verbatim>\<open>ulib.c\<close>,
    \<^verbatim>\<open>printf.c\<close>. \<open>Umalloc\<close>, \<open>Grep\<close>, \<open>Sh\<close>: the programs of these names. \<open>Utils\<close>: the other small programs.
  \<^item> \<open>Mkfs\<close>: \<^verbatim>\<open>mkfs.c\<close>; \<open>Mkfs_Image\<close>: what the image holds.

  \<^bold>\<open>What the lemmas show.\<close>
  \<^item> Locks and scheduling: mutual exclusion over all interleavings; no wakeup is lost between the test of a condition and
    going to sleep; process numbers stay unique; \<^verbatim>\<open>sleep\<close> and \<^verbatim>\<open>kill\<close> do what they promise.
  \<^item> Memory: the free list is a list of distinct pages that \<^verbatim>\<open>kalloc\<close> and \<^verbatim>\<open>kfree\<close> pop and push;
    \<^verbatim>\<open>mappages\<close> and \<^verbatim>\<open>walkaddr\<close> agree; \<^verbatim>\<open>copyout\<close>, \<^verbatim>\<open>copyin\<close> and
    \<^verbatim>\<open>copyinstr\<close> move exactly the bytes of the range or fail.
  \<^item> Below C: contexts and user registers survive switches and traps, and timer interrupts never stop and disturb nothing.
  \<^item> Storage: the cache hands out the latest contents of a block; a commit is atomic under a crash after any disk write,
    and recovery can be repeated; inside a transaction \<^verbatim>\<open>balloc\<close> and \<^verbatim>\<open>bfree\<close> keep the free map,
    \<^verbatim>\<open>readi\<close> reads and \<^verbatim>\<open>writei\<close> replaces a slice of a file's contents within a counted number of log
    blocks; the image of \<^verbatim>\<open>mkfs\<close> is such a file system and holds the given files.
  \<^item> Streams: a pipe is a bounded queue; every byte given to the UART is sent, in order, if the device keeps interrupting.
  \<^item> User programs: \<^verbatim>\<open>malloc\<close> never gives out overlapping blocks; \<^verbatim>\<open>grep\<close> decides its patterns and
    prints the matching lines, \<^verbatim>\<open>wc\<close> counts, the shell's parser ends on every line and yields its words.

  \<^bold>\<open>Interfaces.\<close> The locales are \<open>invariant_system\<close> (step relations), \<open>page_allocator\<close>, \<open>lock_frame\<close> and \<open>mem_frame\<close> (what lower
  operations cannot touch), \<open>block_store\<close> (the cache as the log sees it) and \<open>ring_buffer\<close> (pipes and the UART); each is
  interpreted on the operations of the model.

  \<^bold>\<open>Bounds.\<close> Loops over data recurse on it. Where a loop's end depends on the state, the number of rounds is fixed by what
  bounds it: the list walks of the cache take \<open>NBUF\<close> rounds, \<open>uartstart_loop\<close> as many as there are bytes in the buffer,
  \<open>uartintr_loop\<close> as many as bytes wait, the walk of a descriptor chain one more than there are descriptors, transfers of
  files and of \<^verbatim>\<open>mkfs\<close> one round per block. User programs that read until their input ends, and the shell's
  parser, have fuel; the properties ask for more fuel than the input is long, and \<open>es + 3\<close> for a command line of
  \<open>es\<close> characters, and show that the programs then return.

  \<^bold>\<open>Not modelled.\<close> \<^verbatim>\<open>usertests.c\<close> and \<^verbatim>\<open>grind.c\<close> are tests that drive the system calls and have no contract of
  their own. \<^verbatim>\<open>ramdisk.c\<close> is not part of the build and uses fields \<^verbatim>\<open>struct buf\<close> does not have.
  \<^verbatim>\<open>initcode.S\<close>, \<^verbatim>\<open>usys.pl\<close> and the linker scripts give the ecall stubs and the layout of the binaries;
  \<^verbatim>\<open>defs.h\<close>, \<^verbatim>\<open>syscall.h\<close> and similar headers only declare. The memory model is sequentially
  consistent, the TLB is not modelled, the busy wait of \<^verbatim>\<open>uartputc_sync\<close> is taken to end, and the text
  \<^verbatim>\<open>mkfs\<close> prints is left out.
\<close>

end
